(* ===== verification/Prelude.thy ===== *)
theory Prelude
  imports Main "HOL-Library.Signed_Division"
begin

section \<open>Shared types, automation and list lemmas\<close>

text \<open>
  What every component of the development shares: the exceptions the C++ code throws as one
  datatype, results as a sum, the two loop combinators that thread a state through a list
  (with and without exceptions), truncating division, and the interface through which the
  predictor writes result rows (locale \<open>row_store\<close>).
\<close>

subsection \<open>Lemma collections\<close>

named_theorems res_simps \<open>rewriting of the result type and of the loops over it\<close>
named_theorems frame_simps \<open>what an operation leaves unchanged\<close>

subsection \<open>Exceptions and results\<close>

text \<open>
  The C++ exception classes that matter to a caller: each \<open>catch\<close> clause of the code
  selects by class. \<open>Undefined\<close> is undefined behaviour of C++ (a read past the end of a
  vector, an advanced end iterator): the model stops there instead of inventing a value.
\<close>

datatype exn =
    RuntimeError string      \<comment> \<open>std::runtime_error\<close>
  | OutOfRange string        \<comment> \<open>std::out_of_range, a std::logic_error\<close>
  | JsonParseError           \<comment> \<open>nlohmann::json::parse_error\<close>
  | JsonTypeError            \<comment> \<open>nlohmann::json::type_error\<close>
  | HTTPException int        \<comment> \<open>duckdb::HTTPException, with the code\<close>
  | BinderException string
  | ParserException string
  | CatalogException string
  | InternalException string
  | ConversionException string
  | OutOfRangeException string
  | IOException string
  | SerializationException string
  | TransactionException string
  | InvalidInputException string
  | BadAlloc                 \<comment> \<open>std::bad_alloc\<close>
  | DivisionByZero
  | Undefined string

type_synonym 'a res = "exn + 'a"

definition bindR :: "'a res \<Rightarrow> ('a \<Rightarrow> 'b res) \<Rightarrow> 'b res" where
  "bindR r f = (case r of Inl e \<Rightarrow> Inl e | Inr x \<Rightarrow> f x)"

definition mapR :: "('a \<Rightarrow> 'b) \<Rightarrow> 'a res \<Rightarrow> 'b res" where
  "mapR f r = (case r of Inl e \<Rightarrow> Inl e | Inr x \<Rightarrow> Inr (f x))"

lemma bindR_simps [simp, res_simps]:
  "bindR (Inl e) f = Inl e" "bindR (Inr x) f = f x"
  by (simp_all add: bindR_def)

lemma mapR_simps [simp, res_simps]:
  "mapR f (Inl e) = Inl e" "mapR f (Inr x) = Inr (f x)"
  by (simp_all add: mapR_def)

lemma bindR_Inr_iff [res_simps]:
  "bindR r f = Inr y \<longleftrightarrow> (\<exists>x. r = Inr x \<and> f x = Inr y)"
  by (cases r) simp_all

lemma bindR_Inl_iff [res_simps]:
  "bindR r f = Inl e \<longleftrightarrow> r = Inl e \<or> (\<exists>x. r = Inr x \<and> f x = Inl e)"
  by (cases r) simp_all

lemma mapR_Inr_iff [res_simps]: "mapR f r = Inr y \<longleftrightarrow> (\<exists>x. r = Inr x \<and> y = f x)"
  by (cases r) auto

lemma bindR_cong [fundef_cong]:
  "r = s \<Longrightarrow> (\<And>x. s = Inr x \<Longrightarrow> f x = g x) \<Longrightarrow> bindR r f = bindR s g"
  by (cases s) simp_all

lemma bindR_assoc: "bindR (bindR r f) g = bindR r (\<lambda>x. bindR (f x) g)"
  by (cases r) simp_all

text \<open>A loop over a list whose body may throw: the state of the first failure is dropped,
  because every caller of such a loop lets the exception pass.\<close>

fun foldR :: "('a \<Rightarrow> 's \<Rightarrow> 's res) \<Rightarrow> 'a list \<Rightarrow> 's \<Rightarrow> 's res" where
  "foldR f [] s = Inr s"
| "foldR f (x # xs) s = bindR (f x s) (foldR f xs)"

lemma foldR_append [res_simps]: "foldR f (xs @ ys) s = bindR (foldR f xs s) (foldR f ys)"
proof (induction xs arbitrary: s)
  case (Cons x xs)
  then show ?case by (cases "f x s") simp_all
qed simp

lemma foldR_cong [fundef_cong]:
  "s = t \<Longrightarrow> xs = ys \<Longrightarrow> (\<And>x u. x \<in> set ys \<Longrightarrow> f x u = g x u) \<Longrightarrow> foldR f xs s = foldR g ys t"
proof (induction xs arbitrary: s t ys)
  case (Cons x xs)
  then show ?case by (cases "g x t") auto
qed simp

lemma foldR_map [res_simps]: "foldR f (map g xs) s = foldR (\<lambda>x. f (g x)) xs s"
proof (induction xs arbitrary: s)
  case (Cons x xs)
  then show ?case by (cases "f (g x) s") simp_all
qed simp

lemma foldR_Inr_fold:
  "(\<And>x u. x \<in> set xs \<Longrightarrow> f x u = Inr (g x u)) \<Longrightarrow> foldR f xs s = Inr (fold g xs s)"
  by (induction xs arbitrary: s) auto

lemma foldR_invariant:
  assumes "foldR f xs s = Inr t" and "P s"
    and "\<And>x u v. x \<in> set xs \<Longrightarrow> P u \<Longrightarrow> f x u = Inr v \<Longrightarrow> P v"
  shows "P t"
  using assms
proof (induction xs arbitrary: s)
  case (Cons x xs)
  from Cons.prems(1) obtain u where u: "f x s = Inr u" "foldR f xs u = Inr t"
    by (auto simp: bindR_Inr_iff)
  then have "P u" using Cons.prems(2,3) by auto
  with u(2) show ?case using Cons.prems(3) by (intro Cons.IH [of u]) auto
qed simp

text \<open>Applying a function that may throw to every element, in order.\<close>

fun traverse :: "('a \<Rightarrow> 'b res) \<Rightarrow> 'a list \<Rightarrow> 'b list res" where
  "traverse f [] = Inr []"
| "traverse f (x # xs) = bindR (f x) (\<lambda>y. mapR (\<lambda>ys. y # ys) (traverse f xs))"

lemma traverse_Inr_iff [res_simps]:
  "traverse f xs = Inr ys \<longleftrightarrow> length ys = length xs \<and> (\<forall>k < length xs. f (xs ! k) = Inr (ys ! k))"
proof (induction xs arbitrary: ys)
  case (Cons x xs)
  show ?case
  proof
    assume "traverse f (x # xs) = Inr ys"
    then obtain y zs where "f x = Inr y" "traverse f xs = Inr zs" "ys = y # zs"
      by (auto simp: bindR_Inr_iff mapR_Inr_iff)
    with Cons.IH show "length ys = length (x # xs) \<and>
        (\<forall>k < length (x # xs). f ((x # xs) ! k) = Inr (ys ! k))"
      by (auto simp: nth_Cons split: nat.splits)
  next
    assume r: "length ys = length (x # xs) \<and> (\<forall>k < length (x # xs). f ((x # xs) ! k) = Inr (ys ! k))"
    then obtain y zs where ys: "ys = y # zs" by (cases ys) auto
    with r have "f x = Inr y" by force
    moreover have "traverse f xs = Inr zs" using r ys Cons.IH by force
    ultimately show "traverse f (x # xs) = Inr ys" using ys by simp
  qed
qed auto

lemma traverse_Inl_iff [res_simps]: "(\<exists>e. traverse f xs = Inl e) \<longleftrightarrow> (\<exists>x \<in> set xs. \<exists>e. f x = Inl e)"
proof (induction xs)
  case (Cons x xs)
  show ?case
  proof (cases "f x")
    case (Inr y)
    then show ?thesis using Cons by (cases "traverse f xs") auto
  qed auto
qed simp

lemma traverse_append:
  "traverse f (xs @ ys) = bindR (traverse f xs) (\<lambda>us. mapR (\<lambda>vs. us @ vs) (traverse f ys))"
proof (induction xs)
  case Nil
  then show ?case by (cases "traverse f ys") simp_all
next
  case (Cons x xs)
  show ?case
  proof (cases "f x")
    case (Inr y)
    then show ?thesis using Cons by (cases "traverse f xs"; cases "traverse f ys") simp_all
  qed simp
qed

lemma traverse_map [res_simps]: "traverse f (map g xs) = traverse (f \<circ> g) xs"
  by (induction xs) simp_all

lemma traverse_cong [fundef_cong]:
  "xs = ys \<Longrightarrow> (\<And>x. x \<in> set ys \<Longrightarrow> f x = g x) \<Longrightarrow> traverse f xs = traverse g ys"
  by (induction xs arbitrary: ys) auto

lemma traverse_Inr: "traverse (\<lambda>x. Inr (f x)) xs = Inr (map f xs)"
  by (induction xs) simp_all

subsection \<open>Integers\<close>

text \<open>C++ division and remainder truncate toward zero: \<open>sdiv\<close> and \<open>smod\<close> of the library.
  A value stored in a w-bit signed integer after a narrowing cast:\<close>

definition to_int32 :: "int \<Rightarrow> int" where
  "to_int32 i = signed_take_bit 31 i"

definition in_int32 :: "int \<Rightarrow> bool" where
  "in_int32 i \<longleftrightarrow> - 2147483648 \<le> i \<and> i \<le> 2147483647"

definition in_int64 :: "int \<Rightarrow> bool" where
  "in_int64 i \<longleftrightarrow> - 9223372036854775808 \<le> i \<and> i \<le> 9223372036854775807"

lemma to_int32_id: "in_int32 i \<Longrightarrow> to_int32 i = i"
  by (simp add: to_int32_def in_int32_def signed_take_bit_int_eq_self)

lemma in_int32_to_int32: "in_int32 (to_int32 i)"
proof -
  have "- (2 ^ 31) \<le> signed_take_bit 31 i"
    by (rule signed_take_bit_int_greater_eq_minus_exp)
  moreover have "signed_take_bit 31 i < 2 ^ 31"
    by (rule signed_take_bit_int_less_exp)
  ultimately show ?thesis
    by (simp add: to_int32_def in_int32_def)
qed

subsection \<open>Lists\<close>

lemma enumerate_eq_map: "enumerate n xs = map (\<lambda>i. (i, xs ! (i - n))) [n..<n + length xs]"
  by (rule nth_equalityI) (auto simp: nth_enumerate_eq)

lemma map_nth_take: "m \<le> length xs \<Longrightarrow> map ((!) xs) [0..<m] = take m xs"
  by (rule nth_equalityI) auto

lemma fold_enumerate_shift:
  "fold f (enumerate (Suc n) xs) s = fold (\<lambda>(i, x). f (Suc i, x)) (enumerate n xs) s"
  by (induction xs arbitrary: n s) auto

lemma concat_upt_blocks:
  "n \<le> m * k \<Longrightarrow> concat (map (\<lambda>b. [b * k..<min (b * k + k) n]) [0..<m]) = [0..<n]"
proof -
  have "concat (map (\<lambda>b. [b * k..<min (b * k + k) n]) [0..<m]) = [0..<min (m * k) n]"
  proof (induction m)
    case (Suc m)
    show ?case
    proof (cases "m * k \<le> n")
      case True
      then have eq: "min (m * k + k) n = m * k + min k (n - m * k)" by simp
      have "[0..<m * k] @ [m * k..<min (m * k + k) n] = [0..<min (m * k + k) n]"
        unfolding eq by (rule upt_add_eq_append [symmetric]) simp
      with Suc True show ?thesis by (simp add: add.commute)
    next
      case False
      with Suc show ?thesis by simp
    qed
  qed simp
  then show "n \<le> m * k \<Longrightarrow> ?thesis" by simp
qed

lemma sum_list_zero_iff: "sum_list (xs :: nat list) = 0 \<longleftrightarrow> (\<forall>x \<in> set xs. x = 0)"
  by (induction xs) auto

subsection \<open>Rows written into a result chunk\<close>

text \<open>
  The predictor, the clustering code and the join predictor all produce result rows and
  write them, one row index at a time, into a \<open>DataChunk\<close>. What they rely on is stated
  once: a written row reads back, and a write leaves every other row alone.
  \<open>write_all\<close> is the loop over (row index, row) pairs.
\<close>

fun write_all :: "(nat \<Rightarrow> 'r \<Rightarrow> 'c \<Rightarrow> 'c) \<Rightarrow> (nat \<times> 'r) list \<Rightarrow> 'c \<Rightarrow> 'c" where
  "write_all w [] c = c"
| "write_all w ((i, r) # xs) c = write_all w xs (w i r c)"

lemma write_all_append: "write_all w (xs @ ys) c = write_all w ys (write_all w xs c)"
  by (induction xs arbitrary: c) auto

lemma foldR_write_all:
  "foldR (\<lambda>x c. mapR (\<lambda>r. w (g x) r c) (f x)) xs c =
     mapR (\<lambda>rs. write_all w (zip (map g xs) rs) c) (traverse f xs)"
proof (induction xs arbitrary: c)
  case (Cons x xs)
  show ?case
  proof (cases "f x")
    case (Inr r)
    then show ?thesis using Cons by (cases "traverse f xs") simp_all
  qed simp
qed simp

locale row_store =
  fixes put :: "nat \<Rightarrow> 'r \<Rightarrow> 'c \<Rightarrow> 'c"
    and row_of :: "'c \<Rightarrow> nat \<Rightarrow> 'r"
    and wf_row :: "'r \<Rightarrow> bool"
  assumes row_same: "wf_row r \<Longrightarrow> row_of (put i r c) i = r"
    and row_other: "i \<noteq> k \<Longrightarrow> row_of (put i r c) k = row_of c k"
begin

lemma write_all_frame: "k \<notin> fst ` set xs \<Longrightarrow> row_of (write_all put xs c) k = row_of c k"
  by (induction xs arbitrary: c) (auto simp: row_other)

lemma write_all_same:
  assumes "distinct (map fst xs)" "(i, r) \<in> set xs" "wf_row r"
  shows "row_of (write_all put xs c) i = r"
  using assms
proof (induction xs arbitrary: c)
  case (Cons x xs)
  obtain k s where x: "x = (k, s)" by (cases x)
  show ?case
  proof (cases "i = k")
    case True
    with Cons.prems(1) x have i: "i \<notin> fst ` set xs" by auto
    then have "(i, r) \<notin> set xs" by force
    with Cons.prems(2) x have "r = s" by auto
    with True x i Cons.prems(3) show ?thesis by (simp add: write_all_frame row_same)
  next
    case False
    with Cons x show ?thesis by simp
  qed
qed simp

lemma write_all_fun:
  assumes "i \<in> set ks" "wf_row (f i)"
  shows "row_of (write_all put (map (\<lambda>i. (i, f i)) ks) c) i = f i"
  using assms
proof (induction ks arbitrary: c)
  case (Cons k ks)
  then show ?case
  proof (cases "i \<in> set ks")
    case False
    with Cons.prems have "i = k" by simp
    moreover from False have "i \<notin> fst ` set (map (\<lambda>i. (i, f i)) ks)" by auto
    ultimately show ?thesis using Cons.prems(2) by (simp add: write_all_frame row_same)
  qed simp
qed simp

lemma write_all_const:
  "i \<in> set ks \<Longrightarrow> wf_row r \<Longrightarrow> row_of (write_all put (map (\<lambda>i. (i, r)) ks) c) i = r"
  by (rule write_all_fun [where f = "\<lambda>_. r"])

end

end
