(* ===== verification/Prompt.thy ===== *)
theory Prompt
  imports Prelude
begin

section \<open>Reading the model's reply: PromptUtil\<close>

text \<open>
  \<open>third_party/predictors/common/common.hpp\<close>, class \<open>PromptUtil\<close>, with the types of
  \<open>src/include/duckdb/common/prompt.hpp\<close>: cutting the JSON value out of a model's text,
  converting its members to the types the prompt declares, and writing rows of the result
  chunk, with the three overloads of \<open>extract_array_data\<close> that distribute an array of
  answers over rows. JSON values are nlohmann's, kept as a datatype; its parser, printer and
  the conversions between integers, doubles and text are the record \<open>jlib\<close>, a parameter.
\<close>

subsection \<open>Values, chunks, JSON\<close>

datatype ltype = VARCHAR | INTEGER | DOUBLE | BOOLEAN | OTHER string

datatype 'd val = VNull | VStr string | VInt int | VDouble 'd | VBool bool

datatype 'd json =
    JNull
  | JBool bool
  | JInt int
  | JFloat 'd
  | JStr string
  | JArr "'d json list"
  | JObj "(string \<times> 'd json) list"

record 'd jlib =
  j_parse :: "string \<Rightarrow> 'd json option"   \<comment> \<open>json::parse; None: parse_error\<close>
  j_dump :: "'d json \<Rightarrow> string"
  j_of_int :: "int \<Rightarrow> 'd"                \<comment> \<open>get<double> of an integer\<close>
  j_to_int :: "'d \<Rightarrow> int"                \<comment> \<open>get<int> of a double\<close>
  j_to_idx :: "'d \<Rightarrow> nat"                \<comment> \<open>get<idx_t> of a double\<close>
  j_eq :: "'d json \<Rightarrow> 'd json \<Rightarrow> bool"  \<comment> \<open>operator==\<close>
  j_stod :: "string \<Rightarrow> 'd option"        \<comment> \<open>std::stod; None: it throws\<close>

text \<open>A \<open>DataChunk\<close>: one cell per column and row, and its cardinality.\<close>

record 'd chunk =
  cells :: "nat \<Rightarrow> nat \<Rightarrow> 'd val"
  card :: nat

definition set_value :: "nat \<Rightarrow> nat \<Rightarrow> 'd val \<Rightarrow> 'd chunk \<Rightarrow> 'd chunk" where
  "set_value col row v ch = ch\<lparr>cells := (cells ch)(col := (cells ch col)(row := v))\<rparr>"

lemma cells_set_value [simp]:
  "cells (set_value c r v ch) c' r' = (if c' = c \<and> r' = r then v else cells ch c' r')"
  by (simp add: set_value_def)

lemma card_set_value [simp]: "card (set_value c r v ch) = card ch"
  by (simp add: set_value_def)

text \<open>The result columns of a prediction: name and type (\<open>result_set_names\<close> and
  \<open>result_set_types\<close>, which the binder always extends together).\<close>

type_synonym cols = "(string \<times> ltype) list"

definition json_member :: "'d json \<Rightarrow> string \<Rightarrow> 'd json option" where
  "json_member j k = (case j of JObj kvs \<Rightarrow> map_of kvs k | _ \<Rightarrow> None)"

subsection \<open>Cutting out the JSON value\<close>

text \<open>The scan of \<open>extract_json\<close>: the depth is a signed counter, and the result is the
  number of characters up to and including the bracket that brings it back to zero.\<close>

fun match_end :: "char \<Rightarrow> char \<Rightarrow> int \<Rightarrow> string \<Rightarrow> nat option" where
  "match_end op cl d [] = None"
| "match_end op cl d (c # cs) =
     (if c = op then map_option Suc (match_end op cl (d + 1) cs)
      else if c = cl then
        (if d - 1 = 0 then Some 1 else map_option Suc (match_end op cl (d - 1) cs))
      else map_option Suc (match_end op cl d cs))"

definition is_open :: "char \<Rightarrow> bool" where
  "is_open c \<longleftrightarrow> c = CHR ''{'' \<or> c = CHR ''[''"

definition close_of :: "char \<Rightarrow> char" where
  "close_of c = (if c = CHR ''{'' then CHR ''}'' else CHR '']'')"

definition extract_json :: "string \<Rightarrow> string res" where
  "extract_json text =
     (case dropWhile (\<lambda>c. \<not> is_open c) text of
        [] \<Rightarrow> Inl (RuntimeError ''No JSON start found'')
      | op # rest \<Rightarrow>
          (case match_end op (close_of op) 0 (op # rest) of
             None \<Rightarrow> Inl (RuntimeError ''No matching JSON end found'')
           | Some n \<Rightarrow> Inr (take n (op # rest))))"

text \<open>\<open>strip_code_fences\<close>: \<open>std::getline\<close> yields no empty last line after a final newline.\<close>

function getlines :: "string \<Rightarrow> string list" where
  "getlines s =
     (if s = [] then []
      else takeWhile (\<lambda>c. c \<noteq> CHR 0x0A) s #
           getlines (tl (dropWhile (\<lambda>c. c \<noteq> CHR 0x0A) s)))"
  by pat_completeness auto
termination
proof (relation "measure length", simp)
  fix s :: string
  assume "s \<noteq> []"
  moreover have "length (dropWhile (\<lambda>c. c \<noteq> CHR 0x0A) s) \<le> length s"
    by (rule length_dropWhile_le)
  ultimately show "(tl (dropWhile (\<lambda>c. c \<noteq> CHR 0x0A) s), s) \<in> measure length"
    by (cases s) auto
qed

declare getlines.simps [simp del]

definition strip_code_fences :: "string \<Rightarrow> string" where
  "strip_code_fences s =
     concat (map (\<lambda>l. l @ [CHR 0x0A]) (filter (\<lambda>l. take 3 l \<noteq> ''```'') (getlines s)))"

subsection \<open>Converting members\<close>

definition char_code :: "char \<Rightarrow> nat" where
  "char_code c = of_char c"

definition is_digit :: "char \<Rightarrow> bool" where
  "is_digit c \<longleftrightarrow> 48 \<le> char_code c \<and> char_code c \<le> 57"

definition digits_val :: "string \<Rightarrow> int" where
  "digits_val ds = foldl (\<lambda>n c. n * 10 + (int (char_code c) - 48)) 0 ds"

text \<open>The matches of the regular expression \<open>\d+\<close>, left to right.\<close>

function digit_runs :: "string \<Rightarrow> string list" where
  "digit_runs s =
     (let t = dropWhile (\<lambda>c. \<not> is_digit c) s in
      if t = [] then []
      else takeWhile is_digit t # digit_runs (dropWhile is_digit t))"
  by pat_completeness auto
termination
proof (relation "measure length", simp)
  fix s t :: string
  assume t: "t = dropWhile (\<lambda>c. \<not> is_digit c) s" "t \<noteq> []"
  then have d: "is_digit (hd t)" by (metis hd_dropWhile)
  have "length (dropWhile is_digit t) < length t"
    using t(2) d by (cases t) (auto simp: le_imp_less_Suc length_dropWhile_le)
  also have "length t \<le> length s" unfolding t(1) by (rule length_dropWhile_le)
  finally show "(dropWhile is_digit t, s) \<in> measure length" by simp
qed

declare digit_runs.simps [simp del]

definition longest :: "string list \<Rightarrow> string" where
  "longest runs = foldl (\<lambda>best r. if length best < length r then r else best) [] runs"

text \<open>\<open>std::stoi\<close> throws \<open>std::out_of_range\<close> where the value does not fit an \<open>int\<close>.\<close>

definition extract_longest_integer :: "string \<Rightarrow> 'd val res" where
  "extract_longest_integer input =
     (let l = longest (digit_runs input) in
      if l = [] then Inr VNull
      else if in_int32 (digits_val l) then Inr (VInt (digits_val l))
      else Inl (OutOfRange ''stoi''))"

definition extract_double :: "'d jlib \<Rightarrow> 'd json \<Rightarrow> 'd res" where
  "extract_double lib v =
     (case v of
        JFloat d \<Rightarrow> Inr d
      | JInt i \<Rightarrow> Inr (j_of_int lib i)
      | JStr s \<Rightarrow> (case j_stod lib s of
           None \<Rightarrow> Inl (RuntimeError ''Invalid number string'') | Some d \<Rightarrow> Inr d)
      | _ \<Rightarrow> Inl (RuntimeError ''Value is not a number or string''))"

definition type_to_logical_type :: "string \<Rightarrow> ltype res" where
  "type_to_logical_type ty =
     (if ty = ''VARCHAR'' then Inr VARCHAR
      else if ty = ''INTEGER'' then Inr INTEGER
      else if ty = ''BOOLEAN'' \<or> ty = ''BOOL'' then Inr BOOLEAN
      else if ty = ''DOUBLE'' then Inr DOUBLE
      else Inl (InternalException ''Unsupported column type''))"

text \<open>One member, inside the \<open>try\<close> block of \<open>populate_row_data\<close>; the handlers of that block
  catch \<open>runtime_error\<close> and \<open>parse_error\<close> and store NULL instead.\<close>

definition convert_member :: "'d jlib \<Rightarrow> ltype \<Rightarrow> 'd json \<Rightarrow> 'd val res" where
  "convert_member lib ty m =
     (case (ty, m) of
        (VARCHAR, JStr s) \<Rightarrow> Inr (VStr s)
      | (INTEGER, JStr s) \<Rightarrow> extract_longest_integer s
      | (INTEGER, JInt i) \<Rightarrow> Inr (VInt (to_int32 i))
      | (INTEGER, JFloat d) \<Rightarrow> Inr (VInt (j_to_int lib d))
      | (DOUBLE, v) \<Rightarrow> mapR VDouble (extract_double lib v)
      | (BOOLEAN, JBool b) \<Rightarrow> Inr (VBool b)
      | _ \<Rightarrow> Inr VNull)"

definition catch_cell :: "'d val res \<Rightarrow> 'd val res" where
  "catch_cell r = (case r of
     Inl (RuntimeError _) \<Rightarrow> Inr VNull | Inl JsonParseError \<Rightarrow> Inr VNull | _ \<Rightarrow> r)"

definition cell_value :: "'d jlib \<Rightarrow> 'd json \<Rightarrow> string \<times> ltype \<Rightarrow> 'd val res" where
  "cell_value lib j c =
     (case json_member j (fst c) of
        None \<Rightarrow> Inr VNull
      | Some m \<Rightarrow> catch_cell (convert_member lib (snd c) m))"

definition populate_row_data ::
    "'d jlib \<Rightarrow> cols \<Rightarrow> 'd json \<Rightarrow> nat \<Rightarrow> 'd chunk \<Rightarrow> 'd chunk res" where
  "populate_row_data lib cols j row out =
     foldR (\<lambda>(k, c) ch. mapR (\<lambda>v. set_value k row v ch) (cell_value lib j c))
       (enumerate 0 cols) out"

definition fill_null :: "cols \<Rightarrow> nat \<Rightarrow> 'd chunk \<Rightarrow> 'd chunk" where
  "fill_null cols row out = fold (\<lambda>k. set_value k row VNull) [0..<length cols] out"

definition fill_nulls :: "cols \<Rightarrow> nat list \<Rightarrow> 'd chunk \<Rightarrow> 'd chunk" where
  "fill_nulls cols rows out = fold (fill_null cols) rows out"

subsection \<open>Extracting a row, extracting an array\<close>

text \<open>The exceptions the handlers of \<open>extract_row_data\<close> name; any other leaves the function.\<close>

definition extract_row_data ::
    "'d jlib \<Rightarrow> cols \<Rightarrow> string \<Rightarrow> nat \<Rightarrow> 'd chunk \<Rightarrow> 'd chunk res" where
  "extract_row_data lib cols llm_out row out =
     (case extract_json llm_out of
        Inl _ \<Rightarrow> Inr (fill_null cols row out)
      | Inr s \<Rightarrow> (case j_parse lib s of
          None \<Rightarrow> Inr (fill_null cols row out)
        | Some j \<Rightarrow> populate_row_data lib cols j row out))"

text \<open>
  What the overloads for a plain chunk take as the answers: the array under \<open>output_array\<close>;
  \<open>None\<close> where they go to their failure branch (no JSON, a parse error, a type error because
  the reply is itself an array, no such member, a member that is not an array).
\<close>

definition reply_array :: "'d jlib \<Rightarrow> string \<Rightarrow> 'd json list option" where
  "reply_array lib llm_out =
     (case extract_json llm_out of
        Inl _ \<Rightarrow> None
      | Inr s \<Rightarrow> (case j_parse lib s of
          None \<Rightarrow> None
        | Some j \<Rightarrow> (case json_member j ''output_array'' of
            Some (JArr a) \<Rightarrow> Some a
          | _ \<Rightarrow> None)))"

text \<open>The overload with \<open>orig_rows\<close> (batches without deduplication): at most \<open>n_rows\<close>
  elements are used, missing ones give NULL rows.\<close>

definition extract_array_rows ::
    "'d jlib \<Rightarrow> cols \<Rightarrow> string \<Rightarrow> nat list \<Rightarrow> 'd chunk \<Rightarrow> nat \<Rightarrow> 'd chunk res" where
  "extract_array_rows lib cols llm_out orig_rows out n_rows =
     (case reply_array lib llm_out of
        None \<Rightarrow> Inr (fill_nulls cols (map (\<lambda>i. orig_rows ! i) [0..<n_rows]) out)
      | Some a \<Rightarrow>
          bindR (foldR (\<lambda>(i, j). populate_row_data lib cols j (orig_rows ! i))
                   (enumerate 0 (take n_rows a)) out)
            (\<lambda>ch. Inr (if length a < n_rows
               then fill_nulls cols (map (\<lambda>i. orig_rows ! i) [length a..<n_rows]) ch else ch)))"

text \<open>The overload of \<open>ScanChunk\<close>: every element is used, and \<open>resize\<close> sets the cardinality.\<close>

definition extract_array_scan ::
    "'d jlib \<Rightarrow> cols \<Rightarrow> string \<Rightarrow> 'd chunk \<Rightarrow> nat \<Rightarrow> bool \<Rightarrow> nat \<Rightarrow> 'd chunk res" where
  "extract_array_scan lib cols llm_out out i resize n_rows =
     (case reply_array lib llm_out of
        None \<Rightarrow> Inr (fill_nulls cols [i..<i + n_rows] out)
      | Some a \<Rightarrow>
          bindR (foldR (\<lambda>(row, j). populate_row_data lib cols j row) (enumerate i a)
                   (if resize then out\<lparr>card := length a\<rparr> else out))
            (\<lambda>ch. Inr (if length a < n_rows
               then fill_nulls cols [i + length a..<i + n_rows] ch else ch)))"

text \<open>
  The overload for deduplicated rows. \<open>unprocessed\<close> is the \<open>std::map\<close> from prompt to row
  numbers, here the list of its pairs in key order. The array may also be the reply itself.
  Element \<open>k\<close> goes to the map entry at position \<open>i + k\<close> without a bound check (\<open>std::next\<close>
  past the end is undefined); the cache is updated with the element's text. The failure
  branch nulls the positions \<open>failed_from..failed_to\<close> as row numbers.
\<close>

type_synonym dedup = "(string \<times> nat list) list"

definition reply_array_dedup :: "'d jlib \<Rightarrow> string \<Rightarrow> 'd json list option" where
  "reply_array_dedup lib llm_out =
     (case extract_json llm_out of
        Inl _ \<Rightarrow> None
      | Inr s \<Rightarrow> (case j_parse lib s of
          None \<Rightarrow> None
        | Some j \<Rightarrow>
            (case (case json_member j ''output_array'' of Some m \<Rightarrow> m | None \<Rightarrow> j) of
               JArr a \<Rightarrow> Some a
             | _ \<Rightarrow> None)))"

definition dedup_element ::
    "'d jlib \<Rightarrow> cols \<Rightarrow> dedup \<Rightarrow> nat \<times> 'd json \<Rightarrow> (string \<rightharpoonup> string) \<times> 'd chunk
       \<Rightarrow> ((string \<rightharpoonup> string) \<times> 'd chunk) res" where
  "dedup_element lib cols unprocessed = (\<lambda>(row, j) (cache, out).
     if row < length unprocessed then
       (let (key, tuple_ids) = unprocessed ! row in
        mapR (\<lambda>ch. (cache(key \<mapsto> j_dump lib j), ch))
          (foldR (populate_row_data lib cols j) tuple_ids out))
     else Inl (Undefined ''std::next past the end of the map''))"

definition extract_array_dedup ::
    "'d jlib \<Rightarrow> cols \<Rightarrow> string \<Rightarrow> dedup \<Rightarrow> nat \<Rightarrow> nat \<Rightarrow> (string \<rightharpoonup> string) \<times> 'd chunk
       \<Rightarrow> ((string \<rightharpoonup> string) \<times> 'd chunk) res" where
  "extract_array_dedup lib cols llm_out unprocessed i n_rows st =
     (case reply_array_dedup lib llm_out of
        None \<Rightarrow> Inr (fst st, fill_nulls cols [i..<i + n_rows] (snd st))
      | Some a \<Rightarrow>
          bindR (foldR (dedup_element lib cols unprocessed) (enumerate i a) st)
            (\<lambda>(cache, ch). Inr (cache,
               if i + length a < i + n_rows - 1
               then fill_nulls cols [i + length a..<i + n_rows] ch else ch)))"

subsection \<open>The prompt of a row\<close>

text \<open>ASCII case folding, as \<open>StringUtil::CIEquals\<close> compares.\<close>

definition ascii_lower :: "char \<Rightarrow> char" where
  "ascii_lower c = (if 65 \<le> char_code c \<and> char_code c \<le> 90 then char_of (char_code c + 32) else c)"

definition ci_equals :: "string \<Rightarrow> string \<Rightarrow> bool" where
  "ci_equals a b \<longleftrightarrow> map ascii_lower a = map ascii_lower b"

text \<open>What a predictor knows of its call (\<open>PredictInfo\<close>): the input columns with their names,
  the embedding column of each source column, the result columns.\<close>

record pinfo =
  input_mask :: "nat list"
  input_set_names :: "string list"
  embedding_column_map :: "(string \<times> string) list"
  result_set :: cols

text \<open>The input chunk is seen through \<open>Value::ToSQLString\<close> of its cells: column, row, text.\<close>

type_synonym input = "nat \<Rightarrow> nat \<Rightarrow> string"

text \<open>\<open>embed_prompt\<close>: embedding columns are skipped. Its test \<open>col_i <= input_mask.size()\<close>
  before the separator always holds. The names are a checked vector: a column without one throws.\<close>

definition no_name :: exn where
  "no_name = InternalException ''Attempted to access index within vector of size''"

definition embed_prompt :: "nat \<Rightarrow> input \<Rightarrow> pinfo \<Rightarrow> bool \<Rightarrow> string res" where
  "embed_prompt row inp info is_multi =
     (let line_end = (if is_multi then ''`, '' else ''`;'' @ [CHR 0x0A]) in
      foldR (\<lambda>(col_i, mask_i) ss.
        if length (input_set_names info) \<le> col_i then Inl no_name
        else let col_name = input_set_names info ! col_i in
          if (\<exists>p \<in> set (embedding_column_map info). ci_equals col_name (snd p)) then Inr ss
          else Inr (ss @ col_name @ '' = `'' @ inp mask_i row @
               (if col_i \<le> length (input_mask info) then line_end else [])))
        (enumerate 0 (input_mask info)) [])"

text \<open>The text it returns when every column has a name.\<close>

definition prompt_text :: "nat \<Rightarrow> input \<Rightarrow> pinfo \<Rightarrow> bool \<Rightarrow> string" where
  "prompt_text row inp info is_multi =
     concat (map (\<lambda>(col_i, mask_i).
        let col_name = input_set_names info ! col_i in
        if (\<exists>p \<in> set (embedding_column_map info). ci_equals col_name (snd p)) then []
        else col_name @ '' = `'' @ inp mask_i row @ (if is_multi then ''`, '' else ''`;'' @ [CHR 0x0A]))
        (enumerate 0 (input_mask info)))"

lemma embed_prompt_text:
  "embed_prompt row inp info is_multi =
     (if length (input_mask info) \<le> length (input_set_names info) then Inr (prompt_text row inp info is_multi) else Inl no_name)"
proof -
  let ?names = "input_set_names info" and ?sep = "if is_multi then ''`, '' else ''`;'' @ [CHR 0x0A]"
  let ?skip = "\<lambda>name. \<exists>p \<in> set (embedding_column_map info). ci_equals name (snd p)"
  have "k + length ms \<le> length (input_mask info) \<Longrightarrow> k \<le> length ?names \<Longrightarrow>
      foldR (\<lambda>(col_i, mask_i) ss.
        if length ?names \<le> col_i then Inl no_name
        else let col_name = ?names ! col_i in
          if ?skip col_name then Inr ss
          else Inr (ss @ col_name @ '' = `'' @ inp mask_i row @ (if col_i \<le> length (input_mask info) then ?sep else [])))
        (enumerate k ms) ss =
      (if k + length ms \<le> length ?names
       then Inr (ss @ concat (map (\<lambda>(col_i, mask_i). let col_name = ?names ! col_i in
         if ?skip col_name then [] else col_name @ '' = `'' @ inp mask_i row @ ?sep) (enumerate k ms)))
       else Inl no_name)" for k ms ss
    by (induction ms arbitrary: k ss) (auto simp: Let_def)
  from this [of 0 "input_mask info" "[]"] show ?thesis by (simp add: embed_prompt_def prompt_text_def Let_def)
qed

subsection \<open>The cut-out value is the first balanced bracket expression\<close>

definition depth :: "char \<Rightarrow> string \<Rightarrow> int" where
  "depth op s = int (count_list s op) - int (count_list s (close_of op))"

text \<open>A bracketed text: it opens, every proper prefix is still open, all of it is closed.\<close>

definition bracketed :: "string \<Rightarrow> bool" where
  "bracketed s \<longleftrightarrow> s \<noteq> [] \<and> is_open (hd s) \<and> depth (hd s) s = 0 \<and>
     (\<forall>m. 0 < m \<longrightarrow> m < length s \<longrightarrow> 0 < depth (hd s) (take m s))"

lemma close_neq [simp]: "is_open c \<Longrightarrow> close_of c \<noteq> c" "is_open c \<Longrightarrow> c \<noteq> close_of c"
  by (auto simp: is_open_def close_of_def)

lemma depth_Cons:
  "is_open op \<Longrightarrow> depth op (c # s) =
     depth op s + (if c = op then 1 else if c = close_of op then - 1 else 0)"
  by (auto simp: depth_def)

lemma depth_Nil [simp]: "depth op [] = 0"
  by (simp add: depth_def)

lemma match_end_Some:
  assumes "match_end op (close_of op) d s = Some n" "is_open op" "0 < d"
  shows "n \<le> length s \<and> 0 < n \<and> d + depth op (take n s) = 0 \<and>
    (\<forall>m < n. 0 < d + depth op (take m s))"
  using assms
proof (induction s arbitrary: d n)
  case (Cons c cs)
  let ?d = "if c = op then d + 1 else if c = close_of op then d - 1 else d"
  show ?case
  proof (cases "c = close_of op \<and> d = 1")
    case True
    with Cons.prems have "n = 1" by auto
    with True Cons.prems show ?thesis by (auto simp: depth_Cons)
  next
    case False
    with Cons.prems obtain k where k: "n = Suc k" "match_end op (close_of op) ?d cs = Some k"
      by (auto split: if_splits)
    from False Cons.prems(2,3) have pos: "0 < ?d" by auto
    note ih = Cons.IH [OF k(2) Cons.prems(2) pos]
    have step: "d + depth op (take (Suc m) (c # cs)) = ?d + depth op (take m cs)" for m
      using Cons.prems(2) by (auto simp: depth_Cons)
    have "0 < d + depth op (take m (c # cs))" if "m < n" for m
    proof (cases m)
      case 0
      with Cons.prems(3) show ?thesis by simp
    next
      case (Suc m')
      with that k ih show ?thesis using step [of m'] by simp
    qed
    moreover have "d + depth op (take n (c # cs)) = 0" using step [of k] k(1) ih by simp
    ultimately show ?thesis using k(1) ih by simp
  qed
qed simp

lemma match_end_found:
  assumes "is_open op" "0 < d" "n \<le> length s" "d + depth op (take n s) = 0"
    and "\<forall>m < n. 0 < d + depth op (take m s)"
  shows "match_end op (close_of op) d s = Some n"
  using assms
proof (induction s arbitrary: d n)
  case (Cons c cs)
  let ?d = "if c = op then d + 1 else if c = close_of op then d - 1 else d"
  from Cons.prems(2,4) have "n \<noteq> 0" by (cases n) auto
  then obtain k where k: "n = Suc k" by (cases n) auto
  have step: "d + depth op (take (Suc m) (c # cs)) = ?d + depth op (take m cs)" for m
    using Cons.prems(1) by (auto simp: depth_Cons)
  show ?case
  proof (cases "c = close_of op \<and> d = 1")
    case True
    then have "d + depth op (take 1 (c # cs)) = 0" using Cons.prems(1) by (simp add: depth_Cons)
    with Cons.prems(5) k have "k = 0" by (cases k) (auto dest: spec [of _ 1])
    with True k Cons.prems(1) show ?thesis by auto
  next
    case False
    then have pos: "0 < ?d" using Cons.prems(2) by auto
    have "match_end op (close_of op) ?d cs = Some k"
    proof (rule Cons.IH [OF Cons.prems(1) pos])
      show "k \<le> length cs" using Cons.prems(3) k by simp
      show "?d + depth op (take k cs) = 0" using Cons.prems(4) k step [of k] by simp
      show "\<forall>m<k. 0 < ?d + depth op (take m cs)"
        using Cons.prems(5) k step by (metis Suc_less_eq)
    qed
    with False k show ?thesis by auto
  qed
qed simp

lemma match_end_bracketed:
  assumes "is_open op"
  shows "match_end op (close_of op) 0 (op # rest) = Some n \<longleftrightarrow>
    n \<le> Suc (length rest) \<and> bracketed (take n (op # rest))"
proof
  assume "match_end op (close_of op) 0 (op # rest) = Some n"
  then obtain k where k: "n = Suc k" "match_end op (close_of op) 1 rest = Some k" by auto
  note sp = match_end_Some [OF k(2) assms zero_less_one]
  have "0 < depth op (take m (op # take k rest))" if "0 < m" "m < Suc k" for m
  proof -
    from that obtain m' where "m = Suc m'" "m' < k" by (cases m) (use that in auto)
    moreover from sp this have "0 < 1 + depth op (take m' rest)" by blast
    ultimately show ?thesis using assms by (simp add: depth_Cons min_def)
  qed
  with k sp assms show "n \<le> Suc (length rest) \<and> bracketed (take n (op # rest))"
    by (auto simp: bracketed_def depth_Cons)
next
  assume n: "n \<le> Suc (length rest) \<and> bracketed (take n (op # rest))"
  then obtain k where k: "n = Suc k" "k \<le> length rest" by (cases n) (auto simp: bracketed_def)
  with n have b: "bracketed (op # take k rest)" by simp
  have "match_end op (close_of op) 1 rest = Some k"
  proof (rule match_end_found [OF assms _ k(2)])
    show "1 + depth op (take k rest) = 0" using b assms by (simp add: bracketed_def depth_Cons)
    show "\<forall>m<k. 0 < 1 + depth op (take m rest)"
    proof (intro allI impI)
      fix m assume "m < k"
      then have "0 < depth op (take (Suc m) (op # take k rest))"
        using b k(2) by (auto simp: bracketed_def)
      with \<open>m < k\<close> assms show "0 < 1 + depth op (take m rest)" by (simp add: depth_Cons min_def)
    qed
  qed simp
  with k(1) show "match_end op (close_of op) 0 (op # rest) = Some n" by simp
qed

lemma dropWhile_open_split:
  assumes "\<forall>c \<in> set pre. \<not> is_open c" "s \<noteq> []" "is_open (hd s)"
  shows "dropWhile (\<lambda>c. \<not> is_open c) (pre @ s @ post) = s @ post"
proof -
  have "dropWhile (\<lambda>c. \<not> is_open c) (pre @ s @ post) = dropWhile (\<lambda>c. \<not> is_open c) (s @ post)"
    using assms(1) by (induction pre) auto
  with assms(2,3) show ?thesis by (cases s) auto
qed

text \<open>C11: \<open>extract_json\<close> returns exactly the first bracket expression of the text: it gives
  \<open>s\<close> if and only if the text is some characters without an opening bracket, then \<open>s\<close>, then
  anything, where \<open>s\<close> opens with a brace or bracket, stays open at every proper prefix and is
  closed at its end. Brackets of the other kind, and quotes, play no part.\<close>
theorem extract_json_exact:
  "extract_json text = Inr s \<longleftrightarrow>
     (\<exists>pre post. text = pre @ s @ post \<and> (\<forall>c \<in> set pre. \<not> is_open c) \<and> bracketed s)"
proof
  assume ex: "extract_json text = Inr s"
  let ?t = "dropWhile (\<lambda>c. \<not> is_open c) text"
  from ex obtain op rest n where t: "?t = op # rest"
    and m: "match_end op (close_of op) 0 (op # rest) = Some n" and s: "s = take n (op # rest)"
    by (auto simp: extract_json_def split: list.splits option.splits)
  have "is_open op" using t by (metis dropWhile_eq_Cons_conv)
  from match_end_bracketed [OF this] m s have "bracketed s" by blast
  moreover have "text = takeWhile (\<lambda>c. \<not> is_open c) text @ s @ drop n (op # rest)"
    using t s by (metis append_take_drop_id takeWhile_dropWhile_id)
  ultimately show "\<exists>pre post. text = pre @ s @ post \<and> (\<forall>c \<in> set pre. \<not> is_open c) \<and> bracketed s"
    by (metis set_takeWhileD)
next
  assume "\<exists>pre post. text = pre @ s @ post \<and> (\<forall>c \<in> set pre. \<not> is_open c) \<and> bracketed s"
  then obtain pre post where eq: "text = pre @ s @ post" and pre: "\<forall>c \<in> set pre. \<not> is_open c"
    and b: "bracketed s" by blast
  then obtain op s' where s: "s = op # s'" and op: "is_open op"
    by (cases s) (auto simp: bracketed_def)
  have "dropWhile (\<lambda>c. \<not> is_open c) text = op # s' @ post"
    unfolding eq using dropWhile_open_split [OF pre, of s post] s op by simp
  moreover have "match_end op (close_of op) 0 (op # s' @ post) = Some (length s)"
    using match_end_bracketed [OF op, of "s' @ post" "length s"] b s
    by (simp del: match_end.simps)
  ultimately show "extract_json text = Inr s" using s by (simp add: extract_json_def)
qed

theorem extract_json_exact_witness: "extract_json ''x [{] y'' = Inr ''[{]''"
proof -
  have "''x [{] y'' = ''x '' @ ''[{]'' @ '' y'' \<and> (\<forall>c \<in> set ''x ''. \<not> is_open c)"
    by (simp add: is_open_def)
  moreover have "bracketed ''[{]''"
    by (auto simp: bracketed_def is_open_def depth_def close_of_def less_Suc_eq numeral_3_eq_3)
  ultimately show ?thesis using extract_json_exact [of "''x [{] y''" "''[{]''"] by blast
qed

subsection \<open>Rows of a chunk\<close>

definition put_from :: "nat \<Rightarrow> nat \<Rightarrow> 'd val list \<Rightarrow> 'd chunk \<Rightarrow> 'd chunk" where
  "put_from n row vs ch = ch\<lparr>cells := (\<lambda>k r.
     if r = row \<and> n \<le> k \<and> k < n + length vs then vs ! (k - n) else cells ch k r)\<rparr>"

abbreviation put_row :: "nat \<Rightarrow> 'd val list \<Rightarrow> 'd chunk \<Rightarrow> 'd chunk" where
  "put_row \<equiv> put_from 0"

definition row_at :: "nat \<Rightarrow> 'd chunk \<Rightarrow> nat \<Rightarrow> 'd val list" where
  "row_at n ch i = map (\<lambda>k. cells ch k i) [0..<n]"

definition nulls :: "cols \<Rightarrow> 'd val list" where
  "nulls cols = replicate (length cols) VNull"

lemma length_nulls [simp]: "length (nulls cols) = length cols"
  by (simp add: nulls_def)

lemma chunk_eqI: "(\<And>k r. cells a k r = cells b k r) \<Longrightarrow> card a = card b \<Longrightarrow> a = (b :: 'd chunk)"
  by (intro chunk.equality) (auto simp: fun_eq_iff)

lemma cells_put_from:
  "cells (put_from n row vs ch) k r =
     (if r = row \<and> n \<le> k \<and> k < n + length vs then vs ! (k - n) else cells ch k r)"
  by (simp add: put_from_def)

lemma card_put_row [frame_simps]: "card (put_from n row vs ch) = card ch"
  by (simp add: put_from_def)

lemma put_from_Nil [simp]: "put_from n row [] ch = ch"
  by (rule chunk_eqI) (auto simp: cells_put_from frame_simps)

lemma put_from_Cons: "put_from n row (v # vs) ch = put_from (Suc n) row vs (set_value n row v ch)"
proof (rule chunk_eqI)
  fix k r
  have "k = n \<or> k < n \<or> k - n = Suc (k - Suc n)" by arith
  then show "cells (put_from n row (v # vs) ch) k r =
      cells (put_from (Suc n) row vs (set_value n row v ch)) k r"
    by (auto simp: cells_put_from)
qed (simp add: frame_simps)

interpretation rows: row_store put_row "row_at n" "\<lambda>r. length r = n"
  by unfold_locales (auto simp: row_at_def cells_put_from intro: nth_equalityI)

lemma card_write_all [frame_simps]: "card (write_all put_row xs ch) = card ch"
  by (induction xs arbitrary: ch) (auto simp: frame_simps)

text \<open>The row a JSON value stands for.\<close>

definition row_values :: "'d jlib \<Rightarrow> cols \<Rightarrow> 'd json \<Rightarrow> 'd val list res" where
  "row_values lib cols j = traverse (cell_value lib j) cols"

lemma length_row_values: "row_values lib cols j = Inr vs \<Longrightarrow> length vs = length cols"
  by (simp add: row_values_def traverse_Inr_iff)

lemma populate_put_from:
  "foldR (\<lambda>(k, c) ch. mapR (\<lambda>v. set_value k row v ch) (cell_value lib j c)) (enumerate n cols) out =
     mapR (\<lambda>vs. put_from n row vs out) (traverse (cell_value lib j) cols)"
proof (induction cols arbitrary: n out)
  case (Cons c cols)
  show ?case
  proof (cases "cell_value lib j c")
    case (Inr v)
    then show ?thesis
      using Cons by (cases "traverse (cell_value lib j) cols") (simp_all add: put_from_Cons)
  qed simp
qed simp

lemma populate_row_put:
  "populate_row_data lib cols j row out = mapR (\<lambda>vs. put_row row vs out) (row_values lib cols j)"
  by (simp add: populate_row_data_def row_values_def populate_put_from)

lemma fill_null_put: "fill_null cols row out = put_row row (nulls cols) out"
proof -
  have "fold (\<lambda>k. set_value k row VNull) [n..<n + m] out = put_from n row (replicate m VNull) out"
    for n m and out :: "'d chunk"
  proof (induction m arbitrary: n out)
    case (Suc m)
    have "[n..<n + Suc m] = n # [Suc n..<Suc n + m]" by (simp add: upt_conv_Cons)
    with Suc [of "Suc n"] show ?case by (simp add: put_from_Cons)
  qed simp
  from this [of 0 "length cols"] show ?thesis by (simp add: fill_null_def nulls_def)
qed

lemma fill_nulls_write_all:
  "fill_nulls cols rs out = write_all put_row (map (\<lambda>i. (i, nulls cols)) rs) out"
  by (induction rs arbitrary: out) (simp_all add: fill_nulls_def fill_null_put)


text \<open>The row a single reply (or a cached text) stands for.\<close>

definition text_row :: "'d jlib \<Rightarrow> cols \<Rightarrow> string \<Rightarrow> 'd val list res" where
  "text_row lib cols llm_out =
     (case extract_json llm_out of
        Inl _ \<Rightarrow> Inr (nulls cols)
      | Inr s \<Rightarrow> (case j_parse lib s of None \<Rightarrow> Inr (nulls cols) | Some j \<Rightarrow> row_values lib cols j))"

lemma extract_row_put:
  "extract_row_data lib cols llm_out row out = mapR (\<lambda>vs. put_row row vs out) (text_row lib cols llm_out)"
  by (simp add: extract_row_data_def text_row_def fill_null_put populate_row_put
      split: sum.splits option.splits)

lemma length_text_row: "text_row lib cols t = Inr vs \<Longrightarrow> length vs = length cols"
  by (auto simp: text_row_def length_row_values split: sum.splits option.splits)

subsection \<open>Distributing an array over rows\<close>

text \<open>The row that position \<open>k\<close> of a batch receives: its array element's row, or NULLs.\<close>

definition answer_row ::
    "'d jlib \<Rightarrow> cols \<Rightarrow> 'd json list option \<Rightarrow> nat \<Rightarrow> 'd val list res" where
  "answer_row lib cols ans k = (case ans of
     None \<Rightarrow> Inr (nulls cols)
   | Some a \<Rightarrow> if k < length a then row_values lib cols (a ! k) else Inr (nulls cols))"

lemma length_answer_row: "answer_row lib cols ans k = Inr vs \<Longrightarrow> length vs = length cols"
  by (auto simp: answer_row_def length_row_values split: option.splits if_splits)

lemma extract_array_rows_write_all:
  assumes n: "length orig_rows = n_rows"
  shows "extract_array_rows lib cols llm_out orig_rows out n_rows =
    mapR (\<lambda>rs. write_all put_row (zip orig_rows rs) out)
      (traverse (answer_row lib cols (reply_array lib llm_out)) [0..<n_rows])"
proof (cases "reply_array lib llm_out")
  case None
  have "traverse (answer_row lib cols None) [0..<n_rows] =
      Inr (replicate n_rows (nulls cols :: 'a val list))"
    by (simp add: answer_row_def traverse_Inr_iff)
  moreover have "map (\<lambda>i. (orig_rows ! i, nulls cols)) [0..<n_rows] =
      zip orig_rows (replicate n_rows (nulls cols :: 'a val list))"
    using n by (auto intro: nth_equalityI)
  ultimately show ?thesis
    using None by (simp add: extract_array_rows_def fill_nulls_write_all comp_def)
next
  case (Some a)
  let ?m = "min n_rows (length a)"
  let ?ans = "answer_row lib cols (Some a)"
  let ?null = "replicate (n_rows - ?m) (nulls cols :: 'a val list)"
  have enum: "enumerate 0 (take n_rows a) = map (\<lambda>i. (i, a ! i)) [0..<?m]"
    by (simp add: enumerate_eq_map min.commute)
  have "foldR (\<lambda>(i, j). populate_row_data lib cols j (orig_rows ! i)) (enumerate 0 (take n_rows a)) out
      = foldR (\<lambda>i c. mapR (\<lambda>r. put_row (orig_rows ! i) r c) (?ans i)) [0..<?m] out"
    unfolding enum foldR_map
    by (rule foldR_cong) (auto simp: populate_row_put answer_row_def)
  also have "\<dots> = mapR (\<lambda>rs. write_all put_row (zip (map ((!) orig_rows) [0..<?m]) rs) out)
      (traverse ?ans [0..<?m])"
    by (rule foldR_write_all)
  finally have head: "foldR (\<lambda>(i, j). populate_row_data lib cols j (orig_rows ! i))
      (enumerate 0 (take n_rows a)) out = mapR (\<lambda>rs.
        write_all put_row (zip (take ?m orig_rows) rs) out) (traverse ?ans [0..<?m])"
    using map_nth_take [of ?m orig_rows] n by simp
  have split: "[0..<n_rows] = [0..<?m] @ [?m..<n_rows]"
    by (metis le0 min.cobounded1 upt_add_eq_append le_add_diff_inverse)
  have tail: "traverse ?ans [?m..<n_rows] = Inr ?null"
    by (auto simp: answer_row_def traverse_Inr_iff)
  have null_rows: "map (\<lambda>i. (orig_rows ! i, nulls cols)) [?m..<n_rows] = zip (drop ?m orig_rows) ?null"
    using n by (intro nth_equalityI) auto
  show ?thesis
  proof (cases "traverse ?ans [0..<?m]")
    case (Inl e)
    with Some head split show ?thesis by (simp add: extract_array_rows_def traverse_append)
  next
    case (Inr rs)
    then have len: "length rs = ?m" by (simp add: traverse_Inr_iff)
    have "zip orig_rows (rs @ ?null) = zip (take ?m orig_rows) rs @ zip (drop ?m orig_rows) ?null"
      by (simp add: zip_append2 len)
    with Some Inr head split tail null_rows len show ?thesis
      by (auto simp: extract_array_rows_def traverse_append write_all_append fill_nulls_write_all
          comp_def min_def split: if_splits)
  qed
qed

lemma extract_array_rows_spec:
  assumes "extract_array_rows lib cols llm_out orig_rows out n_rows = Inr ch"
    and "distinct orig_rows" "length orig_rows = n_rows"
  shows "(\<forall>k < n_rows. answer_row lib cols (reply_array lib llm_out) k =
            Inr (row_at (length cols) ch (orig_rows ! k))) \<and>
         (\<forall>r. r \<notin> set orig_rows \<longrightarrow> (\<forall>k. cells ch k r = cells out k r)) \<and> card ch = card out"
proof -
  let ?ans = "answer_row lib cols (reply_array lib llm_out)"
  from assms(1) obtain rs where rs: "traverse ?ans [0..<n_rows] = Inr rs"
    and ch: "ch = write_all put_row (zip orig_rows rs) out"
    by (auto simp: extract_array_rows_write_all assms(3) mapR_Inr_iff)
  from rs have len: "length rs = n_rows" and k: "\<And>k. k < n_rows \<Longrightarrow> ?ans k = Inr (rs ! k)"
    by (auto simp: traverse_Inr_iff)
  have "row_at (length cols) ch (orig_rows ! k) = rs ! k" if "k < n_rows" for k
    unfolding ch
  proof (rule rows.write_all_same)
    show "distinct (map fst (zip orig_rows rs))" using assms(2,3) len by simp
    show "(orig_rows ! k, rs ! k) \<in> set (zip orig_rows rs)"
      using that assms(3) len by (force simp: in_set_zip)
    show "length (rs ! k) = length cols" using k [OF that] by (rule length_answer_row)
  qed
  moreover have "cells ch c r = cells out c r" if "r \<notin> set orig_rows" for c r
  proof -
    have "r \<notin> fst ` set (zip orig_rows rs)" using that by (auto dest: set_zip_leftD)
    then have "row_at (Suc c) ch r = row_at (Suc c) out r"
      unfolding ch by (rule rows.write_all_frame)
    then show ?thesis by (auto simp: row_at_def)
  qed
  ultimately show ?thesis using k by (simp add: ch frame_simps)
qed

text \<open>C12: a batch without deduplication. Where \<open>extract_array_data\<close> returns, position \<open>k\<close> of
  the batch holds the row of the \<open>k\<close>-th element of the reply's \<open>output_array\<close>, or NULLs where
  the reply has no such element or no array at all; elements beyond the batch are ignored, and
  no other row of the chunk changes.\<close>
theorem extract_array_rows_correct:
  assumes "extract_array_rows lib cols llm_out orig_rows out n_rows = Inr ch"
    and "distinct orig_rows" "length orig_rows = n_rows"
  shows "(\<forall>k < n_rows. answer_row lib cols (reply_array lib llm_out) k =
            Inr (row_at (length cols) ch (orig_rows ! k))) \<and>
         (\<forall>r. r \<notin> set orig_rows \<longrightarrow> (\<forall>k. cells ch k r = cells out k r)) \<and> card ch = card out"
  by (rule extract_array_rows_spec [OF assms])

subsection \<open>Distributing an array over groups of equal prompts\<close>

definition group_rows :: "dedup \<Rightarrow> nat \<Rightarrow> nat list" where
  "group_rows u k = (if k < length u then snd (u ! k) else [])"

text \<open>What the binder of the map guarantees: distinct keys, and no row in two groups.\<close>

definition wf_dedup :: "dedup \<Rightarrow> bool" where
  "wf_dedup u \<longleftrightarrow> distinct (map fst u) \<and> distinct (concat (map snd u)) \<and> (\<forall>p \<in> set u. snd p \<noteq> [])"

lemma foldR_populate_const:
  "ids \<noteq> [] \<Longrightarrow> foldR (populate_row_data lib cols j) ids out =
     mapR (\<lambda>vs. write_all put_row (map (\<lambda>i. (i, vs)) ids) out) (row_values lib cols j)"
proof (cases "row_values lib cols j")
  case (Inl e)
  then show "ids \<noteq> [] \<Longrightarrow> ?thesis" by (cases ids) (simp_all add: populate_row_put)
next
  case (Inr vs)
  have "foldR (populate_row_data lib cols j) ids out =
      Inr (write_all put_row (map (\<lambda>i. (i, vs)) ids) out)" for out
    by (induction ids arbitrary: out) (simp_all add: populate_row_put Inr)
  with Inr show ?thesis by simp
qed

text \<open>The writes the elements from position \<open>i\<close> on make, and the cache they leave.\<close>

definition dedup_writes :: "dedup \<Rightarrow> nat \<Rightarrow> 'd val list list \<Rightarrow> (nat \<times> 'd val list) list" where
  "dedup_writes u i vss = concat (map (\<lambda>(k, vs). map (\<lambda>r. (r, vs)) (snd (u ! k))) (enumerate i vss))"

definition dedup_cache ::
    "'d jlib \<Rightarrow> dedup \<Rightarrow> nat \<Rightarrow> 'd json list \<Rightarrow> (string \<rightharpoonup> string) \<Rightarrow> (string \<rightharpoonup> string)" where
  "dedup_cache lib u i a c = fold (\<lambda>(k, j) c. c(fst (u ! k) \<mapsto> j_dump lib j)) (enumerate i a) c"

lemma dedup_elements:
  assumes "i + length a \<le> length u" "\<forall>p \<in> set u. snd p \<noteq> []"
  shows "foldR (dedup_element lib cols u) (enumerate i a) (c, out) =
    mapR (\<lambda>vss. (dedup_cache lib u i a c, write_all put_row (dedup_writes u i vss) out))
      (traverse (row_values lib cols) a)"
  using assms
proof (induction a arbitrary: i c out)
  case Nil
  then show ?case by (simp add: dedup_cache_def dedup_writes_def)
next
  case (Cons j a)
  obtain key ids where u: "u ! i = (key, ids)" by (cases "u ! i")
  have "ids \<noteq> []" using Cons.prems u nth_mem [of i u] by force
  note pop = foldR_populate_const [OF this]
  show ?case
  proof (cases "row_values lib cols j")
    case (Inl e)
    then show ?thesis using Cons.prems u by (simp add: dedup_element_def pop)
  next
    case (Inr vs)
    let ?out = "write_all put_row (map (\<lambda>r. (r, vs)) ids) out"
    have "foldR (dedup_element lib cols u) (enumerate i (j # a)) (c, out) =
        foldR (dedup_element lib cols u) (enumerate (Suc i) a) (c(key \<mapsto> j_dump lib j), ?out)"
      using Cons.prems u Inr by (simp add: dedup_element_def pop)
    also have "\<dots> = mapR (\<lambda>vss. (dedup_cache lib u (Suc i) a (c(key \<mapsto> j_dump lib j)),
        write_all put_row (dedup_writes u (Suc i) vss) ?out)) (traverse (row_values lib cols) a)"
      using Cons.prems by (intro Cons.IH) auto
    finally show ?thesis
      using Inr u by (cases "traverse (row_values lib cols) a")
        (simp_all add: dedup_cache_def dedup_writes_def write_all_append)
  qed
qed

lemma group_nth: "k < length u \<Longrightarrow> group_rows u k = snd (u ! k)"
  by (simp add: group_rows_def)

lemma wf_dedup_drop_take:
  assumes "wf_dedup u" "i + m \<le> length u"
  shows "distinct (concat (map (\<lambda>k. snd (u ! k)) [i..<i + m]))"
    and "distinct (map (\<lambda>k. fst (u ! k)) [i..<i + m])"
proof -
  have slice: "map (\<lambda>k. f (u ! k)) [i..<i + m] = take m (drop i (map f u))" for f :: "string \<times> nat list \<Rightarrow> 'x"
    using assms(2) by (intro nth_equalityI) auto
  have sub: "distinct (concat (take m (drop i xss)))" if "distinct (concat xss)" for xss :: "nat list list"
  proof -
    have "concat xss = concat (take i xss) @ concat (take m (drop i xss)) @ concat (drop m (drop i xss))"
      by (metis append_take_drop_id concat_append)
    with that show ?thesis by (metis distinct_append)
  qed
  show "distinct (concat (map (\<lambda>k. snd (u ! k)) [i..<i + m]))"
    unfolding slice using assms(1) by (intro sub) (simp add: wf_dedup_def)
  show "distinct (map (\<lambda>k. fst (u ! k)) [i..<i + m])"
    unfolding slice using assms(1) by (simp add: wf_dedup_def)
qed

lemma map_fst_dedup_writes:
  "map fst (dedup_writes u i vss) = concat (map (\<lambda>k. snd (u ! k)) [i..<i + length vss])"
  by (simp add: dedup_writes_def map_concat comp_def enumerate_eq_map)

lemma dedup_cache_lookup:
  assumes "wf_dedup u" "i + length a \<le> length u"
  shows "k < length a \<Longrightarrow> dedup_cache lib u i a c (fst (u ! (i + k))) = Some (j_dump lib (a ! k))"
    and "key \<notin> (\<lambda>k. fst (u ! k)) ` {i..<i + length a} \<Longrightarrow> dedup_cache lib u i a c key = c key"
proof -
  have frame: "dedup_cache lib u i a c key = c key"
    if "key \<notin> (\<lambda>k. fst (u ! k)) ` {i..<i + length a}" for key i a and c :: "string \<rightharpoonup> string"
    using that
  proof (induction a arbitrary: i c)
    case (Cons j a)
    then have "key \<notin> (\<lambda>k. fst (u ! k)) ` {Suc i..<Suc i + length a}" "key \<noteq> fst (u ! i)" by auto
    with Cons.IH show ?case by (simp add: dedup_cache_def)
  qed (simp add: dedup_cache_def)
  then show "key \<notin> (\<lambda>k. fst (u ! k)) ` {i..<i + length a} \<Longrightarrow> dedup_cache lib u i a c key = c key"
    by blast
  show "k < length a \<Longrightarrow> dedup_cache lib u i a c (fst (u ! (i + k))) = Some (j_dump lib (a ! k))"
    using assms(2)
  proof (induction a arbitrary: i c k)
    case (Cons j a)
    show ?case
    proof (cases k)
      case 0
      have "distinct (map fst u)" using assms(1) by (simp add: wf_dedup_def)
      then have "fst (u ! i) \<noteq> fst (u ! n)" if "n \<in> {Suc i..<Suc i + length a}" for n
        using that Cons.prems(2) nth_eq_iff_index_eq [of "map fst u" i n] by auto
      then have "fst (u ! i) \<notin> (\<lambda>k. fst (u ! k)) ` {Suc i..<Suc i + length a}" by blast
      from frame [OF this] 0 show ?thesis by (simp add: dedup_cache_def)
    next
      case (Suc k')
      with Cons.IH [of k' "Suc i"] Cons.prems show ?thesis by (simp add: dedup_cache_def)
    qed
  qed simp
qed

lemma extract_array_dedup_spec:
  assumes "wf_dedup u" and "reply_array_dedup lib llm_out = Some a"
    and "i + length a \<le> length u" "n_rows \<le> Suc (length a)"
    and "extract_array_dedup lib cols llm_out u i n_rows (cache, out) = Inr (cache', ch)"
  shows "(\<forall>k < length a. \<forall>r \<in> set (group_rows u (i + k)).
            row_values lib cols (a ! k) = Inr (row_at (length cols) ch r)) \<and>
         (\<forall>k < length a. cache' (fst (u ! (i + k))) = Some (j_dump lib (a ! k))) \<and>
         (\<forall>r. (\<forall>k < length a. r \<notin> set (group_rows u (i + k))) \<longrightarrow>
            (\<forall>c. cells ch c r = cells out c r)) \<and>
         (\<forall>key. key \<notin> (\<lambda>k. fst (u ! k)) ` {i..<i + length a} \<longrightarrow> cache' key = cache key)"
proof -
  have ne: "\<forall>p \<in> set u. snd p \<noteq> []" using assms(1) by (simp add: wf_dedup_def)
  have "\<not> i + length a < i + n_rows - 1" using assms(4) by arith
  with assms(2,5) dedup_elements [OF assms(3) ne] obtain vss
    where vss: "traverse (row_values lib cols) a = Inr vss"
      and cache': "cache' = dedup_cache lib u i a cache"
      and ch: "ch = write_all put_row (dedup_writes u i vss) out"
    by (auto simp: extract_array_dedup_def bindR_Inr_iff mapR_Inr_iff)
  from vss have len: "length vss = length a"
    and v: "\<And>k. k < length a \<Longrightarrow> row_values lib cols (a ! k) = Inr (vss ! k)"
    by (auto simp: traverse_Inr_iff)
  have dist: "distinct (map fst (dedup_writes u i vss))"
    using wf_dedup_drop_take(1) [OF assms(1)] assms(3) len by (simp add: map_fst_dedup_writes)
  have "row_values lib cols (a ! k) = Inr (row_at (length cols) ch r)"
    if "k < length a" "r \<in> set (group_rows u (i + k))" for k r
  proof -
    have "(i + k, vss ! k) \<in> set (enumerate i vss)"
      using that(1) len by (simp add: in_set_enumerate_eq)
    then have "(r, vss ! k) \<in> set (dedup_writes u i vss)"
      using that assms(3) by (force simp: dedup_writes_def group_rows_def)
    then have "row_at (length cols) ch r = vss ! k"
      unfolding ch by (rule rows.write_all_same [OF dist]) (rule length_row_values [OF v [OF that(1)]])
    with v that(1) show ?thesis by simp
  qed
  moreover have "cells ch c r = cells out c r" if "\<forall>k < length a. r \<notin> set (group_rows u (i + k))" for c r
  proof -
    have "r \<notin> fst ` set (dedup_writes u i vss)"
    proof
      assume "r \<in> fst ` set (dedup_writes u i vss)"
      then have "r \<in> set (map fst (dedup_writes u i vss))" by simp
      then obtain n where "i \<le> n" "n < i + length a" "r \<in> set (snd (u ! n))"
        using len by (auto simp: map_fst_dedup_writes)
      moreover from this obtain k where "n = i + k" "k < length a" by (auto simp: le_iff_add)
      ultimately show False using that assms(3) by (auto simp: group_rows_def)
    qed
    then have "row_at (Suc c) ch r = row_at (Suc c) out r"
      unfolding ch by (rule rows.write_all_frame)
    then show ?thesis by (auto simp: row_at_def)
  qed
  ultimately show ?thesis
    using dedup_cache_lookup [OF assms(1,3)] by (auto simp: cache')
qed

text \<open>C13: a batch with deduplication whose reply has \<open>n\<close> elements or one less. Where
  \<open>extract_array_data\<close> returns, every row of the group at map position \<open>i + k\<close> holds the row of
  element \<open>k\<close>, the cache holds that element's text under the group's prompt, and every row
  outside these groups and every other cache entry is as before.\<close>
theorem extract_array_dedup_correct:
  assumes "wf_dedup u" and "reply_array_dedup lib llm_out = Some a"
    and "i + length a \<le> length u" "n_rows \<le> Suc (length a)"
    and "extract_array_dedup lib cols llm_out u i n_rows (cache, out) = Inr (cache', ch)"
  shows "(\<forall>k < length a. \<forall>r \<in> set (group_rows u (i + k)).
            row_values lib cols (a ! k) = Inr (row_at (length cols) ch r)) \<and>
         (\<forall>k < length a. cache' (fst (u ! (i + k))) = Some (j_dump lib (a ! k))) \<and>
         (\<forall>r. (\<forall>k < length a. r \<notin> set (group_rows u (i + k))) \<longrightarrow>
            (\<forall>c. cells ch c r = cells out c r)) \<and>
         (\<forall>key. key \<notin> (\<lambda>k. fst (u ! k)) ` {i..<i + length a} \<longrightarrow> cache' key = cache key)"
  by (rule extract_array_dedup_spec [OF assms])

text \<open>A small instance of the JSON library for the witnesses: three replies, doubles as
  integers.\<close>

definition demo_row :: "string \<Rightarrow> int json" where
  "demo_row s = JObj [(''x'', JStr s)]"

definition demo_lib :: "int jlib" where
  "demo_lib = \<lparr>
     j_parse = (\<lambda>s.
       if s = ''[1]'' then Some (JArr [demo_row ''p''])
       else if s = ''{1}'' then Some (JObj [(''output_array'', JArr [demo_row ''p''])])
       else if s = ''{2}'' then Some (JObj [(''output_array'', JArr [demo_row ''p'', demo_row ''q''])])
       else if s = ''{p}'' then Some (demo_row ''p'')
       else if s = ''{q}'' then Some (demo_row ''q'')
       else if s = ''{}'' then Some (JObj []) else None),
     j_dump = (\<lambda>j. if j = demo_row ''p'' then ''{p}'' else if j = demo_row ''q'' then ''{q}'' else ''{}''),
     j_of_int = (\<lambda>i. i), j_to_int = (\<lambda>d. d), j_to_idx = nat, j_eq = (=), j_stod = (\<lambda>_. None)\<rparr>"

definition demo_chunk :: "int chunk" where
  "demo_chunk = \<lparr>cells = (\<lambda>_ _. VBool True), card = 4\<rparr>"

definition demo_cols :: cols where
  "demo_cols = [(''x'', VARCHAR)]"

definition demo_dedup :: dedup where
  "demo_dedup = [(''k1'', [0, 2]), (''k2'', [3])]"

lemma res_obtain: "\<not> isl r \<Longrightarrow> \<exists>x. r = Inr x"
  by (cases r) auto

theorem extract_array_rows_correct_witness:
  "\<exists>ch. extract_array_rows demo_lib demo_cols ''{1}'' [1, 2] demo_chunk 2 = Inr ch \<and>
     row_at 1 ch 1 = [VStr ''p''] \<and> row_at 1 ch 2 = [VNull] \<and> cells ch 0 3 = VBool True"
proof -
  have "\<not> isl (extract_array_rows demo_lib demo_cols ''{1}'' [1, 2] demo_chunk 2)" by code_simp
  then obtain ch where ch: "extract_array_rows demo_lib demo_cols ''{1}'' [1, 2] demo_chunk 2 = Inr ch"
    using res_obtain by blast
  have ans: "answer_row demo_lib demo_cols (reply_array demo_lib ''{1}'') 0 = Inr [VStr ''p'']"
    "answer_row demo_lib demo_cols (reply_array demo_lib ''{1}'') 1 = Inr [VNull]" by code_simp+
  have cell: "cells demo_chunk 0 3 = VBool True" "length demo_cols = 1" by code_simp+
  from extract_array_rows_correct [OF ch] have
    all: "\<forall>k < 2. answer_row demo_lib demo_cols (reply_array demo_lib ''{1}'') k =
        Inr (row_at (length demo_cols) ch ([1, 2] ! k))"
    and fr: "\<forall>r. r \<notin> set [1, 2] \<longrightarrow> (\<forall>k. cells ch k r = cells demo_chunk k r)" by auto
  have "row_at 1 ch 1 = [VStr ''p'']" using all [rule_format, of 0] ans cell by simp
  moreover have "row_at 1 ch 2 = [VNull]" using all [rule_format, of 1] ans cell by simp
  moreover have "cells ch 0 3 = VBool True" using fr [rule_format, of 3 0] cell by simp
  ultimately show ?thesis using ch by blast
qed

theorem extract_array_dedup_correct_witness:
  "\<exists>cache' ch. extract_array_dedup demo_lib demo_cols ''{1}'' demo_dedup 0 2 (Map.empty, demo_chunk) =
       Inr (cache', ch) \<and>
     row_at 1 ch 0 = [VStr ''p''] \<and> row_at 1 ch 2 = [VStr ''p''] \<and>
     cache' ''k1'' = Some ''{p}'' \<and> cells ch 0 3 = VBool True"
proof -
  let ?x = "extract_array_dedup demo_lib demo_cols ''{1}'' demo_dedup 0 2 (Map.empty, demo_chunk)"
  have "\<not> isl ?x" by code_simp
  then obtain st where "?x = Inr st" using res_obtain by blast
  then obtain cache' ch where ch: "?x = Inr (cache', ch)" by (cases st) auto
  have wf: "wf_dedup demo_dedup" by code_simp
  have rep: "reply_array_dedup demo_lib ''{1}'' = Some [demo_row ''p'']" by code_simp
  have g: "group_rows demo_dedup 0 = [0, 2]" "length demo_dedup = 2" "fst (demo_dedup ! 0) = ''k1''"
    "length demo_cols = 1" "row_values demo_lib demo_cols (demo_row ''p'') = Inr [VStr ''p'']"
    "j_dump demo_lib (demo_row ''p'') = ''{p}''" "cells demo_chunk 0 3 = VBool True"
    by code_simp+
  from extract_array_dedup_correct [OF wf rep _ _ ch] g
  show ?thesis using ch by auto
qed

text \<open>A reply one answer short is taken for complete: the test of the overload compares with
  \<open>i + n_rows - 1\<close>, so the rows of the last group of the batch keep whatever the chunk held,
  where the other two overloads (and the failure branch) store NULL.\<close>
lemma extract_array_dedup_short_by_one:
  assumes "wf_dedup u" and "reply_array_dedup lib llm_out = Some a"
    and "n_rows = Suc (length a)" "i + n_rows \<le> length u"
    and "extract_array_dedup lib cols llm_out u i n_rows (cache, out) = Inr (cache', ch)"
    and "r \<in> set (group_rows u (i + length a))"
  shows "cells ch c r = cells out c r \<and> cache' (fst (u ! (i + length a))) = cache (fst (u ! (i + length a)))"
proof -
  have le: "i + length a \<le> length u" "n_rows \<le> Suc (length a)" using assms(3,4) by auto
  have d: "distinct (concat (map (\<lambda>k. snd (u ! k)) [i..<i + n_rows]))"
    and dk: "distinct (map (\<lambda>k. fst (u ! k)) [i..<i + n_rows])"
    by (rule wf_dedup_drop_take [OF assms(1,4)])+
  have last: "r \<in> set (snd (u ! (i + length a)))" using assms(3,4,6) by (simp add: group_rows_def)
  have "[i..<i + n_rows] = [i..<i + length a] @ [i + length a]" using assms(3) by simp
  then have "distinct (concat (map (\<lambda>k. snd (u ! k)) [i..<i + length a]) @ snd (u ! (i + length a)))"
    using d by simp
  with last have "r \<notin> set (concat (map (\<lambda>k. snd (u ! k)) [i..<i + length a]))"
    unfolding distinct_append by blast
  then have "r \<notin> set (group_rows u (i + k))" if "k < length a" for k
    using that assms(3,4) by (auto simp: group_rows_def)
  moreover have "fst (u ! (i + length a)) \<notin> (\<lambda>k. fst (u ! k)) ` {i..<i + length a}"
    using dk assms(3) by auto
  ultimately show ?thesis
    using extract_array_dedup_spec [OF assms(1,2) le assms(5)] by blast
qed

lemma extract_array_dedup_short_by_one_witness:
  "\<exists>cache' ch. extract_array_dedup demo_lib demo_cols ''{1}'' demo_dedup 0 2 (Map.empty, demo_chunk) =
       Inr (cache', ch) \<and> cells ch 0 3 = VBool True \<and> cache' ''k2'' = None"
proof -
  let ?x = "extract_array_dedup demo_lib demo_cols ''{1}'' demo_dedup 0 2 (Map.empty, demo_chunk)"
  have "\<not> isl ?x" by code_simp
  then obtain st where "?x = Inr st" using res_obtain by blast
  then obtain cache' ch where ch: "?x = Inr (cache', ch)" by (cases st) auto
  have wf: "wf_dedup demo_dedup" by code_simp
  have rep: "reply_array_dedup demo_lib ''{1}'' = Some [demo_row ''p'']" by code_simp
  have g: "group_rows demo_dedup 1 = [3]" "length demo_dedup = 2" "fst (demo_dedup ! 1) = ''k2''"
    "cells demo_chunk 0 3 = VBool True"
    by code_simp+
  from extract_array_dedup_short_by_one [OF wf rep _ _ ch, of 3 0] g
  show ?thesis using ch by simp
qed

text \<open>A batch with deduplication whose reply is not usable nulls the rows whose numbers are
  the batch's positions in the map, \<open>i .. i + n_rows - 1\<close>, and no others: neither the rows of
  the groups (unless their numbers happen to coincide) nor the cache are touched, and a row that
  another prompt already answered is overwritten if its number lies in that range.\<close>
lemma extract_array_dedup_failed:
  assumes "reply_array_dedup lib llm_out = None"
  shows "\<exists>ch. extract_array_dedup lib cols llm_out u i n_rows (cache, out) = Inr (cache, ch) \<and>
     (\<forall>r. row_at (length cols) ch r =
        (if i \<le> r \<and> r < i + n_rows then nulls cols else row_at (length cols) out r))"
proof -
  let ?ch = "write_all put_row (map (\<lambda>r. (r, nulls cols)) [i..<i + n_rows]) out"
  have "extract_array_dedup lib cols llm_out u i n_rows (cache, out) = Inr (cache, ?ch)"
    using assms by (simp add: extract_array_dedup_def fill_nulls_write_all)
  moreover have "row_at (length cols) ?ch r =
      (if i \<le> r \<and> r < i + n_rows then nulls cols else row_at (length cols) out r)" for r
  proof (cases "i \<le> r \<and> r < i + n_rows")
    case True
    then show ?thesis by (simp add: rows.write_all_const)
  next
    case False
    then have "r \<notin> fst ` set (map (\<lambda>r. (r, nulls cols :: 'a val list)) [i..<i + n_rows])" by auto
    from rows.write_all_frame [OF this] False show ?thesis by auto
  qed
  ultimately show ?thesis by blast
qed

lemma extract_array_dedup_failed_witness:
  "\<exists>ch. extract_array_dedup demo_lib demo_cols ''none'' demo_dedup 1 1 (Map.empty, demo_chunk) =
       Inr (Map.empty, ch) \<and> row_at 1 ch 1 = [VNull] \<and> row_at 1 ch 3 = [VBool True]"
proof -
  have none: "reply_array_dedup demo_lib ''none'' = None" by code_simp
  have g: "length demo_cols = 1" "nulls demo_cols = [VNull :: int val]"
    "row_at 1 demo_chunk 3 = [VBool True]" by code_simp+
  from extract_array_dedup_failed [OF none, of demo_cols demo_dedup 1 1 Map.empty demo_chunk] g
  show ?thesis by (auto dest: spec [of _ 1] spec [of _ 3])
qed

end
