(* ===== verification/Batching.thy ===== *)
theory Batching
  imports Prompt
begin

section \<open>Calls to the model: one row, one batch\<close>

text \<open>
  \<open>third_party/predictors/llm_api/llm_batching.cpp\<close>, \<open>llm_api.cpp\<close> and \<open>llm_grammar.cpp\<close>: the
  requests \<open>LlmApiPredictor\<close> sends, how it reads a completion, and how the rows of a chunk are
  cut into batches for its threads (the head of \<open>PredictChunk\<close>). The HTTP endpoint
  is a parameter: a function from the call (which batch, which row) and the request to the JSON
  completion or the exception of \<open>OpenAI::post\<close>, which is modelled on the HTTP reply. Wall-clock
  times are left out.
\<close>

subsection \<open>Completions\<close>

text \<open>Non-const \<open>operator[]\<close> with a string key: null becomes an object, a missing key a null.\<close>

definition json_at :: "'d json \<Rightarrow> string \<Rightarrow> 'd json res" where
  "json_at j k = (case j of
     JNull \<Rightarrow> Inr JNull
   | JObj kvs \<Rightarrow> Inr (case map_of kvs k of None \<Rightarrow> JNull | Some v \<Rightarrow> v)
   | _ \<Rightarrow> Inl JsonTypeError)"

definition json_int :: "'d jlib \<Rightarrow> 'd json \<Rightarrow> int res" where
  "json_int lib j = (case j of
     JInt i \<Rightarrow> Inr (to_int32 i)
   | JFloat d \<Rightarrow> Inr (j_to_int lib d)
   | JBool b \<Rightarrow> Inr (if b then 1 else 0)
   | _ \<Rightarrow> Inl JsonTypeError)"

definition usage_count :: "'d jlib \<Rightarrow> 'd json \<Rightarrow> string \<Rightarrow> int res" where
  "usage_count lib completion field =
     bindR (json_at completion ''usage'') (\<lambda>u. bindR (json_at u field) (json_int lib))"

definition json_contains :: "'d json \<Rightarrow> string \<Rightarrow> bool" where
  "json_contains j k \<longleftrightarrow> json_member j k \<noteq> None"

definition json_empty :: "'d json \<Rightarrow> bool" where
  "json_empty j = (case j of JNull \<Rightarrow> True | JArr a \<Rightarrow> a = [] | JObj kvs \<Rightarrow> kvs = [] | _ \<Rightarrow> False)"

text \<open>The values a range-based \<open>for\<close> over a JSON value visits.\<close>

definition json_items :: "'d json \<Rightarrow> 'd json list" where
  "json_items j = (case j of JNull \<Rightarrow> [] | JArr a \<Rightarrow> a | JObj kvs \<Rightarrow> map snd kvs | _ \<Rightarrow> [j])"

text \<open>\<open>ExtractContent\<close>. Reading a missing key through the const \<open>operator[]\<close> is undefined.\<close>

fun first_content :: "'d json list \<Rightarrow> string res" where
  "first_content [] = Inr []"
| "first_content (msg # msgs) =
     (case json_member msg ''message'' of
        None \<Rightarrow> first_content msgs
      | Some (JObj kvs) \<Rightarrow>
          (case map_of kvs ''content'' of
             None \<Rightarrow> Inl (Undefined ''const operator[] with a missing key'')
           | Some (JStr s) \<Rightarrow> Inr s
           | Some _ \<Rightarrow> first_content msgs)
      | Some _ \<Rightarrow> Inl JsonTypeError)"

definition extract_content :: "'d json \<Rightarrow> string res" where
  "extract_content completion =
     (case json_member completion ''choices'' of
        None \<Rightarrow> Inr []
      | Some cs \<Rightarrow> first_content (json_items cs))"

text \<open>\<open>CheckApiError\<close>: 401, 404 and connection errors (no code, or -1) throw, the rest is logged.\<close>

definition check_api_error :: "'d jlib \<Rightarrow> 'd json \<Rightarrow> unit res" where
  "check_api_error lib completion =
     bindR (case json_member completion ''code'' of None \<Rightarrow> Inr (- 1) | Some c \<Rightarrow> json_int lib c)
       (\<lambda>code. if code = 401 \<or> code = 404 \<or> code = - 1 then Inl (HTTPException code) else Inr ())"

text \<open>\<open>OpenAI::post\<close>: a failed request or status becomes an object with \<open>error\<close> and \<open>code\<close>; the
  body of a successful one is cut down to its JSON value (which may throw), and a value that does
  not parse is the null JSON.\<close>

datatype http_reply = RequestFailed string | StatusFailed string int | Body string

definition openai_post :: "'d jlib \<Rightarrow> http_reply \<Rightarrow> 'd json res" where
  "openai_post lib reply = (case reply of
     RequestFailed e \<Rightarrow> Inr (JObj [(''error'', JStr e), (''code'', JInt (- 1))])
   | StatusFailed reason status \<Rightarrow> Inr (JObj [(''error'', JStr reason), (''code'', JInt status)])
   | Body b \<Rightarrow> mapR (\<lambda>s. case j_parse lib s of None \<Rightarrow> JNull | Some j \<Rightarrow> j) (extract_json b))"

subsection \<open>Requests\<close>

function show_nat :: "nat \<Rightarrow> string" where
  "show_nat n = (if n < 10 then [char_of (48 + n)] else show_nat (n div 10) @ [char_of (48 + n mod 10)])"
  by pat_completeness auto
termination by (relation "measure id") auto

declare show_nat.simps [simp del]

definition newline :: string where "newline = [CHR 0x0A]"
definition quote :: string where "quote = [CHR 0x22]"

datatype call = BatchCall nat | RowCall nat | AggCall nat | ScanCall | JoinCall

record request =
  req_system :: string
  req_user :: string
  req_format :: string

type_synonym 'd endpoint = "call \<Rightarrow> request \<Rightarrow> 'd json res"

text \<open>\<open>GenerateGrammar\<close> (schema build): the JSON schema of one answer.\<close>

definition schema_type :: "ltype \<Rightarrow> string res" where
  "schema_type ty = (case ty of
     VARCHAR \<Rightarrow> Inr ''string'' | INTEGER \<Rightarrow> Inr ''integer'' | DOUBLE \<Rightarrow> Inr ''number''
   | BOOLEAN \<Rightarrow> Inr ''boolean'' | OTHER _ \<Rightarrow> Inl (InternalException ''Unsupported result type''))"

fun joined :: "string \<Rightarrow> string list \<Rightarrow> string" where
  "joined sep [] = []"
| "joined sep [x] = x"
| "joined sep (x # xs) = x @ sep @ joined sep xs"

definition generate_grammar :: "cols \<Rightarrow> string res" where
  "generate_grammar attrs =
     mapR (\<lambda>types.
       ''{'' @ quote @ ''type'' @ quote @ '': '' @ quote @ ''object'' @ quote @ '','' @ newline @
       quote @ ''properties'' @ quote @ '': {'' @ newline @
       joined ('','' @ newline) (map (\<lambda>((a, _), t). quote @ a @ quote @ '': { '' @ quote @ ''type'' @ quote @
          '': '' @ quote @ t @ quote @ '' }'') (zip attrs types)) @
       newline @ ''},'' @ newline @ quote @ ''required'' @ quote @ '': ['' @
       joined '', '' (map (\<lambda>(a, _). quote @ a @ quote) attrs) @ ''],'' @ newline @
       quote @ ''additionalProperties'' @ quote @ '': false'' @ newline @ ''}'')
     (traverse (\<lambda>(_, ty). schema_type ty) attrs)"

definition generate_system_message :: "string \<Rightarrow> bool \<Rightarrow> string" where
  "generate_system_message grammar is_array =
     (let suffix = ''. Do not include any extra text, explanations, language specifier, produce {<key>: <single value>} for JSON objects. The JSON must be parsable by a standard parser.'' in
      if is_array
      then ''You are a helpful assistant. Always respond **only** with valid single JSON array where each object is in format '' @ grammar @ suffix
      else ''You are a helpful assistant. Always respond **only** with valid JSON object (i.e. not an array) in format '' @ grammar @ suffix)"

definition quoted :: "string \<Rightarrow> string" where
  "quoted s = quote @ s @ quote"

definition schema_head :: string where
  "schema_head = ''{'' @ quoted ''type'' @ '':'' @ quoted ''json_schema'' @ '','' @ quoted ''json_schema'' @
     '':{'' @ quoted ''name'' @ '':'' @ quoted ''json_response'' @ '','' @ quoted ''strict'' @ '':true,''"

definition build_single_response_format :: "string \<Rightarrow> string" where
  "build_single_response_format grammar = schema_head @ quoted ''schema'' @ '':'' @ grammar @ ''}}''"

definition build_array_response_format :: "string \<Rightarrow> nat \<Rightarrow> string" where
  "build_array_response_format grammar n_rows =
     schema_head @ quoted ''schema'' @ '':{'' @ quoted ''type'' @ '':'' @ quoted ''object'' @ '','' @
     quoted ''additionalProperties'' @ '':false,'' @ quoted ''required'' @ '':['' @ quoted ''output_array'' @ ''],'' @
     quoted ''strict'' @ '':false,'' @ quoted ''properties'' @ '':{'' @ quoted ''output_array'' @ '':{'' @
     quoted ''type'' @ '':'' @ quoted ''array'' @
     (if 0 < n_rows then '','' @ quoted ''minItems'' @ '':'' @ show_nat n_rows @ '','' @
        quoted ''maxItems'' @ '':'' @ show_nat n_rows else []) @
     '','' @ quoted ''items'' @ '':'' @ grammar @ ''}}}}}''"

subsection \<open>The predictor and one call\<close>

record predictor =
  prompt :: string
  grammar :: string
  n_threads :: nat
  batch_size :: nat
  use_cache :: bool
  use_batch :: bool

text \<open>\<open>BatchResult\<close>; value-initialised, so every counter starts at zero.\<close>

record batch_result =
  tokens :: int
  in_tokens :: int
  out_tokens :: int
  frow :: nat
  n_rows :: nat
  n_calls :: nat
  is_concat :: bool
  outputs :: "string list"

definition new_result :: batch_result where
  "new_result = \<lparr>tokens = 0, in_tokens = 0, out_tokens = 0, frow = 0, n_rows = 0, n_calls = 0,
     is_concat = False, outputs = []\<rparr>"

text \<open>\<open>Success\<close> compares \<open>n_calls\<close> with the outputs or \<open>n_rows\<close> with the embeddings; a chat
  result has no embeddings.\<close>

definition success :: "batch_result \<Rightarrow> bool" where
  "success r \<longleftrightarrow> n_calls r = length (outputs r) \<or> n_rows r = 0"

definition read_usage :: "'d jlib \<Rightarrow> 'd json \<Rightarrow> (int \<times> int \<times> int) res" where
  "read_usage lib c =
     bindR (usage_count lib c ''total_tokens'') (\<lambda>t.
       bindR (usage_count lib c ''prompt_tokens'') (\<lambda>i.
         mapR (\<lambda>o'. (t, i, o')) (usage_count lib c ''completion_tokens'')))"

definition predict_one ::
    "'d jlib \<Rightarrow> 'd endpoint \<Rightarrow> predictor \<Rightarrow> string \<Rightarrow> nat \<Rightarrow> batch_result res" where
  "predict_one lib api p input row =
     (let result = new_result\<lparr>n_rows := 1, frow := row\<rparr>;
          req = \<lparr>req_system = generate_system_message (grammar p) False,
                 req_user = prompt p @ '';'' @ newline @ input,
                 req_format = build_single_response_format (grammar p)\<rparr>
      in bindR (api (RowCall row) req) (\<lambda>completion.
         if json_contains completion ''error'' then
           mapR (\<lambda>_. result\<lparr>outputs := [''{}''], is_concat := False, n_calls := 1\<rparr>)
             (check_api_error lib completion)
         else bindR (read_usage lib completion) (\<lambda>(t, i, o').
           mapR (\<lambda>llm_out.
             if llm_out \<noteq> [] then
               result\<lparr>outputs := [llm_out], tokens := t, in_tokens := i, out_tokens := o',
                 is_concat := False, n_calls := 1\<rparr>
             else result\<lparr>is_concat := False, n_calls := 1\<rparr>)
             (extract_content completion))))"

definition batch_prompt :: "predictor \<Rightarrow> string list \<Rightarrow> string" where
  "batch_prompt p rows =
     prompt p @ ''; '' @ newline @ ''Respond with a JSON object for each the following '' @
     show_nat (length rows) @ '' inputs:'' @ newline @ ''['' @
     concat (map (\<lambda>r. ''{'' @ r @ ''},'' @ newline) rows) @ '']''"

text \<open>\<open>PredictBatch\<close> with \<open>use_batch\<close>: one call for the slice of inputs; an empty or failed
  completion, or one without content, gives a result without outputs.\<close>

definition predict_batch_concat ::
    "'d jlib \<Rightarrow> 'd endpoint \<Rightarrow> predictor \<Rightarrow> string list \<Rightarrow> nat \<Rightarrow> batch_result \<Rightarrow> batch_result res" where
  "predict_batch_concat lib api p slice batch result =
     (let req = \<lparr>req_system = generate_system_message (grammar p) True,
                 req_user = batch_prompt p slice,
                 req_format = build_array_response_format (grammar p) (length slice)\<rparr>;
          failed = result\<lparr>is_concat := True, n_calls := 1\<rparr>
      in bindR (api (BatchCall batch) req) (\<lambda>completion.
         if json_empty completion then Inr failed
         else if json_contains completion ''error'' then
           mapR (\<lambda>_. failed) (check_api_error lib completion)
         else bindR (read_usage lib completion) (\<lambda>(t, i, o').
           mapR (\<lambda>llm_out.
             if llm_out \<noteq> [] then
               result\<lparr>outputs := [llm_out], tokens := t, in_tokens := i, out_tokens := o',
                 is_concat := True, n_calls := 1\<rparr>
             else failed)
             (extract_content completion))))"

text \<open>The row-wise loop: the counters add up, an output is kept only where the call succeeded.\<close>

definition add_single :: "batch_result \<Rightarrow> batch_result \<Rightarrow> batch_result" where
  "add_single s result = result\<lparr>
     tokens := tokens result + tokens s, in_tokens := in_tokens result + in_tokens s,
     out_tokens := out_tokens result + out_tokens s, n_calls := n_calls result + n_calls s,
     outputs := outputs result @ (if success s then [hd (outputs s)] else [])\<rparr>"

definition predict_batch ::
    "'d jlib \<Rightarrow> 'd endpoint \<Rightarrow> predictor \<Rightarrow> string list \<Rightarrow> nat \<Rightarrow> nat \<Rightarrow> nat \<Rightarrow> batch_result res" where
  "predict_batch lib api p input rows batch bsize =
     (let fr = batch * bsize; lr = min (fr + bsize) rows;
          result = new_result\<lparr>n_rows := lr - fr, frow := fr\<rparr>
      in if use_batch p then
           predict_batch_concat lib api p (take (lr - fr) (drop fr input)) batch result
         else mapR (\<lambda>r. r\<lparr>is_concat := False\<rparr>)
           (foldR (\<lambda>row acc. mapR (\<lambda>s. add_single s acc) (predict_one lib api p (input ! row) row))
              [fr..<lr] result))"

subsection \<open>Cutting the rows into batches\<close>

definition imp_batch_size :: "predictor \<Rightarrow> nat \<Rightarrow> nat" where
  "imp_batch_size p unprocessed =
     (if int unprocessed < int (n_threads p) * int (batch_size p) mod 18446744073709551616 \<and> n_threads p \<le> unprocessed
      then unprocessed div n_threads p + (if 0 < unprocessed mod n_threads p then 1 else 0)
      else batch_size p)"

definition num_rounds :: "nat \<Rightarrow> nat \<Rightarrow> nat res" where
  "num_rounds unprocessed imp =
     (if imp = 0 then Inl DivisionByZero
      else Inr (unprocessed div imp + (if unprocessed mod imp \<noteq> 0 then 1 else 0)))"

text \<open>
  The loop \<open>for (batch = 0; batch < rounds; batch = batch + n_threads)\<close> with the batches each
  turn launches. With no thread it never ends, so it is a partial function: \<open>None\<close> is "does
  not return".
\<close>

partial_function (option) schedule :: "nat \<Rightarrow> nat \<Rightarrow> nat \<Rightarrow> nat \<Rightarrow> nat \<Rightarrow> nat list list option" where
  "schedule threads imp unprocessed rounds batch =
     (if batch < rounds then
        Option.bind (schedule threads imp unprocessed rounds (batch + threads)) (\<lambda>gs.
          Some (takeWhile (\<lambda>b. b * imp < unprocessed) [batch..<batch + threads] # gs))
      else Some [])"

subsection \<open>The reordering of prompts\<close>

text \<open>
  \<open>ApplyOrderStrat\<close>: \<open>indices\<close> is what \<open>std::sort\<close> by descending length leaves (ties in an
  unspecified order). The loop appends an index and rotates the reversed range by one.
\<close>

definition rotate_back :: "nat list \<Rightarrow> nat list" where
  "rotate_back xs = rev (rotate1 (rev xs))"

definition reordered_indices :: "nat list \<Rightarrow> nat list" where
  "reordered_indices indices = foldl (\<lambda>acc i. rotate_back (acc @ [i])) [] indices"

definition apply_order_strat :: "nat list \<Rightarrow> string list \<Rightarrow> string list \<times> nat list" where
  "apply_order_strat indices rows =
     (map (\<lambda>i. rows ! i) (reordered_indices indices), reordered_indices indices)"

definition sorted_by_length :: "string list \<Rightarrow> nat list \<Rightarrow> bool" where
  "sorted_by_length rows indices \<longleftrightarrow> distinct indices \<and> set indices = {0..<length rows} \<and>
     sorted_wrt (\<lambda>a b. length (rows ! b) \<le> length (rows ! a)) indices"

subsection \<open>The batches cover the rows\<close>

lemma num_rounds_iff:
  assumes "num_rounds unprocessed imp = Inr rounds"
  shows "0 < imp" and "b * imp < unprocessed \<longleftrightarrow> b < rounds" and "unprocessed \<le> rounds * imp"
proof -
  from assms show imp: "0 < imp" by (auto simp: num_rounds_def split: if_splits)
  obtain q m where u: "unprocessed = q * imp + m" and m: "m < imp"
    and q: "unprocessed div imp = q" "unprocessed mod imp = m"
    using imp by (metis div_mult_mod_eq mod_less_divisor)
  have r: "rounds = q + (if m \<noteq> 0 then 1 else 0)"
    using assms imp by (simp add: num_rounds_def q)
  show le: "unprocessed \<le> rounds * imp"
    using u m r by (cases "m = 0") (simp_all add: algebra_simps)
  show "b * imp < unprocessed \<longleftrightarrow> b < rounds"
  proof
    assume "b * imp < unprocessed"
    from this le have "b * imp < rounds * imp" by (rule order.strict_trans2)
    then show "b < rounds" by simp
  next
    assume b: "b < rounds"
    show "b * imp < unprocessed"
    proof (cases "b < q")
      case True
      then have "Suc b * imp \<le> q * imp" by (intro mult_le_mono1) simp
      with imp u show ?thesis by simp
    next
      case False
      with b r have "b = q" "m \<noteq> 0" by (auto split: if_splits)
      with u show ?thesis by simp
    qed
  qed
qed

lemma takeWhile_upt: "takeWhile (\<lambda>b. b < r) [i..<i + t] = [i..<min r (i + t)]"
proof (induction t arbitrary: i)
  case (Suc t)
  have "[i..<i + Suc t] = i # [Suc i..<Suc i + t]" by (simp add: upt_conv_Cons)
  moreover have "i < r \<Longrightarrow> [i..<min r (i + Suc t)] = i # [Suc i..<min r (Suc i + t)]"
    by (subst upt_conv_Cons) auto
  ultimately show ?case using Suc [of "Suc i"] by (cases "i < r") simp_all
qed simp

lemma schedule_from:
  assumes nr: "num_rounds unprocessed imp = Inr rounds" and t: "0 < threads"
  shows "\<exists>gs. schedule threads imp unprocessed rounds batch = Some gs \<and> concat gs = [batch..<rounds] \<and>
    (\<forall>g \<in> set gs. g \<noteq> [] \<and> length g \<le> threads)"
proof (induction "rounds - batch" arbitrary: batch rule: less_induct)
  case less
  show ?case
  proof (cases "batch < rounds")
    case True
    with t have "rounds - (batch + threads) < rounds - batch" by arith
    from less [OF this] obtain gs where gs: "schedule threads imp unprocessed rounds (batch + threads) = Some gs"
      "concat gs = [batch + threads..<rounds]" "\<forall>g \<in> set gs. g \<noteq> [] \<and> length g \<le> threads" by blast
    let ?g = "takeWhile (\<lambda>b. b * imp < unprocessed) [batch..<batch + threads]"
    have g: "?g = [batch..<min rounds (batch + threads)]"
      using takeWhile_upt [of rounds batch threads] by (simp add: num_rounds_iff(2) [OF nr])
    have "?g @ [batch + threads..<rounds] = [batch..<rounds]"
    proof (cases "batch + threads \<le> rounds")
      case True
      then show ?thesis unfolding g
        by (metis le_add1 le_iff_add min.absorb2 upt_add_eq_append)
    qed (simp add: g)
    with gs g True t show ?thesis
      by (subst schedule.simps) auto
  qed (simp add: schedule.simps)
qed

text \<open>C22: with at least one thread and a positive batch size the loop over the batches returns, and
  the batches it launches are exactly \<open>0 .. rounds - 1\<close>, in order, at most \<open>n_threads\<close> at a time
  and never an empty group.\<close>
theorem schedule_covers:
  assumes "num_rounds unprocessed imp = Inr rounds" and "0 < threads"
  shows "\<exists>gs. schedule threads imp unprocessed rounds 0 = Some gs \<and> concat gs = [0..<rounds] \<and>
    (\<forall>g \<in> set gs. g \<noteq> [] \<and> length g \<le> threads)"
  using schedule_from [OF assms, of 0] .

theorem schedule_covers_witness:
  "num_rounds 7 2 = Inr 4 \<and> (\<exists>gs. schedule 3 2 7 4 0 = Some gs \<and> concat gs = [0, 1, 2, 3])"
proof -
  have n: "num_rounds 7 2 = Inr 4" by (simp add: num_rounds_def)
  have u: "[0..<4] = [0, 1, 2, 3 :: nat]" by code_simp
  from schedule_covers [OF n, of 3] n u show ?thesis by auto
qed

text \<open>With no thread and at least one row to send, the loop does not return.\<close>

lemma schedule_diverges: "0 < rounds \<Longrightarrow> schedule 0 imp unprocessed rounds 0 = None"
proof (rule ccontr)
  assume r: "0 < rounds" and "schedule 0 imp unprocessed rounds 0 \<noteq> None"
  then obtain gs where gs: "schedule 0 imp unprocessed rounds 0 = Some gs" by blast
  have "\<not> (t = 0 \<and> b < rounds')" if "schedule t i u rounds' b = Some gs'" for t i u rounds' b gs'
  proof (rule schedule.raw_induct [where P = "\<lambda>t i u r b _. \<not> (t = 0 \<and> b < r)", OF _ that])
    fix f t i u r b gs
    assume IH: "\<And>t i u r b gs. f t i u r b = Some gs \<Longrightarrow> \<not> (t = 0 \<and> b < r)"
      and eq: "(if b < r then Option.bind (f t i u r (b + t)) (\<lambda>gs.
          Some (takeWhile (\<lambda>b. b * i < u) [b..<b + t] # gs)) else Some []) = Some gs"
    show "\<not> (t = 0 \<and> b < r)"
    proof
      assume tb: "t = 0 \<and> b < r"
      with eq obtain gs' where "f t i u r (b + t) = Some gs'"
        by (cases "f t i u r (b + t)") auto
      from IH [OF this] tb show False by simp
    qed
  qed
  from this [OF gs] r show False by simp
qed

lemma wrapped_less: "int u < int t * int b mod m \<Longrightarrow> u < t * b"
proof -
  have "int t * int b mod m \<le> int t * int b" if "0 < m" using that by (intro zmod_le_nonneg_dividend) simp
  moreover have "int t * int b mod m \<le> int t * int b" if "m \<le> 0"
    using that by (cases "m = 0") (auto simp: not_less intro: order_trans [OF neg_mod_sign])
  ultimately show "int u < int t * int b mod m \<Longrightarrow> u < t * b"
    by (metis linorder_not_less of_nat_less_iff of_nat_mult order_less_le_trans)
qed

lemma imp_batch_size_le: "imp_batch_size p u \<le> batch_size p"
proof (cases "int u < int (n_threads p) * int (batch_size p) mod 18446744073709551616 \<and> n_threads p \<le> u")
  case True
  let ?t = "n_threads p" and ?b = "batch_size p"
  have less: "u < ?t * ?b" using True wrapped_less by blast
  then have t: "0 < ?t" by (cases "?t") auto
  have u: "u = u div ?t * ?t + u mod ?t" by simp
  have d: "u div ?t < ?b"
    using less t by (simp add: div_less_iff_less_mult mult.commute)
  show ?thesis using True d by (simp add: imp_batch_size_def)
qed (auto simp: imp_batch_size_def)

lemma imp_batch_size_pos: "0 < batch_size p \<Longrightarrow> 0 < imp_batch_size p u"
proof (cases "int u < int (n_threads p) * int (batch_size p) mod 18446744073709551616 \<and> n_threads p \<le> u")
  case True
  then have "u < n_threads p * batch_size p" using wrapped_less by blast
  then have "0 < n_threads p" by (cases "n_threads p") auto
  with True have "0 < u div n_threads p" by (simp add: div_greater_zero_iff)
  with True show "0 < batch_size p \<Longrightarrow> ?thesis" by (simp add: imp_batch_size_def)
qed (auto simp: imp_batch_size_def)

text \<open>For every batch size and number of threads that are positive, the slices
  \<open>[frow, lrow)\<close> of the batches partition the rows to send: concatenated in order they are
  \<open>0 .. n - 1\<close>, and each holds between one row and \<open>batch_size\<close> rows.\<close>
lemma batches_partition_rows:
  assumes "0 < batch_size p" and "imp = imp_batch_size p n"
  shows "\<exists>rounds. num_rounds n imp = Inr rounds \<and>
    concat (map (\<lambda>b. [b * imp..<min (b * imp + imp) n]) [0..<rounds]) = [0..<n] \<and>
    (\<forall>b < rounds. 0 < min (b * imp + imp) n - b * imp \<and> min (b * imp + imp) n - b * imp \<le> batch_size p)"
proof -
  have imp: "0 < imp" "imp \<le> batch_size p"
    using assms imp_batch_size_pos imp_batch_size_le by auto
  then obtain rounds where r: "num_rounds n imp = Inr rounds" by (simp add: num_rounds_def)
  have "0 < min (b * imp + imp) n - b * imp" if "b < rounds" for b
    using num_rounds_iff(2) [OF r, of b] that imp by simp
  moreover have "min (b * imp + imp) n - b * imp \<le> batch_size p" for b using imp by simp
  ultimately show ?thesis
    using r concat_upt_blocks [OF num_rounds_iff(3) [OF r]] by blast
qed

definition demo_predictor :: predictor where
  "demo_predictor = \<lparr>prompt = ''p'', grammar = ''{}'', n_threads = 2, batch_size = 2,
     use_cache = False, use_batch = True\<rparr>"

lemma batches_partition_rows_witness:
  "imp_batch_size demo_predictor 3 = 2 \<and>
   concat (map (\<lambda>b. [b * 2..<min (b * 2 + 2) 3]) [0..<2]) = [0, 1, 2 :: nat]"
proof -
  have imp: "2 = imp_batch_size demo_predictor 3" and bs: "0 < batch_size demo_predictor"
    by code_simp+
  have nr: "num_rounds 3 2 = Inr 2" and u: "[0..<3] = [0, 1, 2 :: nat]" by code_simp+
  from batches_partition_rows [OF bs imp] nr u imp show ?thesis by auto
qed

subsection \<open>The reordering reverses\<close>

lemma rotate_back_snoc: "rotate_back (xs @ [x]) = x # xs"
  by (simp add: rotate_back_def)

lemma reordered_indices_rev: "reordered_indices indices = rev indices"
proof -
  have "foldl (\<lambda>acc i. rotate_back (acc @ [i])) acc indices = rev indices @ acc" for acc
    by (induction indices arbitrary: acc) (simp_all add: rotate_back_snoc)
  then show ?thesis by (simp add: reordered_indices_def)
qed

text \<open>\<open>ApplyOrderStrat\<close> gives a permutation of the rows with the map back to their original
  positions; the rotation by one makes it the reverse of the sort, that is, ascending length (the
  comment speaks of a rotation by the batch size that deals rows out to the batches).\<close>
lemma apply_order_strat_permutes:
  assumes "sorted_by_length rows indices" and "apply_order_strat indices rows = (reordered, orig_order)"
  shows "length reordered = length rows \<and> distinct orig_order \<and> set orig_order = {0..<length rows} \<and>
    (\<forall>i < length rows. reordered ! i = rows ! (orig_order ! i)) \<and>
    sorted (map length reordered)"
proof -
  from assms have ro: "reordered = map (\<lambda>i. rows ! i) (rev indices)" and oo: "orig_order = rev indices"
    and d: "distinct indices" and st: "set indices = {0..<length rows}"
    and w: "sorted_wrt (\<lambda>a b. length (rows ! b) \<le> length (rows ! a)) indices"
    by (auto simp: apply_order_strat_def reordered_indices_rev sorted_by_length_def)
  have len: "length indices = length rows"
    using d st by (metis card_atLeastLessThan diff_zero distinct_card)
  have "sorted_wrt (\<lambda>a b. length (rows ! a) \<le> length (rows ! b)) (rev indices)"
    using w by (simp add: sorted_wrt_rev)
  then have "sorted (map length reordered)"
    by (simp add: ro sorted_wrt_map)
  with ro oo d st len show ?thesis by simp
qed

lemma apply_order_strat_permutes_witness:
  "apply_order_strat [2, 0, 1] [''bb'', ''a'', ''ccc''] = ([''a'', ''bb'', ''ccc''], [1, 0, 2]) \<and>
   sorted (map length [''a'', ''bb'', ''ccc''])"
proof -
  have s: "sorted_by_length [''bb'', ''a'', ''ccc''] [2, 0, 1]"
    by (auto simp: sorted_by_length_def)
  have a: "apply_order_strat [2, 0, 1] [''bb'', ''a'', ''ccc''] = ([''a'', ''bb'', ''ccc''], [1, 0, 2])"
    by code_simp
  from apply_order_strat_permutes [OF s a] a show ?thesis by simp
qed

subsection \<open>Row-wise results\<close>

text \<open>C25: a successful HTTP reply whose bracketed text is not JSON. \<open>post\<close> returns null; a batch
  survives that and reports failure, but a row-wise call reads the usage counters of null and
  throws a type error that no handler of the predictor catches. A body without any bracket makes
  both throw.\<close>
theorem unparsable_reply_handling:
  assumes row: "\<And>req. api (RowCall row) req = openai_post lib (Body body)"
    and batch: "\<And>req. api (BatchCall b) req = openai_post lib (Body body)"
    and json: "\<And>s. extract_json body = Inr s \<Longrightarrow> j_parse lib s = None" and p: "use_batch p"
  shows "case extract_json body of
      Inl e \<Rightarrow> predict_one lib api p input row = Inl e \<and> predict_batch lib api p inputs n b sz = Inl e
    | Inr _ \<Rightarrow> predict_one lib api p input row = Inl JsonTypeError \<and>
        (\<exists>r. predict_batch lib api p inputs n b sz = Inr r \<and> outputs r = [] \<and> n_calls r = 1 \<and> is_concat r)"
  using json p
  by (auto simp: row batch openai_post_def predict_one_def json_contains_def json_member_def
      read_usage_def usage_count_def json_at_def json_int_def predict_batch_def
      predict_batch_concat_def json_empty_def new_result_def Let_def split: sum.splits)

theorem unparsable_reply_handling_witness:
  "predict_one demo_lib (\<lambda>_ _. openai_post demo_lib (Body ''{?}'')) demo_predictor ''x'' 0 = Inl JsonTypeError"
proof -
  have b: "use_batch demo_predictor" "extract_json ''{?}'' = Inr ''{?}''" "j_parse demo_lib ''{?}'' = None"
    by code_simp+
  then have "\<And>s. extract_json ''{?}'' = Inr s \<Longrightarrow> j_parse demo_lib s = None" by simp
  from unparsable_reply_handling [of "\<lambda>_ _. openai_post demo_lib (Body ''{?}'')" 0 demo_lib "''{?}''" 0,
      OF refl refl this b(1)] b(2)
  show ?thesis by simp
qed

end
