(* ===== verification/Predictor.thy ===== *)
theory Predictor
  imports Batching
begin

section \<open>Predicting a chunk: PredictChunk\<close>

text \<open>
  \<open>third_party/predictors/llm_api/llm_predict.cpp\<close>, \<open>LlmApiPredictor::PredictChunk\<close> for a chat
  model in the build the header selects (threads on, clustering off): rows whose prompt is
  cached are answered from the cache, the others are grouped by prompt (with \<open>use_cache\<close>) or
  listed (without), sent in batches, distributed over the result chunk, and batches without an
  answer are retried row by row. The futures of a group only read the list of prompts, so
  running them is modelled by their results in the order they are collected.
\<close>

subsection \<open>The ordered map from prompts to rows\<close>

text \<open>\<open>std::string\<close> order: lexicographic on unsigned character codes.\<close>

fun str_less :: "string \<Rightarrow> string \<Rightarrow> bool" where
  "str_less [] [] = False"
| "str_less [] (_ # _) = True"
| "str_less (_ # _) [] = False"
| "str_less (a # as) (b # bs) =
     (char_code a < char_code b \<or> (a = b \<and> str_less as bs))"

text \<open>\<open>tuple_id_map[key].push_back(row)\<close> on a \<open>std::map\<close> kept as its pairs in key order.\<close>

fun map_push :: "string \<Rightarrow> nat \<Rightarrow> dedup \<Rightarrow> dedup" where
  "map_push key row [] = [(key, [row])]"
| "map_push key row ((k, rows) # m) =
     (if key = k then (k, rows @ [row]) # m
      else if str_less key k then (key, [row]) # (k, rows) # m
      else (k, rows) # map_push key row m)"

subsection \<open>Sorting the rows out\<close>

record 'd pstate =
  result :: "'d chunk"
  cache :: "string \<rightharpoonup> string"
  tuple_id_map :: dedup
  unprocessed :: "string list"
  batch_fails :: "nat list"
  total_calls :: nat
  total_tokens :: int

definition classify_row ::
    "'d jlib \<Rightarrow> predictor \<Rightarrow> pinfo \<Rightarrow> input \<Rightarrow> nat \<Rightarrow> 'd pstate \<Rightarrow> 'd pstate res" where
  "classify_row lib p info inp i st =
     bindR (embed_prompt i inp info True) (\<lambda>embedded.
      case (use_cache p, cache st embedded) of
        (True, Some hit) \<Rightarrow>
          mapR (\<lambda>ch. st\<lparr>result := ch\<rparr>) (extract_row_data lib (result_set info) hit i (result st))
      | (True, None) \<Rightarrow> Inr (st\<lparr>tuple_id_map := map_push embedded i (tuple_id_map st)\<rparr>)
      | (False, _) \<Rightarrow> Inr (st\<lparr>unprocessed := unprocessed st @ [embedded]\<rparr>))"

definition classify_rows ::
    "'d jlib \<Rightarrow> predictor \<Rightarrow> pinfo \<Rightarrow> input \<Rightarrow> nat \<Rightarrow> 'd pstate \<Rightarrow> 'd pstate res" where
  "classify_rows lib p info inp rows st =
     mapR (\<lambda>st. if use_cache p then st\<lparr>unprocessed := map fst (tuple_id_map st)\<rparr> else st)
       (foldR (classify_row lib p info inp) [0..<rows] st)"

subsection \<open>One answer, one batch result\<close>

definition propagate_single_result ::
    "'d jlib \<Rightarrow> predictor \<Rightarrow> pinfo \<Rightarrow> string \<Rightarrow> nat \<Rightarrow> 'd pstate \<Rightarrow> 'd pstate res" where
  "propagate_single_result lib p info llm_out idx st =
     (if use_cache p then
        (if idx < length (tuple_id_map st) then
           (let (key, tuple_ids) = tuple_id_map st ! idx;
                st = st\<lparr>cache := (cache st)(key \<mapsto> llm_out)\<rparr>
            in foldR (\<lambda>tid st. mapR (\<lambda>ch. st\<lparr>result := ch\<rparr>)
                 (extract_row_data lib (result_set info) llm_out tid (result st))) tuple_ids st)
         else Inl (Undefined ''std::next past the end of the map''))
      else mapR (\<lambda>ch. st\<lparr>result := ch\<rparr>)
             (extract_row_data lib (result_set info) llm_out idx (result st)))"

definition count_result :: "batch_result \<Rightarrow> 'd pstate \<Rightarrow> 'd pstate" where
  "count_result r st = st\<lparr>total_calls := total_calls st + n_calls r,
     total_tokens := total_tokens st + tokens r\<rparr>"

definition process_result ::
    "'d jlib \<Rightarrow> predictor \<Rightarrow> pinfo \<Rightarrow> batch_result \<Rightarrow> 'd pstate \<Rightarrow> 'd pstate res" where
  "process_result lib p info r st0 =
     (let st = count_result r st0 in
      if is_concat r then
        (if \<not> success r then
           Inr (st\<lparr>batch_fails := batch_fails st @ [frow r..<frow r + n_rows r]\<rparr>)
         else if use_cache p then
           mapR (\<lambda>(c, ch). st\<lparr>cache := c, result := ch\<rparr>)
             (extract_array_dedup lib (result_set info) (hd (outputs r)) (tuple_id_map st)
                (frow r) (n_rows r) (cache st, result st))
         else
           mapR (\<lambda>ch. st\<lparr>result := ch\<rparr>)
             (extract_array_rows lib (result_set info) (hd (outputs r)) [frow r..<frow r + n_rows r]
                (result st) (n_rows r)))
      else
        foldR (\<lambda>i st. if i < length (outputs r)
                 then propagate_single_result lib p info (outputs r ! i) (frow r + i) st
                 else Inl (Undefined ''outputs[i] past the end''))
          [0..<n_rows r] st)"

definition retry_row ::
    "'d jlib \<Rightarrow> 'd endpoint \<Rightarrow> predictor \<Rightarrow> pinfo \<Rightarrow> nat \<Rightarrow> 'd pstate \<Rightarrow> 'd pstate res" where
  "retry_row lib api p info real_row st =
     bindR (predict_one lib api p (unprocessed st ! real_row) real_row) (\<lambda>r.
       let st = count_result r st in
       if success r then propagate_single_result lib p info (hd (outputs r)) (frow r) st
       else Inr st)"

subsection \<open>The whole chunk\<close>

definition run_batch ::
    "'d jlib \<Rightarrow> 'd endpoint \<Rightarrow> predictor \<Rightarrow> pinfo \<Rightarrow> nat \<Rightarrow> nat \<Rightarrow> 'd pstate \<Rightarrow> 'd pstate res" where
  "run_batch lib api p info imp b st =
     bindR (predict_batch lib api p (unprocessed st) (length (unprocessed st)) b imp)
       (\<lambda>r. process_result lib p info r st)"

text \<open>\<open>None\<close>: the call does not return (no thread, see \<open>schedule\<close>). The retries run in groups
  of \<open>n_threads\<close> in the order of \<open>batch_fails\<close>.\<close>

definition run_batches ::
    "'d jlib \<Rightarrow> 'd endpoint \<Rightarrow> predictor \<Rightarrow> pinfo \<Rightarrow> 'd pstate \<Rightarrow> 'd pstate res option" where
  "run_batches lib api p info st =
     (let n = length (unprocessed st); imp = imp_batch_size p n in
      case num_rounds n imp of
        Inl e \<Rightarrow> Some (Inl e)
      | Inr rounds \<Rightarrow>
          map_option (\<lambda>groups.
            bindR (foldR (run_batch lib api p info imp) (concat groups) st)
              (\<lambda>st. foldR (retry_row lib api p info) (batch_fails st) st))
            (schedule (n_threads p) imp n rounds 0))"

definition predict_chunk ::
    "'d jlib \<Rightarrow> 'd endpoint \<Rightarrow> predictor \<Rightarrow> pinfo \<Rightarrow> input \<Rightarrow> nat \<Rightarrow> 'd chunk \<Rightarrow> (string \<rightharpoonup> string)
       \<Rightarrow> 'd pstate res option" where
  "predict_chunk lib api p info inp rows out cache0 =
     (case classify_rows lib p info inp rows
        \<lparr>result = out, cache = cache0, tuple_id_map = [], unprocessed = [], batch_fails = [],
         total_calls = 0, total_tokens = 0\<rparr> of
        Inl e \<Rightarrow> Some (Inl e)
      | Inr st \<Rightarrow> run_batches lib api p info st)"

subsection \<open>The ordered map as a multimap\<close>

text \<open>What grouping needs of the map: a push appends to the key's list and keeps the others.\<close>

locale multimap =
  fixes push :: "'k \<Rightarrow> 'v \<Rightarrow> 'm \<Rightarrow> 'm"
    and lookup :: "'m \<Rightarrow> 'k \<Rightarrow> 'v list"
    and keys :: "'m \<Rightarrow> 'k set"
    and invar :: "'m \<Rightarrow> bool"
  assumes lookup_push: "invar m \<Longrightarrow> lookup (push k v m) k' = lookup m k' @ (if k' = k then [v] else [])"
    and keys_push: "invar m \<Longrightarrow> keys (push k v m) = insert k (keys m)"
    and invar_push: "invar m \<Longrightarrow> invar (push k v m)"
begin

lemma grouping:
  assumes "invar m"
  shows "invar (fold (\<lambda>i. push (f i) (g i)) xs m) \<and>
    keys (fold (\<lambda>i. push (f i) (g i)) xs m) = keys m \<union> f ` set xs \<and>
    lookup (fold (\<lambda>i. push (f i) (g i)) xs m) k = lookup m k @ map g (filter (\<lambda>i. f i = k) xs)"
  using assms
  by (induction xs arbitrary: m) (auto simp: lookup_push keys_push invar_push)

end

lemma char_code_inj: "char_code a = char_code b \<longleftrightarrow> a = b"
  by (simp add: char_code_def)

lemma str_less_irrefl [simp]: "\<not> str_less a a"
  by (induction a) simp_all

lemma str_less_trans: "str_less a b \<Longrightarrow> str_less b c \<Longrightarrow> str_less a c"
proof (induction a b arbitrary: c rule: str_less.induct)
  case (4 a as b bs)
  then show ?case by (cases c) auto
next
  case (2 x xs)
  then show ?case by (cases c) auto
qed auto

lemma str_less_total: "a \<noteq> b \<Longrightarrow> str_less a b \<or> str_less b a"
  by (induction a b rule: str_less.induct) (auto simp: char_code_inj dest: linorder_neqE_nat)

definition sorted_keys :: "dedup \<Rightarrow> bool" where
  "sorted_keys m \<longleftrightarrow> sorted_wrt (\<lambda>p q. str_less (fst p) (fst q)) m"

definition group_lookup :: "dedup \<Rightarrow> string \<Rightarrow> nat list" where
  "group_lookup m k = (case map_of m k of None \<Rightarrow> [] | Some rows \<Rightarrow> rows)"

definition dedup_keys :: "dedup \<Rightarrow> string set" where
  "dedup_keys m = set (map fst m)"

lemma dedup_keys_simps [simp]:
  "dedup_keys [] = {}" "dedup_keys (p # m) = insert (fst p) (dedup_keys m)"
  by (simp_all add: dedup_keys_def)

lemma keys_map_push: "dedup_keys (map_push key row m) = insert key (dedup_keys m)"
  by (induction key row m rule: map_push.induct) auto

lemma sorted_keys_Cons:
  "sorted_keys (p # m) \<longleftrightarrow> (\<forall>k \<in> dedup_keys m. str_less (fst p) k) \<and> sorted_keys m"
  by (auto simp: sorted_keys_def dedup_keys_def)

lemma sorted_map_push: "sorted_keys m \<Longrightarrow> sorted_keys (map_push key row m)"
proof (induction key row m rule: map_push.induct)
  case (1 key row)
  then show ?case by (simp add: sorted_keys_def)
next
  case (2 key row k rows m)
  then show ?case
    using str_less_total [of key k]
    by (auto simp: sorted_keys_Cons keys_map_push intro: str_less_trans)
qed

lemma group_lookup_Cons:
  "group_lookup ((k, rows) # m) k' = (if k' = k then rows else group_lookup m k')"
  by (simp add: group_lookup_def)

lemma group_lookup_none: "k \<notin> dedup_keys m \<Longrightarrow> group_lookup m k = []"
  using map_of_eq_None_iff [of m k] by (simp add: group_lookup_def dedup_keys_def)

lemma lookup_map_push:
  "sorted_keys m \<Longrightarrow>
     group_lookup (map_push key row m) k = group_lookup m k @ (if k = key then [row] else [])"
proof (induction key row m rule: map_push.induct)
  case (1 key row)
  then show ?case by (simp add: group_lookup_def)
next
  case (2 key row k' rows m)
  have "str_less key k' \<Longrightarrow> key \<notin> dedup_keys m"
    using "2.prems" by (auto simp: sorted_keys_Cons dest: str_less_trans)
  then show ?case
    using 2 by (auto simp: group_lookup_Cons sorted_keys_Cons group_lookup_none)
qed

interpretation tuples: multimap map_push group_lookup dedup_keys sorted_keys
  by unfold_locales (simp_all add: lookup_map_push keys_map_push sorted_map_push)

lemma sorted_keys_distinct: "sorted_keys m \<Longrightarrow> distinct (map fst m)"
proof (induction m)
  case (Cons p m)
  then show ?case by (auto simp: sorted_keys_Cons dedup_keys_def)
qed simp

lemma group_lookup_nth:
  "sorted_keys m \<Longrightarrow> k < length m \<Longrightarrow> group_lookup m (fst (m ! k)) = snd (m ! k)"
  using map_of_is_SomeI [OF sorted_keys_distinct, of m "fst (m ! k)" "snd (m ! k)"]
  by (simp add: group_lookup_def)

subsection \<open>Batches without deduplication\<close>

abbreviation initial_state :: "'d chunk \<Rightarrow> (string \<rightharpoonup> string) \<Rightarrow> 'd pstate" where
  "initial_state out cache0 \<equiv> \<lparr>result = out, cache = cache0, tuple_id_map = [], unprocessed = [],
     batch_fails = [], total_calls = 0, total_tokens = 0\<rparr>"

lemma classify_plain:
  "\<not> use_cache p \<Longrightarrow> length (input_mask info) \<le> length (input_set_names info) \<Longrightarrow> foldR (classify_row lib p info inp) rs st =
     Inr (st\<lparr>unprocessed := unprocessed st @ map (\<lambda>i. prompt_text i inp info True) rs\<rparr>)"
proof (induction rs arbitrary: st)
  case (Cons i rs)
  have "classify_row lib p info inp i st =
      Inr (st\<lparr>unprocessed := unprocessed st @ [prompt_text i inp info True]\<rparr>)"
    using Cons.prems
    by (cases "cache st (prompt_text i inp info True)") (simp_all add: classify_row_def embed_prompt_text)
  with Cons show ?case by simp
qed simp

text \<open>A chunk of a prediction that has input columns without names, as one whose prompt names none has, throws.\<close>

lemma unnamed_columns_throw:
  assumes "length (input_set_names info) < length (input_mask info)" "0 < rows"
  shows "predict_chunk lib api p info inp rows out cache0 = Some (Inl no_name)"
proof -
  have "[0..<rows] = 0 # [1..<rows]" using assms(2) by (simp add: upt_conv_Cons)
  then show ?thesis using assms(1) by (simp add: predict_chunk_def classify_rows_def classify_row_def embed_prompt_text)
qed

lemma predict_batch_fields:
  assumes "use_batch p" "predict_batch lib api p prompts n b imp = Inr r"
  shows "frow r = b * imp \<and> n_rows r = min (b * imp + imp) n - b * imp \<and> is_concat r \<and> n_calls r = 1"
  using assms
  by (auto simp: predict_batch_def predict_batch_concat_def new_result_def Let_def bindR_Inr_iff
      mapR_Inr_iff split: if_splits)

lemma count_result_simps [simp]:
  "result (count_result r st) = result st" "cache (count_result r st) = cache st"
  "tuple_id_map (count_result r st) = tuple_id_map st" "unprocessed (count_result r st) = unprocessed st"
  "batch_fails (count_result r st) = batch_fails st"
  "total_calls (count_result r st) = total_calls st + n_calls r"
  by (simp_all add: count_result_def)

text \<open>What \<open>n\<close> answered or failed batches leave, \<open>ok i\<close> telling whether the batch of row \<open>i\<close>
  was answered and \<open>vals i\<close> the row its answer stands for.\<close>

lemma run_batches_any:
  assumes p: "\<not> use_cache p" "use_batch p" and nr: "num_rounds n imp = Inr rounds"
    and batches: "\<And>b. b < rounds \<Longrightarrow> predict_batch lib api p prompts n b imp = Inr (r b)"
    and fits: "\<And>i. i < n \<Longrightarrow> success (r (i div imp)) \<Longrightarrow> answer_row lib (result_set info)
      (reply_array lib (hd (outputs (r (i div imp))))) (i mod imp) = Inr (vals i)"
    and st: "unprocessed st = prompts" "n = length prompts" and k: "k \<le> rounds"
  shows "\<exists>s. foldR (run_batch lib api p info imp) [0..<k] st = Inr s \<and>
    unprocessed s = prompts \<and> cache s = cache st \<and> total_calls s = total_calls st + k \<and>
    batch_fails s = batch_fails st @ filter (\<lambda>i. \<not> success (r (i div imp))) [0..<min (k * imp) n] \<and>
    (\<forall>i < min (k * imp) n. success (r (i div imp)) \<longrightarrow>
       row_at (length (result_set info)) (result s) i = vals i) \<and>
    (\<forall>i. min (k * imp) n \<le> i \<or> \<not> success (r (i div imp)) \<longrightarrow>
       (\<forall>c. cells (result s) c i = cells (result st) c i))"
  using k
proof (induction k)
  case 0
  then show ?case using st by simp
next
  case (Suc k)
  let ?cols = "result_set info" and ?bad = "\<lambda>i. \<not> success (r (i div imp))"
  from Suc obtain s where s: "foldR (run_batch lib api p info imp) [0..<k] st = Inr s"
    and un: "unprocessed s = prompts" and cs: "cache s = cache st" "total_calls s = total_calls st + k"
    and bf: "batch_fails s = batch_fails st @ filter ?bad [0..<min (k * imp) n]"
    and dn: "\<And>i. i < min (k * imp) n \<Longrightarrow> \<not> ?bad i \<Longrightarrow> row_at (length ?cols) (result s) i = vals i"
    and fr: "\<And>i c. min (k * imp) n \<le> i \<or> ?bad i \<Longrightarrow> cells (result s) c i = cells (result st) c i"
    by auto
  note imp = num_rounds_iff(1) [OF nr]
  from num_rounds_iff(2) [OF nr, of k] Suc.prems have lt: "k * imp < n" by simp
  obtain m where m: "m = min (k * imp + imp) n - k * imp" by blast
  have K: "min (k * imp) n = k * imp" "min (Suc k * imp) n = k * imp + m" using lt m by auto
  have blk: "(k * imp + j) div imp = k" "(k * imp + j) mod imp = j" "k * imp + j < n" if "j < m" for j
    using that m imp by (auto simp: less_diff_conv)
  have upt: "[0..<k * imp + m] = [0..<k * imp] @ [k * imp..<k * imp + m]" by (rule upt_add_eq_append) simp
  have in_blk: "i div imp = k" if "k * imp \<le> i" "i < k * imp + m" for i
    using blk(1) [of "i - k * imp"] that by auto
  have r: "predict_batch lib api p prompts n k imp = Inr (r k)" using batches Suc.prems by simp
  note f = predict_batch_fields [OF p(2) r]
  show ?case
  proof (cases "success (r k)")
    case False
    let ?s = "(count_result (r k) s)\<lparr>batch_fails := batch_fails s @ [k * imp..<k * imp + m]\<rparr>"
    have "run_batch lib api p info imp k s = Inr ?s"
      using r f p st(2) un False m by (simp add: run_batch_def process_result_def Let_def)
    moreover have "filter ?bad [k * imp..<k * imp + m] = [k * imp..<k * imp + m]"
      using False in_blk by simp
    moreover have "\<And>i. i < k * imp + m \<Longrightarrow> \<not> ?bad i \<Longrightarrow> i < k * imp"
      using False in_blk by (metis not_le)
    ultimately show ?thesis
      using s un cs bf dn fr f K upt by (auto simp: foldR_append)
  next
    case True
    let ?ans = "answer_row lib ?cols (reply_array lib (hd (outputs (r k))))"
    have vals: "?ans j = Inr (vals (k * imp + j))" if "j < m" for j
      using fits [of "k * imp + j"] blk [OF that] True by simp
    then have "traverse ?ans [0..<m] = Inr (map (\<lambda>j. vals (k * imp + j)) [0..<m])"
      by (simp add: traverse_Inr_iff)
    then obtain ch where
      ch: "extract_array_rows lib ?cols (hd (outputs (r k))) [k * imp..<k * imp + m] (result s) m = Inr ch"
      by (simp add: extract_array_rows_write_all)
    have step: "run_batch lib api p info imp k s = Inr ((count_result (r k) s)\<lparr>result := ch\<rparr>)"
      using r f p st(2) un True m ch by (simp add: run_batch_def process_result_def Let_def)
    have "distinct [k * imp..<k * imp + m]" "length [k * imp..<k * imp + m] = m" by simp_all
    note sp = extract_array_rows_spec [OF ch this]
    have new: "row_at (length ?cols) ch (k * imp + j) = vals (k * imp + j)" if "j < m" for j
      using sp vals [OF that] that by auto
    have keep: "cells ch c i = cells (result s) c i" if "i \<notin> {k * imp..<k * imp + m}" for i c
      using sp that by auto
    have rows: "row_at (length ?cols) ch i = vals i" if i: "i < k * imp + m" "\<not> ?bad i" for i
    proof (cases "i < k * imp")
      case True
      then show ?thesis using keep dn [of i] i K by (simp add: row_at_def)
    next
      case False
      then show ?thesis using new [of "i - k * imp"] i by simp
    qed
    have rest: "cells ch c i = cells (result st) c i" if i: "k * imp + m \<le> i \<or> ?bad i" for i c
    proof -
      have "i \<notin> {k * imp..<k * imp + m}" using i in_blk True by auto
      moreover have "k * imp \<le> i \<or> ?bad i" using i by auto
      ultimately show ?thesis using keep fr K by simp
    qed
    have none: "filter ?bad [k * imp..<k * imp + m] = []"
      using True in_blk by (simp add: filter_empty_conv)
    from s step have "foldR (run_batch lib api p info imp) [0..<Suc k] st =
        Inr ((count_result (r k) s)\<lparr>result := ch\<rparr>)" by (simp add: foldR_append)
    then show ?thesis
      unfolding K(2) upt using un cs bf f none rows rest K(1) by simp
  qed
qed

lemma predict_one_fields:
  "predict_one lib api p input row = Inr r \<Longrightarrow> frow r = row \<and> n_rows r = 1 \<and> n_calls r = 1 \<and> \<not> is_concat r"
  by (auto simp: predict_one_def new_result_def Let_def bindR_Inr_iff mapR_Inr_iff split: if_splits)

lemma retry_rows_any:
  assumes p: "\<not> use_cache p"
    and singles: "\<And>i. i \<in> set rs \<Longrightarrow> predict_one lib api p (prompts ! i) i = Inr (s i)"
    and fits: "\<And>i. i \<in> set rs \<Longrightarrow> success (s i) \<Longrightarrow>
      text_row lib (result_set info) (hd (outputs (s i))) = Inr (vals i)"
    and st: "unprocessed st = prompts" and d: "distinct rs"
  shows "\<exists>st'. foldR (retry_row lib api p info) rs st = Inr st' \<and> cache st' = cache st \<and>
    total_calls st' = total_calls st + length rs \<and>
    (\<forall>i \<in> set rs. success (s i) \<longrightarrow> row_at (length (result_set info)) (result st') i = vals i) \<and>
    (\<forall>i. i \<notin> set rs \<or> \<not> success (s i) \<longrightarrow> (\<forall>c. cells (result st') c i = cells (result st) c i))"
  using singles fits st d
proof (induction rs arbitrary: st)
  case (Cons i rs)
  let ?cols = "result_set info"
  have one: "predict_one lib api p (prompts ! i) i = Inr (s i)" using Cons.prems(1) by simp
  note f = predict_one_fields [OF one]
  let ?u = "if success (s i) then (count_result (s i) st)\<lparr>result := put_row i (vals i) (result st)\<rparr>
    else count_result (s i) st"
  have step: "retry_row lib api p info i st = Inr ?u"
    using one f Cons.prems(2)[of i] Cons.prems(3) p
    by (simp add: retry_row_def propagate_single_result_def extract_row_put Let_def)
  have "\<exists>st'. foldR (retry_row lib api p info) rs ?u = Inr st' \<and> cache st' = cache ?u \<and>
    total_calls st' = total_calls ?u + length rs \<and>
    (\<forall>i \<in> set rs. success (s i) \<longrightarrow> row_at (length ?cols) (result st') i = vals i) \<and>
    (\<forall>i. i \<notin> set rs \<or> \<not> success (s i) \<longrightarrow> (\<forall>c. cells (result st') c i = cells (result ?u) c i))"
    using Cons.prems by (intro Cons.IH) auto
  then obtain st' where st': "foldR (retry_row lib api p info) rs ?u = Inr st'" "cache st' = cache ?u"
    "total_calls st' = total_calls ?u + length rs"
    "\<And>i. i \<in> set rs \<Longrightarrow> success (s i) \<Longrightarrow> row_at (length ?cols) (result st') i = vals i"
    "\<And>i c. i \<notin> set rs \<or> \<not> success (s i) \<Longrightarrow> cells (result st') c i = cells (result ?u) c i"
    by blast
  have i: "i \<notin> set rs" using Cons.prems(4) by simp
  have same: "row_at (length ?cols) (result st') i = vals i" if "success (s i)"
  proof -
    have "length (vals i) = length ?cols" using Cons.prems(2) [of i] that by (auto dest: length_text_row)
    then have "row_at (length ?cols) (put_row i (vals i) (result st)) i = vals i" by (rule rows.row_same)
    then show ?thesis using st'(5) [of i] i that by (simp add: row_at_def)
  qed
  have other: "cells (result ?u) c k = cells (result st) c k" if "k \<noteq> i \<or> \<not> success (s i)" for k c
    using that by (auto simp: cells_put_from)
  have keep: "cells (result st') c k = cells (result st) c k" if k: "k \<notin> set (i # rs) \<or> \<not> success (s k)" for k c
  proof -
    have "k \<notin> set rs \<or> \<not> success (s k)" "k \<noteq> i \<or> \<not> success (s i)" using k by auto
    with st'(5) [of k c] other [of k c] show ?thesis by simp
  qed
  have fold: "foldR (retry_row lib api p info) (i # rs) st = Inr st'" using step st'(1) by simp
  have counts: "cache st' = cache st" "total_calls st' = total_calls st + length (i # rs)"
    using st'(2,3) f by simp_all
  show ?case using fold counts keep same st'(4) by auto
qed simp

lemma scheduled_rounds:
  assumes "0 < n_threads p" "0 < batch_size p" "imp = imp_batch_size p n"
  shows "\<exists>rounds gs. num_rounds n imp = Inr rounds \<and> schedule (n_threads p) imp n rounds 0 = Some gs \<and> concat gs = [0..<rounds] \<and>
    min (rounds * imp) n = n"
proof -
  have "0 < imp" using assms(2,3) imp_batch_size_pos by simp
  then obtain rounds where nr: "num_rounds n imp = Inr rounds" by (simp add: num_rounds_def)
  then show ?thesis using schedule_from [OF nr assms(1), of 0] num_rounds_iff(3) [OF nr] by auto
qed

text \<open>C1: a chunk predicted in batches without deduplication, for any number of threads and any
  batch size above zero; \<open>r b\<close> is the result of batch \<open>b\<close> and \<open>s i\<close> that of the retry of row
  \<open>i\<close>. The call returns. Row \<open>i\<close> of an answered batch holds the row of element \<open>i mod imp\<close> of
  the answer to batch \<open>i div imp\<close> (NULLs where the answer has no such element); a row of a batch
  without an answer holds the row of its own retry; if that has no answer either, the row keeps
  what the chunk held. Rows beyond the chunk and the cache are unchanged, and the calls are one
  per batch plus one per row of the failed batches.\<close>
theorem predict_chunk_batched:
  assumes p: "\<not> use_cache p" "use_batch p" "0 < n_threads p" "0 < batch_size p"
    and named: "length (input_mask info) \<le> length (input_set_names info)"
    and prompts: "prompts = map (\<lambda>i. prompt_text i inp info True) [0..<rows]"
    and imp: "imp = imp_batch_size p rows"
    and batches: "\<forall>b. b * imp < rows \<longrightarrow> predict_batch lib api p prompts rows b imp = Inr (r b)"
    and singles: "\<forall>i < rows. \<not> success (r (i div imp)) \<longrightarrow>
      predict_one lib api p (prompts ! i) i = Inr (s i)"
    and fits: "\<forall>i < rows. if success (r (i div imp))
      then answer_row lib (result_set info) (reply_array lib (hd (outputs (r (i div imp))))) (i mod imp) = Inr (vals i)
      else success (s i) \<longrightarrow> text_row lib (result_set info) (hd (outputs (s i))) = Inr (vals i)"
  shows "\<exists>st rounds. predict_chunk lib api p info inp rows out cache0 = Some (Inr st) \<and>
    (\<forall>i < rows. success (r (i div imp)) \<or> success (s i) \<longrightarrow>
       row_at (length (result_set info)) (result st) i = vals i) \<and>
    (\<forall>i. rows \<le> i \<or> \<not> (success (r (i div imp)) \<or> success (s i)) \<longrightarrow>
       (\<forall>c. cells (result st) c i = cells out c i)) \<and>
    cache st = cache0 \<and> num_rounds rows imp = Inr rounds \<and>
    total_calls st = rounds + length (filter (\<lambda>i. \<not> success (r (i div imp))) [0..<rows])"
proof -
  let ?s0 = "(initial_state out cache0)\<lparr>unprocessed := prompts\<rparr>"
  let ?cols = "result_set info" and ?bad = "\<lambda>i. \<not> success (r (i div imp))"
  obtain rounds gs where nr: "num_rounds rows imp = Inr rounds" and gs: "schedule (n_threads p) imp rows rounds 0 = Some gs"
    "concat gs = [0..<rounds]" and full: "min (rounds * imp) rows = rows" using scheduled_rounds [OF p(3,4) imp] by blast
  have len: "rows = length prompts" by (simp add: prompts)
  have "\<exists>u. foldR (run_batch lib api p info imp) [0..<rounds] ?s0 = Inr u \<and>
    unprocessed u = prompts \<and> cache u = cache ?s0 \<and> total_calls u = total_calls ?s0 + rounds \<and>
    batch_fails u = batch_fails ?s0 @ filter ?bad [0..<min (rounds * imp) rows] \<and>
    (\<forall>i < min (rounds * imp) rows. success (r (i div imp)) \<longrightarrow>
       row_at (length ?cols) (result u) i = vals i) \<and>
    (\<forall>i. min (rounds * imp) rows \<le> i \<or> \<not> success (r (i div imp)) \<longrightarrow>
       (\<forall>c. cells (result u) c i = cells (result ?s0) c i))"
    by (rule run_batches_any [OF p(1,2) nr _ _ _ len order_refl])
      (use batches num_rounds_iff(2) [OF nr] fits in auto)
  then obtain u where u: "foldR (run_batch lib api p info imp) [0..<rounds] ?s0 = Inr u"
    "unprocessed u = prompts" "cache u = cache0" "total_calls u = rounds" "batch_fails u = filter ?bad [0..<rows]"
    "\<And>i. i < rows \<Longrightarrow> \<not> ?bad i \<Longrightarrow> row_at (length ?cols) (result u) i = vals i"
    "\<And>i c. rows \<le> i \<or> ?bad i \<Longrightarrow> cells (result u) c i = cells out c i"
    unfolding full by auto
  have "\<exists>st'. foldR (retry_row lib api p info) (filter ?bad [0..<rows]) u = Inr st' \<and> cache st' = cache u \<and>
    total_calls st' = total_calls u + length (filter ?bad [0..<rows]) \<and>
    (\<forall>i \<in> set (filter ?bad [0..<rows]). success (s i) \<longrightarrow> row_at (length ?cols) (result st') i = vals i) \<and>
    (\<forall>i. i \<notin> set (filter ?bad [0..<rows]) \<or> \<not> success (s i) \<longrightarrow> (\<forall>c. cells (result st') c i = cells (result u) c i))"
    by (rule retry_rows_any [OF p(1) _ _ u(2)]) (use singles fits in auto)
  then obtain st where st: "foldR (retry_row lib api p info) (batch_fails u) u = Inr st" "cache st = cache0"
    "total_calls st = rounds + length (filter ?bad [0..<rows])"
    "\<And>i. i < rows \<Longrightarrow> ?bad i \<Longrightarrow> success (s i) \<Longrightarrow> row_at (length ?cols) (result st) i = vals i"
    "\<And>i c. \<not> i < rows \<or> \<not> ?bad i \<or> \<not> success (s i) \<Longrightarrow> cells (result st) c i = cells (result u) c i"
    unfolding u(3,4,5) by auto
  have "classify_rows lib p info inp rows (initial_state out cache0) = Inr ?s0"
    by (simp add: classify_rows_def classify_plain [OF p(1) named] p(1) prompts)
  moreover have "run_batches lib api p info ?s0 = Some (Inr st)"
    using u(1) st(1) gs nr imp len by (simp add: run_batches_def Let_def)
  ultimately have run: "predict_chunk lib api p info inp rows out cache0 = Some (Inr st)"
    by (simp add: predict_chunk_def)
  have good: "row_at (length ?cols) (result st) i = vals i" if "i < rows" "success (r (i div imp)) \<or> success (s i)" for i
    using st(4,5) [of i] u(6) [of i] that by (cases "?bad i") (auto simp: row_at_def)
  have keep: "cells (result st) c i = cells out c i"
    if "rows \<le> i \<or> \<not> (success (r (i div imp)) \<or> success (s i))" for i c
    using st(5) [of i c] u(7) [of i c] that by auto
  show ?thesis using run good keep st(2,3) nr by blast
qed

text \<open>A chunk of three rows in two batches: the first is answered with one element, the second
  not at all, and its row is retried.\<close>

definition demo_completion :: "string \<Rightarrow> int json" where
  "demo_completion content = JObj [
     (''usage'', JObj [(''total_tokens'', JInt 3), (''prompt_tokens'', JInt 2), (''completion_tokens'', JInt 1)]),
     (''choices'', JArr [JObj [(''message'', JObj [(''content'', JStr content)])]])]"

definition demo_api :: "int endpoint" where
  "demo_api c req = (case c of BatchCall b \<Rightarrow> Inr (if b = 0 then demo_completion ''{1}'' else JNull)
     | RowCall i \<Rightarrow> Inr (if i = 2 then demo_completion ''{q}'' else JNull) | _ \<Rightarrow> Inr JNull)"

definition demo_info :: pinfo where
  "demo_info = \<lparr>input_mask = [0], input_set_names = [''c''], embedding_column_map = [],
     result_set = demo_cols\<rparr>"

definition demo_input :: input where
  "demo_input = (\<lambda>_ row. if row = 1 then ''v'' else ''u'')"

definition ok_or :: "'a \<Rightarrow> 'a res \<Rightarrow> 'a" where
  "ok_or d r = (case r of Inl _ \<Rightarrow> d | Inr x \<Rightarrow> x)"

lemma ok_or_Inr: "\<not> isl r \<Longrightarrow> r = Inr (ok_or d r)"
  by (cases r) (simp_all add: ok_or_def)

definition demo_prompts :: "string list" where
  "demo_prompts = map (\<lambda>i. prompt_text i demo_input demo_info True) [0..<3]"

definition demo_batch :: "nat \<Rightarrow> batch_result" where
  "demo_batch b = ok_or new_result (predict_batch demo_lib demo_api demo_predictor demo_prompts 3 b 2)"

definition demo_single :: "nat \<Rightarrow> batch_result" where
  "demo_single i = ok_or new_result (predict_one demo_lib demo_api demo_predictor (demo_prompts ! i) i)"

definition demo_vals :: "nat \<Rightarrow> int val list" where
  "demo_vals i = (if i = 0 then [VStr ''p''] else if i = 1 then [VNull] else [VStr ''q''])"

lemma less_3: "i < (3 :: nat) \<longleftrightarrow> i = 0 \<or> i = 1 \<or> i = 2"
  by auto

lemma demo_named: "length (input_mask demo_info) \<le> length (input_set_names demo_info)"
  by (simp add: demo_info_def)

theorem predict_chunk_batched_witness:
  "\<exists>st. predict_chunk demo_lib demo_api demo_predictor demo_info demo_input 3 demo_chunk Map.empty = Some (Inr st) \<and>
     row_at 1 (result st) 0 = [VStr ''p''] \<and> row_at 1 (result st) 1 = [VNull] \<and>
     row_at 1 (result st) 2 = [VStr ''q''] \<and> total_calls st = 3"
proof -
  have p: "\<not> use_cache demo_predictor" "use_batch demo_predictor" "0 < n_threads demo_predictor"
    "0 < batch_size demo_predictor" "2 = imp_batch_size demo_predictor 3" by code_simp+
  have b: "\<not> isl (predict_batch demo_lib demo_api demo_predictor demo_prompts 3 0 2)"
    "\<not> isl (predict_batch demo_lib demo_api demo_predictor demo_prompts 3 1 2)"
    "\<not> isl (predict_one demo_lib demo_api demo_predictor (demo_prompts ! 2) 2)" by code_simp+
  have s: "success (demo_batch 0)" "\<not> success (demo_batch 1)" "success (demo_single 2)" by code_simp+
  have a: "answer_row demo_lib demo_cols (reply_array demo_lib (hd (outputs (demo_batch 0)))) 0 = Inr (demo_vals 0)"
    "answer_row demo_lib demo_cols (reply_array demo_lib (hd (outputs (demo_batch 0)))) 1 = Inr (demo_vals 1)"
    "text_row demo_lib demo_cols (hd (outputs (demo_single 2))) = Inr (demo_vals 2)" by code_simp+
  have i: "result_set demo_info = demo_cols" "length demo_cols = 1" "num_rounds 3 2 = Inr 2" by code_simp+
  have two: "b * 2 < 3 \<longleftrightarrow> b = 0 \<or> b = (1 :: nat)" for b by auto
  have batches: "\<forall>b. b * 2 < 3 \<longrightarrow>
      predict_batch demo_lib demo_api demo_predictor demo_prompts 3 b 2 = Inr (demo_batch b)"
    unfolding two demo_batch_def using b(1,2) by (auto intro: ok_or_Inr simp del: One_nat_def)
  have singles: "\<forall>i < 3. \<not> success (demo_batch (i div 2)) \<longrightarrow>
      predict_one demo_lib demo_api demo_predictor (demo_prompts ! i) i = Inr (demo_single i)"
    unfolding less_3 using s ok_or_Inr [OF b(3)] by (auto simp: demo_single_def)
  have fits: "\<forall>i < 3. if success (demo_batch (i div 2))
      then answer_row demo_lib (result_set demo_info)
        (reply_array demo_lib (hd (outputs (demo_batch (i div 2))))) (i mod 2) = Inr (demo_vals i)
      else success (demo_single i) \<longrightarrow>
        text_row demo_lib (result_set demo_info) (hd (outputs (demo_single i))) = Inr (demo_vals i)"
    unfolding less_3 i using s a by auto
  obtain st rounds where
    st: "predict_chunk demo_lib demo_api demo_predictor demo_info demo_input 3 demo_chunk Map.empty = Some (Inr st)"
    and vals: "\<forall>i < 3. success (demo_batch (i div 2)) \<or> success (demo_single i) \<longrightarrow>
      row_at (length (result_set demo_info)) (result st) i = demo_vals i"
    and calls: "num_rounds 3 2 = Inr rounds"
      "total_calls st = rounds + length (filter (\<lambda>i. \<not> success (demo_batch (i div 2))) [0..<3])"
    using predict_chunk_batched [OF p(1-4) demo_named demo_prompts_def p(5) batches singles fits, of demo_chunk Map.empty]
    by blast
  have "filter (\<lambda>i. \<not> success (demo_batch (i div 2))) [0..<3] = [2]"
    using s by (simp add: upt_conv_Cons)
  then have "total_calls st = 3" using calls i(3) by simp
  with st vals s i show ?thesis
    by (auto simp: less_3 demo_vals_def)
qed

subsection \<open>Batches with deduplication\<close>

lemma classify_dedup:
  assumes c: "use_cache p" and named: "length (input_mask info) \<le> length (input_set_names info)"
    and hits: "\<And>i t. i \<in> set rs \<Longrightarrow> cache st (prompt_text i inp info True) = Some t \<Longrightarrow>
      text_row lib (result_set info) t = Inr (hit i)"
  shows "foldR (classify_row lib p info inp) rs st = Inr (st\<lparr>
      result := write_all put_row (map (\<lambda>i. (i, hit i))
        (filter (\<lambda>i. cache st (prompt_text i inp info True) \<noteq> None) rs)) (result st),
      tuple_id_map := fold (\<lambda>i. map_push (prompt_text i inp info True) i)
        (filter (\<lambda>i. cache st (prompt_text i inp info True) = None) rs) (tuple_id_map st)\<rparr>)"
  using hits
proof (induction rs arbitrary: st)
  case (Cons i rs)
  show ?case
  proof (cases "cache st (prompt_text i inp info True)")
    case None
    let ?u = "st\<lparr>tuple_id_map := map_push (prompt_text i inp info True) i (tuple_id_map st)\<rparr>"
    have "classify_row lib p info inp i st = Inr ?u" using None by (simp add: classify_row_def embed_prompt_text named c)
    moreover have "\<And>k t. k \<in> set rs \<Longrightarrow> cache ?u (prompt_text k inp info True) = Some t \<Longrightarrow>
        text_row lib (result_set info) t = Inr (hit k)" using Cons.prems by simp
    note Cons.IH [of ?u, OF this]
    ultimately show ?thesis using None by simp
  next
    case (Some t)
    let ?u = "st\<lparr>result := put_row i (hit i) (result st)\<rparr>"
    have "text_row lib (result_set info) t = Inr (hit i)" using Cons.prems Some by simp
    then have "classify_row lib p info inp i st = Inr ?u"
      using Some by (simp add: classify_row_def embed_prompt_text named c extract_row_put)
    moreover have "\<And>k t. k \<in> set rs \<Longrightarrow> cache ?u (prompt_text k inp info True) = Some t \<Longrightarrow>
        text_row lib (result_set info) t = Inr (hit k)" using Cons.prems by simp
    note Cons.IH [of ?u, OF this]
    ultimately show ?thesis using Some by simp
  qed
qed simp

text \<open>The map after the classification: sorted by prompt, each prompt with its rows in order.\<close>

lemma tuple_groups:
  fixes f :: "nat \<Rightarrow> string"
  assumes m: "m = fold (\<lambda>i. map_push (f i) i) xs []"
  shows "sorted_keys m" and "set (map fst m) = f ` set xs"
    and "k < length m \<Longrightarrow> snd (m ! k) = filter (\<lambda>i. f i = fst (m ! k)) xs"
    and "distinct xs \<Longrightarrow> wf_dedup m"
proof -
  have "sorted_keys []" by (simp add: sorted_keys_def)
  from tuples.grouping [OF this, of f "\<lambda>i. i" xs] m
  have s: "sorted_keys m" and k: "dedup_keys m = f ` set xs"
    and l: "\<And>k. group_lookup m k = filter (\<lambda>i. f i = k) xs"
    by (simp_all add: group_lookup_def)
  show "sorted_keys m" by (rule s)
  show keys: "set (map fst m) = f ` set xs" using k by (simp add: dedup_keys_def)
  show rows: "snd (m ! k) = filter (\<lambda>i. f i = fst (m ! k)) xs" if "k < length m" for k
    using group_lookup_nth [OF s that] l by simp
  have pair: "snd p = filter (\<lambda>i. f i = fst p) xs" "snd p \<noteq> []" if p: "p \<in> set m" for p
  proof -
    from p obtain k where "k < length m" "m ! k = p" by (auto simp: in_set_conv_nth)
    with rows show r: "snd p = filter (\<lambda>i. f i = fst p) xs" by auto
    from p keys have "fst p \<in> f ` set xs" by force
    with r show "snd p \<noteq> []" by (auto simp: filter_empty_conv)
  qed
  have same: "p = q" if pq: "p \<in> set m" "q \<in> set m" "r \<in> set (snd p)" "r \<in> set (snd q)" for p q r
  proof -
    from pq pair(1) have "f r = fst p" "f r = fst q" by auto
    then have "fst p = fst q" by simp
    with pair(1) pq(1,2) show ?thesis by (simp add: prod_eq_iff)
  qed
  show "wf_dedup m" if "distinct xs"
  proof -
    have "inj_on snd (set m)"
    proof (rule inj_onI)
      fix p q assume "p \<in> set m" "q \<in> set m" "snd p = snd q"
      then show "p = q" using same pair(2) by (metis last_in_set)
    qed
    then have "distinct (map snd m)"
      using sorted_keys_distinct [OF s] by (simp add: distinct_map)
    then have "distinct (concat (map snd m))"
    proof (rule distinct_concat)
      fix ys assume "ys \<in> set (map snd m)"
      then obtain p where "p \<in> set m" "ys = snd p" by auto
      with pair(1) show "distinct ys" using that by (metis distinct_filter)
    next
      show "\<And>ys zs. ys \<in> set (map snd m) \<Longrightarrow> zs \<in> set (map snd m) \<Longrightarrow> ys \<noteq> zs \<Longrightarrow> set ys \<inter> set zs = {}"
        using same by fastforce
    qed
    then show ?thesis
      using pair(2) sorted_keys_distinct [OF s] by (simp add: wf_dedup_def)
  qed
qed

lemma wf_dedup_disjoint:
  assumes "wf_dedup u" "r \<in> set (group_rows u i)" "r \<in> set (group_rows u j)"
  shows "i = j"
proof (rule ccontr)
  assume ne: "i \<noteq> j"
  from assms(2,3) have ij: "i < length u" "j < length u" "r \<in> set (snd (u ! i))" "r \<in> set (snd (u ! j))"
    by (auto simp: group_rows_def split: if_splits)
  have "removeAll [] (map snd u) = map snd u"
    using assms(1) by (force simp: wf_dedup_def intro!: removeAll_id)
  moreover have d: "distinct (concat (map snd u))" using assms(1) by (simp add: wf_dedup_def)
  ultimately have "distinct (map snd u)" using distinct_concat_iff [of "map snd u"] by simp
  then have "snd (u ! i) \<noteq> snd (u ! j)"
    using ij ne nth_eq_iff_index_eq [of "map snd u" i j] by simp
  with d ij show False unfolding distinct_concat_iff by (metis (no_types) disjoint_iff length_map nth_map nth_mem)
qed


text \<open>What holds after the first \<open>K\<close> groups are answered: \<open>ans\<close> lists the answers, \<open>vals\<close> their rows.\<close>

definition dedup_upto ::
    "'d jlib \<Rightarrow> pinfo \<Rightarrow> dedup \<Rightarrow> 'd json list \<Rightarrow> (nat \<Rightarrow> 'd val list) \<Rightarrow> 'd pstate \<Rightarrow> nat \<Rightarrow> 'd pstate \<Rightarrow> bool" where
  "dedup_upto lib info m ans vals st0 K st \<longleftrightarrow>
     tuple_id_map st = m \<and> unprocessed st = unprocessed st0 \<and> batch_fails st = batch_fails st0 \<and>
     (\<forall>j<K. \<forall>r \<in> set (group_rows m j). row_at (length (result_set info)) (result st) r = vals j) \<and>
     (\<forall>r. (\<forall>j<K. r \<notin> set (group_rows m j)) \<longrightarrow> (\<forall>c. cells (result st) c r = cells (result st0) c r)) \<and>
     (\<forall>j<K. cache st (fst (m ! j)) = Some (j_dump lib (ans ! j))) \<and>
     (\<forall>key. key \<notin> (\<lambda>j. fst (m ! j)) ` {0..<K} \<longrightarrow> cache st key = cache st0 key)"

lemma dedup_upto_step:
  assumes wf: "wf_dedup m" and up: "dedup_upto lib info m ans vals st0 K s"
    and rep: "reply_array_dedup lib txt = Some a" and a: "a = take b (drop K ans)"
    and len: "length ans = length m" and K: "K \<le> length m"
    and fits: "\<And>k. k < length m \<Longrightarrow> row_values lib (result_set info) (ans ! k) = Inr (vals k)"
  shows "\<exists>c ch. extract_array_dedup lib (result_set info) txt m K (length a) (cache s, result s) = Inr (c, ch) \<and>
    dedup_upto lib info m ans vals st0 (K + length a) ((count_result res s)\<lparr>cache := c, result := ch\<rparr>)"
proof -
  let ?cols = "result_set info"
  have le: "K + length a \<le> length m" using a len K by simp
  have nth: "a ! k = ans ! (K + k)" if "k < length a" for k using that a len K by simp
  have "traverse (row_values lib ?cols) a = Inr (map (\<lambda>k. vals (K + k)) [0..<length a])"
    using fits le nth by (simp add: traverse_Inr_iff)
  then obtain c ch where
    ex: "extract_array_dedup lib ?cols txt m K (length a) (cache s, result s) = Inr (c, ch)"
    using rep dedup_elements [OF le, of lib ?cols "cache s" "result s"] wf
    by (auto simp: extract_array_dedup_def wf_dedup_def)
  have "length a \<le> Suc (length a)" by simp
  note sp = extract_array_dedup_spec [OF wf rep le this ex]
  have new: "row_at (length ?cols) ch r = vals (K + k)"
    if "k < length a" "r \<in> set (group_rows m (K + k))" for k r
  proof -
    have "row_values lib ?cols (a ! k) = Inr (row_at (length ?cols) ch r)" using sp that by blast
    moreover have "row_values lib ?cols (a ! k) = Inr (vals (K + k))"
      using fits [of "K + k"] le nth that(1) by simp
    ultimately show ?thesis by simp
  qed
  note cnew = sp [THEN conjunct2, THEN conjunct1, rule_format]
  note fr = sp [THEN conjunct2, THEN conjunct2, THEN conjunct1, rule_format]
  note cfr = sp [THEN conjunct2, THEN conjunct2, THEN conjunct2, rule_format]
  have old: "row_at (length ?cols) ch r = vals j" if "j < K" "r \<in> set (group_rows m j)" for j r
  proof -
    have "r \<notin> set (group_rows m (K + k))" for k
      using wf_dedup_disjoint [OF wf that(2), of "K + k"] that(1) by auto
    then show ?thesis using fr up that by (simp add: row_at_def dedup_upto_def)
  qed
  have cold: "c (fst (m ! j)) = Some (j_dump lib (ans ! j))" if "j < K" for j
  proof -
    have "fst (m ! j) \<notin> (\<lambda>k. fst (m ! k)) ` {K..<K + length a}"
    proof
      assume "fst (m ! j) \<in> (\<lambda>k. fst (m ! k)) ` {K..<K + length a}"
      then obtain k where "fst (m ! j) = fst (m ! k)" "K \<le> k" "k < K + length a" by auto
      with wf le that nth_eq_iff_index_eq [of "map fst m" j k] show False by (simp add: wf_dedup_def)
    qed
    then show ?thesis using cfr up that by (simp add: dedup_upto_def)
  qed
  have split: "j < K \<or> (\<exists>k < length a. j = K + k)" if "j < K + length a" for j
    using that by (metis le_add_diff_inverse nat_add_left_cancel_less not_le)
  show ?thesis
  proof (intro exI conjI, rule ex)
    have rest: "cells ch col r = cells (result st0) col r"
      if "\<forall>j < K + length a. r \<notin> set (group_rows m j)" for col r
      using that fr [of r] up by (auto simp: dedup_upto_def)
    have crest: "c key = cache st0 key" if "key \<notin> (\<lambda>j. fst (m ! j)) ` {0..<K + length a}" for key
    proof -
      from that have "key \<notin> (\<lambda>j. fst (m ! j)) ` {K..<K + length a}"
        "key \<notin> (\<lambda>j. fst (m ! j)) ` {0..<K}" by auto
      then show ?thesis using cfr up by (simp add: dedup_upto_def)
    qed
    show "dedup_upto lib info m ans vals st0 (K + length a) ((count_result res s)\<lparr>cache := c, result := ch\<rparr>)"
      unfolding dedup_upto_def
    proof (intro conjI allI ballI impI)
      fix j r assume "j < K + length a" "r \<in> set (group_rows m j)"
      with split [of j] old [of j r] new [of _ r]
      show "row_at (length ?cols) (result ((count_result res s)\<lparr>cache := c, result := ch\<rparr>)) r = vals j"
        by auto
    next
      fix j assume "j < K + length a"
      with split [of j] cold [of j] cnew nth
      show "cache ((count_result res s)\<lparr>cache := c, result := ch\<rparr>) (fst (m ! j)) = Some (j_dump lib (ans ! j))"
        by auto
    qed (use up rest crest in \<open>simp_all add: dedup_upto_def\<close>)
  qed
qed

lemma run_batches_dedup:
  assumes p: "use_cache p" "use_batch p" and nr: "num_rounds n imp = Inr rounds"
    and wf: "wf_dedup m" and m: "tuple_id_map st = m" "unprocessed st = map fst m" "n = length m"
    and ans: "length ans = n"
    and ok: "\<And>b. b < rounds \<Longrightarrow> \<exists>r. predict_batch lib api p (map fst m) n b imp = Inr r \<and> success r \<and>
      reply_array_dedup lib (hd (outputs r)) = Some (take imp (drop (b * imp) ans))"
    and fits: "\<And>k. k < n \<Longrightarrow> row_values lib (result_set info) (ans ! k) = Inr (vals k)"
    and k: "k \<le> rounds"
  shows "\<exists>s. foldR (run_batch lib api p info imp) [0..<k] st = Inr s \<and>
    dedup_upto lib info m ans vals st (min (k * imp) n) s \<and> total_calls s = total_calls st + k"
  using k
proof (induction k)
  case 0
  then show ?case using m by (simp add: dedup_upto_def)
next
  case (Suc k)
  then obtain s where s: "foldR (run_batch lib api p info imp) [0..<k] st = Inr s"
    "dedup_upto lib info m ans vals st (min (k * imp) n) s" "total_calls s = total_calls st + k" by auto
  from num_rounds_iff(2) [OF nr, of k] Suc.prems have lt: "k * imp < n" by simp
  then have K: "min (k * imp) n = k * imp" by simp
  from ok [of k] Suc.prems obtain r where r: "predict_batch lib api p (map fst m) n k imp = Inr r"
    "success r" "reply_array_dedup lib (hd (outputs r)) = Some (take imp (drop (k * imp) ans))" by auto
  let ?a = "take imp (drop (k * imp) ans)"
  have len: "length ?a = min (k * imp + imp) n - k * imp" and next_K: "k * imp + length ?a = min (Suc k * imp) n"
    using ans lt by auto
  note f = predict_batch_fields [OF p(2) r(1)]
  have "length ans = length m" "k * imp \<le> length m" using ans m(3) lt by auto
  from dedup_upto_step [OF wf s(2) [unfolded K] r(3) refl this fits [unfolded m(3)], of r] obtain c ch where
    ex: "extract_array_dedup lib (result_set info) (hd (outputs r)) m (k * imp) (length ?a) (cache s, result s) = Inr (c, ch)"
    and up: "dedup_upto lib info m ans vals st (k * imp + length ?a) ((count_result r s)\<lparr>cache := c, result := ch\<rparr>)"
    by blast
  have "tuple_id_map s = m" "unprocessed s = map fst m" using s(2) m(2) by (simp_all add: dedup_upto_def)
  then have "run_batch lib api p info imp k s = Inr ((count_result r s)\<lparr>cache := c, result := ch\<rparr>)"
    using r f p m(3) ex len by (simp add: run_batch_def process_result_def Let_def)
  then show ?case using s up f next_K by (simp add: foldR_append)
qed


lemma str_sorted_unique:
  "sorted_wrt str_less xs \<Longrightarrow> sorted_wrt str_less ys \<Longrightarrow> set xs = set ys \<Longrightarrow> xs = ys"
proof (induction xs arbitrary: ys)
  case (Cons x xs)
  then obtain y ys' where ys: "ys = y # ys'" by (cases ys) auto
  have "x = y"
  proof (rule ccontr)
    assume ne: "x \<noteq> y"
    from Cons.prems(3) ys have "x \<in> insert y (set ys')" "y \<in> insert x (set xs)" by auto
    with ne have "x \<in> set ys'" "y \<in> set xs" by auto
    with Cons.prems(1,2) ys have "str_less x y" "str_less y x" by auto
    then show False using str_less_trans str_less_irrefl by blast
  qed
  moreover have "x \<notin> set xs" "y \<notin> set ys'" using Cons.prems(1,2) ys by auto
  ultimately have "set xs = set ys'" using Cons.prems(3) ys by auto
  with Cons ys \<open>x = y\<close> show ?case by simp
qed simp

lemma dedup_classified:
  assumes p: "use_cache p" and named: "length (input_mask info) \<le> length (input_set_names info)"
    and ks: "sorted_wrt str_less ks"
      "set ks = {prompt_text i inp info True | i. i < rows \<and> cache0 (prompt_text i inp info True) = None}"
    and hits: "\<forall>i < rows. \<forall>t. cache0 (prompt_text i inp info True) = Some t \<longrightarrow>
      text_row lib (result_set info) t = Inr (hit i)"
  shows "\<exists>m. wf_dedup m \<and> map fst m = ks \<and>
    (\<forall>k < length m. set (group_rows m k) = {i. i < rows \<and> prompt_text i inp info True = ks ! k}) \<and>
    classify_rows lib p info inp rows (initial_state out cache0) = Inr ((initial_state out cache0)\<lparr>
      result := write_all put_row (map (\<lambda>i. (i, hit i)) (filter (\<lambda>i. cache0 (prompt_text i inp info True) \<noteq> None) [0..<rows])) out,
      tuple_id_map := m, unprocessed := map fst m\<rparr>)"
proof -
  let ?e = "\<lambda>i. prompt_text i inp info True"
  obtain m where m: "m = fold (\<lambda>i. map_push (?e i) i) (filter (\<lambda>i. cache0 (?e i) = None) [0..<rows]) []" by blast
  note g = tuple_groups [OF m]
  have wf: "wf_dedup m" by (rule g(4)) simp
  have "sorted_wrt str_less (map fst m)" using g(1) by (simp add: sorted_keys_def sorted_wrt_map)
  moreover have "set (map fst m) = set ks" unfolding g(2) ks(2) by auto
  ultimately have km: "map fst m = ks" using ks(1) by (blast intro: str_sorted_unique)
  have rows_k: "set (group_rows m k) = {i. i < rows \<and> ?e i = ks ! k}" if "k < length m" for k
  proof -
    have "ks ! k = fst (m ! k)" "ks ! k \<in> set ks" using that km by auto
    then show ?thesis using g(3) [OF that] that ks(2) by (auto simp: group_rows_def)
  qed
  have "classify_rows lib p info inp rows (initial_state out cache0) = Inr ((initial_state out cache0)\<lparr>
      result := write_all put_row (map (\<lambda>i. (i, hit i)) (filter (\<lambda>i. cache0 (?e i) \<noteq> None) [0..<rows])) out,
      tuple_id_map := m, unprocessed := map fst m\<rparr>)"
    using hits classify_dedup [OF p named, where rs = "[0..<rows]" and st = "initial_state out cache0" and inp = inp and lib = lib and hit = hit] m p
    by (simp add: classify_rows_def)
  then show ?thesis using wf km rows_k by blast
qed

text \<open>The batches over the different prompts, when all are answered.\<close>

lemma dedup_batches_answered:
  assumes p: "use_cache p" "use_batch p" "0 < n_threads p" "0 < batch_size p"
    and wf: "wf_dedup m" and km: "map fst m = ks" and imp: "imp = imp_batch_size p (length ks)" and ans: "length ans = length ks"
    and answered: "\<forall>b. b * imp < length ks \<longrightarrow> (\<exists>r. predict_batch lib api p ks (length ks) b imp = Inr r \<and>
      success r \<and> reply_array_dedup lib (hd (outputs r)) = Some (take imp (drop (b * imp) ans)))"
    and fits: "\<forall>k < length ks. row_values lib (result_set info) (ans ! k) = Inr (vals k)"
    and st0: "st0 = (initial_state out cache0)\<lparr>result := chunk, tuple_id_map := m, unprocessed := map fst m\<rparr>"
  shows "\<exists>st rounds. run_batches lib api p info st0 = Some (Inr st) \<and> dedup_upto lib info m ans vals st0 (length ks) st \<and>
    num_rounds (length ks) imp = Inr rounds \<and> total_calls st = rounds"
proof -
  have lm: "length ks = length m" using km by auto
  obtain rounds gs where nr: "num_rounds (length ks) imp = Inr rounds" and gs: "schedule (n_threads p) imp (length ks) rounds 0 = Some gs"
    "concat gs = [0..<rounds]" and full: "min (rounds * imp) (length ks) = length ks" using scheduled_rounds [OF p(3,4) imp] by blast
  have ok: "\<And>b. b < rounds \<Longrightarrow> \<exists>r. predict_batch lib api p (map fst m) (length ks) b imp = Inr r \<and>
      success r \<and> reply_array_dedup lib (hd (outputs r)) = Some (take imp (drop (b * imp) ans))"
    using answered num_rounds_iff(2) [OF nr] km by simp
  have "\<exists>s. foldR (run_batch lib api p info imp) [0..<rounds] st0 = Inr s \<and>
      dedup_upto lib info m ans vals st0 (min (rounds * imp) (length ks)) s \<and> total_calls s = total_calls st0 + rounds"
    by (rule run_batches_dedup [OF p(1,2) nr wf _ _ lm ans ok]) (use fits st0 in simp_all)
  then obtain st where st: "foldR (run_batch lib api p info imp) [0..<rounds] st0 = Inr st"
    and up: "dedup_upto lib info m ans vals st0 (length ks) st" and calls: "total_calls st = rounds" using st0 unfolding full by auto
  have "batch_fails st = []" using up st0 by (simp add: dedup_upto_def)
  then have "run_batches lib api p info st0 = Some (Inr st)"
    using st gs nr imp km st0 by (auto simp: run_batches_def Let_def)
  then show ?thesis using up nr calls by blast
qed

text \<open>The rows that the cache answered, and those beyond the chunk.\<close>

lemma cached_rows:
  assumes "i < rows" "cache0 (e i) = Some t" "text_row lib cols t = Inr (hit i)"
  shows "row_at (length cols) (write_all put_row (map (\<lambda>i. (i, hit i)) (filter (\<lambda>i. cache0 (e i) \<noteq> None) [0..<rows])) out) i = hit i"
proof -
  have "length (hit i) = length cols" using assms(3) by (rule length_text_row)
  then show ?thesis using assms(1,2) by (intro rows.write_all_same) (auto simp: comp_def distinct_map inj_on_def)
qed

lemma uncached_rows:
  assumes "rows \<le> i"
  shows "row_at n (write_all put_row (map (\<lambda>i. (i, hit i)) (filter (\<lambda>i. cache0 (e i) \<noteq> None) [0..<rows])) out) i = row_at n out i"
  by (rule rows.write_all_frame) (use assms in auto)

text \<open>C2: a chunk predicted in batches with deduplication and cache. \<open>ks\<close> lists, in order, the
  different prompts of the rows that the cache does not answer, and \<open>ans\<close> the answers the batches
  return, one element per prompt. The call returns; every row whose prompt is \<open>ks ! k\<close> holds the
  row of \<open>ans ! k\<close>; a row whose prompt was cached holds the row of the cached text; rows beyond
  the chunk keep their values; the cache gains exactly the answered prompts; and the model is
  called once per batch of different prompts, not per row.\<close>
theorem predict_chunk_dedup:
  assumes p: "use_cache p" "use_batch p" "0 < n_threads p" "0 < batch_size p"
    and named: "length (input_mask info) \<le> length (input_set_names info)"
    and ks: "sorted_wrt str_less ks"
      "set ks = {prompt_text i inp info True | i. i < rows \<and> cache0 (prompt_text i inp info True) = None}"
    and imp: "imp = imp_batch_size p (length ks)"
    and ans: "length ans = length ks"
    and answered: "\<forall>b. b * imp < length ks \<longrightarrow> (\<exists>r. predict_batch lib api p ks (length ks) b imp = Inr r \<and>
      success r \<and> reply_array_dedup lib (hd (outputs r)) = Some (take imp (drop (b * imp) ans)))"
    and fits: "\<forall>k < length ks. row_values lib (result_set info) (ans ! k) = Inr (vals k)"
    and hits: "\<forall>i < rows. \<forall>t. cache0 (prompt_text i inp info True) = Some t \<longrightarrow>
      text_row lib (result_set info) t = Inr (hit i)"
  shows "\<exists>st. predict_chunk lib api p info inp rows out cache0 = Some (Inr st) \<and>
    (\<forall>k < length ks. \<forall>i < rows. prompt_text i inp info True = ks ! k \<longrightarrow>
       row_at (length (result_set info)) (result st) i = vals k) \<and>
    (\<forall>i < rows. cache0 (prompt_text i inp info True) \<noteq> None \<longrightarrow>
       row_at (length (result_set info)) (result st) i = hit i) \<and>
    (\<forall>i \<ge> rows. \<forall>c. cells (result st) c i = cells out c i) \<and>
    (\<forall>k < length ks. cache st (ks ! k) = Some (j_dump lib (ans ! k))) \<and>
    (\<forall>key. key \<notin> set ks \<longrightarrow> cache st key = cache0 key) \<and>
    num_rounds (length ks) imp = Inr (total_calls st)"
proof -
  let ?cols = "result_set info" and ?e = "\<lambda>i. prompt_text i inp info True"
  let ?chunk = "write_all put_row (map (\<lambda>i. (i, hit i)) (filter (\<lambda>i. cache0 (?e i) \<noteq> None) [0..<rows])) out"
  obtain m where m: "wf_dedup m" "map fst m = ks" "\<And>k. k < length m \<Longrightarrow> set (group_rows m k) = {i. i < rows \<and> ?e i = ks ! k}"
      "classify_rows lib p info inp rows (initial_state out cache0) =
        Inr ((initial_state out cache0)\<lparr>result := ?chunk, tuple_id_map := m, unprocessed := map fst m\<rparr>)"
    using dedup_classified [where rows = rows and out = out, OF p(1) named ks hits] by blast
  let ?st0 = "(initial_state out cache0)\<lparr>result := ?chunk, tuple_id_map := m, unprocessed := map fst m\<rparr>"
  have lm: "length m = length ks" and kth: "\<And>k. k < length ks \<Longrightarrow> fst (m ! k) = ks ! k" using m(2) by auto
  obtain st rounds where st: "run_batches lib api p info ?st0 = Some (Inr st)" "dedup_upto lib info m ans vals ?st0 (length ks) st"
      "num_rounds (length ks) imp = Inr rounds" "total_calls st = rounds"
    using dedup_batches_answered [OF p m(1,2) imp ans answered fits refl] by blast
  have run: "predict_chunk lib api p info inp rows out cache0 = Some (Inr st)" using m(4) st(1) by (simp add: predict_chunk_def)
  have kept: "row_at n (result st) i = row_at n ?chunk i" if i: "\<not> (i < rows \<and> cache0 (?e i) = None)" for i n
  proof -
    have "i \<notin> set (group_rows m k)" if k: "k < length ks" for k
      using m(3) [of k] i ks(2) nth_mem [OF k] lm k by auto
    with st(2) show ?thesis by (simp add: row_at_def dedup_upto_def)
  qed
  have hit_rows: "row_at (length ?cols) (result st) i = hit i" if i: "i < rows" "cache0 (?e i) \<noteq> None" for i
    using i hits cached_rows [of i rows cache0 ?e _ lib ?cols hit out] kept [of i] by auto
  have beyond: "cells (result st) c i = cells out c i" if i: "rows \<le> i" for i c
    using kept [of i "Suc c"] uncached_rows [OF i, of "Suc c" hit cache0 ?e out] i by (simp add: row_at_def)
  have group: "row_at (length ?cols) (result st) i = vals k" if "k < length ks" "i < rows" "?e i = ks ! k" for k i
    using st(2) m(3) [of k] that lm by (simp add: dedup_upto_def)
  have "cache st (ks ! k) = Some (j_dump lib (ans ! k))" if "k < length ks" for k
    using st(2) that kth lm by (simp add: dedup_upto_def)
  moreover have "cache st key = cache0 key" if "key \<notin> set ks" for key
  proof -
    have "key \<notin> (\<lambda>j. fst (m ! j)) ` {0..<length ks}" using that kth by (auto simp: in_set_conv_nth)
    with st(2) show ?thesis by (simp add: dedup_upto_def)
  qed
  ultimately show ?thesis using run st(3,4) hit_rows beyond group by blast
qed


definition demo_cached :: predictor where
  "demo_cached = demo_predictor\<lparr>use_cache := True\<rparr>"

definition demo_cache :: "string \<rightharpoonup> string" where
  "demo_cache = [prompt_text 1 demo_input demo_info True \<mapsto> ''{q}'']"

definition demo_keys :: "string list" where
  "demo_keys = [prompt_text 0 demo_input demo_info True]"

theorem predict_chunk_dedup_witness:
  "\<exists>st. predict_chunk demo_lib demo_api demo_cached demo_info demo_input 3 demo_chunk demo_cache = Some (Inr st) \<and>
     row_at 1 (result st) 0 = [VStr ''p''] \<and> row_at 1 (result st) 1 = [VStr ''q''] \<and>
     row_at 1 (result st) 2 = [VStr ''p''] \<and> total_calls st = 1"
proof -
  let ?e = "\<lambda>i. prompt_text i demo_input demo_info True"
  let ?r = "ok_or new_result (predict_batch demo_lib demo_api demo_cached demo_keys 1 0 2)"
  have p: "use_cache demo_cached" "use_batch demo_cached" "0 < n_threads demo_cached"
    "0 < batch_size demo_cached" "2 = imp_batch_size demo_cached (length demo_keys)"
    "length [demo_row ''p''] = length demo_keys" "sorted_wrt str_less demo_keys" by code_simp+
  have e: "demo_cache (?e 0) = None" "demo_cache (?e 1) = Some ''{q}''" "demo_cache (?e 2) = None"
    "?e 2 = ?e 0" "demo_keys = [?e 0]" by code_simp+
  have ks: "set demo_keys = {?e i | i. i < 3 \<and> demo_cache (?e i) = None}"
  proof -
    have "{?e i | i. i < 3 \<and> demo_cache (?e i) = None} = {?e 0}" unfolding less_3 using e(1-4) by auto
    then show ?thesis unfolding e(5) by simp
  qed
  have b: "\<not> isl (predict_batch demo_lib demo_api demo_cached demo_keys 1 0 2)"
    "success ?r" "reply_array_dedup demo_lib (hd (outputs ?r)) = Some [demo_row ''p'']" by code_simp+
  have i: "result_set demo_info = demo_cols" "length demo_cols = 1" "num_rounds (length demo_keys) 2 = Inr 1"
    "length demo_keys = 1" by code_simp+
  have v: "row_values demo_lib demo_cols (demo_row ''p'') = Inr [VStr ''p'']"
    "text_row demo_lib demo_cols ''{q}'' = Inr [VStr ''q'']" by code_simp+
  have answered: "\<forall>b. b * 2 < length demo_keys \<longrightarrow>
      (\<exists>r. predict_batch demo_lib demo_api demo_cached demo_keys (length demo_keys) b 2 = Inr r \<and>
        success r \<and> reply_array_dedup demo_lib (hd (outputs r)) = Some (take 2 (drop (b * 2) [demo_row ''p''])))"
    using i(4) ok_or_Inr [OF b(1), of new_result] b(2,3) by auto
  have fits: "\<forall>k < length demo_keys. row_values demo_lib (result_set demo_info) ([demo_row ''p''] ! k) = Inr [VStr ''p'']"
    using i v by simp
  have hits: "\<forall>i < 3. \<forall>t. demo_cache (?e i) = Some t \<longrightarrow> text_row demo_lib (result_set demo_info) t = Inr [VStr ''q'']"
    unfolding less_3 i using e v by auto
  obtain st where
    st: "predict_chunk demo_lib demo_api demo_cached demo_info demo_input 3 demo_chunk demo_cache = Some (Inr st)"
    and grp: "\<forall>k < length demo_keys. \<forall>i < 3. ?e i = demo_keys ! k \<longrightarrow>
      row_at (length (result_set demo_info)) (result st) i = [VStr ''p'']"
    and hit: "\<forall>i < 3. demo_cache (?e i) \<noteq> None \<longrightarrow> row_at (length (result_set demo_info)) (result st) i = [VStr ''q'']"
    and calls: "num_rounds (length demo_keys) 2 = Inr (total_calls st)"
    using predict_chunk_dedup [OF p(1-4) demo_named p(7) ks p(5,6) answered fits hits, of demo_chunk] by blast
  have k0: "demo_keys ! 0 = ?e 0" by code_simp
  have "row_at 1 (result st) 0 = [VStr ''p'']" using grp [rule_format, of 0 0] i k0 by simp
  moreover have "row_at 1 (result st) 2 = [VStr ''p'']" using grp [rule_format, of 0 2] i k0 e(4) by simp
  moreover have "row_at 1 (result st) 1 = [VStr ''q'']" using hit [rule_format, of 1] i e by simp
  ultimately show ?thesis using st calls i by auto
qed

subsection \<open>Row by row\<close>

lemma text_row_total:
  assumes "\<forall>c \<in> set cols. snd c \<noteq> INTEGER"
  shows "\<not> isl (text_row lib cols t)"
proof -
  have "\<not> isl (cell_value lib j c)" if "c \<in> set cols" for c j
    using assms that
    by (cases "json_member j (fst c)")
      (auto simp: cell_value_def catch_cell_def convert_member_def extract_double_def mapR_def
        split: ltype.splits json.splits option.splits)
  then have "\<not> isl (row_values lib cols j)" for j
    using traverse_Inl_iff [of "cell_value lib j" cols] by (auto simp: row_values_def isl_def)
  then show ?thesis by (auto simp: text_row_def split: sum.splits option.splits)
qed

lemma rowwise_results:
  assumes ones: "\<And>row. row \<in> set rs \<Longrightarrow> predict_one lib api p (input ! row) row = Inr (s row)"
  shows "\<exists>r. foldR (\<lambda>row acc. mapR (\<lambda>s. add_single s acc) (predict_one lib api p (input ! row) row)) rs acc = Inr r \<and>
    frow r = frow acc \<and> n_rows r = n_rows acc \<and> n_calls r = n_calls acc + length rs \<and>
    outputs r = outputs acc @ map (\<lambda>row. hd (outputs (s row))) (filter (\<lambda>row. success (s row)) rs)"
  using ones
proof (induction rs arbitrary: acc)
  case (Cons row rs)
  have one: "predict_one lib api p (input ! row) row = Inr (s row)" using Cons.prems by simp
  have "\<And>row. row \<in> set rs \<Longrightarrow> predict_one lib api p (input ! row) row = Inr (s row)"
    using Cons.prems by simp
  from Cons.IH [OF this, of "add_single (s row) acc"] show ?case
    using one predict_one_fields [OF one] by (auto simp: add_single_def)
qed simp

lemma propagate_rows:
  assumes c: "\<not> use_cache p" and ints: "\<forall>c \<in> set (result_set info). snd c \<noteq> INTEGER"
    and k: "k \<le> length outs"
  shows "\<exists>ch. foldR (\<lambda>i st. if i < length outs then propagate_single_result lib p info (outs ! i) (fr + i) st
      else Inl (Undefined ''outputs[i] past the end'')) [0..<k] st = Inr (st\<lparr>result := ch\<rparr>) \<and>
    (\<forall>i < k. text_row lib (result_set info) (outs ! i) = Inr (row_at (length (result_set info)) ch (fr + i))) \<and>
    (\<forall>i. i \<notin> {fr..<fr + k} \<longrightarrow> (\<forall>c. cells ch c i = cells (result st) c i))"
  using k
proof (induction k)
  case 0
  show ?case by (rule exI [of _ "result st"]) simp
next
  case (Suc k)
  let ?cols = "result_set info"
  from Suc obtain ch where ch: "foldR (\<lambda>i st. if i < length outs
        then propagate_single_result lib p info (outs ! i) (fr + i) st
        else Inl (Undefined ''outputs[i] past the end'')) [0..<k] st = Inr (st\<lparr>result := ch\<rparr>)"
    "\<And>i. i < k \<Longrightarrow> text_row lib ?cols (outs ! i) = Inr (row_at (length ?cols) ch (fr + i))"
    "\<And>i c. i \<notin> {fr..<fr + k} \<Longrightarrow> cells ch c i = cells (result st) c i" by auto
  from text_row_total [OF ints] obtain vs where vs: "text_row lib ?cols (outs ! k) = Inr vs"
    by (metis res_obtain)
  let ?ch = "put_row (fr + k) vs ch"
  have "row_at (length ?cols) ?ch (fr + k) = vs"
    by (rule rows.row_same [OF length_text_row [OF vs]])
  moreover have "row_at (length ?cols) ?ch (fr + i) = row_at (length ?cols) ch (fr + i)" if "i < k" for i
    using that by (simp add: rows.row_other)
  ultimately have "\<forall>i < Suc k. text_row lib ?cols (outs ! i) = Inr (row_at (length ?cols) ?ch (fr + i))"
    using ch(2) vs by (simp add: less_Suc_eq)
  moreover have "\<forall>i. i \<notin> {fr..<fr + Suc k} \<longrightarrow> (\<forall>c. cells ?ch c i = cells (result st) c i)"
    using ch(3) by (auto simp: cells_put_from)
  moreover have "foldR (\<lambda>i st. if i < length outs
        then propagate_single_result lib p info (outs ! i) (fr + i) st
        else Inl (Undefined ''outputs[i] past the end'')) [0..<Suc k] st = Inr (st\<lparr>result := ?ch\<rparr>)"
    using ch(1) Suc.prems vs c
    by (auto simp: foldR_append propagate_single_result_def extract_row_put)
  ultimately show ?case by blast
qed

text \<open>A list of outputs is read up to its end: with fewer outputs than rows the read leaves it.\<close>

lemma short_outputs:
  assumes "length outs < n" "foldR (\<lambda>i st. if i < length outs then f i st else Inl e) [0..<length outs] st = Inr u"
  shows "foldR (\<lambda>i st. if i < length outs then f i st else Inl e) [0..<n] st = Inl e"
proof -
  obtain d where d: "n = Suc (length outs + d)" using assms(1) less_imp_Suc_add by blast
  have "[0..<n] = [0..<length outs] @ length outs # [Suc (length outs)..<n]"
    unfolding d by (metis add_Suc_right le_add1 less_add_Suc1 plus_nat.add_0 upt_add_eq_append upt_conv_Cons zero_le)
  then show ?thesis using assms(2) by (simp add: foldR_append)
qed

lemma rowwise_outputs:
  assumes "\<not> use_batch p" "rs = [b * imp..<min (b * imp + imp) n]" "\<forall>row \<in> set rs. predict_one lib api p (prompts ! row) row = Inr (s row)"
    and "predict_batch lib api p prompts n b imp = Inr r"
  shows "frow r = b * imp" "n_rows r = length rs" "\<not> is_concat r"
    "outputs r = map (\<lambda>row. hd (outputs (s row))) (filter (\<lambda>row. success (s row)) rs)"
proof -
  let ?acc = "new_result\<lparr>n_rows := min (b * imp + imp) n - b * imp, frow := b * imp\<rparr>"
  have "\<And>row. row \<in> set rs \<Longrightarrow> predict_one lib api p (prompts ! row) row = Inr (s row)" using assms(3) by blast
  from rowwise_results [OF this, of rs ?acc] assms(1,2,4)
  show "frow r = b * imp" "n_rows r = length rs" "\<not> is_concat r"
    "outputs r = map (\<lambda>row. hd (outputs (s row))) (filter (\<lambda>row. success (s row)) rs)"
    by (auto simp: predict_batch_def new_result_def Let_def)
qed

text \<open>C24: a batch that is predicted row by row (\<open>use_batch\<close> off, no INTEGER column, so that no
  conversion throws). If every row's call has content, each row holds the row of its own reply and
  no other row changes. If one call has no content, \<open>ProcessResult\<close> reads past the end of
  \<open>outputs\<close>, which holds the successful replies only: undefined behaviour (and the replies behind
  the gap would go to the wrong rows).\<close>
theorem rowwise_batch:
  assumes p: "\<not> use_cache p" "\<not> use_batch p"
    and ints: "\<forall>c \<in> set (result_set info). snd c \<noteq> INTEGER"
    and rs: "rs = [b * imp..<min (b * imp + imp) n]"
    and ones: "\<forall>row \<in> set rs. predict_one lib api p (prompts ! row) row = Inr (s row)"
    and r: "predict_batch lib api p prompts n b imp = Inr r"
  shows "if \<forall>row \<in> set rs. success (s row)
    then \<exists>ch. process_result lib p info r st = Inr ((count_result r st)\<lparr>result := ch\<rparr>) \<and>
      (\<forall>row \<in> set rs. text_row lib (result_set info) (hd (outputs (s row))) =
         Inr (row_at (length (result_set info)) ch row)) \<and>
      (\<forall>i. i \<notin> set rs \<longrightarrow> (\<forall>c. cells ch c i = cells (result st) c i))
    else process_result lib p info r st = Inl (Undefined ''outputs[i] past the end'')"
proof -
  note f = rowwise_outputs [OF p(2) rs ones r]
  let ?outs = "outputs r"
  let ?step = "\<lambda>i st. if i < length ?outs then propagate_single_result lib p info (?outs ! i) (b * imp + i) st
      else Inl (Undefined ''outputs[i] past the end'')"
  have pr: "process_result lib p info r st = foldR ?step [0..<length rs] (count_result r st)"
    using f(1-3) by (simp add: process_result_def Let_def cong: if_cong)
  note rows = propagate_rows [OF p(1) ints, of _ ?outs lib "b * imp" "count_result r st"]
  show ?thesis
  proof (cases "\<forall>row \<in> set rs. success (s row)")
    case True
    then have "filter (\<lambda>row. success (s row)) rs = rs" by simp
    then have outs: "?outs = map (\<lambda>row. hd (outputs (s row))) rs" using f(4) by simp
    then obtain ch where ch: "process_result lib p info r st = Inr ((count_result r st)\<lparr>result := ch\<rparr>)"
      "\<And>i. i < length rs \<Longrightarrow> text_row lib (result_set info) (?outs ! i) = Inr (row_at (length (result_set info)) ch (b * imp + i))"
      "\<And>i c. i \<notin> {b * imp..<b * imp + length rs} \<Longrightarrow> cells ch c i = cells (result st) c i"
      using rows [of "length rs"] pr by auto
    have "text_row lib (result_set info) (hd (outputs (s row))) = Inr (row_at (length (result_set info)) ch row)"
      if "row \<in> set rs" for row
    proof -
      from that rs have "row - b * imp < length rs" "b * imp \<le> row" by auto
      moreover from this that have "rs ! (row - b * imp) = row" unfolding rs by (subst nth_upt) auto
      ultimately show ?thesis using ch(2) [of "row - b * imp"] outs by simp
    qed
    moreover have "cells ch c i = cells (result st) c i" if "i \<notin> set rs" for i c
    proof -
      have "i \<notin> {b * imp..<b * imp + length rs}" using that unfolding rs by auto
      then show ?thesis by (rule ch(3))
    qed
    ultimately show ?thesis using ch(1) True by auto
  next
    case False
    then have "length ?outs < length rs"
      using f(4) by (auto intro: length_filter_less)
    moreover obtain ch where "foldR ?step [0..<length ?outs] (count_result r st) = Inr ((count_result r st)\<lparr>result := ch\<rparr>)"
      using rows [of "length ?outs"] by auto
    ultimately have "process_result lib p info r st = Inl (Undefined ''outputs[i] past the end'')"
      unfolding pr by (rule short_outputs)
    with False show ?thesis by simp
  qed
qed


definition demo_rowwise :: predictor where
  "demo_rowwise = demo_predictor\<lparr>use_batch := False\<rparr>"

definition demo_flaky :: "int endpoint" where
  "demo_flaky c req = Inr (if c = RowCall 1 then demo_completion [] else demo_completion ''{p}'')"

theorem rowwise_batch_witness:
  "\<exists>r. predict_batch demo_lib demo_flaky demo_rowwise demo_prompts 3 0 2 = Inr r \<and>
     process_result demo_lib demo_rowwise demo_info r (initial_state demo_chunk Map.empty) =
       Inl (Undefined ''outputs[i] past the end'')"
proof -
  let ?s = "\<lambda>i. ok_or new_result (predict_one demo_lib demo_flaky demo_rowwise (demo_prompts ! i) i)"
  let ?r = "ok_or new_result (predict_batch demo_lib demo_flaky demo_rowwise demo_prompts 3 0 2)"
  have p: "\<not> use_cache demo_rowwise" "\<not> use_batch demo_rowwise"
    "\<forall>c \<in> set (result_set demo_info). snd c \<noteq> INTEGER" by code_simp+
  have rs: "[0, 1] = [0 * 2..<min (0 * 2 + 2) (3 :: nat)]" by code_simp
  have o: "\<not> isl (predict_one demo_lib demo_flaky demo_rowwise (demo_prompts ! 0) 0)"
    "\<not> isl (predict_one demo_lib demo_flaky demo_rowwise (demo_prompts ! 1) 1)"
    "\<not> isl (predict_batch demo_lib demo_flaky demo_rowwise demo_prompts 3 0 2)" by code_simp+
  have s: "\<not> success (?s 1)" by code_simp
  have ones: "\<forall>row \<in> set [0, 1]. predict_one demo_lib demo_flaky demo_rowwise (demo_prompts ! row) row = Inr (?s row)"
    using ok_or_Inr [OF o(1)] ok_or_Inr [OF o(2)] by simp
  from rowwise_batch [OF p rs ones ok_or_Inr [OF o(3)], where st = "initial_state demo_chunk Map.empty"] s
  show ?thesis using ok_or_Inr [OF o(3), of new_result] by auto
qed

end
