(* ===== verification/Join.thy ===== *)
theory Join
  imports Predictor
begin

section \<open>Matching two tables: PredictJoin\<close>

text \<open>
  \<open>third_party/predictors/llm_api/llm_predict.cpp\<close>, \<open>BuildJoinRepr\<close> and \<open>PredictJoin\<close> without
  clustering: the rows of a join input are split into a left and a right text, equal texts are
  numbered once, one request lists both sides, and the pairs the model returns decide every row.
\<close>

subsection \<open>Numbering the texts\<close>

definition side_repr :: "input \<Rightarrow> pinfo \<Rightarrow> nat \<Rightarrow> nat list \<Rightarrow> string" where
  "side_repr inp info row cols = concat (map (\<lambda>j.
     input_set_names info ! j @ '' = `'' @ inp (input_mask info ! j) row @ ''`, '') cols)"

definition build_join_repr :: "input \<Rightarrow> pinfo \<Rightarrow> nat \<Rightarrow> nat \<Rightarrow> string \<times> string" where
  "build_join_repr inp info n_left row =
     (side_repr inp info row [0..<n_left],
      side_repr inp info row [n_left..<length (input_mask info)])"

text \<open>\<open>left_unique_map\<close> with \<open>left_unique\<close>, and the same for the right side.\<close>

type_synonym numbering = "(string \<rightharpoonup> nat) \<times> string list"

definition intern :: "string \<Rightarrow> numbering \<Rightarrow> numbering" where
  "intern r n = (case fst n r of
     None \<Rightarrow> ((fst n)(r \<mapsto> length (snd n)), snd n @ [r])
   | Some _ \<Rightarrow> n)"

text \<open>\<open>operator[]\<close> of a map whose key was just inserted.\<close>

definition number_of :: "numbering \<Rightarrow> string \<Rightarrow> nat" where
  "number_of n r = (case fst n r of None \<Rightarrow> 0 | Some i \<Rightarrow> i)"

record join_state =
  jlefts :: numbering
  jrights :: numbering
  row_ids :: "(nat \<times> nat) list"

definition number_row :: "input \<Rightarrow> pinfo \<Rightarrow> nat \<Rightarrow> nat \<Rightarrow> join_state \<Rightarrow> join_state" where
  "number_row inp info n_left row st =
     (let (l, r) = build_join_repr inp info n_left row;
          ls = intern l (jlefts st); rs = intern r (jrights st)
      in \<lparr>jlefts = ls, jrights = rs, row_ids = row_ids st @ [(number_of ls l, number_of rs r)]\<rparr>)"

definition number_rows :: "input \<Rightarrow> pinfo \<Rightarrow> nat \<Rightarrow> nat \<Rightarrow> join_state" where
  "number_rows inp info n_left rows =
     fold (number_row inp info n_left) [0..<rows]
       \<lparr>jlefts = (Map.empty, []), jrights = (Map.empty, []), row_ids = []\<rparr>"

subsection \<open>The request\<close>

definition item_lines :: "string list \<Rightarrow> string" where
  "item_lines items = concat (map (\<lambda>(i, s). ''['' @ show_nat i @ ''] '' @ s @ newline) (enumerate 0 items))"

definition join_prompt :: "predictor \<Rightarrow> string list \<Rightarrow> string list \<Rightarrow> string" where
  "join_prompt p lefts rights =
     prompt p @ newline @ newline @ ''Left items:'' @ newline @ item_lines lefts @
     newline @ ''Right items:'' @ newline @ item_lines rights @
     newline @ ''Return only the (left_id, right_id) index pairs that match according to the prompt above.''"

definition join_system_message :: string where
  \<open>join_system_message = ''You are a data matching assistant. Given enumerated left items and right items, '' @
     ''return only the index pairs that match according to the user'' @ [CHR 0x27] @ ''s criteria. '' @
     ''Respond with matching_pairs as an array of {"left_id": <int>, "right_id": <int>} objects. '' @
     ''Omit non-matching pairs entirely.''\<close>

definition join_schema :: string where
  \<open>join_schema = ''{"type":"object","additionalProperties":false,"required":["matching_pairs"],'' @
     ''"properties":{"matching_pairs":{"type":"array","items":{"type":"object",'' @
     ''"additionalProperties":false,"required":["left_id","right_id"],'' @
     ''"properties":{"left_id":{"type":"integer"},"right_id":{"type":"integer"}}}}}}''\<close>

definition join_request :: "predictor \<Rightarrow> string list \<Rightarrow> string list \<Rightarrow> request" where
  \<open>join_request p lefts rights = \<lparr>req_system = join_system_message, req_user = join_prompt p lefts rights,
     req_format = ''{"type":"json_schema","json_schema":{"name":"join_response","strict":true,"schema":'' @
       join_schema @ ''}}''\<rparr>\<close>

subsection \<open>The pairs of the reply\<close>

text \<open>\<open>get<idx_t>()\<close>: integers are cast to 64 unsigned bits; a boolean is a type error here.\<close>

definition json_idx :: "'d jlib \<Rightarrow> 'd json \<Rightarrow> nat res" where
  "json_idx lib j = (case j of
     JInt i \<Rightarrow> Inr (nat (i mod 18446744073709551616))
   | JFloat d \<Rightarrow> Inr (j_to_idx lib d)
   | _ \<Rightarrow> Inl JsonTypeError)"

definition pair_entry :: "'d jlib \<Rightarrow> 'd json \<Rightarrow> (nat \<times> nat) res" where
  "pair_entry lib e =
     bindR (json_at e ''left_id'') (\<lambda>l. bindR (json_idx lib l) (\<lambda>left_id.
       bindR (json_at e ''right_id'') (\<lambda>r. mapR (\<lambda>right_id. (left_id, right_id)) (json_idx lib r))))"

text \<open>The loop over the entries: an exception ends it, the pairs inserted before stay.\<close>

fun collect_pairs :: "'d jlib \<Rightarrow> nat \<Rightarrow> nat \<Rightarrow> 'd json list \<Rightarrow> (nat \<times> nat) list \<Rightarrow> (nat \<times> nat) list" where
  "collect_pairs lib nl nr [] acc = acc"
| "collect_pairs lib nl nr (e # es) acc =
     (case pair_entry lib e of
        Inl _ \<Rightarrow> acc
      | Inr (l, r) \<Rightarrow>
          collect_pairs lib nl nr es (if l < nl \<and> r < nr then (l, r) # acc else acc))"

definition reply_pairs :: "'d jlib \<Rightarrow> nat \<Rightarrow> nat \<Rightarrow> string \<Rightarrow> (nat \<times> nat) list" where
  "reply_pairs lib nl nr llm_out =
     (if llm_out = [] then []
      else case extract_json llm_out of
        Inl _ \<Rightarrow> []
      | Inr s \<Rightarrow> (case j_parse lib s of
          None \<Rightarrow> []
        | Some j \<Rightarrow> (case json_member j ''matching_pairs'' of
            Some (JArr es) \<Rightarrow> collect_pairs lib nl nr es []
          | _ \<Rightarrow> [])))"

definition matched_pairs :: "'d jlib \<Rightarrow> nat \<Rightarrow> nat \<Rightarrow> 'd json \<Rightarrow> (nat \<times> nat) list res" where
  "matched_pairs lib nl nr completion =
     (if json_contains completion ''error'' then Inr []
      else mapR (reply_pairs lib nl nr) (extract_content completion))"

subsection \<open>The output\<close>

definition match_cell :: "bool \<Rightarrow> string \<times> ltype \<Rightarrow> 'd val" where
  "match_cell is_match c = (if snd c = BOOLEAN then VBool is_match else VNull)"

definition write_match :: "cols \<Rightarrow> bool \<Rightarrow> nat \<Rightarrow> 'd chunk \<Rightarrow> 'd chunk" where
  "write_match cols is_match row out =
     fold (\<lambda>(k, c). set_value k row (match_cell is_match c)) (enumerate 0 cols) out"

definition predict_join ::
    "'d jlib \<Rightarrow> 'd endpoint \<Rightarrow> predictor \<Rightarrow> pinfo \<Rightarrow> nat \<Rightarrow> input \<Rightarrow> nat \<Rightarrow> 'd chunk
       \<Rightarrow> ('d chunk \<times> int \<times> int \<times> int) res" where
  "predict_join lib api p info n_left inp rows out =
     (let st = number_rows inp info n_left rows;
          lefts = snd (jlefts st); rights = snd (jrights st)
      in bindR (api JoinCall (join_request p lefts rights)) (\<lambda>completion.
         bindR (matched_pairs lib (length lefts) (length rights) completion) (\<lambda>pairs.
           let ch = fold (\<lambda>i. write_match (result_set info) ((row_ids st ! i) \<in> set pairs) i) [0..<rows] out
           in mapR (\<lambda>usage. (ch, usage))
                (if json_contains completion ''usage'' then read_usage lib completion else Inr (0, 0, 0)))))"

subsection \<open>A numbering is a bijection between texts and positions\<close>

locale interner =
  fixes add :: "'k \<Rightarrow> 'n \<Rightarrow> 'n"
    and names :: "'n \<Rightarrow> 'k list"
    and num :: "'n \<Rightarrow> 'k \<Rightarrow> nat"
    and wf :: "'n \<Rightarrow> bool"
  assumes wf_add: "wf n \<Longrightarrow> wf (add k n)"
    and wf_distinct: "wf n \<Longrightarrow> distinct (names n)"
    and wf_num: "wf n \<Longrightarrow> k \<in> set (names n) \<Longrightarrow> num n k < length (names n) \<and> names n ! num n k = k"
    and names_add: "wf n \<Longrightarrow> \<exists>ks. names (add k n) = names n @ ks \<and> set (names (add k n)) = insert k (set (names n))"
begin

lemma num_stable:
  assumes "wf n" "k \<in> set (names n)"
  shows "num (add k' n) k = num n k"
proof -
  obtain ks where ks: "names (add k' n) = names n @ ks" using names_add [OF assms(1)] by blast
  note w = wf_add [OF assms(1), of k']
  have "num n k < length (names n)" "names n ! num n k = k" using wf_num [OF assms] by auto
  moreover from this ks have "num n k < length (names (add k' n))" "names (add k' n) ! num n k = k"
    by (simp_all add: nth_append)
  moreover have "k \<in> set (names (add k' n))" using ks assms(2) by simp
  with wf_num [OF w] have "num (add k' n) k < length (names (add k' n))" "names (add k' n) ! num (add k' n) k = k"
    by auto
  ultimately show ?thesis
    using nth_eq_iff_index_eq [OF wf_distinct [OF w]] by metis
qed

lemma fold_wf: "wf n \<Longrightarrow> wf (fold add ks n)"
  by (induction ks arbitrary: n) (auto simp: wf_add)

lemma fold_names: "wf n \<Longrightarrow> set (names (fold add ks n)) = set (names n) \<union> set ks"
proof (induction ks arbitrary: n)
  case (Cons k ks)
  have "set (names (add k n)) = insert k (set (names n))" using names_add [OF Cons.prems] by blast
  with Cons.IH [OF wf_add [OF Cons.prems]] show ?case by auto
qed simp

lemma fold_stable: "wf n \<Longrightarrow> k \<in> set (names n) \<Longrightarrow> num (fold add ks n) k = num n k"
proof (induction ks arbitrary: n)
  case (Cons k' ks)
  have "k \<in> set (names (add k' n))" using names_add [OF Cons.prems(1)] Cons.prems(2) by auto
  with Cons num_stable [of n k k'] wf_add show ?case by simp
qed simp

lemma num_inj:
  "wf n \<Longrightarrow> k \<in> set (names n) \<Longrightarrow> k' \<in> set (names n) \<Longrightarrow> num n k = num n k' \<longleftrightarrow> k = k'"
  by (metis wf_num)

end

definition wf_numbering :: "numbering \<Rightarrow> bool" where
  "wf_numbering n \<longleftrightarrow> distinct (snd n) \<and>
     (\<forall>k i. fst n k = Some i \<longleftrightarrow> i < length (snd n) \<and> snd n ! i = k)"

lemma wf_intern: "wf_numbering n \<Longrightarrow> wf_numbering (intern k n)"
proof -
  assume wf: "wf_numbering n"
  show ?thesis
  proof (cases "fst n k")
    case None
    then have "\<not> (i < length (snd n) \<and> snd n ! i = k)" for i
      using wf unfolding wf_numbering_def by (metis option.distinct(1))
    then have "k \<notin> set (snd n)" by (auto simp: in_set_conv_nth)
    then have new: "snd n ! i \<noteq> k" if "i < length (snd n)" for i using that nth_mem by blast
    show ?thesis
      using wf None \<open>k \<notin> set (snd n)\<close>
      by (auto simp: wf_numbering_def intern_def nth_append less_Suc_eq new)
  qed (simp add: intern_def wf)
qed

interpretation texts: interner intern snd number_of wf_numbering
proof unfold_locales
  fix n k assume wf: "wf_numbering n"
  show "wf_numbering (intern k n)" by (rule wf_intern [OF wf])
  show "distinct (snd n)" using wf by (simp add: wf_numbering_def)
  show "\<exists>ks. snd (intern k n) = snd n @ ks \<and> set (snd (intern k n)) = insert k (set (snd n))"
  proof (cases "fst n k")
    case None
    then show ?thesis by (simp add: intern_def)
  next
    case (Some i)
    then have "k \<in> set (snd n)" using wf by (auto simp: wf_numbering_def)
    with Some show ?thesis by (auto simp: intern_def)
  qed
next
  fix n k assume wf: "wf_numbering n" and k: "k \<in> set (snd n)"
  then obtain i where i: "i < length (snd n)" "snd n ! i = k" by (auto simp: in_set_conv_nth)
  then have "fst n k = Some i" using wf by (simp add: wf_numbering_def)
  then have "number_of n k = i" by (simp add: number_of_def)
  with i show "number_of n k < length (snd n) \<and> snd n ! number_of n k = k" by simp
qed


subsection \<open>The numbered rows\<close>

lemma number_rows_state:
  "number_rows inp info n_left rows =
     \<lparr>jlefts = fold (\<lambda>i. intern (fst (build_join_repr inp info n_left i))) [0..<rows] (Map.empty, []),
      jrights = fold (\<lambda>i. intern (snd (build_join_repr inp info n_left i))) [0..<rows] (Map.empty, []),
      row_ids = row_ids (number_rows inp info n_left rows)\<rparr>"
proof (induction rows)
  case (Suc rows)
  have "number_rows inp info n_left (Suc rows) =
      number_row inp info n_left rows (number_rows inp info n_left rows)"
    by (simp add: number_rows_def)
  then show ?case by (subst (asm) Suc) (simp add: number_row_def Let_def split: prod.splits)
qed (simp add: number_rows_def)

lemma empty_numbering: "wf_numbering (Map.empty, [])"
  by (simp add: wf_numbering_def)

lemma fold_intern:
  assumes "n = fold (\<lambda>i. intern (f i)) [0..<rows] (Map.empty, [])"
  shows "wf_numbering n" and "set (snd n) = f ` {0..<rows}"
  using texts.fold_wf [OF empty_numbering, of "map f [0..<rows]"]
    texts.fold_names [OF empty_numbering, of "map f [0..<rows]"]
  by (simp_all add: assms fold_map comp_def)

lemma row_ids_number:
  "length (row_ids (number_rows inp info n_left rows)) = rows \<and>
   (\<forall>i < rows. row_ids (number_rows inp info n_left rows) ! i =
     (number_of (jlefts (number_rows inp info n_left rows)) (fst (build_join_repr inp info n_left i)),
      number_of (jrights (number_rows inp info n_left rows)) (snd (build_join_repr inp info n_left i))))"
proof (induction rows)
  case (Suc rows)
  let ?st = "number_rows inp info n_left rows" and ?r = "build_join_repr inp info n_left"
  have next_st: "number_rows inp info n_left (Suc rows) = number_row inp info n_left rows ?st"
    by (simp add: number_rows_def)
  have l: "jlefts ?st = fold (\<lambda>i. intern (fst (?r i))) [0..<rows] (Map.empty, [])"
    and r: "jrights ?st = fold (\<lambda>i. intern (snd (?r i))) [0..<rows] (Map.empty, [])"
    by (subst number_rows_state, simp)+
  have "number_of (intern k (jlefts ?st)) (fst (?r i)) = number_of (jlefts ?st) (fst (?r i))" if "i < rows" for i k
    using texts.num_stable [OF fold_intern(1) [OF l]] fold_intern(2) [OF l] that by simp
  moreover have "number_of (intern k (jrights ?st)) (snd (?r i)) = number_of (jrights ?st) (snd (?r i))" if "i < rows" for i k
    using texts.num_stable [OF fold_intern(1) [OF r]] fold_intern(2) [OF r] that by simp
  ultimately show ?case
    using Suc unfolding next_st
    by (auto simp: number_row_def Let_def nth_append less_Suc_eq split: prod.splits)
qed (simp add: number_rows_def)

lemma number_rows_spec:
  assumes st: "st = number_rows inp info n_left rows"
  shows "distinct (snd (jlefts st))" and "distinct (snd (jrights st))"
    and "set (snd (jlefts st)) = (\<lambda>i. fst (build_join_repr inp info n_left i)) ` {0..<rows}"
    and "set (snd (jrights st)) = (\<lambda>i. snd (build_join_repr inp info n_left i)) ` {0..<rows}"
    and "\<forall>i < rows. fst (row_ids st ! i) < length (snd (jlefts st)) \<and> snd (row_ids st ! i) < length (snd (jrights st)) \<and>
       (snd (jlefts st) ! fst (row_ids st ! i), snd (jrights st) ! snd (row_ids st ! i)) =
         build_join_repr inp info n_left i"
proof -
  let ?r = "build_join_repr inp info n_left"
  have l: "jlefts st = fold (\<lambda>i. intern (fst (?r i))) [0..<rows] (Map.empty, [])"
    and r: "jrights st = fold (\<lambda>i. intern (snd (?r i))) [0..<rows] (Map.empty, [])"
    unfolding st by (subst number_rows_state, simp)+
  note wl = fold_intern [OF l] and wr = fold_intern [OF r]
  show "distinct (snd (jlefts st))" "distinct (snd (jrights st))"
    using texts.wf_distinct wl(1) wr(1) by auto
  show "set (snd (jlefts st)) = (\<lambda>i. fst (?r i)) ` {0..<rows}"
    "set (snd (jrights st)) = (\<lambda>i. snd (?r i)) ` {0..<rows}" using wl(2) wr(2) by auto
  show "\<forall>i < rows. fst (row_ids st ! i) < length (snd (jlefts st)) \<and> snd (row_ids st ! i) < length (snd (jrights st)) \<and>
       (snd (jlefts st) ! fst (row_ids st ! i), snd (jrights st) ! snd (row_ids st ! i)) = ?r i"
  proof (intro allI impI)
    fix i assume i: "i < rows"
    then have "row_ids st ! i = (number_of (jlefts st) (fst (?r i)), number_of (jrights st) (snd (?r i)))"
      using row_ids_number [of inp info n_left rows] st by simp
    moreover have "fst (?r i) \<in> set (snd (jlefts st))" "snd (?r i) \<in> set (snd (jrights st))"
      using i wl(2) wr(2) by auto
    note this(1) [THEN texts.wf_num [OF wl(1)]] this(2) [THEN texts.wf_num [OF wr(1)]]
    ultimately show "fst (row_ids st ! i) < length (snd (jlefts st)) \<and> snd (row_ids st ! i) < length (snd (jrights st)) \<and>
       (snd (jlefts st) ! fst (row_ids st ! i), snd (jrights st) ! snd (row_ids st ! i)) = ?r i"
      by simp
  qed
qed

text \<open>The numbering of a join input. Each side lists its different texts without repetition,
  exactly those that occur; the pair of numbers of a row names the two texts of that row; so two
  rows have the same pair exactly when both texts agree.\<close>
lemma join_numbering:
  assumes "st = number_rows inp info n_left rows"
  shows "distinct (snd (jlefts st)) \<and> distinct (snd (jrights st)) \<and>
    set (snd (jlefts st)) = (\<lambda>i. fst (build_join_repr inp info n_left i)) ` {0..<rows} \<and>
    set (snd (jrights st)) = (\<lambda>i. snd (build_join_repr inp info n_left i)) ` {0..<rows} \<and>
    (\<forall>i < rows. fst (row_ids st ! i) < length (snd (jlefts st)) \<and> snd (row_ids st ! i) < length (snd (jrights st)) \<and>
       (snd (jlefts st) ! fst (row_ids st ! i), snd (jrights st) ! snd (row_ids st ! i)) =
         build_join_repr inp info n_left i)"
  using number_rows_spec [OF assms] by blast

subsection \<open>The verdict of a row\<close>

lemma write_match_put: "write_match cols m row out = put_row row (map (match_cell m) cols) out"
proof -
  have "fold (\<lambda>(k, c). set_value k row (match_cell m c)) (enumerate n cols) out =
      put_from n row (map (match_cell m) cols) out" for n and out :: "'a chunk"
    by (induction cols arbitrary: n out) (simp_all add: put_from_Cons)
  then show ?thesis by (simp add: write_match_def)
qed

lemma write_matches:
  "fold (\<lambda>i. write_match cols (f i) i) rs out = write_all put_row (map (\<lambda>i. (i, map (match_cell (f i)) cols)) rs) out"
  by (induction rs arbitrary: out) (simp_all add: write_match_put)

lemma collect_pairs_set:
  "set (collect_pairs lib nl nr es acc) = set acc \<union>
     {(l, r). l < nl \<and> r < nr \<and> (\<exists>k < length es. pair_entry lib (es ! k) = Inr (l, r) \<and>
        (\<forall>j < k. \<not> isl (pair_entry lib (es ! j))))}"
proof (induction es arbitrary: acc)
  case (Cons e es)
  have shift: "(\<exists>k < length (e # es). P ((e # es) ! k) \<and> (\<forall>j < k. Q ((e # es) ! j))) \<longleftrightarrow>
      P e \<or> (Q e \<and> (\<exists>k < length es. P (es ! k) \<and> (\<forall>j < k. Q (es ! j))))" for P Q :: "'a json \<Rightarrow> bool"
    by (auto simp: Ex_less_Suc2 All_less_Suc2)
  have entries: "(\<exists>k < length (e # es). pair_entry lib ((e # es) ! k) = Inr (l, r) \<and>
        (\<forall>j < k. \<not> isl (pair_entry lib ((e # es) ! j)))) \<longleftrightarrow>
      pair_entry lib e = Inr (l, r) \<or> \<not> isl (pair_entry lib e) \<and>
        (\<exists>k < length es. pair_entry lib (es ! k) = Inr (l, r) \<and> (\<forall>j < k. \<not> isl (pair_entry lib (es ! j))))"
    for l r by (rule shift)
  show ?case
  proof (cases "pair_entry lib e")
    case (Inl x)
    then show ?thesis unfolding entries by auto
  next
    case (Inr q)
    then show ?thesis unfolding entries using Cons by (cases q) auto
  qed
qed auto

text \<open>The entries of \<open>matching_pairs\<close>. The pairs taken are those of the entries before the
  first one that does not decode to two integers, cut down to the numbers that exist; a negative
  number is cast to an unsigned one, which is out of range, and ignored.\<close>
lemma reply_pairs_prefix:
  assumes "extract_json llm_out = Inr s" "j_parse lib s = Some j" "json_member j ''matching_pairs'' = Some (JArr es)"
  shows "set (reply_pairs lib nl nr llm_out) =
    {(l, r). l < nl \<and> r < nr \<and> (\<exists>k < length es. pair_entry lib (es ! k) = Inr (l, r) \<and>
        (\<forall>j < k. \<not> isl (pair_entry lib (es ! j))))}"
proof -
  have "llm_out \<noteq> []" using assms(1) by (auto simp: extract_json_def)
  with assms show ?thesis by (simp add: reply_pairs_def collect_pairs_set)
qed

text \<open>A row is in a list of pairs of numbers exactly if its texts are the texts of one of them.\<close>

lemma row_matched:
  assumes st: "st = number_rows inp info n_left rows" and lr: "lefts = snd (jlefts st)" "rights = snd (jrights st)"
    and pairs: "pairs = reply_pairs lib (length lefts) (length rights) llm_out" and i: "i < rows"
  shows "row_ids st ! i \<in> set pairs \<longleftrightarrow> (\<exists>(l, r) \<in> set pairs. (lefts ! l, rights ! r) = build_join_repr inp info n_left i)"
proof -
  note sp = number_rows_spec [OF st, folded lr]
  have range: "l < length lefts \<and> r < length rights" if "(l, r) \<in> set pairs" for l r
    using that unfolding pairs
    by (auto simp: reply_pairs_def collect_pairs_set split: if_splits sum.splits option.splits json.splits)
  show ?thesis
  proof
    assume "row_ids st ! i \<in> set pairs"
    moreover have "(lefts ! fst (row_ids st ! i), rights ! snd (row_ids st ! i)) = build_join_repr inp info n_left i"
      using sp(5) i by blast
    ultimately show "\<exists>(l, r) \<in> set pairs. (lefts ! l, rights ! r) = build_join_repr inp info n_left i"
      by (intro bexI [of _ "row_ids st ! i"]) (auto split: prod.splits)
  next
    assume "\<exists>(l, r) \<in> set pairs. (lefts ! l, rights ! r) = build_join_repr inp info n_left i"
    then obtain l r where q: "(l, r) \<in> set pairs" "(lefts ! l, rights ! r) = build_join_repr inp info n_left i" by auto
    with sp(5) i have "lefts ! l = lefts ! fst (row_ids st ! i)" "rights ! r = rights ! snd (row_ids st ! i)"
      "fst (row_ids st ! i) < length lefts" "snd (row_ids st ! i) < length rights" by (metis prod.inject)+
    with range [OF q(1)] sp(1,2) have "(l, r) = row_ids st ! i" by (simp add: nth_eq_iff_index_eq prod_eq_iff)
    with q(1) show "row_ids st ! i \<in> set pairs" by simp
  qed
qed



text \<open>Three rows of two columns: the texts \<open>a\<close>, \<open>b\<close>, \<open>a\<close> against \<open>z\<close>; the model lists the pair
  of the first text.\<close>

definition pair_lib :: "int jlib" where
  "pair_lib = demo_lib\<lparr>j_parse := (\<lambda>s. if s = ''{m}'' then Some (JObj [(''matching_pairs'',
     JArr [JObj [(''left_id'', JInt 0), (''right_id'', JInt 0)],
           JObj [(''left_id'', JInt 7), (''right_id'', JInt 0)], JNull])]) else None)\<rparr>"

definition pair_info :: pinfo where
  "pair_info = \<lparr>input_mask = [0, 1], input_set_names = [''l'', ''r''], embedding_column_map = [],
     result_set = [(''match'', BOOLEAN), (''x'', VARCHAR)]\<rparr>"

definition pair_input :: input where
  "pair_input = (\<lambda>c row. if c = 1 then ''z'' else if row = 1 then ''b'' else ''a'')"

definition pair_api :: "int endpoint" where
  "pair_api c req = Inr (demo_completion ''{m}'')"

lemma join_numbering_witness:
  "length (snd (jlefts (number_rows pair_input pair_info 1 3))) = 2 \<and>
   distinct (snd (jlefts (number_rows pair_input pair_info 1 3)))"
proof -
  have "[0..<3] = [0, 1, 2 :: nat]" by (simp add: upt_rec)
  moreover have "build_join_repr pair_input pair_info 1 0 = (''l = `a`, '', ''r = `z`, '')"
    "build_join_repr pair_input pair_info 1 (Suc 0) = (''l = `b`, '', ''r = `z`, '')"
    "build_join_repr pair_input pair_info 1 2 = (''l = `a`, '', ''r = `z`, '')" by code_simp+
  ultimately have "length (snd (jlefts (number_rows pair_input pair_info 1 3))) = 2"
    by (simp add: number_rows_def number_row_def intern_def Let_def)
  with join_numbering [OF refl, of pair_input pair_info 1 3] show ?thesis by blast
qed

lemma reply_pairs_prefix_witness:
  "(0, 0) \<in> set (reply_pairs pair_lib 2 1 ''{m}'')"
proof -
  let ?es = "[JObj [(''left_id'', JInt 0), (''right_id'', JInt 0)],
    JObj [(''left_id'', JInt 7), (''right_id'', JInt 0)], JNull] :: int json list"
  have j: "extract_json ''{m}'' = Inr ''{m}''"
    "j_parse pair_lib ''{m}'' = Some (JObj [(''matching_pairs'', JArr ?es)])"
    "json_member (JObj [(''matching_pairs'', JArr ?es)]) ''matching_pairs'' = Some (JArr ?es)"
    "pair_entry pair_lib (JObj [(''left_id'', JInt 0), (''right_id'', JInt 0)]) = Inr (0, 0)" by code_simp+
  show ?thesis
    unfolding reply_pairs_prefix [OF j(1-3)] using j(4) by (auto intro: exI [of _ 0])
qed


end
