(* ===== verification/Calls.thy ===== *)
theory Calls
  imports Join
begin

section \<open>Configuring a predictor and its other calls\<close>

text \<open>
  \<open>llm_api.cpp\<close> (\<open>Config\<close>), the other entry points of \<open>LlmApiPredictor\<close> (\<open>PredictString\<close>,
  \<open>ScanChunk\<close>, the embedding batches of \<open>PredictChunk\<close>), and the operators that own a predictor:
  \<open>physical_predict.cpp\<close>, \<open>physical_predict_scan.cpp\<close> and \<open>execute_predict.cpp\<close>.
\<close>

subsection \<open>Options\<close>

datatype option_value = OptInt int | OptBool bool

text \<open>\<open>case_insensitive_map_t<Value>\<close>, as its pairs.\<close>

type_synonym options = "(string \<times> option_value) list"

definition option_of :: "options \<Rightarrow> string \<Rightarrow> option_value option" where
  "option_of opts name = map_option snd (find (\<lambda>p. ci_equals (fst p) name) opts)"

record client_config =
  ml_batch_size :: nat
  llm_no_threads :: nat
  llm_use_batch :: bool
  llm_use_cache :: bool
  llm_max_tokens :: nat

definition default_client_config :: client_config where
  "default_client_config = \<lparr>ml_batch_size = 16, llm_no_threads = 16, llm_use_batch = True,
     llm_use_cache = True, llm_max_tokens = 512\<rparr>"

text \<open>\<open>IntegerValue::Get\<close> stored into an unsigned 64-bit field; a value of another type is read
  as if it had the right one.\<close>

definition int_option :: "options \<Rightarrow> string \<Rightarrow> nat \<Rightarrow> nat res" where
  "int_option opts name dflt = (case option_of opts name of
     None \<Rightarrow> Inr dflt
   | Some (OptInt i) \<Rightarrow> Inr (nat (i mod 18446744073709551616))
   | Some (OptBool _) \<Rightarrow> Inl (Undefined ''IntegerValue::Get of a BOOLEAN''))"

definition bool_option :: "options \<Rightarrow> string \<Rightarrow> bool \<Rightarrow> bool res" where
  "bool_option opts name dflt = (case option_of opts name of
     None \<Rightarrow> Inr dflt
   | Some (OptBool b) \<Rightarrow> Inr b
   | Some (OptInt _) \<Rightarrow> Inl (Undefined ''BooleanValue::Get of an INTEGER''))"

definition config :: "client_config \<Rightarrow> options \<Rightarrow> predictor \<Rightarrow> predictor res" where
  "config cfg opts p =
     bindR (int_option opts ''batch_size'' (ml_batch_size cfg)) (\<lambda>bs.
     bindR (bool_option opts ''use_cache'' (llm_use_cache cfg)) (\<lambda>uc.
     bindR (bool_option opts ''use_batch'' (llm_use_batch cfg)) (\<lambda>ub.
     mapR (\<lambda>nt. p\<lparr>batch_size := bs, use_cache := uc, use_batch := ub, n_threads := nt\<rparr>)
       (int_option opts ''n_threads'' (llm_no_threads cfg)))))"

subsection \<open>Choosing the implementation\<close>

fun contains_text :: "string \<Rightarrow> string \<Rightarrow> bool" where
  "contains_text pat [] = (pat = [])"
| "contains_text pat (c # cs) = (take (length pat) (c # cs) = pat \<or> contains_text pat cs)"

datatype predictor_kind = TorchKind | OnnxKind | LlamaKind string | ApiKind string string string | NoKind

record build =
  enable_predict :: bool
  enable_llm_api :: bool
  predictor_impl :: nat

record model_info =
  mi_task :: nat
  mi_path :: string
  mi_prompt :: string
  mi_base_api :: string
  mi_secret :: string
  mi_options :: options

definition init_predictor :: "build \<Rightarrow> model_info \<Rightarrow> string \<Rightarrow> predictor_kind res" where
  "init_predictor b mi api_key =
     (if enable_predict b \<and> predictor_impl b = 1 then Inr TorchKind
      else if enable_predict b \<and> predictor_impl b = 2 then Inr OnnxKind
      else if enable_predict b \<and> (predictor_impl b = 3 \<or> enable_llm_api b) then
        (if \<not> contains_text ''.gguf'' (mi_path mi) then
           (if enable_llm_api b then Inr (ApiKind (mi_prompt mi) (mi_base_api mi) api_key)
            else Inl (InternalException ''Unable to infer LLM API model without `ENABLE_LLM_API` build option.''))
         else if predictor_impl b = 3 then Inr (LlamaKind (mi_prompt mi))
         else Inl (InternalException ''Unable to infer local LLMs without `PREDICTOR_IMPL='llama_cpp'` build option.''))
      else Inr NoKind)"

text \<open>\<open>GetOperatorState\<close>: the named secret must exist; its \<open>bearer_token\<close> is the key.\<close>

definition resolve_secret :: "(string \<rightharpoonup> string) \<Rightarrow> model_info \<Rightarrow> string res" where
  "resolve_secret secrets mi =
     (if mi_secret mi = [] then Inr []
      else case secrets (mi_secret mi) of
        None \<Rightarrow> Inl (CatalogException (''Secret '' @ mi_secret mi @ '' for the API is not found in the catalogs!''))
      | Some token \<Rightarrow> Inr token)"

definition open_predictor :: "build \<Rightarrow> (string \<rightharpoonup> string) \<Rightarrow> model_info \<Rightarrow> predictor_kind res" where
  "open_predictor b secrets mi = bindR (resolve_secret secrets mi) (init_predictor b mi)"

subsection \<open>Aggregate calls and scans\<close>

definition predict_agg :: "'d jlib \<Rightarrow> 'd endpoint \<Rightarrow> predictor \<Rightarrow> nat \<Rightarrow> string \<Rightarrow> batch_result res" where
  "predict_agg lib api p call input =
     (let req = \<lparr>req_system = ''You are a helpful assistant. Always respond with a plain text. Do not include any explanations, given inputs or language specifiers.'',
            req_user = prompt p @ ''; Consider all of the following inputs and produce a single output: '' @ newline @ input,
            req_format = []\<rparr>
      in bindR (api (AggCall call) req) (\<lambda>completion.
         bindR (extract_content completion) (\<lambda>llm_out.
           mapR (\<lambda>(t, i, o'). new_result\<lparr>outputs := [llm_out], tokens := t, in_tokens := i,
               out_tokens := o', is_concat := False, n_calls := 1, n_rows := 1\<rparr>)
             (read_usage lib completion))))"

text \<open>\<open>PredictString\<close>: one call per group, all in flight at once, read in order.\<close>

definition predict_string :: "'d jlib \<Rightarrow> 'd endpoint \<Rightarrow> predictor \<Rightarrow> string list \<Rightarrow> string list res" where
  "predict_string lib api p inputs =
     mapR (map (\<lambda>r. hd (outputs r)))
       (traverse (\<lambda>(call, input). predict_agg lib api p call input) (enumerate 0 inputs))"

definition scan_chunk ::
    "'d jlib \<Rightarrow> 'd endpoint \<Rightarrow> predictor \<Rightarrow> cols \<Rightarrow> 'd chunk \<Rightarrow> ('d chunk \<times> int \<times> int \<times> int) res" where
  "scan_chunk lib api p cols out =
     (let req = \<lparr>req_system = generate_system_message (grammar p) True, req_user = prompt p,
            req_format = build_array_response_format (grammar p) 0\<rparr>
      in bindR (api ScanCall req) (\<lambda>completion.
         bindR (extract_content completion) (\<lambda>llm_out.
         bindR (read_usage lib completion) (\<lambda>usage.
           mapR (\<lambda>ch. (ch, usage)) (extract_array_scan lib cols llm_out out 0 True 0)))))"

subsection \<open>Embedding batches\<close>

record 'f embed_result = batch_result +
  embeddings :: "'f list list"

text \<open>The embeddings endpoint: which batch, and the texts of the request.\<close>

type_synonym 'd embed_endpoint = "nat \<Rightarrow> string list \<Rightarrow> 'd json res"

text \<open>\<open>get<std::vector<float>>()\<close>; \<open>fl\<close> is the narrowing to \<open>float\<close>.\<close>

definition json_float :: "'d jlib \<Rightarrow> ('d \<Rightarrow> 'f) \<Rightarrow> 'd json \<Rightarrow> 'f res" where
  "json_float lib fl j = (case j of
     JFloat d \<Rightarrow> Inr (fl d) | JInt i \<Rightarrow> Inr (fl (j_of_int lib i))
   | JBool b \<Rightarrow> Inr (fl (j_of_int lib (if b then 1 else 0))) | _ \<Rightarrow> Inl JsonTypeError)"

fun read_embeddings :: "'d jlib \<Rightarrow> ('d \<Rightarrow> 'f) \<Rightarrow> 'd json list \<Rightarrow> 'f list list res" where
  "read_embeddings lib fl [] = Inr []"
| "read_embeddings lib fl (msg # msgs) =
     bindR (json_at msg ''embedding'') (\<lambda>e. case e of
       JArr xs \<Rightarrow> bindR (traverse (json_float lib fl) xs) (\<lambda>v. mapR (\<lambda>vs. v # vs) (read_embeddings lib fl msgs))
     | _ \<Rightarrow> read_embeddings lib fl msgs)"

definition predict_embed_batch ::
    "'d jlib \<Rightarrow> ('d \<Rightarrow> 'f) \<Rightarrow> 'd embed_endpoint \<Rightarrow> string list \<Rightarrow> nat \<Rightarrow> nat \<Rightarrow> nat \<Rightarrow> 'f embed_result res" where
  "predict_embed_batch lib fl eapi input rows batch bsize =
     (let fr = batch * bsize; lr = min (fr + bsize) rows;
          result = \<lparr>tokens = 0, in_tokens = 0, out_tokens = 0, frow = fr, n_rows = lr - fr, n_calls = 1,
            is_concat = True, outputs = [], embeddings = []\<rparr>
      in bindR (eapi batch input) (\<lambda>resp.
         if json_contains resp ''error'' then mapR (\<lambda>_. result) (check_api_error lib resp)
         else bindR (usage_count lib resp ''total_tokens'') (\<lambda>t.
              bindR (usage_count lib resp ''prompt_tokens'') (\<lambda>i.
              bindR (json_at resp ''data'') (\<lambda>d.
                mapR (\<lambda>es. result\<lparr>embeddings := es, tokens := t, in_tokens := i, is_concat := False\<rparr>)
                  (read_embeddings lib fl (json_items d)))))))"

definition embed_success :: "'f embed_result \<Rightarrow> bool" where
  "embed_success r \<longleftrightarrow> n_calls r = length (outputs r) \<or> n_rows r = length (embeddings r)"

text \<open>What a chunk's embedding column and bookkeeping look like: the rows of the array vector,
  the cardinality, and the rows left for the row-wise retry.\<close>

record 'f embed_state =
  vec_rows :: "nat \<Rightarrow> 'f list"
  vec_card :: nat
  embed_fails :: "nat list"
  texts_sent :: nat

fun copy_embeddings :: "nat \<Rightarrow> 'f list list \<Rightarrow> (nat \<Rightarrow> 'f list) \<Rightarrow> (nat \<Rightarrow> 'f list) res" where
  "copy_embeddings row [] v = Inr v"
| "copy_embeddings row (e # es) v =
     (if length e \<noteq> 384 then Inl (RuntimeError ''Embedding dimension mismatch! Expected 384.'')
      else copy_embeddings (Suc row) es (v(row := e)))"

definition process_embed :: "'f embed_result \<Rightarrow> 'f embed_state \<Rightarrow> 'f embed_state res" where
  "process_embed r st =
     (if is_concat r then
        (if \<not> embed_success r then
           Inr (st\<lparr>embed_fails := embed_fails st @ [frow r..<frow r + n_rows r]\<rparr>)
         else Inl (Undefined ''outputs[0] of a result without outputs''))
      else mapR (\<lambda>v. st\<lparr>vec_rows := v, vec_card := length (embeddings r)\<rparr>)
        (copy_embeddings 0 (embeddings r) (vec_rows st)))"

definition embed_batch ::
    "'d jlib \<Rightarrow> ('d \<Rightarrow> 'f) \<Rightarrow> 'd embed_endpoint \<Rightarrow> string list \<Rightarrow> nat \<Rightarrow> nat \<Rightarrow> 'f embed_state \<Rightarrow> 'f embed_state res" where
  "embed_batch lib fl eapi input imp b st =
     bindR (predict_embed_batch lib fl eapi input (length input) b imp)
       (\<lambda>r. process_embed r (st\<lparr>texts_sent := texts_sent st + length input\<rparr>))"

definition embed_chunk ::
    "'d jlib \<Rightarrow> ('d \<Rightarrow> 'f) \<Rightarrow> 'd embed_endpoint \<Rightarrow> predictor \<Rightarrow> string list \<Rightarrow> 'f embed_state \<Rightarrow> 'f embed_state res option" where
  "embed_chunk lib fl eapi p input st =
     (let n = length input; imp = imp_batch_size p n in
      case num_rounds n imp of
        Inl e \<Rightarrow> Some (Inl e)
      | Inr rounds \<Rightarrow> map_option (\<lambda>groups. foldR (embed_batch lib fl eapi input imp) (concat groups) st)
          (schedule (n_threads p) imp n rounds 0))"

subsection \<open>The operators\<close>

text \<open>\<open>PhysicalPredict::Execute\<close>: the prediction columns are split off the output chunk, the
  input is copied in front of them. \<open>sql\<close> is \<open>Value::ToSQLString\<close>.\<close>

definition operator_execute ::
    "('d val \<Rightarrow> string) \<Rightarrow> 'd jlib \<Rightarrow> 'd endpoint \<Rightarrow> predictor \<Rightarrow> pinfo \<Rightarrow> nat \<Rightarrow> 'd chunk \<Rightarrow> 'd chunk
       \<Rightarrow> (string \<rightharpoonup> string) \<Rightarrow> ('d chunk \<times> (string \<rightharpoonup> string)) res option" where
  "operator_execute sql lib api p info ncols inp out cache0 =
     (let predictions = \<lparr>cells = (\<lambda>c. cells out (c + ncols)), card = card inp\<rparr> in
      map_option (mapR (\<lambda>st. (\<lparr>cells = (\<lambda>c r. if c < ncols then cells inp c r else cells (result st) (c - ncols) r),
          card = card inp\<rparr>, cache st)))
        (predict_chunk lib api p info (\<lambda>c r. sql (cells inp c r)) (card inp) predictions cache0))"

text \<open>\<open>ExpressionExecutor::Execute\<close> for a predict expression: which entry point it uses. The
  difference of the two sizes is unsigned.\<close>

definition is_join_expression :: "nat \<Rightarrow> pinfo \<Rightarrow> bool" where
  "is_join_expression n_children info \<longleftrightarrow>
     (n_children < length (embedding_column_map info) \<or> 1 < n_children - length (embedding_column_map info)) \<and>
     snd (result_set info ! 0) = BOOLEAN"


subsection \<open>Returning, or not\<close>

lemma predict_chunk_returns:
  assumes "0 < n_threads p"
  shows "predict_chunk lib api p info inp rows out cache0 \<noteq> None"
proof (cases "classify_rows lib p info inp rows (initial_state out cache0)")
  case (Inr st)
  let ?n = "length (unprocessed st)"
  show ?thesis
  proof (cases "num_rounds ?n (imp_batch_size p ?n)")
    case (Inl e)
    with Inr show ?thesis by (simp add: predict_chunk_def run_batches_def Let_def)
  next
    case (Inr rounds)
    with schedule_from [OF this assms, of 0] \<open>classify_rows _ _ _ _ _ _ = Inr st\<close> show ?thesis
      by (auto simp: predict_chunk_def run_batches_def Let_def)
  qed
qed (simp add: predict_chunk_def)

lemma config_fields:
  assumes "config cfg opts p = Inr p'"
  shows "int_option opts ''batch_size'' (ml_batch_size cfg) = Inr (batch_size p')"
    and "int_option opts ''n_threads'' (llm_no_threads cfg) = Inr (n_threads p')"
    and "bool_option opts ''use_cache'' (llm_use_cache cfg) = Inr (use_cache p')"
  using assms by (auto simp: config_def bindR_Inr_iff mapR_Inr_iff)

text \<open>With the default settings and any options that do not set \<open>n_threads\<close>, every chunk is
  predicted in finite time: the call returns a result or an exception.\<close>
lemma default_threads_return:
  assumes "config default_client_config opts p = Inr p'" and "option_of opts ''n_threads'' = None"
  shows "\<exists>res. predict_chunk lib api p' info inp rows out cache0 = Some res"
proof -
  have "n_threads p' = 16"
    using config_fields(2) [OF assms(1)] assms(2) by (simp add: int_option_def default_client_config_def)
  then show ?thesis using predict_chunk_returns [of p' lib api info inp rows out cache0] by auto
qed

lemma default_threads_return_witness:
  "\<exists>p' res. config default_client_config [(''Batch_Size'', OptInt 4)] demo_predictor = Inr p' \<and> batch_size p' = 4 \<and>
     predict_chunk demo_lib demo_api p' demo_info demo_input 3 demo_chunk Map.empty = Some res"
proof -
  let ?p = "demo_predictor\<lparr>batch_size := 4, use_cache := True, use_batch := True, n_threads := 16\<rparr>"
  have o: "option_of [(''Batch_Size'', OptInt 4)] ''batch_size'' = Some (OptInt 4)"
    "option_of [(''Batch_Size'', OptInt 4)] ''n_threads'' = None"
    "option_of [(''Batch_Size'', OptInt 4)] ''use_cache'' = None"
    "option_of [(''Batch_Size'', OptInt 4)] ''use_batch'' = None" by code_simp+
  then have c: "config default_client_config [(''Batch_Size'', OptInt 4)] demo_predictor = Inr ?p"
    by (simp add: config_def int_option_def bool_option_def default_client_config_def)
  from default_threads_return [OF c o(2), of demo_lib demo_api demo_info demo_input 3 demo_chunk Map.empty] c
  show ?thesis by auto
qed

text \<open>C36: the option \<open>n_threads = 0\<close> is taken as given; then a chunk with at least one row and no
  cache never returns (a positive batch size is needed to get as far as the loop).\<close>
theorem zero_threads_hang:
  assumes "config cfg opts p = Inr p'" and "option_of opts ''n_threads'' = Some (OptInt 0)"
    and "\<not> use_cache p'" "0 < batch_size p'" "0 < rows"
    and named: "length (input_mask info) \<le> length (input_set_names info)"
  shows "predict_chunk lib api p' info inp rows out cache0 = None"
proof -
  have t: "n_threads p' = 0" using config_fields(2) [OF assms(1)] assms(2) by (simp add: int_option_def)
  let ?st = "(initial_state out cache0)\<lparr>unprocessed := map (\<lambda>i. prompt_text i inp info True) [0..<rows]\<rparr>"
  have "classify_rows lib p' info inp rows (initial_state out cache0) = Inr ?st"
    using assms(3) by (simp add: classify_rows_def classify_plain named)
  moreover obtain rounds where r: "num_rounds rows (imp_batch_size p' rows) = Inr rounds"
    using imp_batch_size_pos [OF assms(4)] by (simp add: num_rounds_def)
  moreover have "0 < rounds" using num_rounds_iff(2) [OF r, of 0] assms(5) by simp
  ultimately show ?thesis
    using schedule_diverges t by (simp add: predict_chunk_def run_batches_def Let_def)
qed

theorem zero_threads_hang_witness:
  "predict_chunk demo_lib demo_api (demo_predictor\<lparr>n_threads := 0\<rparr>) demo_info demo_input 3 demo_chunk Map.empty = None"
proof -
  let ?opts = "[(''n_threads'', OptInt 0), (''use_cache'', OptBool False), (''batch_size'', OptInt 2)]"
  let ?p = "demo_predictor\<lparr>n_threads := 0\<rparr>"
  have o: "option_of ?opts ''n_threads'' = Some (OptInt 0)" "option_of ?opts ''use_cache'' = Some (OptBool False)"
    "option_of ?opts ''batch_size'' = Some (OptInt 2)" "option_of ?opts ''use_batch'' = None" by code_simp+
  then have c: "config default_client_config ?opts demo_predictor = Inr ?p"
    by (simp add: config_def int_option_def bool_option_def default_client_config_def demo_predictor_def)
  have "\<not> use_cache ?p" "0 < batch_size ?p" by code_simp+
  from zero_threads_hang [OF c o(1) this _ demo_named, of 3] show ?thesis by simp
qed

subsection \<open>Embedding batches\<close>

lemma copy_embeddings_ok:
  "\<forall>e \<in> set es. length e = 384 \<Longrightarrow>
     copy_embeddings row es v = Inr (\<lambda>r. if row \<le> r \<and> r < row + length es then es ! (r - row) else v r)"
proof (induction es arbitrary: row v)
  case (Cons e es)
  have "(if Suc row \<le> r \<and> r < Suc row + length es then es ! (r - Suc row) else (v(row := e)) r) =
      (if row \<le> r \<and> r < row + length (e # es) then (e # es) ! (r - row) else v r)" for r
  proof (cases "r \<le> row")
    case False
    then have "r - row = Suc (r - Suc row)" "r \<noteq> row" by simp_all
    then show ?thesis by simp
  qed auto
  with Cons show ?case by simp
qed (auto simp: fun_eq_iff)

lemma embed_batches_state:
  assumes ok: "\<And>b. b < k \<Longrightarrow> \<exists>r. predict_embed_batch lib fl eapi input n b imp = Inr r \<and>
      \<not> is_concat r \<and> embeddings r = es b \<and> length (es b) = n \<and> (\<forall>e \<in> set (es b). length e = 384)"
    and n: "n = length input"
  shows "\<exists>st'. foldR (embed_batch lib fl eapi input imp) [0..<k] st = Inr st' \<and>
    texts_sent st' = texts_sent st + k * n \<and> embed_fails st' = embed_fails st \<and>
    (0 < k \<longrightarrow> vec_card st' = n \<and> (\<forall>i < n. vec_rows st' i = es (k - 1) ! i))"
  using ok
proof (induction k)
  case (Suc k)
  then obtain s where s: "foldR (embed_batch lib fl eapi input imp) [0..<k] st = Inr s"
    "texts_sent s = texts_sent st + k * n" "embed_fails s = embed_fails st" by (metis less_SucI)
  from Suc.prems [of k] obtain r where r: "predict_embed_batch lib fl eapi input n k imp = Inr r"
    "\<not> is_concat r" "embeddings r = es k" "length (es k) = n" "\<forall>e \<in> set (es k). length e = 384" by auto
  let ?v = "\<lambda>i. if 0 \<le> i \<and> i < 0 + length (es k) then es k ! (i - 0) else vec_rows s i"
  have "embed_batch lib fl eapi input imp k s =
      Inr (s\<lparr>texts_sent := texts_sent s + n, vec_rows := ?v, vec_card := n\<rparr>)"
    using r n copy_embeddings_ok [OF r(5), of 0 "vec_rows s"]
    by (simp add: embed_batch_def process_embed_def)
  with s(1) have "foldR (embed_batch lib fl eapi input imp) [0..<Suc k] st =
      Inr (s\<lparr>texts_sent := texts_sent s + n, vec_rows := ?v, vec_card := n\<rparr>)"
    by (simp add: foldR_append)
  then show ?case using s r(4) by simp
qed simp

text \<open>An embedding chunk where every batch's request succeeds. Each request carries all the
  texts of the chunk, so the endpoint returns an embedding for every row each time and the last
  batch's are kept: row \<open>i\<close> gets its own embedding, but the texts are sent, and paid for, once per
  batch. (Were the endpoint to answer with the batch's rows only, they would all be written from
  row 0 on.)\<close>
lemma embed_chunk_resends:
  assumes threads: "0 < n_threads p" and size: "0 < batch_size p" and n: "n = length input" "0 < n"
    and imp: "imp = imp_batch_size p n"
    and ok: "\<forall>b. b * imp < n \<longrightarrow> (\<exists>r. predict_embed_batch lib fl eapi input n b imp = Inr r \<and>
      \<not> is_concat r \<and> embeddings r = es b \<and> length (es b) = n \<and> (\<forall>e \<in> set (es b). length e = 384))"
  shows "\<exists>st' rounds. embed_chunk lib fl eapi p input st = Some (Inr st') \<and> num_rounds n imp = Inr rounds \<and>
    texts_sent st' = texts_sent st + rounds * n \<and> vec_card st' = n \<and>
    (\<forall>i < n. vec_rows st' i = es (rounds - 1) ! i)"
proof -
  have "0 < imp" using imp size imp_batch_size_pos by simp
  then obtain rounds where nr: "num_rounds n imp = Inr rounds" by (simp add: num_rounds_def)
  have pos: "0 < rounds" using num_rounds_iff(2) [OF nr, of 0] n by simp
  from schedule_from [OF nr threads, of 0] obtain gs where
    gs: "schedule (n_threads p) imp n rounds 0 = Some gs" "concat gs = [0..<rounds]" by blast
  have "\<And>b. b < rounds \<Longrightarrow> \<exists>r. predict_embed_batch lib fl eapi input n b imp = Inr r \<and>
      \<not> is_concat r \<and> embeddings r = es b \<and> length (es b) = n \<and> (\<forall>e \<in> set (es b). length e = 384)"
    using ok num_rounds_iff(2) [OF nr] by simp
  from embed_batches_state [where k = rounds, OF this n(1), where st = st] pos nr gs imp n(1) show ?thesis
    by (auto simp: embed_chunk_def Let_def)
qed


text \<open>Three texts in two batches; the endpoint numbers its embeddings by the batch.\<close>

definition demo_embed_api :: "int embed_endpoint" where
  "demo_embed_api b texts = Inr (JObj [
     (''usage'', JObj [(''total_tokens'', JInt 3), (''prompt_tokens'', JInt 3)]),
     (''data'', JArr (map (\<lambda>_. JObj [(''embedding'', JArr (replicate 384 (JInt (int b))))]) texts))])"

lemma demo_embed_batch:
  "\<exists>r. predict_embed_batch demo_lib (\<lambda>d. d) demo_embed_api input n b imp = Inr r \<and> \<not> is_concat r \<and>
     embeddings r = replicate (length input) (replicate 384 (int b)) \<and>
     length (replicate (length input) (replicate 384 (int b))) = length input \<and>
     (\<forall>e \<in> set (replicate (length input) (replicate 384 (int b))). length e = 384)"
proof -
  have "read_embeddings demo_lib (\<lambda>d. d) (map (\<lambda>_. JObj [(''embedding'', JArr (replicate 384 (JInt (int b))))]) xs) =
      Inr (replicate (length xs) (replicate 384 (int b)))" for xs :: "string list"
  proof (induction xs)
    case (Cons x xs)
    have "traverse (json_float demo_lib (\<lambda>d. d)) (replicate m (JInt (int b))) = Inr (replicate m (int b))" for m
      by (simp add: traverse_Inr_iff json_float_def demo_lib_def)
    with Cons show ?case by (simp add: json_at_def)
  qed simp
  then show ?thesis
    by (auto simp: predict_embed_batch_def demo_embed_api_def json_contains_def json_member_def
        usage_count_def json_at_def json_int_def json_items_def to_int32_id in_int32_def Let_def)
qed

lemma embed_chunk_resends_witness:
  "\<exists>st'. embed_chunk demo_lib (\<lambda>d. d) demo_embed_api demo_predictor [''a'', ''b'', ''c'']
       \<lparr>vec_rows = (\<lambda>_. []), vec_card = 0, embed_fails = [], texts_sent = 0\<rparr> = Some (Inr st') \<and>
     texts_sent st' = 6 \<and> vec_rows st' 0 = replicate 384 1"
proof -
  have p: "0 < n_threads demo_predictor" "0 < batch_size demo_predictor" "2 = imp_batch_size demo_predictor 3"
    "num_rounds 3 2 = Inr 2" by code_simp+
  have b: "\<forall>b. b * 2 < 3 \<longrightarrow> (\<exists>r. predict_embed_batch demo_lib (\<lambda>d. d) demo_embed_api [''a'', ''b'', ''c''] 3 b 2 = Inr r \<and>
      \<not> is_concat r \<and> embeddings r = replicate 3 (replicate 384 (int b)) \<and>
      length (replicate 3 (replicate 384 (int b))) = 3 \<and>
      (\<forall>e \<in> set (replicate 3 (replicate 384 (int b))). length e = 384))"
    using demo_embed_batch [of "[''a'', ''b'', ''c'']" 3 _ 2] by (simp add: numeral_3_eq_3)
  from embed_chunk_resends [OF p(1,2) _ _ p(3) b, of "\<lparr>vec_rows = (\<lambda>_. []), vec_card = 0, embed_fails = [], texts_sent = 0\<rparr>"] p(4)
  show ?thesis by auto
qed

end
