(* ===== verification/Agg.thy ===== *)
theory Agg
  imports Calls
begin

section \<open>The aggregate llm_agg\<close>

text \<open>
  \<open>src/function/aggregate/distributive/llm_agg.cpp\<close>: the state of a group is a string that
  collects its values; \<open>Finalize\<close> sends one request per group (\<open>PredictString\<close>).
\<close>

subsection \<open>Operations\<close>

definition agg_init :: string where
  "agg_init = []"

text \<open>One row: a NULL is skipped.\<close>

definition agg_step :: "string \<Rightarrow> string option \<Rightarrow> string \<Rightarrow> string" where
  "agg_step name v st = (case v of
     None \<Rightarrow> st
   | Some s \<Rightarrow> st @ newline @ ''{'' @ name @ ''=`'' @ s @ ''`}'')"

definition agg_update :: "string \<Rightarrow> string option list \<Rightarrow> string \<Rightarrow> string" where
  "agg_update name vs st = fold (agg_step name) vs st"

definition agg_combine :: "string \<Rightarrow> string \<Rightarrow> string" where
  "agg_combine source target = target @ source"

text \<open>\<open>ScatterUpdate\<close>: the group of each row and its value. Only flat vectors are handled.\<close>

definition scatter_update ::
    "string \<Rightarrow> bool \<Rightarrow> bool \<Rightarrow> (nat \<times> string option) list \<Rightarrow> (nat \<Rightarrow> string) \<Rightarrow> (nat \<Rightarrow> string)" where
  "scatter_update name input_flat states_flat rows states =
     (if input_flat \<and> states_flat
      then fold (\<lambda>(g, v) s. s(g := agg_step name v (s g))) rows states
      else states)"

text \<open>\<open>Finalize\<close>: the groups of a vector in order; \<open>outputs[i]\<close> past the end is undefined.\<close>

definition agg_finalize :: "'d jlib \<Rightarrow> 'd endpoint \<Rightarrow> predictor \<Rightarrow> string list \<Rightarrow> string list res" where
  "agg_finalize lib api p states =
     bindR (predict_string lib api p states) (\<lambda>outs.
       if length states \<le> length outs then Inr (take (length states) outs)
       else Inl (Undefined ''outputs[i] past the end''))"

subsection \<open>What a parallel aggregate needs of its functions\<close>

locale mergeable =
  fixes init :: 's and step :: "'v \<Rightarrow> 's \<Rightarrow> 's" and combine :: "'s \<Rightarrow> 's \<Rightarrow> 's"
  assumes combine_init: "combine init t = t"
    and combine_step: "combine (step v s) t = step v (combine s t)"
begin

lemma combine_fold: "combine (fold step vs s) t = fold step vs (combine s t)"
  by (induction vs arbitrary: s t) (simp_all add: combine_step)

lemma combine_parts:
  "fold (\<lambda>vs t. combine (fold step vs init) t) parts t = fold step (concat parts) t"
  by (induction parts arbitrary: t) (simp_all add: combine_fold combine_init)

end

interpretation llm: mergeable agg_init "agg_step name" agg_combine
  by unfold_locales (auto simp: agg_init_def agg_step_def agg_combine_def split: option.splits)

lemma scatter_groups:
  "fold (\<lambda>(g, v) s. s(g := agg_step name v (s g))) rows states k =
     agg_update name (map snd (filter (\<lambda>(g, v). g = k) rows)) (states k)"
  by (induction rows arbitrary: states) (auto simp: agg_update_def)

lemma agg_update_text:
  "agg_update name vs st = st @ concat (map (\<lambda>s. newline @ ''{'' @ name @ ''=`'' @ s @ ''`}'')
     (List.map_filter (\<lambda>v. v) vs))"
  by (induction vs arbitrary: st)
    (auto simp: agg_update_def agg_step_def List.map_filter_simps split: option.splits)


text \<open>\<open>ScatterUpdate\<close> on flat vectors gives every group the texts of its own rows in row order;
  on any other vector (a constant or dictionary one) it does nothing, so those rows are missing
  from the aggregate.\<close>
lemma scatter_update_groups:
  "scatter_update name input_flat states_flat rows states k =
     (if input_flat \<and> states_flat
      then states k @ concat (map (\<lambda>s. newline @ ''{'' @ name @ ''=`'' @ s @ ''`}'')
        (List.map_filter snd (filter (\<lambda>(g, v). g = k) rows)))
      else states k)"
  by (simp add: scatter_update_def scatter_groups agg_update_text List.map_filter_def comp_def filter_map)

text \<open>\<open>Finalize\<close> sends one request per group, in the order of the groups, and gives group \<open>i\<close>
  the content of its own reply (the empty string where the reply has none); a reply whose usage
  counters are missing makes the whole aggregate throw.\<close>
lemma agg_finalize_replies:
  "agg_finalize lib api p states = Inr outs \<longleftrightarrow> length outs = length states \<and>
     (\<forall>i < length states. \<exists>r. predict_agg lib api p i (states ! i) = Inr r \<and> outs ! i = hd (outputs r))"
proof -
  have "predict_string lib api p states = Inr outs \<longleftrightarrow> length outs = length states \<and>
     (\<forall>i < length states. \<exists>r. predict_agg lib api p i (states ! i) = Inr r \<and> outs ! i = hd (outputs r))" for outs
  proof
    assume "predict_string lib api p states = Inr outs"
    then obtain rs where "traverse (\<lambda>(call, input). predict_agg lib api p call input) (enumerate 0 states) = Inr rs"
      and "outs = map (\<lambda>r. hd (outputs r)) rs" by (auto simp: predict_string_def mapR_Inr_iff)
    then show "length outs = length states \<and>
      (\<forall>i < length states. \<exists>r. predict_agg lib api p i (states ! i) = Inr r \<and> outs ! i = hd (outputs r))"
      by (auto simp: traverse_Inr_iff nth_enumerate_eq)
  next
    assume a: "length outs = length states \<and>
      (\<forall>i < length states. \<exists>r. predict_agg lib api p i (states ! i) = Inr r \<and> outs ! i = hd (outputs r))"
    then obtain f where f: "\<And>i. i < length states \<Longrightarrow> predict_agg lib api p i (states ! i) = Inr (f i) \<and> outs ! i = hd (outputs (f i))"
      by metis
    then have "traverse (\<lambda>(call, input). predict_agg lib api p call input) (enumerate 0 states) = Inr (map f [0..<length states])"
      by (simp add: traverse_Inr_iff nth_enumerate_eq)
    moreover have "outs = map (\<lambda>r. hd (outputs r)) (map f [0..<length states])"
      using a f by (auto intro: nth_equalityI)
    ultimately show "predict_string lib api p states = Inr outs" by (simp add: predict_string_def)
  qed
  then show ?thesis by (auto simp: agg_finalize_def bindR_Inr_iff split: if_splits)
qed

lemma agg_finalize_replies_witness:
  "agg_finalize demo_lib (\<lambda>c req. Inr (demo_completion (if c = AggCall 0 then ''x'' else ''y''))) demo_predictor
     [''s'', ''t''] = Inr [''x'', ''y'']"
proof -
  let ?api = "\<lambda>c req. Inr (demo_completion (if c = AggCall 0 then ''x'' else ''y''))"
  let ?r = "\<lambda>s. new_result\<lparr>outputs := [s], tokens := 3, in_tokens := 2, out_tokens := 1,
    is_concat := False, n_calls := 1, n_rows := 1\<rparr>"
  have "predict_agg demo_lib ?api demo_predictor 0 ''s'' = Inr (?r ''x'')"
    "predict_agg demo_lib ?api demo_predictor 1 ''t'' = Inr (?r ''y'')"
    by (simp_all add: predict_agg_def demo_completion_def extract_content_def json_member_def json_items_def
        read_usage_def usage_count_def json_at_def json_int_def to_int32_id in_int32_def)
  then have "\<forall>i < length [''s'', ''t'']. \<exists>r. predict_agg demo_lib ?api demo_predictor i ([''s'', ''t''] ! i) = Inr r \<and>
      [''x'', ''y''] ! i = hd (outputs r)" by (auto simp: less_Suc_eq)
  then show ?thesis using agg_finalize_replies [of demo_lib ?api demo_predictor "[''s'', ''t'']" "[''x'', ''y'']"] by simp
qed

end
