(* ===== verification/Embedding.thy ===== *)
theory Embedding
  imports Agg
begin

section \<open>CREATE EMBEDDING\<close>

text \<open>
  \<open>src/execution/operator/schema/physical_create_embedding.cpp\<close>: the non-NULL texts of a column
  are sent to the embeddings endpoint in one request, and a callback fills the new column chunk
  by chunk, matching a physical row position with the next row that has an embedding. The float
  buffer of the vector is kept as written: offsets are the code's, a write or read outside a
  buffer is undefined.
\<close>

subsection \<open>The fill callback\<close>

record fill_state =
  fill_pos :: nat
  fill_emb :: nat

record 'f fill_vector =
  child :: "nat \<Rightarrow> 'f"
  valid :: "nat \<Rightarrow> bool"
  entries :: "nat \<Rightarrow> nat \<times> nat"
  child_offset :: nat

definition write_floats :: "nat \<Rightarrow> 'f list \<Rightarrow> (nat \<Rightarrow> 'f) \<Rightarrow> (nat \<Rightarrow> 'f)" where
  "write_floats off xs c = (\<lambda>k. if off \<le> k \<and> k < off + length xs then xs ! (k - off) else c k)"

definition next_is :: "nat list \<Rightarrow> fill_state \<Rightarrow> nat \<Rightarrow> bool" where
  "next_is ids st i \<longleftrightarrow> fill_emb st < length ids \<and> ids ! fill_emb st = fill_pos st + i"

text \<open>Row \<open>i\<close> of a chunk, \<open>ARRAY\<close> type: the buffer has room for \<open>cap\<close> floats.\<close>

definition fill_array_row ::
    "'f \<Rightarrow> 'f list list \<Rightarrow> nat list \<Rightarrow> nat \<Rightarrow> nat \<Rightarrow> nat \<Rightarrow> fill_state \<times> 'f fill_vector \<Rightarrow> (fill_state \<times> 'f fill_vector) res" where
  "fill_array_row zero embs ids dim cap i = (\<lambda>(st, v).
     if cap < i * dim + dim then Inl (Undefined ''write past the end of the child vector'')
     else if next_is ids st i then
       (if length (embs ! fill_emb st) < dim then Inl (Undefined ''read past the end of an embedding'')
        else Inr (st\<lparr>fill_emb := fill_emb st + 1\<rparr>,
               v\<lparr>child := write_floats (i * dim) (take dim (embs ! fill_emb st)) (child v)\<rparr>))
     else Inr (st, v\<lparr>child := write_floats (i * dim) (replicate dim zero) (child v), valid := (valid v)(i := False)\<rparr>))"

text \<open>Row \<open>i\<close> of a chunk, \<open>LIST\<close> type: \<open>Reserve\<close> makes room for \<open>count * dim\<close> floats.\<close>

definition fill_list_row ::
    "'f list list \<Rightarrow> nat list \<Rightarrow> nat \<Rightarrow> nat \<Rightarrow> fill_state \<times> 'f fill_vector \<Rightarrow> (fill_state \<times> 'f fill_vector) res" where
  "fill_list_row embs ids dim i = (\<lambda>(st, v).
     if next_is ids st i then
       (if length (embs ! fill_emb st) < dim then Inl (Undefined ''read past the end of an embedding'')
        else Inr (st\<lparr>fill_emb := fill_emb st + 1\<rparr>,
               v\<lparr>entries := (entries v)(i := (child_offset v, dim)),
                 child := write_floats (child_offset v) (take dim (embs ! fill_emb st)) (child v),
                 child_offset := child_offset v + dim\<rparr>))
     else Inr (st, v\<lparr>entries := (entries v)(i := (child_offset v, 0)), valid := (valid v)(i := False)\<rparr>))"

definition read_array :: "nat \<Rightarrow> 'f fill_vector \<Rightarrow> nat \<Rightarrow> 'f list option" where
  "read_array asize v i = (if valid v i then Some (map (child v) [i * asize..<i * asize + asize]) else None)"

definition read_list :: "'f fill_vector \<Rightarrow> nat \<Rightarrow> 'f list option" where
  "read_list v i = (if valid v i
     then Some (map (child v) [fst (entries v i)..<fst (entries v i) + snd (entries v i)]) else None)"

definition fresh_vector :: "'f \<Rightarrow> 'f fill_vector" where
  "fresh_vector zero = \<lparr>child = (\<lambda>_. zero), valid = (\<lambda>_. True), entries = (\<lambda>_. (0, 0)), child_offset = 0\<rparr>"

text \<open>\<open>Fill\<close> on a fresh vector of \<open>count\<close> rows, and the values the vector then holds; \<open>asize\<close> is
  the size of the array type, zero for a list. A vector holds 2048 rows.\<close>

definition fill_chunk ::
    "'f \<Rightarrow> 'f list list \<Rightarrow> nat list \<Rightarrow> nat \<Rightarrow> nat \<Rightarrow> nat \<Rightarrow> fill_state \<Rightarrow> (fill_state \<times> 'f list option list) res" where
  "fill_chunk zero embs ids dim asize count st =
     mapR (\<lambda>(st, v). (st\<lparr>fill_pos := fill_pos st + count\<rparr>,
         map (if 0 < asize then read_array asize v else read_list v) [0..<count]))
       (foldR (if 0 < asize then fill_array_row zero embs ids dim (2048 * asize)
               else fill_list_row embs ids dim) [0..<count] (st, fresh_vector zero))"

definition fill_column ::
    "'f \<Rightarrow> 'f list list \<Rightarrow> nat list \<Rightarrow> nat \<Rightarrow> nat \<Rightarrow> nat list \<Rightarrow> 'f list option list res" where
  "fill_column zero embs ids dim asize counts =
     mapR snd (foldR (\<lambda>count (st, col). mapR (\<lambda>(st, cells). (st, col @ cells))
         (fill_chunk zero embs ids dim asize count st))
       counts (\<lparr>fill_pos = 0, fill_emb = 0\<rparr>, []))"

subsection \<open>The statement\<close>

text \<open>The texts and row ids that are gathered, the request, the checks on the response.\<close>

definition gather :: "(nat \<times> string option) list \<Rightarrow> nat list \<times> string list" where
  "gather rows = (map fst (filter (\<lambda>(_, s). s \<noteq> None) rows), List.map_filter snd rows)"

definition embedding_entries :: "'d jlib \<Rightarrow> ('d \<Rightarrow> 'f) \<Rightarrow> 'd json \<Rightarrow> 'f list list res" where
  "embedding_entries lib fl resp =
     (case json_member resp ''data'' of
        None \<Rightarrow> Inr []
      | Some d \<Rightarrow> traverse (\<lambda>xs. traverse (json_float lib fl) xs)
          (List.map_filter (\<lambda>e. case json_member e ''embedding'' of Some (JArr xs) \<Rightarrow> Some xs | _ \<Rightarrow> None)
             (json_items d)))"

text \<open>The message of an error is read as a string; an error that is an object, as OpenAI sends it, is a type error.\<close>

definition embedding_error :: "'d json \<Rightarrow> exn" where
  "embedding_error resp = (case json_member resp ''error'' of
     Some (JStr m) \<Rightarrow> IOException (''Embedding API error: '' @ m) | _ \<Rightarrow> JsonTypeError)"

definition wrong_count :: exn where
  "wrong_count = IOException ''Embedding API returned a wrong number of embeddings''"

definition fetch_embeddings ::
    "'d jlib \<Rightarrow> ('d \<Rightarrow> 'f) \<Rightarrow> 'd embed_endpoint \<Rightarrow> string list \<Rightarrow> 'f list list res" where
  "fetch_embeddings lib fl eapi texts =
     (if texts = [] then Inr []
      else bindR (eapi 0 texts) (\<lambda>resp.
        if json_contains resp ''error'' then Inl (embedding_error resp)
        else bindR (embedding_entries lib fl resp) (\<lambda>embs.
          if length embs \<noteq> length texts then Inl wrong_count
          else Inr embs)))"

text \<open>\<open>counts\<close> are the sizes of the chunks \<open>ALTER TABLE\<close> visits.\<close>

definition create_embedding ::
    "'d jlib \<Rightarrow> ('d \<Rightarrow> 'f) \<Rightarrow> 'f \<Rightarrow> 'd embed_endpoint \<Rightarrow> nat \<Rightarrow> (nat \<times> string option) list \<Rightarrow> nat list
       \<Rightarrow> 'f list option list res" where
  "create_embedding lib fl zero eapi embedding_size rows counts =
     (let (ids, texts) = gather rows in
      bindR (fetch_embeddings lib fl eapi texts) (\<lambda>embs.
        let dim = (if embs = [] then embedding_size else length (hd embs)) in
        fill_column zero embs ids dim embedding_size counts))"

subsection \<open>Row positions and ranks\<close>

definition rank_below :: "nat list \<Rightarrow> nat \<Rightarrow> nat" where
  "rank_below ids p = length (filter (\<lambda>r. r < p) ids)"

lemma rank_below_Suc: "distinct ids \<Longrightarrow> rank_below ids (Suc p) = rank_below ids p + (if p \<in> set ids then 1 else 0)"
  by (induction ids) (auto simp: rank_below_def less_Suc_eq)

lemma rank_below_nth:
  assumes "sorted_wrt (<) ids"
  shows "rank_below ids p < length ids \<and> ids ! rank_below ids p = p \<longleftrightarrow> p \<in> set ids"
  using assms
proof (induction ids)
  case (Cons r ids)
  show ?case
  proof (cases "r < p")
    case True
    with Cons show ?thesis by (auto simp: rank_below_def)
  next
    case False
    then have "\<forall>x \<in> set ids. \<not> x < p" using Cons.prems by auto
    then have "rank_below (r # ids) p = 0" using False by (simp add: rank_below_def)
    then show ?thesis using False Cons.prems by auto
  qed
qed (simp add: rank_below_def)

text \<open>The value a row position is to receive.\<close>

definition embedding_at :: "nat list \<Rightarrow> 'f list list \<Rightarrow> nat \<Rightarrow> 'f list option" where
  "embedding_at ids embs p = map_of (zip ids embs) p"

lemma embedding_at_rank:
  assumes "sorted_wrt (<) ids" "length embs = length ids"
  shows "embedding_at ids embs p = (if p \<in> set ids then Some (embs ! rank_below ids p) else None)"
proof -
  have d: "distinct ids" using assms(1) by (simp add: strict_sorted_iff)
  show ?thesis
  proof (cases "p \<in> set ids")
    case True
    then have "rank_below ids p < length ids" "ids ! rank_below ids p = p"
      using rank_below_nth [OF assms(1)] by auto
    then show ?thesis
      using True map_of_zip_nth [OF assms(2) [symmetric] d] assms(2) by (metis embedding_at_def)
  qed (auto simp: embedding_at_def map_of_eq_None_iff dest: set_zip_leftD)
qed

lemma next_is_rank:
  "sorted_wrt (<) ids \<Longrightarrow> next_is ids \<lparr>fill_pos = pos, fill_emb = rank_below ids (pos + i)\<rparr> i \<longleftrightarrow> pos + i \<in> set ids"
  using rank_below_nth [of ids "pos + i"] by (simp add: next_is_def)

lemma write_floats_inside:
  "length xs = n \<Longrightarrow> map (write_floats off xs c) [off..<off + n] = xs"
  by (rule nth_equalityI) (auto simp: write_floats_def)

lemma write_floats_outside:
  "off + length xs \<le> a \<or> b \<le> off \<Longrightarrow> map (write_floats off xs c) [a..<b] = map c [a..<b]"
  by (auto simp: write_floats_def)

lemma fill_array_rows:
  assumes ids: "sorted_wrt (<) ids" and len: "length embs = length ids"
    and dim: "\<forall>e \<in> set embs. length e = dim" and n: "n * dim \<le> cap"
  shows "\<exists>v. foldR (fill_array_row zero embs ids dim cap) [0..<n] (\<lparr>fill_pos = pos, fill_emb = rank_below ids pos\<rparr>, fresh_vector zero) =
      Inr (\<lparr>fill_pos = pos, fill_emb = rank_below ids (pos + n)\<rparr>, v) \<and>
    (\<forall>i < n. read_array dim v i = embedding_at ids embs (pos + i)) \<and> (\<forall>i \<ge> n. valid v i)"
  using n
proof (induction n)
  case 0
  then show ?case by (simp add: fresh_vector_def)
next
  case (Suc n)
  then obtain v where v: "foldR (fill_array_row zero embs ids dim cap) [0..<n]
        (\<lparr>fill_pos = pos, fill_emb = rank_below ids pos\<rparr>, fresh_vector zero) =
      Inr (\<lparr>fill_pos = pos, fill_emb = rank_below ids (pos + n)\<rparr>, v)"
    and old: "\<And>i. i < n \<Longrightarrow> read_array dim v i = embedding_at ids embs (pos + i)"
    and ok: "\<And>i. n \<le> i \<Longrightarrow> valid v i" by auto
  let ?st = "\<lparr>fill_pos = pos, fill_emb = rank_below ids (pos + n)\<rparr>"
  have d: "distinct ids" using ids by (simp add: strict_sorted_iff)
  have cap: "\<not> cap < n * dim + dim" using Suc.prems by simp
  have keep: "map (write_floats (n * dim) xs (child v)) [i * dim..<i * dim + dim] = map (child v) [i * dim..<i * dim + dim]"
    if "i < n" for i xs
  proof (rule write_floats_outside)
    from that have "Suc i * dim \<le> n * dim" by (intro mult_le_mono1) simp
    then show "n * dim + length xs \<le> i * dim \<or> i * dim + dim \<le> n * dim" by simp
  qed
  show ?case
  proof (cases "pos + n \<in> set ids")
    case True
    then have r: "rank_below ids (pos + n) < length embs" using rank_below_nth [OF ids] len by auto
    let ?e = "embs ! rank_below ids (pos + n)"
    have e: "length ?e = dim" using dim r by auto
    let ?v = "v\<lparr>child := write_floats (n * dim) ?e (child v)\<rparr>"
    have "fill_array_row zero embs ids dim cap n (?st, v) =
        Inr (\<lparr>fill_pos = pos, fill_emb = rank_below ids (pos + Suc n)\<rparr>, ?v)"
      using True cap e next_is_rank [OF ids, of pos n] rank_below_Suc [OF d, of "pos + n"]
      by (simp add: fill_array_row_def)
    moreover have "read_array dim ?v n = embedding_at ids embs (pos + n)"
      using True ok [of n] embedding_at_rank [OF ids len] write_floats_inside [OF e] by (simp add: read_array_def)
    moreover have "read_array dim ?v i = read_array dim v i" if "i < n" for i
      using keep [OF that] by (simp add: read_array_def)
    ultimately show ?thesis using v old ok by (auto simp: foldR_append less_Suc_eq)
  next
    case False
    let ?v = "v\<lparr>child := write_floats (n * dim) (replicate dim zero) (child v), valid := (valid v)(n := False)\<rparr>"
    have "fill_array_row zero embs ids dim cap n (?st, v) =
        Inr (\<lparr>fill_pos = pos, fill_emb = rank_below ids (pos + Suc n)\<rparr>, ?v)"
      using False cap next_is_rank [OF ids, of pos n] rank_below_Suc [OF d, of "pos + n"]
      by (simp add: fill_array_row_def)
    moreover have "read_array dim ?v n = embedding_at ids embs (pos + n)"
      using False embedding_at_rank [OF ids len] by (simp add: read_array_def)
    moreover have "read_array dim ?v i = read_array dim v i" if "i < n" for i
      using keep [OF that] that by (simp add: read_array_def)
    ultimately show ?thesis using v old ok by (auto simp: foldR_append less_Suc_eq)
  qed
qed


lemma fill_list_rows:
  assumes ids: "sorted_wrt (<) ids" and len: "length embs = length ids"
    and dim: "\<forall>e \<in> set embs. length e = dim"
  shows "\<exists>v. foldR (fill_list_row embs ids dim) [0..<n] (\<lparr>fill_pos = pos, fill_emb = rank_below ids pos\<rparr>, fresh_vector zero) =
      Inr (\<lparr>fill_pos = pos, fill_emb = rank_below ids (pos + n)\<rparr>, v) \<and>
    (\<forall>i < n. read_list v i = embedding_at ids embs (pos + i) \<and>
       fst (entries v i) + snd (entries v i) \<le> child_offset v) \<and> (\<forall>i \<ge> n. valid v i)"
proof (induction n)
  case 0
  then show ?case by (simp add: fresh_vector_def)
next
  case (Suc n)
  then obtain v where v: "foldR (fill_list_row embs ids dim) [0..<n]
        (\<lparr>fill_pos = pos, fill_emb = rank_below ids pos\<rparr>, fresh_vector zero) =
      Inr (\<lparr>fill_pos = pos, fill_emb = rank_below ids (pos + n)\<rparr>, v)"
    and old: "\<And>i. i < n \<Longrightarrow> read_list v i = embedding_at ids embs (pos + i)"
    and off: "\<And>i. i < n \<Longrightarrow> fst (entries v i) + snd (entries v i) \<le> child_offset v"
    and ok: "\<And>i. n \<le> i \<Longrightarrow> valid v i" by auto
  let ?st = "\<lparr>fill_pos = pos, fill_emb = rank_below ids (pos + n)\<rparr>"
  have d: "distinct ids" using ids by (simp add: strict_sorted_iff)
  show ?case
  proof (cases "pos + n \<in> set ids")
    case True
    then have r: "rank_below ids (pos + n) < length embs" using rank_below_nth [OF ids] len by auto
    let ?e = "embs ! rank_below ids (pos + n)"
    have e: "length ?e = dim" using dim r by auto
    let ?v = "v\<lparr>entries := (entries v)(n := (child_offset v, dim)),
      child := write_floats (child_offset v) ?e (child v), child_offset := child_offset v + dim\<rparr>"
    have step: "fill_list_row embs ids dim n (?st, v) =
        Inr (\<lparr>fill_pos = pos, fill_emb = rank_below ids (pos + Suc n)\<rparr>, ?v)"
      using True e next_is_rank [OF ids, of pos n] rank_below_Suc [OF d, of "pos + n"]
      by (simp add: fill_list_row_def)
    have new: "read_list ?v n = embedding_at ids embs (pos + n)"
      using True ok [of n] embedding_at_rank [OF ids len] write_floats_inside [OF e] by (simp add: read_list_def)
    have keep: "read_list ?v i = read_list v i" if "i < n" for i
    proof -
      have "map (write_floats (child_offset v) ?e (child v)) [fst (entries v i)..<fst (entries v i) + snd (entries v i)] =
          map (child v) [fst (entries v i)..<fst (entries v i) + snd (entries v i)]"
        by (rule write_floats_outside) (use off [OF that] in simp)
      then show ?thesis using that by (simp add: read_list_def)
    qed
    have "read_list ?v i = embedding_at ids embs (pos + i) \<and> fst (entries ?v i) + snd (entries ?v i) \<le> child_offset ?v"
      if "i < Suc n" for i
    proof (cases "i = n")
      case True
      then show ?thesis using new by simp
    next
      case False
      then have "i < n" using that by simp
      then show ?thesis using keep old off [of i] by simp
    qed
    moreover have "foldR (fill_list_row embs ids dim) [0..<Suc n]
        (\<lparr>fill_pos = pos, fill_emb = rank_below ids pos\<rparr>, fresh_vector zero) =
      Inr (\<lparr>fill_pos = pos, fill_emb = rank_below ids (pos + Suc n)\<rparr>, ?v)"
      using v step by (simp add: foldR_append)
    ultimately show ?thesis using ok by (intro exI [of _ ?v]) simp
  next
    case False
    let ?v = "v\<lparr>entries := (entries v)(n := (child_offset v, 0)), valid := (valid v)(n := False)\<rparr>"
    have "fill_list_row embs ids dim n (?st, v) =
        Inr (\<lparr>fill_pos = pos, fill_emb = rank_below ids (pos + Suc n)\<rparr>, ?v)"
      using False next_is_rank [OF ids, of pos n] rank_below_Suc [OF d, of "pos + n"]
      by (simp add: fill_list_row_def)
    moreover have "read_list ?v n = embedding_at ids embs (pos + n)"
      using False embedding_at_rank [OF ids len] by (simp add: read_list_def)
    moreover have "read_list ?v i = read_list v i" if "i < n" for i
      using that by (simp add: read_list_def)
    ultimately show ?thesis using v old ok off by (auto simp: foldR_append less_Suc_eq)
  qed
qed

lemma fill_chunk_rows:
  assumes ids: "sorted_wrt (<) ids" and len: "length embs = length ids"
    and dim: "\<forall>e \<in> set embs. length e = dim" and size: "0 < asize \<longrightarrow> dim = asize" and n: "n \<le> 2048"
  shows "fill_chunk zero embs ids dim asize n \<lparr>fill_pos = pos, fill_emb = rank_below ids pos\<rparr> =
    Inr (\<lparr>fill_pos = pos + n, fill_emb = rank_below ids (pos + n)\<rparr>,
      map (embedding_at ids embs) [pos..<pos + n])"
proof -
  have "map f [pos..<pos + n] = map (\<lambda>i. f (pos + i)) [0..<n]" for f :: "nat \<Rightarrow> 'a list option"
    by (rule nth_equalityI) auto
  note shift = this
  show ?thesis
  proof (cases "0 < asize")
    case True
    then have "n * dim \<le> 2048 * asize" using size n by simp
    from fill_array_rows [OF ids len dim this, of zero pos] True size show ?thesis
      by (auto simp: fill_chunk_def shift)
  next
    case False
    from fill_list_rows [OF ids len dim, of n pos zero] False show ?thesis
      by (auto simp: fill_chunk_def shift)
  qed
qed

lemma fill_column_spec:
  assumes "sorted_wrt (<) ids" "length embs = length ids" "\<forall>e \<in> set embs. length e = dim"
    and "0 < asize \<longrightarrow> dim = asize" "\<forall>n \<in> set counts. n \<le> 2048"
  shows "fill_column zero embs ids dim asize counts = Inr (map (embedding_at ids embs) [0..<sum_list counts])"
proof -
  let ?loop = "\<lambda>counts s. foldR (\<lambda>count (st, col). mapR (\<lambda>(st, cells). (st, col @ cells))
      (fill_chunk zero embs ids dim asize count st)) counts s"
  have "?loop counts (\<lparr>fill_pos = pos, fill_emb = rank_below ids pos\<rparr>, col) =
      Inr (\<lparr>fill_pos = pos + sum_list counts, fill_emb = rank_below ids (pos + sum_list counts)\<rparr>,
        col @ map (embedding_at ids embs) [pos..<pos + sum_list counts])" for pos col
    using assms(5)
  proof (induction counts arbitrary: pos col)
    case (Cons n counts)
    have upt: "[pos..<pos + n] @ [pos + n..<pos + n + sum_list counts] = [pos..<pos + n + sum_list counts]"
      by (rule upt_add_eq_append [symmetric]) simp
    have "fill_chunk zero embs ids dim asize n \<lparr>fill_pos = pos, fill_emb = rank_below ids pos\<rparr> =
        Inr (\<lparr>fill_pos = pos + n, fill_emb = rank_below ids (pos + n)\<rparr>, map (embedding_at ids embs) [pos..<pos + n])"
      using Cons.prems by (intro fill_chunk_rows [OF assms(1-4)]) simp
    with Cons.IH [of "pos + n"] Cons.prems show ?case
      by (simp add: add.assoc [symmetric] map_append [symmetric] upt del: map_append)
  qed simp
  from this [of 0 "[]"] show ?thesis
    by (simp add: fill_column_def rank_below_def)
qed

text \<open>Filling a column. For strictly ascending row ids, embeddings all of the column's size and
  chunks of at most 2048 rows, the fill callback gives every row position, in whatever chunks the
  table is visited, the embedding of the row id equal to it, and NULL where there is none; neither
  an \<open>ARRAY\<close> nor a \<open>LIST\<close> column is read or written outside its buffer.\<close>
lemma fill_column_correct:
  assumes "sorted_wrt (<) ids" "length embs = length ids" "\<forall>e \<in> set embs. length e = dim"
    and "0 < asize \<longrightarrow> dim = asize" "\<forall>n \<in> set counts. n \<le> 2048"
  shows "fill_column zero embs ids dim asize counts = Inr (map (embedding_at ids embs) [0..<sum_list counts])"
  by (rule fill_column_spec [OF assms])

lemma fill_column_correct_witness:
  "fill_column 0 [[1, 2], [3, 4]] [1, 3] 2 2 [2, 3] = Inr [None, Some [1, 2], None, Some [3, 4 :: int], None]"
proof -
  have "sorted_wrt (<) [1, 3 :: nat]" "length [[1, 2], [3, 4 :: int]] = length [1, 3 :: nat]"
    "\<forall>e \<in> set [[1, 2], [3, 4 :: int]]. length e = 2" "0 < (2 :: nat) \<longrightarrow> (2 :: nat) = 2" "\<forall>n \<in> set [2, 3]. n \<le> (2048 :: nat)"
    by simp_all
  from fill_column_correct [OF this, of 0]
  show ?thesis by (simp add: embedding_at_def upt_conv_Cons)
qed

lemma gather_lengths: "length (fst (gather rows)) = length (snd (gather rows))"
  by (induction rows) (auto simp: gather_def List.map_filter_def)

lemma sorted_filter_fst: "sorted_wrt (<) (map fst rows) \<Longrightarrow> sorted_wrt (<) (map fst (filter P rows))"
  by (induction rows) auto

text \<open>The column when the vectors are there, one per text and of one size.\<close>

lemma create_embedding_filled:
  assumes rows: "sorted_wrt (<) (map fst rows)" and chunks: "\<forall>n \<in> set counts. n \<le> 2048"
    and embs: "fetch_embeddings lib fl eapi (snd (gather rows)) = Inr embs"
    and dim: "\<forall>e \<in> set embs. length e = dim" and size: "0 < embedding_size \<longrightarrow> embs \<noteq> [] \<longrightarrow> dim = embedding_size"
  shows "create_embedding lib fl zero eapi embedding_size rows counts =
      Inr (map (embedding_at (fst (gather rows)) embs) [0..<sum_list counts])"
    and "length embs = length (fst (gather rows))"
proof -
  let ?ids = "fst (gather rows)" and ?dim = "if embs = [] then embedding_size else length (hd embs)"
  have ids: "sorted_wrt (<) ?ids" using rows by (simp add: gather_def sorted_filter_fst)
  show len: "length embs = length ?ids"
    using embs gather_lengths [of rows] by (auto simp: fetch_embeddings_def bindR_Inr_iff split: if_splits)
  have "\<forall>e \<in> set embs. length e = ?dim" using dim by (cases embs) auto
  moreover have "0 < embedding_size \<longrightarrow> ?dim = embedding_size" using dim size by (cases embs) auto
  ultimately have "fill_column zero embs ?ids ?dim embedding_size counts = Inr (map (embedding_at ?ids embs) [0..<sum_list counts])"
    by (rule fill_column_spec [OF ids len _ _ chunks])
  then show "create_embedding lib fl zero eapi embedding_size rows counts = Inr (map (embedding_at ?ids embs) [0..<sum_list counts])"
    using embs by (simp add: create_embedding_def split_beta)
qed

lemma create_embedding_throws:
  assumes "gather rows = (ids, texts)" "fetch_embeddings lib fl eapi texts = Inl e"
  shows "create_embedding lib fl zero eapi embedding_size rows counts = Inl e"
  using assms by (simp add: create_embedding_def)

lemma create_embedding_no_texts:
  assumes rows: "sorted_wrt (<) (map fst rows)" and chunks: "\<forall>n \<in> set counts. n \<le> 2048" and g: "gather rows = (ids, [])"
  shows "create_embedding lib fl zero eapi embedding_size rows counts = Inr (replicate (sum_list counts) None)"
proof -
  have "ids = []" using gather_lengths [of rows] g by simp
  have "fetch_embeddings lib fl eapi (snd (gather rows)) = Inr []" by (simp add: fetch_embeddings_def g)
  from create_embedding_filled(1) [OF rows chunks this, of embedding_size embedding_size zero] \<open>ids = []\<close> g
  show ?thesis by (simp add: embedding_at_def [abs_def] map_replicate_const)
qed

lemma create_embedding_cells:
  assumes rows: "sorted_wrt (<) (map fst rows)" and chunks: "\<forall>n \<in> set counts. n \<le> 2048" and g: "gather rows = (ids, texts)"
    and f: "fetch_embeddings lib fl eapi texts = Inr embs"
    and d: "\<forall>e \<in> set embs. length e = dim" "0 < embedding_size \<longrightarrow> dim = embedding_size"
  shows "create_embedding lib fl zero eapi embedding_size rows counts = Inr (map (embedding_at ids embs) [0..<sum_list counts]) \<and>
    (\<forall>k < length ids. embedding_at ids embs (ids ! k) = Some (embs ! k)) \<and> (\<forall>i. i \<notin> set ids \<longrightarrow> embedding_at ids embs i = None)"
proof -
  have ids: "sorted_wrt (<) ids" using rows g by (auto simp: gather_def sorted_filter_fst)
  have f': "fetch_embeddings lib fl eapi (snd (gather rows)) = Inr embs" using f g by simp
  have c: "create_embedding lib fl zero eapi embedding_size rows counts = Inr (map (embedding_at ids embs) [0..<sum_list counts])"
      "length embs = length ids"
    using create_embedding_filled(1) [OF rows chunks f' d(1), of embedding_size zero]
      create_embedding_filled(2) [OF rows chunks f' d(1), of embedding_size] d(2) g by simp_all
  have "embedding_at ids embs (ids ! k) = Some (embs ! k)" if "k < length ids" for k
    using that ids c(2) map_of_zip_nth [of ids embs k] by (simp add: embedding_at_def strict_sorted_iff)
  moreover have "embedding_at ids embs i = None" if "i \<notin> set ids" for i
    using that embedding_at_rank [OF ids c(2)] by simp
  ultimately show ?thesis using c(1) by simp
qed



end
