(* ===== verification/Clusters.thy ===== *)
theory Clusters
  imports Embedding "HOL-Library.Multiset"
begin

section \<open>Grouping similar rows: GroupByClusters and VerifyClusters\<close>

text \<open>
  \<open>third_party/predictors/llm_api/llm_dedup.cpp\<close> and \<open>VerifyClusters\<close> of \<open>llm_predict.cpp\<close>: the
  clustering a build with \<open>LLM_USE_CLUSTER\<close> uses, with the three techniques of
  \<open>llm_common.hpp\<close> and the exact fallback. The \<open>float\<close> operations are the record \<open>fops\<close>, a
  parameter: nothing here depends on how they round.
\<close>

record 'f fops =
  fadd :: "'f \<Rightarrow> 'f \<Rightarrow> 'f"
  fsub :: "'f \<Rightarrow> 'f \<Rightarrow> 'f"
  fmul :: "'f \<Rightarrow> 'f \<Rightarrow> 'f"
  fdiv :: "'f \<Rightarrow> 'f \<Rightarrow> 'f"
  fsqrt :: "'f \<Rightarrow> 'f"
  flt :: "'f \<Rightarrow> 'f \<Rightarrow> bool"
  fnat :: "nat \<Rightarrow> 'f"
  fminus_one :: 'f
  fthreshold :: 'f    \<comment> \<open>\<open>LLM_CLUSTER_SIMILARITY_THRESHOLD\<close>, 0.7f\<close>

record cluster =
  ckey :: string
  crows :: "nat list"
  csample :: "nat list"

definition new_cluster :: "string list \<Rightarrow> nat \<Rightarrow> cluster" where
  "new_cluster keys i = \<lparr>ckey = keys ! i, crows = [i], csample = []\<rparr>"

definition add_row :: "nat \<Rightarrow> cluster \<Rightarrow> cluster" where
  "add_row i c = c\<lparr>crows := crows c @ [i]\<rparr>"

subsection \<open>Samples\<close>

text \<open>\<open>floor(sqrt(m))\<close>; the cap of three makes the rounding of the float square root irrelevant.\<close>

definition int_sqrt :: "nat \<Rightarrow> nat" where
  "int_sqrt m = length (filter (\<lambda>k. k * k \<le> m) [1..<Suc m])"

definition cluster_sample_size :: "nat \<Rightarrow> nat" where
  "cluster_sample_size n = (if n \<le> 1 then 0 else min (int_sqrt (n - 1)) 3)"

definition populate_sample :: "cluster \<Rightarrow> cluster" where
  "populate_sample c =
     (let n = length (crows c); k = cluster_sample_size n
      in c\<lparr>csample := csample c @ map (\<lambda>s. crows c ! (1 + s * (n - 1) div k)) [0..<k]\<rparr>)"

subsection \<open>Similarity\<close>

definition cosine_similarity :: "'f fops \<Rightarrow> 'f list \<Rightarrow> 'f list \<Rightarrow> 'f" where
  "cosine_similarity fo a b =
     (let (dot, na, nb) = fold (\<lambda>(x, y) (dot, na, nb).
            (fadd fo dot (fmul fo x y), fadd fo na (fmul fo x x), fadd fo nb (fmul fo y y)))
          (zip a b) (fnat fo 0, fnat fo 0, fnat fo 0);
          denom = fmul fo (fsqrt fo na) (fsqrt fo nb)
      in if flt fo (fnat fo 0) denom then fdiv fo dot denom else fnat fo 0)"

subsection \<open>Greedy\<close>

text \<open>The best cluster so far starts at "none" with the threshold as its similarity.\<close>

definition greedy_choice :: "'f fops \<Rightarrow> 'f list \<Rightarrow> 'f list list \<Rightarrow> nat option" where
  "greedy_choice fo e centroids = fst (fold (\<lambda>(ci, c) (best, best_sim).
       let sim = cosine_similarity fo e c in if flt fo best_sim sim then (Some ci, sim) else (best, best_sim))
     (enumerate 0 centroids) (None, fthreshold fo))"

definition greedy_step ::
    "'f fops \<Rightarrow> string list \<Rightarrow> 'f list list \<Rightarrow> nat \<Rightarrow> cluster list \<times> 'f list list \<Rightarrow> cluster list \<times> 'f list list" where
  "greedy_step fo keys embs i = (\<lambda>(cls, cents).
     case greedy_choice fo (embs ! i) cents of
       Some j \<Rightarrow> (cls[j := add_row i (cls ! j)], cents)
     | None \<Rightarrow> (cls @ [new_cluster keys i], cents @ [embs ! i]))"

definition greedy :: "'f fops \<Rightarrow> string list \<Rightarrow> 'f list list \<Rightarrow> nat \<Rightarrow> cluster list" where
  "greedy fo keys embs rows = fst (fold (greedy_step fo keys embs) [0..<rows] ([], []))"

subsection \<open>Nearest of k seeds\<close>

definition min_dist :: "'f fops \<Rightarrow> 'f list list \<Rightarrow> nat list \<Rightarrow> nat \<Rightarrow> 'f" where
  "min_dist fo embs seeds i = fold (\<lambda>ci m.
       let d = fsub fo (fnat fo 1) (cosine_similarity fo (embs ! i) (embs ! ci)) in if flt fo d m then d else m)
     seeds (fnat fo 2)"

definition next_seed :: "'f fops \<Rightarrow> 'f list list \<Rightarrow> nat \<Rightarrow> nat list \<Rightarrow> nat" where
  "next_seed fo embs rows seeds = fst (fold (\<lambda>i (nxt, max_min).
       if i \<in> set seeds then (nxt, max_min)
       else let m = min_dist fo embs seeds i in if flt fo max_min m then (i, m) else (nxt, max_min))
     [0..<rows] (last seeds, fminus_one fo))"

fun add_seeds :: "'f fops \<Rightarrow> 'f list list \<Rightarrow> nat \<Rightarrow> nat \<Rightarrow> nat list \<Rightarrow> nat list" where
  "add_seeds fo embs rows 0 seeds = seeds"
| "add_seeds fo embs rows (Suc n) seeds = add_seeds fo embs rows n (seeds @ [next_seed fo embs rows seeds])"

definition nearest_seed :: "'f fops \<Rightarrow> 'f list list \<Rightarrow> nat list \<Rightarrow> nat \<Rightarrow> nat" where
  "nearest_seed fo embs seeds i = fst (fold (\<lambda>c (best, best_sim).
       let sim = cosine_similarity fo (embs ! i) (embs ! (seeds ! c)) in
       if flt fo best_sim sim then (c, sim) else (best, best_sim))
     [1..<length seeds] (0, cosine_similarity fo (embs ! i) (embs ! (seeds ! 0))))"

definition knn_step :: "'f fops \<Rightarrow> 'f list list \<Rightarrow> nat list \<Rightarrow> nat \<Rightarrow> cluster list \<Rightarrow> cluster list" where
  "knn_step fo embs seeds i cls =
     (if i \<in> set seeds then cls
      else let j = nearest_seed fo embs seeds i in cls[j := add_row i (cls ! j)])"

text \<open>With no rows the code reads the key of row 0, which does not exist.\<close>

definition knn_seeds :: "'f fops \<Rightarrow> nat \<Rightarrow> 'f list list \<Rightarrow> nat \<Rightarrow> nat list" where
  "knn_seeds fo max_k embs rows = add_seeds fo embs rows (min max_k rows - 1) [0]"

definition knn :: "'f fops \<Rightarrow> nat \<Rightarrow> string list \<Rightarrow> 'f list list \<Rightarrow> nat \<Rightarrow> cluster list res" where
  "knn fo max_k keys embs rows =
     (if rows = 0 then Inl (Undefined ''prompt_keys[0] of no rows'')
      else let seeds = knn_seeds fo max_k embs rows in
        Inr (fold (knn_step fo embs seeds) [0..<rows] (map (new_cluster keys) seeds)))"

subsection \<open>Agglomerative\<close>

definition pairs_below :: "nat \<Rightarrow> (nat \<times> nat) list" where
  "pairs_below n = concat (map (\<lambda>a. map (\<lambda>b. (a, b)) [Suc a..<n]) [0..<n])"

definition best_pair :: "'f fops \<Rightarrow> 'f list list \<Rightarrow> 'f \<times> nat \<times> nat" where
  "best_pair fo cents = fold (\<lambda>(a, b) (best_sim, best).
       let sim = cosine_similarity fo (cents ! a) (cents ! b) in
       if flt fo best_sim sim then (sim, (a, b)) else (best_sim, best))
     (pairs_below (length cents)) (fminus_one fo, (0, 1))"

text \<open>Move the last element into the place of \<open>b\<close>, then drop the last.\<close>

definition swap_and_pop :: "nat \<Rightarrow> 'x list \<Rightarrow> 'x list" where
  "swap_and_pop b xs = butlast (xs[b := last xs])"

definition merge_centroid :: "'f fops \<Rightarrow> nat \<Rightarrow> nat \<Rightarrow> 'f list \<Rightarrow> 'f list \<Rightarrow> 'f list" where
  "merge_centroid fo na nb ca cb =
     (let wa = fnat fo na; wb = fnat fo nb in
      map (\<lambda>(x, y). fdiv fo (fadd fo (fmul fo x wa) (fmul fo y wb)) (fadd fo wa wb)) (zip ca cb))"

definition merge_clusters :: "nat \<Rightarrow> nat \<Rightarrow> cluster list \<Rightarrow> cluster list" where
  "merge_clusters a b cls =
     swap_and_pop b (cls[a := (cls ! a)\<lparr>crows := crows (cls ! a) @ crows (cls ! b)\<rparr>])"

function ahc_loop :: "'f fops \<Rightarrow> cluster list \<Rightarrow> 'f list list \<Rightarrow> cluster list res" where
  "ahc_loop fo cls cents =
     (if length cls \<le> 1 then Inr cls
      else let (sim, (a, b)) = best_pair fo cents in
        if flt fo sim (fthreshold fo) then Inr cls
        else if length (cents ! b) < length (cents ! a) then Inl (Undefined ''centroid read past its end'')
        else ahc_loop fo (merge_clusters a b cls)
          (swap_and_pop b (cents[a := merge_centroid fo (length (crows (cls ! a))) (length (crows (cls ! b)))
             (cents ! a) (cents ! b)])))"
  by pat_completeness auto
termination
proof (relation "measure (\<lambda>(_, cls, _). length cls)", simp)
  fix fo :: "'f fops" and cls :: "cluster list" and cents :: "'f list list" and x :: "'f \<times> nat \<times> nat"
    and sim :: 'f and y :: "nat \<times> nat" and a b :: nat
  assume "\<not> length cls \<le> 1"
  then show "((fo, merge_clusters a b cls, swap_and_pop b (cents[a := merge_centroid fo (length (crows (cls ! a)))
      (length (crows (cls ! b))) (cents ! a) (cents ! b)])), fo, cls, cents) \<in> measure (\<lambda>(_, cls, _). length cls)"
    by (simp add: merge_clusters_def swap_and_pop_def)
qed

declare ahc_loop.simps [simp del]

definition ahc :: "'f fops \<Rightarrow> string list \<Rightarrow> 'f list list \<Rightarrow> nat \<Rightarrow> cluster list res" where
  "ahc fo keys embs rows = ahc_loop fo (map (new_cluster keys) [0..<rows]) (take rows embs)"

subsection \<open>Exact\<close>

definition exact_step ::
    "string list \<Rightarrow> nat \<Rightarrow> (string \<rightharpoonup> nat) \<times> cluster list \<Rightarrow> (string \<rightharpoonup> nat) \<times> cluster list" where
  "exact_step keys i = (\<lambda>(m, cls). case m (keys ! i) of
     None \<Rightarrow> (m(keys ! i \<mapsto> length cls), cls @ [new_cluster keys i])
   | Some j \<Rightarrow> (m, cls[j := add_row i (cls ! j)]))"

definition exact_groups :: "string list \<Rightarrow> nat \<Rightarrow> cluster list" where
  "exact_groups keys rows = snd (fold (exact_step keys) [0..<rows] (Map.empty, []))"

subsection \<open>The whole function\<close>

datatype technique = Greedy | Knn | Ahc

text \<open>\<open>EmbedTexts\<close>: a response without an array of data gives no embeddings.\<close>

definition embed_texts :: "'d jlib \<Rightarrow> ('d \<Rightarrow> 'f) \<Rightarrow> 'd embed_endpoint \<Rightarrow> string list \<Rightarrow> 'f list list res" where
  "embed_texts lib fl eapi texts =
     (if texts = [] then Inr []
      else bindR (eapi 0 texts) (\<lambda>resp. case json_member resp ''data'' of
        Some (JArr _) \<Rightarrow> embedding_entries lib fl resp
      | _ \<Rightarrow> Inr []))"

text \<open>The index in the input of the first embedding column that the map names.\<close>

definition embedding_column :: "pinfo \<Rightarrow> nat option" where
  "embedding_column info =
     (case List.map_filter (\<lambda>(_, emb). map_option fst (find (\<lambda>(j, name). ci_equals name emb)
         (enumerate 0 (input_set_names info)))) (embedding_column_map info) of
        [] \<Rightarrow> None
      | j # _ \<Rightarrow> Some (input_mask info ! j))"

text \<open>\<open>stored\<close> gives the vectors of an array column, a NULL as the empty vector; \<open>None\<close> for a
  column that is not an array or not in the chunk.\<close>

definition row_embeddings ::
    "'d jlib \<Rightarrow> ('d \<Rightarrow> 'f) \<Rightarrow> 'd embed_endpoint \<Rightarrow> pinfo \<Rightarrow> input \<Rightarrow> (nat \<Rightarrow> 'f list list option) \<Rightarrow> nat \<Rightarrow> 'f list list res" where
  "row_embeddings lib fl eapi info inp stored rows =
     (let pre = (case embedding_column info of None \<Rightarrow> [] | Some c \<Rightarrow>
            (case stored c of None \<Rightarrow> [] | Some vs \<Rightarrow> take rows vs))
      in if length pre \<noteq> rows
         then embed_texts lib fl eapi (map (\<lambda>i. joined '' '' (map (\<lambda>m. inp m i) (input_mask info))) [0..<rows])
         else Inr pre)"

definition cluster_rows ::
    "technique \<Rightarrow> 'f fops \<Rightarrow> string list \<Rightarrow> 'f list list \<Rightarrow> nat \<Rightarrow> cluster list res" where
  "cluster_rows t fo keys embs rows =
     (if length embs = rows
      then (case t of Greedy \<Rightarrow> Inr (greedy fo keys embs rows)
        | Knn \<Rightarrow> knn fo 512 keys embs rows
        | Ahc \<Rightarrow> ahc fo keys embs rows)
      else Inr (exact_groups keys rows))"

definition group_by_clusters ::
    "technique \<Rightarrow> 'f fops \<Rightarrow> 'd jlib \<Rightarrow> ('d \<Rightarrow> 'f) \<Rightarrow> 'd embed_endpoint \<Rightarrow> pinfo \<Rightarrow> input
       \<Rightarrow> (nat \<Rightarrow> 'f list list option) \<Rightarrow> nat \<Rightarrow> cluster list res" where
  "group_by_clusters t fo lib fl eapi info inp stored rows =
     bindR (traverse (\<lambda>i. embed_prompt i inp info True) [0..<rows]) (\<lambda>keys.
      bindR (row_embeddings lib fl eapi info inp stored rows) (\<lambda>embs.
        mapR (map populate_sample) (cluster_rows t fo keys embs rows)))"

text \<open>How \<open>PredictChunk\<close> turns the clusters into the map it predicts from: \<open>tuple_id_map[key] = rows\<close>,
  in a \<open>std::map\<close>, here as a function.\<close>

definition cluster_map :: "cluster list \<Rightarrow> (string \<rightharpoonup> nat list)" where
  "cluster_map cls = fold (\<lambda>c m. m(ckey c \<mapsto> crows c)) cls Map.empty"


subsection \<open>Every row in exactly one cluster\<close>

definition wf_cluster :: "string list \<Rightarrow> cluster \<Rightarrow> bool" where
  "wf_cluster keys c \<longleftrightarrow> crows c \<noteq> [] \<and> ckey c = keys ! hd (crows c) \<and> csample c = []"

definition all_rows :: "cluster list \<Rightarrow> nat multiset" where
  "all_rows cls = sum_list (map (\<lambda>c. mset (crows c)) cls)"

text \<open>The clusters cover a set of rows, each once, and carry the prompt of their first row.\<close>

definition partition_of :: "string list \<Rightarrow> nat list \<Rightarrow> cluster list \<Rightarrow> bool" where
  "partition_of keys rs cls \<longleftrightarrow> all_rows cls = mset rs \<and> (\<forall>c \<in> set cls. wf_cluster keys c)"

lemma all_rows_concat: "all_rows cls = mset (concat (map crows cls))"
  by (induction cls) (auto simp: all_rows_def)

lemma wf_add_row: "wf_cluster keys c \<Longrightarrow> wf_cluster keys (add_row i c)"
  by (simp add: wf_cluster_def add_row_def)

lemma wf_new: "wf_cluster keys (new_cluster keys i)"
  by (simp add: wf_cluster_def new_cluster_def)

lemma all_rows_simps [simp]:
  "all_rows [] = {#}" "all_rows (c # cls) = mset (crows c) + all_rows cls"
  "all_rows (cls @ cls') = all_rows cls + all_rows cls'"
  by (simp_all add: all_rows_def)

lemma all_rows_add:
  "j < length cls \<Longrightarrow> all_rows (cls[j := add_row i (cls ! j)]) = add_mset i (all_rows cls)"
proof (induction cls arbitrary: j)
  case (Cons c cls)
  then show ?case by (cases j) (auto simp: add_row_def)
qed simp

locale assigner =
  fixes keys :: "string list"
    and clusters_of :: "'x \<Rightarrow> cluster list"
    and step :: "nat \<Rightarrow> 'x \<Rightarrow> 'x"
    and wf :: "'x \<Rightarrow> bool"
  assumes wf_step: "wf x \<Longrightarrow> wf (step i x)"
    and step_cases: "wf x \<Longrightarrow> (\<exists>j < length (clusters_of x). clusters_of (step i x) = (clusters_of x)[j := add_row i (clusters_of x ! j)]) \<or>
      clusters_of (step i x) = clusters_of x @ [new_cluster keys i]"
begin

lemma step_partition:
  assumes "wf x" "partition_of keys rs (clusters_of x)"
  shows "partition_of keys (rs @ [i]) (clusters_of (step i x))"
  using step_cases [OF assms(1), of i]
proof
  assume "clusters_of (step i x) = clusters_of x @ [new_cluster keys i]"
  with assms(2) show ?thesis
    using wf_new [of keys i] by (auto simp: partition_of_def) (simp add: new_cluster_def)
next
  assume "\<exists>j < length (clusters_of x). clusters_of (step i x) = (clusters_of x)[j := add_row i (clusters_of x ! j)]"
  then obtain j where j: "j < length (clusters_of x)"
    "clusters_of (step i x) = (clusters_of x)[j := add_row i (clusters_of x ! j)]" by blast
  have "wf_cluster keys c" if "c \<in> set (clusters_of (step i x))" for c
  proof -
    have "c = add_row i (clusters_of x ! j) \<or> c \<in> set (clusters_of x)"
      using that set_update_subset_insert [of "clusters_of x" j "add_row i (clusters_of x ! j)"] j by auto
    then show ?thesis using assms(2) j(1) wf_add_row by (auto simp: partition_of_def)
  qed
  with j assms(2) show ?thesis by (simp add: partition_of_def all_rows_add)
qed

lemma fold_partition:
  "wf x \<Longrightarrow> partition_of keys rs (clusters_of x) \<Longrightarrow> partition_of keys (rs @ js) (clusters_of (fold step js x))"
proof (induction js arbitrary: x rs)
  case (Cons i js)
  from Cons.IH [OF wf_step [OF Cons.prems(1)] step_partition [OF Cons.prems]] show ?case by simp
qed simp

end


lemma greedy_choice_bound: "greedy_choice fo e cents = Some j \<Longrightarrow> j < length cents"
proof -
  have "fst (fold (\<lambda>(ci, c) (best, best_sim). if flt fo best_sim (cosine_similarity fo e c)
        then (Some ci, cosine_similarity fo e c) else (best, best_sim)) (enumerate n cs) (b, t)) = Some j \<Longrightarrow>
      j < n + length cs \<or> b = Some j" for n cs b t
  proof (induction cs arbitrary: n b t)
    case (Cons c cs)
    show ?case
      using Cons.prems Cons.IH [of "Suc n" "Some n" "cosine_similarity fo e c"] Cons.IH [of "Suc n" b t]
      by (cases "flt fo t (cosine_similarity fo e c)") auto
  qed simp
  from this [of 0 cents None] show "greedy_choice fo e cents = Some j \<Longrightarrow> ?thesis"
    by (auto simp: greedy_choice_def Let_def)
qed

interpretation greedy: assigner keys fst "greedy_step fo keys embs" "\<lambda>(cls, cents). length cls = length cents"
proof unfold_locales
  fix x :: "cluster list \<times> 'a list list" and i
  assume wf: "case x of (cls, cents) \<Rightarrow> length cls = length cents"
  obtain cls cents where x: "x = (cls, cents)" by (cases x)
  show "case greedy_step fo keys embs i x of (cls, cents) \<Rightarrow> length cls = length cents"
    using wf x by (auto simp: greedy_step_def split: option.splits)
  show "(\<exists>j < length (fst x). fst (greedy_step fo keys embs i x) = (fst x)[j := add_row i (fst x ! j)]) \<or>
      fst (greedy_step fo keys embs i x) = fst x @ [new_cluster keys i]"
    using wf x greedy_choice_bound [of fo "embs ! i" cents]
    by (cases "greedy_choice fo (embs ! i) cents") (auto simp: greedy_step_def)
qed

interpretation exact: assigner keys snd "exact_step keys" "\<lambda>(m, cls). \<forall>k j. m k = Some j \<longrightarrow> j < length cls"
proof unfold_locales
  fix x :: "(string \<rightharpoonup> nat) \<times> cluster list" and i
  assume wf: "case x of (m, cls) \<Rightarrow> \<forall>k j. m k = Some j \<longrightarrow> j < length cls"
  obtain m cls where x: "x = (m, cls)" by (cases x)
  show "case exact_step keys i x of (m, cls) \<Rightarrow> \<forall>k j. m k = Some j \<longrightarrow> j < length cls"
    using wf x by (auto simp: exact_step_def less_Suc_eq split: option.splits)
  show "(\<exists>j < length (snd x). snd (exact_step keys i x) = (snd x)[j := add_row i (snd x ! j)]) \<or>
      snd (exact_step keys i x) = snd x @ [new_cluster keys i]"
    using wf x by (cases "m (keys ! i)") (auto simp: exact_step_def)
qed

lemma partition_Nil: "partition_of keys [] []"
  by (simp add: partition_of_def)

lemma greedy_partition: "partition_of keys [0..<rows] (greedy fo keys embs rows)"
  using greedy.fold_partition [of "([], [])" keys "[]" "[0..<rows]" fo embs] partition_Nil
  by (simp add: greedy_def)

lemma exact_partition: "partition_of keys [0..<rows] (exact_groups keys rows)"
  using exact.fold_partition [of "(Map.empty, [])" keys "[]" "[0..<rows]"] partition_Nil
  by (simp add: exact_groups_def)

subsection \<open>Merging keeps the rows\<close>

lemma pairs_below_valid: "(a, b) \<in> set (pairs_below n) \<Longrightarrow> a < b \<and> b < n"
  by (auto simp: pairs_below_def)

lemma best_pair_valid:
  assumes "1 < length cents" "best_pair fo cents = (sim, (a, b))"
  shows "a < b \<and> b < length cents"
proof -
  have "snd (fold (\<lambda>(a, b) (best_sim, best). if flt fo best_sim (cosine_similarity fo (cents ! a) (cents ! b))
        then (cosine_similarity fo (cents ! a) (cents ! b), (a, b)) else (best_sim, best)) ps (s, p)) \<in> insert p (set ps)" for ps s p
  proof (induction ps arbitrary: s p)
    case (Cons q ps)
    obtain a b where q: "q = (a, b)" by (cases q)
    show ?case
      using Cons [of "cosine_similarity fo (cents ! a) (cents ! b)" q] Cons [of s p]
      by (cases "flt fo s (cosine_similarity fo (cents ! a) (cents ! b))") (auto simp: q)
  qed simp
  from this [where ps = "pairs_below (length cents)" and s = "fminus_one fo" and p = "(0, 1)"] assms
  have "(a, b) = (0, 1) \<or> (a, b) \<in> set (pairs_below (length cents))"
    by (auto simp: best_pair_def Let_def)
  then show ?thesis using assms(1) by (auto dest: pairs_below_valid)
qed

lemma mset_swap_and_pop:
  assumes "b < length xs"
  shows "mset (swap_and_pop b xs) = mset xs - {#xs ! b#}"
proof (cases "b = length xs - 1")
  case True
  then have "xs[b := last xs] = xs" using assms by (metis last_conv_nth length_0_conv less_zeroE list_update_id)
  moreover have "xs = butlast xs @ [last xs]" using assms by (cases xs) auto
  moreover have "xs ! b = last xs" using True assms by (metis last_conv_nth length_0_conv less_zeroE)
  ultimately show ?thesis unfolding swap_and_pop_def
    by (metis add_mset_add_single add_mset_remove_trivial mset_append mset_single_iff_right mset.simps)
next
  case False
  then have b: "b < length (butlast xs)" using assms by simp
  have xs: "xs = butlast xs @ [last xs]" using assms by (cases xs) auto
  then have "xs[b := last xs] = (butlast xs)[b := last xs] @ [last xs]"
    using b by (metis list_update_append1)
  then have "swap_and_pop b xs = (butlast xs)[b := last xs]" by (simp add: swap_and_pop_def)
  then have "mset (swap_and_pop b xs) = add_mset (last xs) (mset (butlast xs) - {#butlast xs ! b#})"
    using b by (simp add: mset_update)
  moreover have "butlast xs ! b = xs ! b" using b by (simp add: nth_butlast)
  moreover have "xs ! b \<in># mset (butlast xs)" using b by (metis nth_butlast nth_mem set_mset_mset)
  moreover have "mset xs = add_mset (last xs) (mset (butlast xs))" using xs by (metis add_mset_add_single mset_append mset_single_iff_right mset.simps(1) mset.simps(2))
  ultimately show ?thesis by simp
qed


lemma merge_clusters_rows:
  assumes "a < b" "b < length cls"
  shows "all_rows (merge_clusters a b cls) = all_rows cls"
    and "set (merge_clusters a b cls) \<subseteq>
      insert ((cls ! a)\<lparr>crows := crows (cls ! a) @ crows (cls ! b)\<rparr>) (set cls)"
    and "length (merge_clusters a b cls) = length cls - 1"
proof -
  let ?x = "(cls ! a)\<lparr>crows := crows (cls ! a) @ crows (cls ! b)\<rparr>"
  let ?cls = "cls[a := ?x]"
  have rows: "all_rows xs = sum_mset (image_mset (\<lambda>c. mset (crows c)) (mset xs))" for xs
    by (metis all_rows_def mset_map sum_mset_sum_list)
  have b: "?cls ! b = cls ! b" "b < length ?cls" using assms by auto
  have "cls ! b \<in># mset cls - {#cls ! a#}"
  proof -
    have "cls = take a cls @ cls ! a # drop (Suc a) cls" using assms by (simp add: id_take_nth_drop)
    then have "mset cls = add_mset (cls ! a) (mset (take a cls @ drop (Suc a) cls))"
      by (metis mset.simps(2) mset_append union_mset_add_mset_right)
    then have "mset (take a cls @ drop (Suc a) cls) = mset cls - {#cls ! a#}" by simp
    moreover have "cls ! b \<in> set (drop (Suc a) cls)"
    proof -
      have "drop (Suc a) cls ! (b - Suc a) = cls ! b" "b - Suc a < length (drop (Suc a) cls)"
        using assms by auto
      then show ?thesis by (metis nth_mem)
    qed
    ultimately show ?thesis by (metis Un_iff set_append set_mset_mset)
  qed
  then have m: "mset (merge_clusters a b cls) = add_mset ?x (mset cls - {#cls ! a#} - {#cls ! b#})"
    using assms b by (simp add: merge_clusters_def mset_swap_and_pop mset_update)
  have "cls ! a \<in># mset cls" using assms by simp
  then have c: "mset cls = add_mset (cls ! a) (add_mset (cls ! b) (mset cls - {#cls ! a#} - {#cls ! b#}))"
    using \<open>cls ! b \<in># mset cls - {#cls ! a#}\<close> by (metis insert_DiffM)
  show "all_rows (merge_clusters a b cls) = all_rows cls"
  proof -
    have "all_rows cls = mset (crows (cls ! a)) + (mset (crows (cls ! b)) +
        sum_mset (image_mset (\<lambda>c. mset (crows c)) (mset cls - {#cls ! a#} - {#cls ! b#})))"
      unfolding rows [of cls] c [THEN arg_cong [where f = "image_mset (\<lambda>c. mset (crows c))"]] by simp
    then show ?thesis unfolding rows [of "merge_clusters a b cls"] m by (simp add: add_ac)
  qed
  have "set_mset (mset (merge_clusters a b cls)) \<subseteq> insert ?x (set cls)"
    unfolding m by (auto dest: in_diffD)
  then show "set (merge_clusters a b cls) \<subseteq> insert ?x (set cls)" by simp
  show "length (merge_clusters a b cls) = length cls - 1"
    by (simp add: merge_clusters_def swap_and_pop_def)
qed

lemma merge_partition:
  assumes "partition_of keys rs cls" "a < b" "b < length cls"
  shows "partition_of keys rs (merge_clusters a b cls)"
proof -
  have "wf_cluster keys (cls ! a)" using assms by (simp add: partition_of_def)
  then have "wf_cluster keys ((cls ! a)\<lparr>crows := crows (cls ! a) @ crows (cls ! b)\<rparr>)"
    by (simp add: wf_cluster_def)
  with merge_clusters_rows [OF assms(2,3)] assms(1) show ?thesis
    by (auto simp: partition_of_def)
qed

lemma ahc_loop_partition:
  assumes "ahc_loop fo cls cents = Inr cls'" "partition_of keys rs cls" "length cents = length cls"
  shows "partition_of keys rs cls'"
  using assms
proof (induction fo cls cents rule: ahc_loop.induct)
  case (1 fo cls cents)
  show ?case
  proof (cases "length cls \<le> 1")
    case True
    then show ?thesis using "1.prems" by (simp add: ahc_loop.simps)
  next
    case False
    obtain sim a b where bp: "best_pair fo cents = (sim, (a, b))" by (metis prod.exhaust)
    have ab: "a < b" "b < length cls" using best_pair_valid [OF _ bp] False "1.prems"(3) by auto
    show ?thesis
    proof (cases "flt fo sim (fthreshold fo)")
      case True
      then show ?thesis using "1.prems" False bp by (simp add: ahc_loop.simps)
    next
      case ge: False
      with "1.prems"(1) False bp have len: "\<not> length (cents ! b) < length (cents ! a)"
        and rec: "ahc_loop fo (merge_clusters a b cls)
          (swap_and_pop b (cents[a := merge_centroid fo (length (crows (cls ! a))) (length (crows (cls ! b)))
             (cents ! a) (cents ! b)])) = Inr cls'"
        by (subst (asm) ahc_loop.simps; simp split: if_splits)+
      show ?thesis
        by (rule "1.IH" [OF False bp [symmetric] refl refl ge len rec merge_partition [OF "1.prems"(2) ab]])
          (use "1.prems"(3) merge_clusters_rows(3) [OF ab] in \<open>simp add: swap_and_pop_def\<close>)
    qed
  qed
qed

lemma ahc_partition:
  assumes "ahc fo keys embs rows = Inr cls" "length embs = rows"
  shows "partition_of keys [0..<rows] cls"
proof (rule ahc_loop_partition)
  show "ahc_loop fo (map (new_cluster keys) [0..<rows]) (take rows embs) = Inr cls"
    using assms(1) by (simp add: ahc_def)
  have "all_rows (map (new_cluster keys) js) = mset js" for js
    by (induction js) (auto simp: new_cluster_def)
  then show "partition_of keys [0..<rows] (map (new_cluster keys) [0..<rows])"
    by (auto simp: partition_of_def wf_new)
qed (use assms in simp)


subsection \<open>Seeds\<close>

definition seeding :: "nat \<Rightarrow> nat list \<Rightarrow> bool" where
  "seeding rows seeds \<longleftrightarrow> seeds \<noteq> [] \<and> set seeds \<subseteq> {0..<rows}"

lemma next_seed_in: "next_seed fo embs rows seeds \<in> insert (last seeds) {0..<rows}"
proof -
  let ?f = "\<lambda>i (nxt, max_min). if i \<in> set seeds then (nxt, max_min)
    else if flt fo max_min (min_dist fo embs seeds i) then (i, min_dist fo embs seeds i) else (nxt, max_min)"
  have chosen: "fst (fold ?f xs (n, m)) \<in> insert n (set xs)" for xs n m
  proof (induction xs arbitrary: n m)
    case (Cons x xs)
    show ?case
      using Cons [of x "min_dist fo embs seeds x"] Cons [of n m]
      by (cases "x \<in> set seeds"; cases "flt fo m (min_dist fo embs seeds x)") auto
  qed simp
  from chosen [of "[0..<rows]" "last seeds" "fminus_one fo"]
  have "fst (fold ?f [0..<rows] (last seeds, fminus_one fo)) \<in> insert (last seeds) {0..<rows}" by (simp only: set_upt)
  then show ?thesis unfolding next_seed_def Let_def by blast
qed

lemma add_seeds_seeding: "seeding rows seeds \<Longrightarrow> seeding rows (add_seeds fo embs rows n seeds)"
proof (induction n arbitrary: seeds)
  case (Suc n)
  have "last seeds \<in> set seeds" using Suc.prems by (simp add: seeding_def)
  moreover have "set seeds \<subseteq> {0..<rows}" using Suc.prems by (simp add: seeding_def)
  ultimately have "last seeds \<in> {0..<rows}" by (rule subsetD [rotated])
  then have "seeding rows (seeds @ [next_seed fo embs rows seeds])"
    using Suc.prems next_seed_in [of fo embs rows seeds] by (auto simp: seeding_def)
  then show ?case using Suc.IH by simp
qed simp

lemma knn_seeding: "0 < rows \<Longrightarrow> seeding rows (knn_seeds fo max_k embs rows)"
  unfolding knn_seeds_def by (rule add_seeds_seeding) (simp add: seeding_def)

text \<open>The seeds are different where no row comes closer to another than a similarity of 2 would bring it. That is no
  law of cosine similarity in floating point: of vectors whose squares underflow it can be 2 and more, and then a
  seed is chosen twice.\<close>

definition apart :: "'f fops \<Rightarrow> 'f list list \<Rightarrow> nat \<Rightarrow> bool" where
  "apart fo embs rows \<longleftrightarrow> (\<forall>seeds i. set seeds \<subseteq> {0..<rows} \<longrightarrow> i < rows \<longrightarrow> flt fo (fminus_one fo) (min_dist fo embs seeds i))"

lemma next_seed_new:
  assumes b: "apart fo embs rows" "set seeds \<subseteq> {0..<rows}" and ex: "\<exists>i < rows. i \<notin> set seeds"
  shows "next_seed fo embs rows seeds < rows \<and> next_seed fo embs rows seeds \<notin> set seeds"
proof -
  let ?f = "\<lambda>i (nxt, max_min). if i \<in> set seeds then (nxt, max_min)
    else if flt fo max_min (min_dist fo embs seeds i) then (i, min_dist fo embs seeds i) else (nxt, max_min)"
  have stay: "fst (fold ?f xs (n, m)) \<notin> set seeds \<and> fst (fold ?f xs (n, m)) \<in> insert n (set xs)"
    if "n \<notin> set seeds" for xs n m
    using that
  proof (induction xs arbitrary: n m)
    case (Cons x xs)
    show ?case
    proof (cases "x \<in> set seeds \<or> \<not> flt fo m (min_dist fo embs seeds x)")
      case True
      then have "?f x (n, m) = (n, m)" by auto
      with Cons.IH [OF Cons.prems, of m] show ?thesis by auto
    next
      case False
      then have "?f x (n, m) = (x, min_dist fo embs seeds x)" "x \<notin> set seeds" by auto
      with Cons.IH [of x "min_dist fo embs seeds x"] show ?thesis by auto
    qed
  qed simp
  have "fst (fold ?f xs (n, fminus_one fo)) \<notin> set seeds \<and> fst (fold ?f xs (n, fminus_one fo)) \<in> set xs"
    if "\<exists>x \<in> set xs. x \<notin> set seeds" "set xs \<subseteq> {0..<rows}" for xs n
    using that
  proof (induction xs)
    case (Cons x xs)
    show ?case
    proof (cases "x \<in> set seeds")
      case True
      then have "?f x (n, fminus_one fo) = (n, fminus_one fo)" by auto
      with Cons True show ?thesis by auto
    next
      case False
      then have "?f x (n, fminus_one fo) = (x, min_dist fo embs seeds x)"
        using b Cons.prems by (simp add: apart_def)
      with stay [OF False, of xs "min_dist fo embs seeds x"] show ?thesis by auto
    qed
  qed simp
  note found = this
  have "\<exists>x \<in> set [0..<rows]. x \<notin> set seeds" using ex by auto
  from found [OF this, of "last seeds"] 
  have "fst (fold ?f [0..<rows] (last seeds, fminus_one fo)) \<notin> set seeds \<and>
      fst (fold ?f [0..<rows] (last seeds, fminus_one fo)) < rows" by simp
  then show ?thesis unfolding next_seed_def Let_def by blast
qed

lemma add_seeds_distinct:
  assumes "apart fo embs rows"
  shows "seeding rows seeds \<Longrightarrow> distinct seeds \<Longrightarrow> length seeds + n \<le> rows \<Longrightarrow> distinct (add_seeds fo embs rows n seeds)"
proof (induction n arbitrary: seeds)
  case (Suc n)
  have "\<exists>i < rows. i \<notin> set seeds"
  proof (rule ccontr)
    assume "\<not> ?thesis"
    then have "{0..<rows} \<subseteq> set seeds" by auto
    then have "rows \<le> length seeds" by (metis List.finite_set card_atLeastLessThan card_length card_mono diff_zero le_trans)
    with Suc.prems(3) show False by simp
  qed
  from next_seed_new [OF assms _ this] have "seeding rows (seeds @ [next_seed fo embs rows seeds])" "distinct (seeds @ [next_seed fo embs rows seeds])"
    using Suc.prems(1,2) by (auto simp: seeding_def)
  with Suc.IH Suc.prems(3) show ?case by simp
qed simp

lemma apart_seeds: "apart fo embs rows \<Longrightarrow> 0 < rows \<Longrightarrow> 0 < max_k \<Longrightarrow> distinct (knn_seeds fo max_k embs rows)"
  unfolding knn_seeds_def by (rule add_seeds_distinct) (auto simp: seeding_def)

lemma nearest_seed_bound: "seeds \<noteq> [] \<Longrightarrow> nearest_seed fo embs seeds i < length seeds"
proof -
  assume ne: "seeds \<noteq> []"
  have "fst (fold (\<lambda>c (best, best_sim). if flt fo best_sim (cosine_similarity fo (embs ! i) (embs ! (seeds ! c)))
        then (c, cosine_similarity fo (embs ! i) (embs ! (seeds ! c))) else (best, best_sim)) xs (n, m)) \<in> insert n (set xs)"
    for xs n m
  proof (induction xs arbitrary: n m)
    case (Cons x xs)
    show ?case
      using Cons [of x "cosine_similarity fo (embs ! i) (embs ! (seeds ! x))"] Cons [of n m]
      by (cases "flt fo m (cosine_similarity fo (embs ! i) (embs ! (seeds ! x)))") auto
  qed simp
  from this [where xs = "[1..<length seeds]" and n = 0 and m = "cosine_similarity fo (embs ! i) (embs ! (seeds ! 0))"] ne
  show ?thesis by (auto simp: nearest_seed_def Let_def)
qed

definition assign_nearest :: "'f fops \<Rightarrow> 'f list list \<Rightarrow> nat list \<Rightarrow> nat \<Rightarrow> cluster list \<Rightarrow> cluster list" where
  "assign_nearest fo embs seeds i cls =
     cls[nearest_seed fo embs seeds i := add_row i (cls ! nearest_seed fo embs seeds i)]"

interpretation knn: assigner keys "\<lambda>cls. cls" "assign_nearest fo embs seeds" "\<lambda>cls. length cls = length seeds \<and> seeds \<noteq> []"
  by unfold_locales (auto simp: assign_nearest_def intro: nearest_seed_bound)

lemma knn_fold: "fold (knn_step fo embs seeds) js cls =
    fold (assign_nearest fo embs seeds) (filter (\<lambda>i. i \<notin> set seeds) js) cls"
  by (induction js arbitrary: cls) (auto simp: knn_step_def assign_nearest_def Let_def)

lemma new_clusters_rows: "all_rows (map (new_cluster keys) js) = mset js"
  by (induction js) (auto simp: new_cluster_def)

lemma assigned_rows:
  "seeds \<noteq> [] \<Longrightarrow> length cls = length seeds \<Longrightarrow> length (fold (assign_nearest fo embs seeds) js cls) = length cls \<and>
   (\<forall>k < length cls. fold (assign_nearest fo embs seeds) js cls ! k =
      (cls ! k)\<lparr>crows := crows (cls ! k) @ filter (\<lambda>i. nearest_seed fo embs seeds i = k) js\<rparr>)"
proof (induction js arbitrary: cls)
  case (Cons j js)
  from Cons.IH [OF Cons.prems(1), of "assign_nearest fo embs seeds j cls"] Cons.prems
  show ?case using nearest_seed_bound [OF Cons.prems(1), of fo embs j]
    by (auto simp: assign_nearest_def add_row_def nth_list_update)
qed simp

lemma knn_clusters:
  assumes "knn fo max_k keys embs rows = Inr cls" "seeds = knn_seeds fo max_k embs rows"
  shows "partition_of keys (seeds @ filter (\<lambda>i. i \<notin> set seeds) [0..<rows]) cls" "\<forall>c \<in> set cls. distinct (crows c)"
    "set seeds \<subseteq> {0..<rows}"
proof -
  from assms have rows: "0 < rows" and cls: "cls = fold (knn_step fo embs seeds) [0..<rows] (map (new_cluster keys) seeds)"
    by (auto simp: knn_def Let_def split: if_splits)
  have sd: "seeding rows seeds" using knn_seeding [OF rows] assms(2) by simp
  then show "set seeds \<subseteq> {0..<rows}" by (simp add: seeding_def)
  have "partition_of keys seeds (map (new_cluster keys) seeds)"
    by (auto simp: partition_of_def wf_new new_clusters_rows)
  then show "partition_of keys (seeds @ filter (\<lambda>i. i \<notin> set seeds) [0..<rows]) cls"
    unfolding cls knn_fold using sd by (intro knn.fold_partition) (auto simp: seeding_def)
  have ne: "seeds \<noteq> []" using sd by (simp add: seeding_def)
  have len: "length cls = length seeds" and each: "\<And>k. k < length seeds \<Longrightarrow> crows (cls ! k) =
      seeds ! k # filter (\<lambda>i. nearest_seed fo embs seeds i = k) (filter (\<lambda>i. i \<notin> set seeds) [0..<rows])"
    using assigned_rows [OF ne, of "map (new_cluster keys) seeds" fo embs "filter (\<lambda>i. i \<notin> set seeds) [0..<rows]"]
    unfolding cls knn_fold by (simp_all add: new_cluster_def)
  show "\<forall>c \<in> set cls. distinct (crows c)"
  proof
    fix c assume "c \<in> set cls"
    then obtain k where k: "k < length seeds" "c = cls ! k" using len by (auto simp: in_set_conv_nth)
    have "seeds ! k \<in> set seeds" using k(1) by simp
    then show "distinct (crows c)" unfolding k(2) each [OF k(1)] by simp
  qed
qed

subsection \<open>The samples\<close>

lemma cluster_sample_size_le: "cluster_sample_size n \<le> n - 1"
proof (cases "n \<le> 1")
  case False
  have "int_sqrt (n - 1) \<le> length [1..<Suc (n - 1)]"
    unfolding int_sqrt_def by (rule length_filter_le)
  also have "\<dots> = n - 1" by (subst length_upt) simp
  finally show ?thesis by (simp add: cluster_sample_size_def min.coboundedI1)
qed (simp add: cluster_sample_size_def)

lemma sample_index_less: "t < k \<Longrightarrow> k \<le> m \<Longrightarrow> t * m div k < (m :: nat)"
  by (simp add: div_less_iff_less_mult mult.commute)

lemma sample_index_mono:
  assumes "s < t" "t < k" "k \<le> m"
  shows "s * m div k < t * m div (k :: nat)"
proof -
  have k: "0 < k" using assms by simp
  have "s * m div k + 1 = (s * m + k) div k" using div_add_self2 [of k "s * m"] k by linarith
  also have "\<dots> \<le> (Suc s * m) div k" using assms(3) by (intro div_le_mono) simp
  also have "\<dots> \<le> t * m div k" using assms(1) by (intro div_le_mono mult_le_mono1) simp
  finally show "s * m div k < t * m div k" by simp
qed

lemma populate_sample_props:
  assumes "distinct (crows c)" "csample c = []"
  shows "set (csample (populate_sample c)) \<subseteq> set (tl (crows c)) \<and> distinct (csample (populate_sample c)) \<and>
    length (csample (populate_sample c)) = cluster_sample_size (length (crows c))"
proof -
  let ?n = "length (crows c)" and ?k = "cluster_sample_size (length (crows c))"
  let ?ix = "\<lambda>s. s * (?n - 1) div ?k"
  have k: "?k \<le> ?n - 1" by (rule cluster_sample_size_le)
  have bound: "?ix t < ?n - 1" if "t < ?k" for t
    by (rule sample_index_less [OF that k])
  have cs: "csample (populate_sample c) = map (\<lambda>s. tl (crows c) ! ?ix s) [0..<?k]"
    using assms(2) bound by (auto simp: populate_sample_def Let_def nth_tl)
  have "tl (crows c) ! ?ix s \<in> set (tl (crows c))" if "s < ?k" for s using bound [OF that] by simp
  moreover have "inj_on (\<lambda>s. tl (crows c) ! ?ix s) {0..<?k}"
  proof (rule inj_onI)
    fix s t assume st: "s \<in> {0..<?k}" "t \<in> {0..<?k}" "tl (crows c) ! ?ix s = tl (crows c) ! ?ix t"
    moreover have "distinct (tl (crows c))" using assms(1) by (rule distinct_tl)
    ultimately have "?ix s = ?ix t" using bound by (simp add: nth_eq_iff_index_eq)
    then show "s = t" using sample_index_mono [of s t ?k "?n - 1"] sample_index_mono [of t s ?k "?n - 1"] st k
      by (metis atLeastLessThan_iff less_irrefl linorder_neqE_nat)
  qed
  ultimately show ?thesis by (auto simp: cs distinct_map)
qed


lemma populate_sample_rows [simp]:
  "crows (populate_sample c) = crows c" "ckey (populate_sample c) = ckey c"
  by (simp_all add: populate_sample_def Let_def)

text \<open>The seeds of the k-nearest technique are different rows; the other techniques have none.\<close>

definition separate_seeds :: "technique \<Rightarrow> 'f fops \<Rightarrow> 'f list list \<Rightarrow> nat \<Rightarrow> bool" where
  "separate_seeds t fo embs rows \<longleftrightarrow> (t = Knn \<and> length embs = rows \<longrightarrow> distinct (knn_seeds fo 512 embs rows))"

lemma partition_distinct:
  assumes "partition_of keys [0..<rows] cls" "c \<in> set cls"
  shows "distinct (crows c)" "hd (crows c) < rows"
proof -
  have m: "mset (concat (map crows cls)) = mset [0..<rows]" using assms(1) by (simp add: partition_of_def all_rows_concat)
  then have "distinct (concat (map crows cls))" by (metis distinct_upt mset_eq_imp_distinct_iff)
  then show "distinct (crows c)" using assms(2) by (auto simp: distinct_concat_iff)
  have "hd (crows c) \<in> set (crows c)" using assms by (auto simp: partition_of_def wf_cluster_def)
  then have "hd (crows c) \<in> set (concat (map crows cls))" using assms(2) by auto
  then have "hd (crows c) \<in> set [0..<rows]" unfolding mset_eq_setD [OF m] .
  then show "hd (crows c) < rows" by simp
qed

lemma cluster_rows_partition:
  assumes r: "cluster_rows t fo keys embs rows = Inr cls"
  shows "all_rows cls = mset [0..<rows] \<longleftrightarrow> separate_seeds t fo embs rows"
    "\<forall>c \<in> set cls. wf_cluster keys c \<and> distinct (crows c) \<and> hd (crows c) < rows"
proof -
  have "(all_rows cls = mset [0..<rows] \<longleftrightarrow> separate_seeds t fo embs rows) \<and>
    (\<forall>c \<in> set cls. wf_cluster keys c \<and> distinct (crows c) \<and> hd (crows c) < rows)"
  proof (cases "t = Knn \<and> length embs = rows")
    case False
    then have p: "partition_of keys [0..<rows] cls"
      using r exact_partition greedy_partition ahc_partition [of fo keys embs rows cls]
      by (cases t) (auto simp: cluster_rows_def split: if_splits)
    then show ?thesis using False partition_distinct [OF p] by (auto simp: partition_of_def separate_seeds_def)
  next
    case True
    let ?seeds = "knn_seeds fo 512 embs rows"
    let ?rest = "filter (\<lambda>i. i \<notin> set ?seeds) [0..<rows]"
    have k: "knn fo 512 keys embs rows = Inr cls" using r True by (simp add: cluster_rows_def)
    note p = knn_clusters [OF k refl]
    have "mset (?seeds @ ?rest) = mset [0..<rows] \<longleftrightarrow> distinct ?seeds"
    proof
      assume "mset (?seeds @ ?rest) = mset [0..<rows]"
      then have "distinct (?seeds @ ?rest)" by (metis distinct_upt mset_eq_imp_distinct_iff)
      then show "distinct ?seeds" by simp
    next
      assume "distinct ?seeds"
      then show "mset (?seeds @ ?rest) = mset [0..<rows]"
        using p(3) by (intro set_eq_iff_mset_eq_distinct [THEN iffD1]) auto
    qed
    moreover have "hd (crows c) < rows" if c: "c \<in> set cls" for c
    proof -
      have "hd (crows c) \<in> set (crows c)" using p(1) c by (auto simp: partition_of_def wf_cluster_def)
      then have "hd (crows c) \<in># all_rows cls" using c by (auto simp: all_rows_concat)
      then have "hd (crows c) \<in># mset (?seeds @ ?rest)" using p(1) by (simp only: partition_of_def)
      then show ?thesis using p(3) by auto
    qed
    ultimately show ?thesis using p(1,2) True by (auto simp: partition_of_def separate_seeds_def)
  qed
  then show "all_rows cls = mset [0..<rows] \<longleftrightarrow> separate_seeds t fo embs rows"
    "\<forall>c \<in> set cls. wf_cluster keys c \<and> distinct (crows c) \<and> hd (crows c) < rows" by blast+
qed

lemma prompt_keys:
  assumes "traverse (\<lambda>i. embed_prompt i inp info True) [0..<rows] = Inr keys" "r < rows"
  shows "keys ! r = prompt_text r inp info True"
proof -
  have "length keys = rows" "\<forall>i < rows. embed_prompt i inp info True = Inr (keys ! i)"
    using assms(1) by (auto simp: traverse_Inr_iff list_all2_conv_all_nth)
  then show ?thesis using assms(2) by (auto simp: embed_prompt_text split: if_splits)
qed

lemma group_by_clusters_spec:
  assumes e: "row_embeddings lib fl eapi info inp stored rows = Inr embs"
    and g: "group_by_clusters t fo lib fl eapi info inp stored rows = Inr cls"
  shows "(mset (concat (map crows cls)) = mset [0..<rows] \<longleftrightarrow> separate_seeds t fo embs rows) \<and>
    (\<forall>c \<in> set cls. crows c \<noteq> [] \<and> ckey c = prompt_text (hd (crows c)) inp info True \<and>
      set (csample c) \<subseteq> set (tl (crows c)) \<and> distinct (csample c) \<and>
      length (csample c) = cluster_sample_size (length (crows c)))"
proof -
  from g e obtain keys cls0 where k: "traverse (\<lambda>i. embed_prompt i inp info True) [0..<rows] = Inr keys"
    and c0: "cluster_rows t fo keys embs rows = Inr cls0" and cls: "cls = map populate_sample cls0"
    by (auto simp: group_by_clusters_def bindR_Inr_iff mapR_Inr_iff)
  note p = cluster_rows_partition [OF c0]
  have "map crows cls = map crows cls0" by (simp add: cls)
  then have "mset (concat (map crows cls)) = mset [0..<rows] \<longleftrightarrow> separate_seeds t fo embs rows"
    using p(1) by (simp add: all_rows_concat)
  moreover have "crows (populate_sample c) \<noteq> [] \<and>
      ckey (populate_sample c) = prompt_text (hd (crows (populate_sample c))) inp info True \<and>
      set (csample (populate_sample c)) \<subseteq> set (tl (crows (populate_sample c))) \<and> distinct (csample (populate_sample c)) \<and>
      length (csample (populate_sample c)) = cluster_sample_size (length (crows (populate_sample c)))"
    if c: "c \<in> set cls0" for c
    using p(2) c prompt_keys [OF k, of "hd (crows c)"] populate_sample_props [of c] by (auto simp: wf_cluster_def)
  ultimately show ?thesis by (auto simp: cls)
qed

text \<open>C20: \<open>GroupByClusters\<close>, whose vectors are \<open>embs\<close>, puts every row of the chunk into exactly one cluster with the
  greedy, the agglomerative and the exact technique, and with the k-nearest technique if and only if the seeds it
  chose are different rows. (They are not where similarities of 2 and more occur, as they do in single precision
  for vectors whose squares underflow; then a row opens two clusters.) In either case no cluster is empty, its key is
  the prompt of its first row, the representative, and the sample of a cluster of \<open>n\<close> rows has
  \<open>min (floor (sqrt (n - 1))) 3\<close> different members, never the representative.\<close>
theorem group_by_clusters_partition:
  assumes "row_embeddings lib fl eapi info inp stored rows = Inr embs"
    and "group_by_clusters t fo lib fl eapi info inp stored rows = Inr cls"
  shows "(mset (concat (map crows cls)) = mset [0..<rows] \<longleftrightarrow>
      (t = Knn \<and> length embs = rows \<longrightarrow> distinct (knn_seeds fo 512 embs rows))) \<and>
    (\<forall>c \<in> set cls. crows c \<noteq> [] \<and> ckey c = prompt_text (hd (crows c)) inp info True \<and>
      set (csample c) \<subseteq> set (tl (crows c)) \<and> distinct (csample c) \<and>
      length (csample c) = cluster_sample_size (length (crows c)))"
  using group_by_clusters_spec [OF assms] by (simp add: separate_seeds_def)

text \<open>Three rows; the vectors of the first two point the same way. Integers stand for floats.\<close>

definition int_ops :: "int fops" where
  "int_ops = \<lparr>fadd = (+), fsub = (-), fmul = (*), fdiv = (\<lambda>a b. a div b), fsqrt = (\<lambda>a. a), flt = (<),
     fnat = int, fminus_one = - 1, fthreshold = 1\<rparr>"

definition stored_vectors :: "nat \<Rightarrow> int list list option" where
  "stored_vectors c = Some [[1, 0], [1, 0], [0, 1]]"

definition cluster_info :: pinfo where
  "cluster_info = \<lparr>input_mask = [0, 1], input_set_names = [''c'', ''c_emb''],
     embedding_column_map = [(''c'', ''C_EMB'')], result_set = demo_cols\<rparr>"

theorem group_by_clusters_partition_witness:
  "\<exists>cls cls'. group_by_clusters Ahc int_ops demo_lib (\<lambda>d. d) (\<lambda>_ _. Inr JNull) cluster_info demo_input stored_vectors 3 = Inr cls \<and>
     map crows cls = [[0, 1], [2]] \<and> mset (concat (map crows cls)) = mset [0, 1, 2] \<and>
     group_by_clusters Knn int_ops demo_lib (\<lambda>d. d) (\<lambda>_ _. Inr JNull) cluster_info demo_input stored_vectors 3 = Inr cls' \<and>
     map crows cls' = [[0], [2], [1]] \<and> mset (concat (map crows cls')) = mset [0, 1, 2]"
proof -
  let ?g = "\<lambda>t. group_by_clusters t int_ops demo_lib (\<lambda>d. d) (\<lambda>_ _. Inr JNull) cluster_info demo_input stored_vectors 3"
  have "\<not> isl (?g Ahc)" "\<not> isl (?g Knn)" by code_simp+
  then obtain cls cls' where cls: "?g Ahc = Inr cls" "?g Knn = Inr cls'" by (auto dest!: res_obtain)
  have "mapR (map crows) (?g Ahc) = Inr [[0, 1], [2]]" "mapR (map crows) (?g Knn) = Inr [[0], [2], [1]]" by code_simp+
  then have rows: "map crows cls = [[0, 1], [2]]" "map crows cls' = [[0], [2], [1]]" by (simp_all add: cls)
  have e: "row_embeddings demo_lib (\<lambda>d. d) (\<lambda>_ _. Inr JNull) cluster_info demo_input stored_vectors 3 = Inr [[1, 0], [1, 0], [0, 1 :: int]]"
    "distinct (knn_seeds int_ops 512 [[1, 0], [1, 0], [0, 1]] 3)" by code_simp+
  show ?thesis
    using group_by_clusters_partition [OF e(1) cls(1)] group_by_clusters_partition [OF e(1) cls(2)] e(2) rows cls
    by (auto simp: upt_conv_Cons)
qed

subsection \<open>From clusters to groups of equal prompts\<close>

lemma cluster_map_last:
  "cluster_map (cls @ [c]) = (cluster_map cls)(ckey c \<mapsto> crows c)"
  by (simp add: cluster_map_def)

lemma cluster_map_Some:
  "cluster_map cls k = Some rs \<Longrightarrow> \<exists>i < length cls. ckey (cls ! i) = k \<and> crows (cls ! i) = rs \<and>
     (\<forall>j. i < j \<longrightarrow> j < length cls \<longrightarrow> ckey (cls ! j) \<noteq> k)"
proof (induction cls rule: rev_induct)
  case (snoc c cls)
  show ?case
  proof (cases "k = ckey c")
    case True
    with snoc.prems show ?thesis
      by (intro exI [of _ "length cls"]) (simp add: cluster_map_last)
  next
    case False
    with snoc.prems snoc.IH obtain i where "i < length cls" "ckey (cls ! i) = k" "crows (cls ! i) = rs"
      "\<forall>j. i < j \<longrightarrow> j < length cls \<longrightarrow> ckey (cls ! j) \<noteq> k" by (auto simp: cluster_map_last)
    with False show ?thesis by (intro exI [of _ i]) (auto simp: nth_append less_Suc_eq)
  qed
qed (simp add: cluster_map_def)

lemma cluster_map_distinct:
  "distinct (map ckey cls) \<Longrightarrow> c \<in> set cls \<Longrightarrow> cluster_map cls (ckey c) = Some (crows c)"
  by (induction cls rule: rev_induct) (auto simp: cluster_map_last intro: rev_image_eqI)

text \<open>A row is in one cluster.\<close>

lemma one_cluster:
  assumes "distinct (concat (map crows cls))" "\<forall>c \<in> set cls. crows c \<noteq> []"
    and "i < length cls" "j < length cls" "r \<in> set (crows (cls ! i))" "r \<in> set (crows (cls ! j))"
  shows "i = j"
proof (rule ccontr)
  assume ij: "i \<noteq> j"
  have "removeAll [] (map crows cls) = map crows cls" using assms(2) by (intro removeAll_id) auto
  then have "distinct (map crows cls)" using assms(1) distinct_concat_iff [of "map crows cls"] by simp
  then have "crows (cls ! i) \<noteq> crows (cls ! j)" using ij assms(3,4) nth_eq_iff_index_eq [of "map crows cls" i j] by simp
  moreover have "crows (cls ! i) \<in> set (map crows cls)" "crows (cls ! j) \<in> set (map crows cls)" using assms(3,4) by auto
  ultimately have "set (crows (cls ! i)) \<inter> set (crows (cls ! j)) = {}" using assms(1) by (simp add: distinct_concat_iff)
  with assms(5,6) show False by auto
qed

text \<open>Two clusters with one key: the rows of the first are not found.\<close>

lemma lost_rows:
  assumes "distinct (concat (map crows cls))" "\<forall>c \<in> set cls. crows c \<noteq> []" "\<not> distinct (map ckey cls)"
  shows "\<exists>r \<in> set (concat (map crows cls)). \<forall>k rs. cluster_map cls k = Some rs \<longrightarrow> r \<notin> set rs"
proof -
  obtain i j where "i < length cls" "j < length cls" "i \<noteq> j" "ckey (cls ! i) = ckey (cls ! j)"
    using assms(3) by (auto simp: distinct_conv_nth)
  then obtain i j where ij: "i < j" "j < length cls" "ckey (cls ! i) = ckey (cls ! j)" by (metis linorder_neqE_nat)
  then have i: "i < length cls" "crows (cls ! i) \<noteq> []" using assms(2) by simp_all
  then obtain r where r: "r \<in> set (crows (cls ! i))" by (cases "crows (cls ! i)") auto
  have "r \<notin> set rs" if k: "cluster_map cls k = Some rs" for k rs
  proof
    assume rs: "r \<in> set rs"
    obtain l where l: "l < length cls" "ckey (cls ! l) = k" "crows (cls ! l) = rs"
      "\<forall>j. l < j \<longrightarrow> j < length cls \<longrightarrow> ckey (cls ! j) \<noteq> k" using cluster_map_Some [OF k] by blast
    then have "l = i" using one_cluster [OF assms(1,2) l(1) i(1), of r] r rs by simp
    with l ij show False by auto
  qed
  moreover have "r \<in> set (concat (map crows cls))" using r i(1) nth_mem by fastforce
  ultimately show ?thesis by blast
qed

lemma cluster_map_shadowed:
  "ckey c \<notin> ckey ` set ys \<Longrightarrow> cluster_map (xs @ c # ys) (ckey c) = Some (crows c)"
proof (induction ys rule: rev_induct)
  case Nil
  then show ?case using cluster_map_last [of xs c] by simp
next
  case (snoc y ys)
  then show ?case using cluster_map_last [of "xs @ c # ys" y] by simp
qed


definition null_vectors :: "nat \<Rightarrow> int list list option" where
  "null_vectors c = Some [[], [1, 0], []]"


subsection \<open>Verifying the clusters\<close>

definition outputs_match :: "'d jlib \<Rightarrow> cols \<Rightarrow> string \<Rightarrow> string \<Rightarrow> bool" where
  "outputs_match lib cols a b =
     (case (extract_json a, extract_json b) of
        (Inr sa, Inr sb) \<Rightarrow>
          (case (j_parse lib sa, j_parse lib sb) of
             (Some ja, Some jb) \<Rightarrow> \<forall>c \<in> set cols.
               j_eq lib (case json_member ja (fst c) of None \<Rightarrow> JNull | Some v \<Rightarrow> v)
                 (case json_member jb (fst c) of None \<Rightarrow> JNull | Some v \<Rightarrow> v)
           | _ \<Rightarrow> False)
      | _ \<Rightarrow> False)"

definition rep_result :: "predictor \<Rightarrow> (string \<rightharpoonup> string) \<Rightarrow> (string \<rightharpoonup> string) \<Rightarrow> cluster \<Rightarrow> string option" where
  "rep_result p rep_outputs stored c =
     (case rep_outputs (ckey c) of Some r \<Rightarrow> Some r | None \<Rightarrow> if use_cache p then stored (ckey c) else None)"

definition verify_row ::
    "'d jlib \<Rightarrow> 'd endpoint \<Rightarrow> predictor \<Rightarrow> pinfo \<Rightarrow> input \<Rightarrow> string \<Rightarrow> nat \<Rightarrow> 'd chunk \<Rightarrow> 'd chunk res" where
  "verify_row lib api p info inp rep row out =
     bindR (embed_prompt row inp info True) (\<lambda>prompt_row.
     bindR (predict_one lib api p prompt_row row) (\<lambda>r.
       if \<not> success r \<or> outputs r = [] \<or> outputs_match lib (result_set info) rep (hd (outputs r)) then Inr out
       else extract_row_data lib (result_set info) (hd (outputs r)) row out))"

definition verify_clusters ::
    "'d jlib \<Rightarrow> 'd endpoint \<Rightarrow> predictor \<Rightarrow> pinfo \<Rightarrow> input \<Rightarrow> (string \<rightharpoonup> string) \<Rightarrow> (string \<rightharpoonup> string)
       \<Rightarrow> cluster list \<Rightarrow> 'd chunk \<Rightarrow> 'd chunk res" where
  "verify_clusters lib api p info inp rep_outputs stored cls out =
     foldR (\<lambda>c ch. if csample c = [] then Inr ch
        else case rep_result p rep_outputs stored c of
          None \<Rightarrow> Inr ch
        | Some rep \<Rightarrow> foldR (verify_row lib api p info inp rep) (csample c) ch) cls out"

text \<open>The sampled rows whose own answer differs from the representative's.\<close>

definition corrections ::
    "'d jlib \<Rightarrow> predictor \<Rightarrow> pinfo \<Rightarrow> (string \<rightharpoonup> string) \<Rightarrow> (string \<rightharpoonup> string) \<Rightarrow> (nat \<Rightarrow> batch_result) \<Rightarrow> cluster list \<Rightarrow> nat list" where
  "corrections lib p info rep_outputs stored s cls = concat (map (\<lambda>c.
     case rep_result p rep_outputs stored c of
       None \<Rightarrow> []
     | Some rep \<Rightarrow> filter (\<lambda>r. success (s r) \<and> outputs (s r) \<noteq> [] \<and>
         \<not> outputs_match lib (result_set info) rep (hd (outputs (s r)))) (csample c)) cls)"

lemma verify_rows_writes:
  assumes "length (input_mask info) \<le> length (input_set_names info)" and "\<forall>r \<in> set rs. predict_one lib api p (prompt_text r inp info True) r = Inr (s r)"
    and "\<forall>r \<in> set rs. success (s r) \<longrightarrow> text_row lib (result_set info) (hd (outputs (s r))) = Inr (vals r)"
  shows "foldR (verify_row lib api p info inp rep) rs out =
    Inr (write_all put_row (map (\<lambda>r. (r, vals r)) (filter (\<lambda>r. success (s r) \<and> outputs (s r) \<noteq> [] \<and>
      \<not> outputs_match lib (result_set info) rep (hd (outputs (s r)))) rs)) out)"
  using assms
  by (induction rs arbitrary: out) (auto simp: verify_row_def embed_prompt_text extract_row_put)

lemma verify_clusters_writes:
  assumes "length (input_mask info) \<le> length (input_set_names info)" and "\<forall>c \<in> set cls. \<forall>r \<in> set (csample c). predict_one lib api p (prompt_text r inp info True) r = Inr (s r)"
    and "\<forall>c \<in> set cls. \<forall>r \<in> set (csample c). success (s r) \<longrightarrow>
      text_row lib (result_set info) (hd (outputs (s r))) = Inr (vals r)"
  shows "verify_clusters lib api p info inp rep_outputs stored cls out =
    Inr (write_all put_row (map (\<lambda>r. (r, vals r)) (corrections lib p info rep_outputs stored s cls)) out)"
  using assms
proof (induction cls arbitrary: out)
  case Nil
  then show ?case by (simp add: verify_clusters_def corrections_def)
next
  case (Cons c cls)
  let ?rest = "\<lambda>ch. verify_clusters lib api p info inp rep_outputs stored cls ch"
  have rest: "?rest ch = Inr (write_all put_row (map (\<lambda>r. (r, vals r)) (corrections lib p info rep_outputs stored s cls)) ch)" for ch
    using Cons by simp
  have unfold: "verify_clusters lib api p info inp rep_outputs stored (c # cls) out =
      bindR (if csample c = [] then Inr out else case rep_result p rep_outputs stored c of
          None \<Rightarrow> Inr out | Some rep \<Rightarrow> foldR (verify_row lib api p info inp rep) (csample c) out) ?rest"
    by (simp add: verify_clusters_def)
  show ?case
  proof (cases "rep_result p rep_outputs stored c")
    case None
    then show ?thesis unfolding unfold by (simp add: rest corrections_def)
  next
    case (Some rep)
    have "foldR (verify_row lib api p info inp rep) (csample c) out =
      Inr (write_all put_row (map (\<lambda>r. (r, vals r)) (filter (\<lambda>r. success (s r) \<and> outputs (s r) \<noteq> [] \<and>
        \<not> outputs_match lib (result_set info) rep (hd (outputs (s r)))) (csample c))) out)"
      by (rule verify_rows_writes) (use Cons.prems in auto)
    then show ?thesis unfolding unfold using Some by (auto simp: rest corrections_def write_all_append)
  qed
qed

text \<open>\<open>VerifyClusters\<close> where every sampled row's own call returns. Exactly the sampled rows whose
  own answer differs from their representative's in some result column (or where one of the two
  does not parse) get the row of their own answer; every other row, sampled or not, keeps the
  representative's.\<close>
lemma verify_clusters_correct:
  assumes "length (input_mask info) \<le> length (input_set_names info)" and "\<forall>c \<in> set cls. \<forall>r \<in> set (csample c). predict_one lib api p (prompt_text r inp info True) r = Inr (s r)"
    and "\<forall>c \<in> set cls. \<forall>r \<in> set (csample c). success (s r) \<longrightarrow>
      text_row lib (result_set info) (hd (outputs (s r))) = Inr (vals r)"
  shows "\<exists>ch. verify_clusters lib api p info inp rep_outputs stored cls out = Inr ch \<and>
    (\<forall>r \<in> set (corrections lib p info rep_outputs stored s cls). row_at (length (result_set info)) ch r = vals r) \<and>
    (\<forall>r. r \<notin> set (corrections lib p info rep_outputs stored s cls) \<longrightarrow> (\<forall>c. cells ch c r = cells out c r))"
proof -
  let ?cs = "corrections lib p info rep_outputs stored s cls" and ?cols = "result_set info"
  let ?ch = "write_all put_row (map (\<lambda>r. (r, vals r)) ?cs) out"
  have "row_at (length ?cols) ?ch r = vals r" if r: "r \<in> set ?cs" for r
  proof -
    from r obtain c where c: "c \<in> set cls" "r \<in> set (csample c)" "success (s r)"
      by (auto simp: corrections_def split: option.splits)
    with assms(3) have "length (vals r) = length ?cols" by (auto dest: length_text_row)
    then show ?thesis by (intro rows.write_all_fun [OF r])
  qed
  moreover have "cells ?ch c r = cells out c r" if "r \<notin> set ?cs" for c r
  proof -
    have "r \<notin> fst ` set (map (\<lambda>r. (r, vals r)) ?cs)" using that by auto
    from rows.write_all_frame [OF this, of "Suc c" out] show ?thesis by (auto simp: row_at_def)
  qed
  ultimately show ?thesis using verify_clusters_writes [OF assms] by blast
qed

definition verify_api :: "int endpoint" where
  "verify_api c req = Inr (demo_completion ''{q}'')"

lemma verify_clusters_correct_witness:
  "\<exists>ch. verify_clusters demo_lib verify_api demo_predictor demo_info demo_input [''k'' \<mapsto> ''{p}''] Map.empty
      [\<lparr>ckey = ''k'', crows = [0, 2], csample = [2]\<rparr>] demo_chunk = Inr ch \<and>
     row_at 1 ch 2 = [VStr ''q''] \<and> cells ch 0 0 = VBool True"
proof -
  let ?s = "\<lambda>r. ok_or new_result (predict_one demo_lib verify_api demo_predictor (prompt_text r demo_input demo_info True) r)"
  let ?cls = "[\<lparr>ckey = ''k'', crows = [0, 2], csample = [2]\<rparr>]"
  have o: "\<not> isl (predict_one demo_lib verify_api demo_predictor (prompt_text 2 demo_input demo_info True) 2)" by code_simp
  have a: "\<forall>c \<in> set ?cls. \<forall>r \<in> set (csample c).
      predict_one demo_lib verify_api demo_predictor (prompt_text r demo_input demo_info True) r = Inr (?s r)"
    using ok_or_Inr [OF o] by simp
  have t: "text_row demo_lib (result_set demo_info) (hd (outputs (?s 2))) = Inr [VStr ''q'']" by code_simp
  have b: "\<forall>c \<in> set ?cls. \<forall>r \<in> set (csample c). success (?s r) \<longrightarrow>
      text_row demo_lib (result_set demo_info) (hd (outputs (?s r))) = Inr [VStr ''q'']" using t by simp
  have c: "corrections demo_lib demo_predictor demo_info [''k'' \<mapsto> ''{p}''] Map.empty ?s ?cls = [2]" by code_simp
  have i: "length (result_set demo_info) = 1" "cells demo_chunk 0 0 = VBool True" by code_simp+
  from verify_clusters_correct [OF demo_named a b, of "[''k'' \<mapsto> ''{p}'']" Map.empty demo_chunk] c i show ?thesis by auto
qed

end
