(* ===== verification/Filter_Limit.thy ===== *)
theory Filter_Limit
  imports Prelude
begin

section \<open>Filters that stop at a limit\<close>

text \<open>
  \<open>src/optimizer/limit_to_predict_filter_propagation.cpp\<close> copies a constant LIMIT below 2048 into a
  filter with a PREDICT expression, and \<open>src/execution/operator/filter/physical_filter.cpp\<close> then
  evaluates its predicate in growing batches and stops when it has enough rows. The expression
  executor is the parameter \<open>select\<close>: its state, a chunk and a count give the selected row numbers
  among the first \<open>count\<close> rows.
\<close>

subsection \<open>The operator\<close>

type_synonym ('s, 'r) selector = "'s \<Rightarrow> 'r list \<Rightarrow> nat \<Rightarrow> nat list \<times> 's"

record 's filter_state =
  executor :: 's
  tuples_processed :: nat

datatype operator_result = NeedMoreInput | Finished

abbreviation vector_size :: nat where "vector_size \<equiv> 2048"

definition append_selected :: "'r list \<Rightarrow> nat list \<Rightarrow> 'r list \<Rightarrow> 'r list" where
  "append_selected input batch_sel chunk =
     (if batch_sel = [] then chunk
      else chunk @ map ((!) input) (take (min (length batch_sel) (vector_size - length chunk)) batch_sel))"

partial_function (option) limit_loop ::
    "('s, 'r) selector \<Rightarrow> 'r list \<Rightarrow> nat \<Rightarrow> nat \<Rightarrow> nat \<Rightarrow> 's filter_state \<Rightarrow> 'r list \<Rightarrow> ('r list \<times> 's filter_state) option" where
  "limit_loop select input lim batch offset st chunk =
     (if offset < length input \<and> length chunk < lim \<and> tuples_processed st < lim
      then let n = min batch (length input - offset);
             r = select (executor st) input (offset + n);
             batch_sel = filter (\<lambda>i. offset \<le> i \<and> i < offset + n) (fst r)
           in limit_loop select input lim (if batch < length input - (offset + n) then batch * 2 else batch)
                (offset + n) (st\<lparr>executor := snd r\<rparr>) (append_selected input batch_sel chunk)
      else Some (chunk, st))"

text \<open>\<open>limit_reached\<close> is the flag of the global state; the output chunk starts empty.\<close>

definition filter_execute ::
    "('s, 'r) selector \<Rightarrow> int \<Rightarrow> bool \<Rightarrow> 's filter_state \<Rightarrow> 'r list
       \<Rightarrow> (operator_result \<times> 'r list \<times> bool \<times> 's filter_state) option" where
  "filter_execute select limit limit_reached st input =
     (if limit \<noteq> -1 \<and> limit_reached then Some (Finished, [], limit_reached, st)
      else if limit \<noteq> -1 \<and> limit mod 2 ^ 64 < int (length input)
      then let lim = nat (limit mod 2 ^ 64) in
        map_option (\<lambda>(chunk, st'). (NeedMoreInput, chunk, limit_reached \<or> lim \<le> length chunk, st'))
          (limit_loop select input lim (lim * 2) 0 st [])
      else let r = select (executor st) input (length input) in
        Some (NeedMoreInput, if length (fst r) = length input then input else map ((!) input) (fst r),
          limit_reached, st\<lparr>executor := snd r\<rparr>))"

text \<open>The operator on the chunks of one pipeline, up to \<open>FINISHED\<close>.\<close>

fun run_filter ::
    "('s, 'r) selector \<Rightarrow> int \<Rightarrow> bool \<Rightarrow> 's filter_state \<Rightarrow> 'r list list \<Rightarrow> 'r list option" where
  "run_filter select limit reached st [] = Some []"
| "run_filter select limit reached st (input # inputs) =
     (case filter_execute select limit reached st input of
        None \<Rightarrow> None
      | Some (Finished, chunk, _, _) \<Rightarrow> Some chunk
      | Some (NeedMoreInput, chunk, reached', st') \<Rightarrow>
          map_option ((@) chunk) (run_filter select limit reached' st' inputs))"

subsection \<open>The optimizer rule\<close>

datatype limit_node = UnsetLimit | ConstantValue nat | ConstantPercentage | ExpressionValue | ExpressionPercentage

text \<open>\<open>Comparison l r\<close>: whether the left and the right side is a PREDICT expression.\<close>

datatype filter_expression = Comparison bool bool | PredictExpression | OtherExpression

datatype plan =
    LimitPlan limit_node limit_node "plan list"
  | FilterPlan "filter_expression list" int nat "plan list"
  | OtherPlan nat "plan list"

fun has_predict :: "filter_expression \<Rightarrow> bool" where
  "has_predict (Comparison l r) = (l \<or> r)"
| "has_predict PredictExpression = True"
| "has_predict OtherExpression = False"

fun can_optimize :: "plan \<Rightarrow> bool" where
  "can_optimize (LimitPlan lim off (FilterPlan es _ _ _ # _)) =
     (off \<noteq> ExpressionPercentage \<and> off \<noteq> ExpressionValue \<and> list_ex has_predict es \<and>
      (case lim of ConstantValue n \<Rightarrow> n < 2048 | _ \<Rightarrow> False))"
| "can_optimize _ = False"

definition set_limit :: "plan \<Rightarrow> plan" where
  "set_limit p = (if can_optimize p
     then (case p of LimitPlan (ConstantValue n) off (FilterPlan es _ _ cs # ps)
             \<Rightarrow> LimitPlan (ConstantValue n) off (FilterPlan es (int n) n cs # ps)
           | _ \<Rightarrow> p)
     else p)"

fun children :: "plan \<Rightarrow> plan list" where
  "children (LimitPlan _ _ cs) = cs"
| "children (FilterPlan _ _ _ cs) = cs"
| "children (OtherPlan _ cs) = cs"

fun with_children :: "plan list \<Rightarrow> plan \<Rightarrow> plan" where
  "with_children cs (LimitPlan l f _) = LimitPlan l f cs"
| "with_children cs (FilterPlan es l n _) = FilterPlan es l n cs"
| "with_children cs (OtherPlan k _) = OtherPlan k cs"

lemma size_children_set_limit: "p \<in> set (children (set_limit q)) \<Longrightarrow> size p < size q"
proof (cases q)
  assume p: "p \<in> set (children (set_limit q))"
  have mem: "size p < Suc (size_list size cs)" if "p \<in> set cs" for cs
    using size_list_estimation' [OF that, of "size p" size] by simp
  {
    case (FilterPlan es l n cs)
    then show ?thesis using p mem by (simp add: set_limit_def)
  next
    case (OtherPlan k cs)
    then show ?thesis using p mem by (simp add: set_limit_def)
  }
  case (LimitPlan lim off cs)
  show ?thesis
  proof (cases "can_optimize q")
    case True
    then obtain n es l k fs ps where q: "lim = ConstantValue n" "cs = FilterPlan es l k fs # ps"
      using LimitPlan by (cases q rule: can_optimize.cases) (auto split: limit_node.splits)
    then have "p = FilterPlan es (int n) n fs \<or> p \<in> set ps" using p True LimitPlan by (auto simp: set_limit_def)
    then show ?thesis
    proof
      assume "p \<in> set ps"
      then have "size p \<le> size_list size ps" by (rule size_list_estimation') simp
      then show ?thesis using LimitPlan q by simp
    qed (use LimitPlan q in simp)
  next
    case False
    then show ?thesis using p LimitPlan size_list_estimation' [of p cs "size p" size] by (auto simp: set_limit_def)
  qed
qed

function propagate_limit :: "plan \<Rightarrow> plan" where
  "propagate_limit p = with_children (map propagate_limit (children (set_limit p))) (set_limit p)"
  by pat_completeness auto
termination by (relation "measure size") (simp_all add: size_children_set_limit)

declare propagate_limit.simps [simp del]

subsection \<open>The rows that come out\<close>

text \<open>An executor that evaluates a predicate per row.\<close>

definition evaluates :: "('s, 'r) selector \<Rightarrow> ('r \<Rightarrow> bool) \<Rightarrow> bool" where
  "evaluates select P \<longleftrightarrow> (\<forall>s input n. fst (select s input n) = filter (\<lambda>i. P (input ! i)) [0..<n])"

lemma filter_upt_window:
  assumes "a \<le> b"
  shows "filter (\<lambda>i. a \<le> i \<and> i < b) (filter Q [0..<b]) = filter Q [a..<b]"
proof -
  have "[0..<b] = [0..<a] @ [a..<b]" using assms upt_add_eq_append [of 0 a "b - a"] by simp
  then have "filter (\<lambda>i. a \<le> i \<and> i < b) (filter Q [0..<b])
      = filter (\<lambda>i. a \<le> i \<and> i < b) (filter Q [0..<a]) @ filter (\<lambda>i. a \<le> i \<and> i < b) (filter Q [a..<b])" by simp
  moreover have "filter (\<lambda>i. a \<le> i \<and> i < b) (filter Q [0..<a]) = []" by (auto simp: filter_empty_conv)
  moreover have "filter (\<lambda>i. a \<le> i \<and> i < b) (filter Q [a..<b]) = filter Q [a..<b]"
    unfolding filter_filter by (rule filter_cong) auto
  ultimately show ?thesis by simp
qed

lemma map_filter_nth: "b \<le> length xs \<Longrightarrow> map ((!) xs) (filter (\<lambda>i. P (xs ! i)) [a..<b]) = filter P (map ((!) xs) [a..<b])"
  by (simp add: filter_map o_def)

lemma take_step:
  assumes "a \<le> b" "b \<le> length xs"
  shows "filter P (take a xs) @ map ((!) xs) (filter (\<lambda>i. P (xs ! i)) [a..<b]) = filter P (take b xs)"
proof -
  have "take b xs = take a xs @ map ((!) xs) [a..<b]"
    using assms map_nth_take [of b xs] map_nth_take [of a xs] upt_add_eq_append [of 0 a "b - a"]
    by (metis le_add_diff_inverse le_trans map_append zero_le)
  then show ?thesis using assms(2) by (simp add: map_filter_nth)
qed

text \<open>The loop ends; its output is the filter of a prefix of the input, the whole input unless the
  limit is reached.\<close>

lemma limit_loop_prefix:
  assumes "evaluates select P" "length input \<le> vector_size" "0 < batch" "offset \<le> length input"
    and "chunk = filter P (take offset input)" "tuples_processed st = 0"
  shows "\<exists>k st'. limit_loop select input lim batch offset st chunk = Some (filter P (take k input), st') \<and>
    (k < length input \<longrightarrow> lim \<le> length (filter P (take k input))) \<and> tuples_processed st' = 0"
  using assms
proof (induction "length input - offset" arbitrary: batch offset st chunk rule: less_induct)
  case less
  show ?case
  proof (cases "offset < length input \<and> length chunk < lim \<and> tuples_processed st < lim")
    case True
    define n where "n = min batch (length input - offset)"
    define r where "r = select (executor st) input (offset + n)"
    have n: "0 < n" "offset + n \<le> length input" using less.prems(3) True by (auto simp: n_def)
    have sel: "filter (\<lambda>i. offset \<le> i \<and> i < offset + n) (fst r) = filter (\<lambda>i. P (input ! i)) [offset..<offset + n]" (is "?b = _")
      using less.prems(1) unfolding r_def evaluates_def
      using filter_upt_window [of offset "offset + n"] by (simp del: filter_filter)
    have "length ?b \<le> n" unfolding sel by (rule order_trans [OF length_filter_le]) simp
    moreover have "length chunk \<le> offset" unfolding less.prems(5)
      by (rule order_trans [OF length_filter_le]) simp
    ultimately have "length ?b \<le> vector_size - length chunk" using less.prems(2) n(2) by linarith
    then have "append_selected input ?b chunk = chunk @ map ((!) input) ?b"
      by (auto simp add: append_selected_def min_def)
    also have "\<dots> = filter P (take (offset + n) input)"
      unfolding sel less.prems(5) using n(2) by (intro take_step) auto
    finally have chunk': "append_selected input ?b chunk = filter P (take (offset + n) input)" .
    have "limit_loop select input lim batch offset st chunk = limit_loop select input lim
        (if batch < length input - (offset + n) then batch * 2 else batch) (offset + n) (st\<lparr>executor := snd r\<rparr>)
        (filter P (take (offset + n) input))"
      using True chunk' by (subst limit_loop.simps) (simp add: Let_def n_def [symmetric] r_def [symmetric])
    moreover have "length input - (offset + n) < length input - offset" using n by simp
    ultimately show ?thesis
      using less.hyps [of "offset + n" "if batch < length input - (offset + n) then batch * 2 else batch"
          "filter P (take (offset + n) input)" "st\<lparr>executor := snd r\<rparr>"] less.prems n(2) by simp
  next
    case False
    then show ?thesis using less.prems
      by (subst limit_loop.simps) (auto intro!: exI [of _ offset])
  qed
qed

text \<open>One call, without and with a limit.\<close>

lemma map_nth_filter: "map ((!) xs) (filter (\<lambda>i. P (xs ! i)) [0..<length xs]) = filter P xs"
  by (simp add: map_filter_nth map_nth)

lemma filter_all_rows:
  assumes "evaluates select P"
  shows "(if length (fst (select s xs (length xs))) = length xs then xs else map ((!) xs) (fst (select s xs (length xs))))
    = filter P xs"
proof -
  have sel: "fst (select s xs (length xs)) = filter (\<lambda>i. P (xs ! i)) [0..<length xs]"
    using assms by (simp add: evaluates_def)
  have "filter P xs = xs" if "length (filter (\<lambda>i. P (xs ! i)) [0..<length xs]) = length xs"
  proof -
    have "length (filter P xs) = length xs" using that map_nth_filter [of xs P] by (metis length_map)
    then show ?thesis by (metis length_filter_less nat_neq_iff filter_True)
  qed
  then show ?thesis unfolding sel by (simp add: map_nth_filter)
qed

lemma filter_execute_chunk:
  assumes "evaluates select P" "length input \<le> vector_size" "0 \<le> limit" "limit < 2 ^ 31" "tuples_processed st = 0"
  shows "\<exists>k reached st'. filter_execute select limit False st input
      = Some (NeedMoreInput, filter P (take k input), reached, st') \<and> tuples_processed st' = 0 \<and>
    (reached \<longrightarrow> nat limit \<le> length (filter P (take k input))) \<and> (\<not> reached \<longrightarrow> length input \<le> k)"
proof -
  have m: "limit mod 2 ^ 64 = limit" "limit \<noteq> -1" using assms(3,4) by simp_all
  consider "limit = 0" "input \<noteq> []" | "0 < limit" "limit < int (length input)" | "int (length input) \<le> limit"
    using assms(3) by force
  then show ?thesis
  proof cases
    case 1
    then show ?thesis using assms(5)
      by (intro exI [of _ 0] exI [of _ True] exI [of _ st]) (simp add: filter_execute_def limit_loop.simps)
  next
    case 2
    then have "\<exists>k st'. limit_loop select input (nat limit) (nat limit * 2) 0 st [] = Some (filter P (take k input), st') \<and>
        (k < length input \<longrightarrow> nat limit \<le> length (filter P (take k input))) \<and> tuples_processed st' = 0"
      using assms by (intro limit_loop_prefix) simp_all
    then obtain k st' where k: "limit_loop select input (nat limit) (nat limit * 2) 0 st [] = Some (filter P (take k input), st')"
      "k < length input \<longrightarrow> nat limit \<le> length (filter P (take k input))" "tuples_processed st' = 0" by blast
    show ?thesis using 2 m k
      by (intro exI [of _ k] exI [of _ "nat limit \<le> length (filter P (take k input))"] exI [of _ st'])
        (auto simp: filter_execute_def Let_def)
  next
    case 3
    let ?r = "select (executor st) input (length input)"
    show ?thesis using 3 m assms(5) filter_all_rows [OF assms(1), of "executor st" input]
      by (intro exI [of _ "length input"] exI [of _ False] exI [of _ "st\<lparr>executor := snd ?r\<rparr>"])
        (simp add: filter_execute_def Let_def)
  qed
qed

lemma run_filter_reached: "limit \<noteq> -1 \<Longrightarrow> run_filter select limit True st inputs = Some []"
  by (cases inputs) (simp_all add: filter_execute_def)

lemma filter_take_drop: "filter P xs = filter P (take k xs) @ filter P (drop k xs)"
  by (metis append_take_drop_id filter_append)

lemma take_append_eq: "take n ys = take n zs \<Longrightarrow> take n (xs @ ys) = take n (xs @ zs)"
proof -
  assume "take n ys = take n zs"
  then have "take (n - length xs) (take n ys) = take (n - length xs) (take n zs)" by simp
  then show ?thesis by simp
qed

lemma run_filter_limit:
  assumes "evaluates select P" "\<forall>c \<in> set inputs. length c \<le> vector_size" "0 \<le> limit" "limit < 2 ^ 31"
    "tuples_processed st = 0"
  shows "\<exists>out. run_filter select limit False st inputs = Some out \<and>
    take (nat limit) out = take (nat limit) (filter P (concat inputs))"
  using assms(2,5)
proof (induction inputs arbitrary: st)
  case (Cons c cs)
  obtain k reached st' where ex: "filter_execute select limit False st c = Some (NeedMoreInput, filter P (take k c), reached, st')"
    and st': "tuples_processed st' = 0" and full: "reached \<longrightarrow> nat limit \<le> length (filter P (take k c))"
    and all: "\<not> reached \<longrightarrow> length c \<le> k"
    using filter_execute_chunk [OF assms(1) _ assms(3,4) Cons.prems(2), of c] Cons.prems(1) by auto
  show ?case
  proof (cases reached)
    case True
    have "take (nat limit) (filter P (concat (c # cs))) = take (nat limit) (filter P (take k c))"
      using True full filter_take_drop [of P c k] by simp
    then show ?thesis using True ex assms(3) run_filter_reached [of limit select st' cs] by simp
  next
    case False
    then have "filter P (take k c) = filter P c" using all by simp
    moreover obtain out where "run_filter select limit False st' cs = Some out"
      "take (nat limit) out = take (nat limit) (filter P (concat cs))" using Cons.IH [of st'] Cons.prems(1) st' by auto
    ultimately show ?thesis using False ex take_append_eq [of "nat limit" out _ "filter P c"]
      by (simp del: take_append)
  qed
qed simp

lemma run_filter_unlimited:
  assumes "evaluates select P"
  shows "run_filter select (-1) reached st inputs = Some (filter P (concat inputs))"
  using filter_all_rows [OF assms]
  by (induction inputs arbitrary: reached st) (simp_all add: filter_execute_def Let_def)

text \<open>C19: over the chunks of a pipeline the filter with a limit \<open>n\<close> returns, and its output starts with
  the first \<open>n\<close> rows the predicate selects from the whole input; without a limit it yields exactly
  the selected rows.\<close>
theorem filter_limit_correct:
  assumes "evaluates select P" "\<forall>c \<in> set inputs. length c \<le> vector_size"
    "limit = -1 \<or> (0 \<le> limit \<and> limit < 2 ^ 31)" "tuples_processed st = 0"
  shows "\<exists>out. run_filter select limit False st inputs = Some out \<and>
    (if limit = -1 then out = filter P (concat inputs)
     else take (nat limit) out = take (nat limit) (filter P (concat inputs)))"
proof (cases "limit = -1")
  case True
  then show ?thesis using run_filter_unlimited [OF assms(1)] by simp
next
  case False
  then show ?thesis using run_filter_limit [OF assms(1,2) _ _ assms(4)] assms(3) by simp
qed

definition even_selector :: "(nat, nat) selector" where
  "even_selector calls input n = (filter (\<lambda>i. even (input ! i)) [0..<n], calls + n)"

lemma evaluates_even: "evaluates even_selector even"
  by (simp add: evaluates_def even_selector_def)

theorem filter_limit_correct_witness:
  "\<exists>out. run_filter even_selector 1 False \<lparr>executor = 0, tuples_processed = 0\<rparr> [[3, 5, 4, 6, 8], [10]] = Some out \<and>
    take 1 out = [4]"
  using filter_limit_correct [OF evaluates_even, of "[[3, 5, 4, 6, 8], [10]]" 1 "\<lparr>executor = 0, tuples_processed = 0\<rparr>"] by simp

subsection \<open>What the rule does to plans\<close>

fun erase_limits :: "plan \<Rightarrow> plan" where
  "erase_limits (LimitPlan l f cs) = LimitPlan l f (map erase_limits cs)"
| "erase_limits (FilterPlan es _ _ cs) = FilterPlan es 0 0 (map erase_limits cs)"
| "erase_limits (OtherPlan k cs) = OtherPlan k (map erase_limits cs)"

lemma erase_with_children: "erase_limits (with_children cs p) = with_children (map erase_limits cs) (erase_limits p)"
  by (cases p) simp_all

lemma children_erase: "children (erase_limits p) = map erase_limits (children p)"
  by (cases p) simp_all

lemma with_children_id [simp]: "with_children (children p) p = p"
  by (cases p) simp_all

lemma erase_set_limit: "erase_limits (set_limit p) = erase_limits p"
  by (cases p rule: can_optimize.cases) (auto simp: set_limit_def split: limit_node.splits)

lemma erase_propagate_limit: "erase_limits (propagate_limit p) = erase_limits p"
proof (induction p rule: propagate_limit.induct)
  case (1 p)
  have "map erase_limits (map propagate_limit (children (set_limit p))) = map erase_limits (children (set_limit p))"
    using 1 by simp
  then show ?case
    by (subst propagate_limit.simps) (simp add: erase_with_children children_erase [symmetric] erase_set_limit del: map_map)
qed

lemma propagate_limit_plans:
  "propagate_limit (FilterPlan es l k cs) = FilterPlan es l k (map propagate_limit cs)"
  "propagate_limit (OtherPlan m cs) = OtherPlan m (map propagate_limit cs)"
  "propagate_limit (LimitPlan lim off cs) = (let p = set_limit (LimitPlan lim off cs) in
     with_children (map propagate_limit (children p)) p)"
  by (subst propagate_limit.simps, simp add: set_limit_def Let_def)+

lemma propagate_limit_sets:
  assumes "can_optimize (LimitPlan (ConstantValue n) off (FilterPlan es l k cs # ps))"
  shows "\<exists>cs' ps'. propagate_limit (LimitPlan (ConstantValue n) off (FilterPlan es l k cs # ps))
    = LimitPlan (ConstantValue n) off (FilterPlan es (int n) n cs' # ps')"
  using assms by (simp add: set_limit_def propagate_limit_plans)

text \<open>C40: the rule changes nothing of a plan but the limits and cardinalities of its filters; under
  a constant LIMIT \<open>n\<close> that qualifies, the filter gets the limit \<open>n\<close>, and run with it its first \<open>n\<close>
  rows are the first \<open>n\<close> rows of the unrestricted filter.\<close>
theorem propagate_limit_correct:
  assumes "can_optimize (LimitPlan (ConstantValue n) off (FilterPlan es l k cs # ps))"
    and "evaluates select P" "\<forall>c \<in> set inputs. length c \<le> vector_size" "tuples_processed st = 0"
  shows "(\<exists>cs' ps'. propagate_limit (LimitPlan (ConstantValue n) off (FilterPlan es l k cs # ps))
      = LimitPlan (ConstantValue n) off (FilterPlan es (int n) n cs' # ps')) \<and>
    (\<exists>out full. run_filter select (int n) False st inputs = Some out \<and>
      run_filter select (-1) False st inputs = Some full \<and> take n out = take n full) \<and>
    erase_limits (propagate_limit p) = erase_limits p"
proof -
  have "n < 2048" using assms(1) by simp
  then show ?thesis using propagate_limit_sets [OF assms(1)] erase_propagate_limit [of p]
      run_filter_limit [OF assms(2,3) _ _ assms(4), of "int n"] run_filter_unlimited [OF assms(2), of False st inputs] by auto
qed

definition demo_plan :: plan where
  "demo_plan = LimitPlan (ConstantValue 1) (ConstantValue 1)
     [FilterPlan [Comparison True False, OtherExpression] (-1) 100 [OtherPlan 0 []]]"

theorem propagate_limit_correct_witness:
  "propagate_limit demo_plan = LimitPlan (ConstantValue 1) (ConstantValue 1)
     [FilterPlan [Comparison True False, OtherExpression] 1 1 [OtherPlan 0 []]] \<and>
   (\<exists>out full. run_filter even_selector 1 False \<lparr>executor = 0, tuples_processed = 0\<rparr> [[3, 4], [6]] = Some out \<and>
      run_filter even_selector (-1) False \<lparr>executor = 0, tuples_processed = 0\<rparr> [[3, 4], [6]] = Some full \<and>
      take 1 out = take 1 full)"
proof -
  have can: "can_optimize (LimitPlan (ConstantValue 1) (ConstantValue 1)
      (FilterPlan [Comparison True False, OtherExpression] (-1) 100 [OtherPlan 0 []] # []))" by simp
  have "propagate_limit demo_plan = LimitPlan (ConstantValue 1) (ConstantValue 1)
      [FilterPlan [Comparison True False, OtherExpression] 1 1 [OtherPlan 0 []]]"
    by (simp add: demo_plan_def propagate_limit_plans set_limit_def)
  then show ?thesis
    using propagate_limit_correct [OF can evaluates_even, of "[[3, 4], [6]]" "\<lparr>executor = 0, tuples_processed = 0\<rparr>"] by simp
qed

text \<open>An OFFSET does not stop the rule, although the filter then hands on too few rows: for
  LIMIT 1 OFFSET 1 the query has a row without the rule and none with it.\<close>
lemma offset_loses_rows:
  "propagate_limit demo_plan = LimitPlan (ConstantValue 1) (ConstantValue 1)
     [FilterPlan [Comparison True False, OtherExpression] 1 1 [OtherPlan 0 []]] \<and>
   map_option (\<lambda>rows. take 1 (drop 1 rows))
     (run_filter even_selector (-1) False \<lparr>executor = 0, tuples_processed = 0\<rparr> [[4, 3, 5], [6, 7]]) = Some [6] \<and>
   map_option (\<lambda>rows. take 1 (drop 1 rows))
     (run_filter even_selector 1 False \<lparr>executor = 0, tuples_processed = 0\<rparr> [[4, 3, 5], [6, 7]]) = Some []"
proof -
  have "even_selector 0 [4, 3, 5] (Suc (Suc 0)) = ([0], 2)" by code_simp
  then have loop: "limit_loop even_selector [4, 3, 5] 1 2 0 \<lparr>executor = 0, tuples_processed = 0\<rparr> []
      = Some ([4], \<lparr>executor = 2, tuples_processed = 0\<rparr>)"
    by (subst limit_loop.simps, subst limit_loop.simps) (simp add: append_selected_def Let_def)
  show ?thesis
    using loop run_filter_unlimited [OF evaluates_even, of False "\<lparr>executor = 0, tuples_processed = 0\<rparr>" "[[4, 3, 5], [6, 7]]"]
    by (simp add: demo_plan_def propagate_limit_plans set_limit_def filter_execute_def)
qed

end
