(* ===== verification/Selector.thy ===== *)
theory Selector
  imports Calls
begin

section \<open>Choosing a model\<close>

text \<open>
  \<open>third_party/predictors/model_selection/optimal_selector.hpp\<close> and
  \<open>src/include/duckdb/planner/model_selection.hpp\<close>: the metrics of the known models, the scoring
  under a policy, and the choice of a catalog entry for a prediction. Double arithmetic is the
  record \<open>dops\<close>, a parameter; \<open>dlit m e\<close> is the literal \<open>m * 10 ^ e\<close>. The iteration order of the
  \<open>unordered_map\<close> is not specified, so the metrics are looked up in a list in some order.
\<close>

subsection \<open>Metrics\<close>

record 'd dops =
  dadd :: "'d \<Rightarrow> 'd \<Rightarrow> 'd"
  dsub :: "'d \<Rightarrow> 'd \<Rightarrow> 'd"
  dmul :: "'d \<Rightarrow> 'd \<Rightarrow> 'd"
  ddiv :: "'d \<Rightarrow> 'd \<Rightarrow> 'd"
  dlt :: "'d \<Rightarrow> 'd \<Rightarrow> bool"
  deq :: "'d \<Rightarrow> 'd \<Rightarrow> bool"
  dinf :: 'd
  dminus_inf :: 'd
  dlit :: "int \<Rightarrow> int \<Rightarrow> 'd"

record 'd metrics =
  quality :: 'd
  cost :: 'd
  secs :: 'd

definition metrics_db :: "(string \<times> (int \<times> int) \<times> (int \<times> int) \<times> (int \<times> int)) list" where
  "metrics_db = [
     (''gpt-5-2025-08-07'', (8700, - 2), (100, - 7), (600, - 5)),
     (''gpt-5'', (8700, - 2), (100, - 7), (600, - 5)),
     (''gpt-5.2-2025-12-11'', (8623, - 2), (140, - 7), (1471, - 5)),
     (''gpt-5-mini-2025-08-07'', (8250, - 2), (200, - 8), (1350, - 5)),
     (''gpt-5-mini'', (8250, - 2), (200, - 8), (1350, - 5)),
     (''o4-mini-2025-04-16'', (8060, - 2), (440, - 8), (920, - 5)),
     (''o4-mini'', (8060, - 2), (440, - 8), (920, - 5)),
     (''gpt-4.1-2025-04-14'', (8050, - 2), (800, - 8), (760, - 5)),
     (''gpt-4.1'', (8050, - 2), (800, - 8), (760, - 5)),
     (''gpt-5-nano-2025-08-07'', (7790, - 2), (400, - 9), (550, - 5)),
     (''gpt-5-nano'', (7790, - 2), (400, - 9), (550, - 5)),
     (''gpt-4.1-mini-2025-04-14'', (7720, - 2), (160, - 8), (1610, - 5)),
     (''gpt-4.1-mini'', (7720, - 2), (160, - 8), (1610, - 5)),
     (''gpt-4o-2024-08-06'', (7410, - 2), (100, - 7), (800, - 5)),
     (''gpt-4o'', (7410, - 2), (100, - 7), (800, - 5)),
     (''gpt-4o-mini-2024-07-18'', (6270, - 2), (600, - 9), (1590, - 5)),
     (''gpt-4o-mini'', (6270, - 2), (600, - 9), (1590, - 5)),
     (''gpt-4.1-nano-2025-04-14'', (6230, - 2), (400, - 9), (600, - 5)),
     (''gpt-4.1-nano'', (6230, - 2), (400, - 9), (600, - 5)),
     (''claude-sonnet-4-5-20250929'', (8736, - 2), (150, - 7), (1272, - 5)),
     (''claude-opus-4-5-20251101'', (8730, - 2), (250, - 7), (1642, - 5)),
     (''claude-sonnet-4-20250514'', (8387, - 2), (150, - 7), (1403, - 5)),
     (''claude-3-7-sonnet-20250219'', (8070, - 2), (150, - 7), (1560, - 5)),
     (''claude-haiku-4-5-20251001'', (7872, - 2), (125, - 8), (845, - 5)),
     (''claude-3-5-haiku-20241022'', (6410, - 2), (400, - 8), (1890, - 5)),
     (''gemini-3-pro-image-preview'', (9010, - 2), (120, - 7), (758, - 5)),
     (''gemini-3-pro-preview'', (9010, - 2), (120, - 7), (758, - 5)),
     (''gemini-3-flash-preview'', (8763, - 2), (300, - 8), (457, - 5)),
     (''gemini-2.5-pro'', (8410, - 2), (100, - 7), (720, - 5)),
     (''gemini-2.5-flash'', (8075, - 2), (250, - 8), (440, - 5)),
     (''gemini-2.5-flash-lite'', (7910, - 2), (400, - 9), (340, - 5)),
     (''gemini-2.0-flash'', (7740, - 2), (600, - 9), (540, - 5)),
     (''meta-llama/Llama-3.3-70B-Instruct-Turbo'', (6990, - 2), (880, - 9), (1220, - 5)),
     (''Llama-3.3-70B-Instruct-Turbo'', (6990, - 2), (880, - 9), (1220, - 5)),
     (''meta-llama/Llama-3.2-90B-Vision-Instruct-Turbo'', (6500, - 2), (120, - 8), (3030, - 5)),
     (''meta-llama/Meta-Llama-3.1-8B-Instruct-Turbo'', (4425, - 2), (180, - 9), (500, - 5)),
     (''Meta-Llama-3.1-8B-Instruct-Turbo'', (4425, - 2), (180, - 9), (500, - 5)),
     (''meta-llama/Llama-3.2-3B-Instruct-Turbo'', (3650, - 2), (600, - 10), (790, - 5)),
     (''Llama-3.2-3B-Instruct-Turbo'', (3650, - 2), (600, - 10), (790, - 5)),
     (''deepseek-ai/DeepSeek-R1-0528-Qwen3-8B'', (8500, - 2), (900, - 10), (2000, - 5)),
     (''deepseek-ai/DeepSeek-V3'', (7380, - 2), (125, - 8), (1140, - 5)),
     (''DeepSeek-V3'', (7380, - 2), (125, - 8), (1140, - 5)),
     (''deepseek-ai/DeepSeek-R1-Distill-Qwen-1.5B'', (3990, - 2), (180, - 9), (500, - 5)),
     (''azure/o4-mini-2025-04-16'', (8060, - 2), (440, - 8), (920, - 5)),
     (''azure/gpt-4.1-2025-04-14'', (8050, - 2), (800, - 8), (760, - 5)),
     (''azure/gpt-4.1-mini-2025-04-14'', (7720, - 2), (160, - 8), (1610, - 5)),
     (''azure/gpt-4o-2024-08-06'', (7410, - 2), (100, - 7), (800, - 5)),
     (''azure/gpt-4o-mini-2024-07-18'', (6270, - 2), (600, - 9), (1590, - 5)),
     (''azure/gpt-4.1-nano-2025-04-14'', (6230, - 2), (400, - 9), (600, - 5))
   ]"

definition to_metrics :: "'d dops \<Rightarrow> (int \<times> int) \<times> (int \<times> int) \<times> (int \<times> int) \<Rightarrow> 'd metrics" where
  "to_metrics d = (\<lambda>((q, qe), (c, ce), (t, te)).
     \<lparr>quality = dlit d q qe, cost = dlit d c ce, secs = dlit d t te\<rparr>)"

definition suffix_key :: "string \<Rightarrow> string \<Rightarrow> bool" where
  "suffix_key path key \<longleftrightarrow> length path + 1 < length key \<and>
     key ! (length key - length path - 1) = CHR ''/'' \<and> drop (length key - length path) key = path"

text \<open>\<open>db\<close> is the map in the order it is visited.\<close>

definition lookup_metrics ::
    "'d dops \<Rightarrow> (string \<times> (int \<times> int) \<times> (int \<times> int) \<times> (int \<times> int)) list \<Rightarrow> string \<Rightarrow> 'd metrics" where
  "lookup_metrics d db path =
     (case map_of db path of
        Some m \<Rightarrow> to_metrics d m
      | None \<Rightarrow> (case find (\<lambda>(key, _). suffix_key path key) db of
          Some (_, m) \<Rightarrow> to_metrics d m
        | None \<Rightarrow> (case find (\<lambda>(key, _). contains_text path key) db of
            Some (_, m) \<Rightarrow> to_metrics d m
          | None \<Rightarrow> to_metrics d ((500, - 1), (10, - 6), (1, - 2)))))"

subsection \<open>Selection\<close>

record 'd policy =
  quality_weight :: 'd
  cost_weight :: 'd
  time_weight :: 'd
  min_quality :: 'd
  max_cost :: 'd
  max_time :: 'd

definition satisfies :: "'d dops \<Rightarrow> 'd policy \<Rightarrow> 'd metrics \<Rightarrow> bool" where
  "satisfies d pol m \<longleftrightarrow>
     \<not> (dlt d (dlit d 0 0) (min_quality pol) \<and> dlt d (quality m) (min_quality pol)) \<and>
     \<not> (dlt d (dlit d 0 0) (max_cost pol) \<and> dlt d (max_cost pol) (cost m)) \<and>
     \<not> (dlt d (dlit d 0 0) (max_time pol) \<and> dlt d (max_time pol) (secs m))"

text \<open>\<open>std::max_element\<close> and \<open>std::min_element\<close>: the first of the extreme positions.\<close>

definition first_best :: "('x \<Rightarrow> 'x \<Rightarrow> bool) \<Rightarrow> 'x list \<Rightarrow> nat" where
  "first_best better xs = fold (\<lambda>i best. if better (xs ! i) (xs ! best) then i else best) [1..<length xs] 0"

definition dge :: "'d dops \<Rightarrow> 'd \<Rightarrow> 'd \<Rightarrow> bool" where
  "dge d a b \<longleftrightarrow> dlt d b a \<or> deq d a b"

definition fallback_index :: "'d dops \<Rightarrow> 'd policy \<Rightarrow> 'd metrics list \<Rightarrow> nat" where
  "fallback_index d pol ms =
     (if dge d (quality_weight pol) (cost_weight pol) \<and> dge d (quality_weight pol) (time_weight pol)
      then first_best (\<lambda>a b. dlt d (quality b) (quality a)) ms
      else if dge d (cost_weight pol) (time_weight pol) then first_best (\<lambda>a b. dlt d (cost a) (cost b)) ms
      else first_best (\<lambda>a b. dlt d (secs a) (secs b)) ms)"

definition std_min :: "'d dops \<Rightarrow> 'd \<Rightarrow> 'd \<Rightarrow> 'd" where
  "std_min d a b = (if dlt d b a then b else a)"

definition std_max :: "'d dops \<Rightarrow> 'd \<Rightarrow> 'd \<Rightarrow> 'd" where
  "std_max d a b = (if dlt d a b then b else a)"

definition bounds_of :: "'d dops \<Rightarrow> 'd list \<Rightarrow> 'd \<times> 'd" where
  "bounds_of d xs = (fold (\<lambda>x m. std_min d m x) xs (dinf d), fold (\<lambda>x m. std_max d m x) xs (dminus_inf d))"

definition normalize :: "'d dops \<Rightarrow> 'd \<times> 'd \<Rightarrow> bool \<Rightarrow> 'd \<Rightarrow> 'd" where
  "normalize d lohi invert val =
     (if deq d (snd lohi) (fst lohi) then dlit d 1 0
      else let n = ddiv d (dsub d val (fst lohi)) (dsub d (snd lohi) (fst lohi))
        in if invert then dsub d (dlit d 1 0) n else n)"

definition weight_sum :: "'d dops \<Rightarrow> 'd policy \<Rightarrow> 'd" where
  "weight_sum d pol =
     (let w = dadd d (dadd d (quality_weight pol) (cost_weight pol)) (time_weight pol)
      in if dge d (dlit d 0 0) w then dlit d 1 0 else w)"

definition score :: "'d dops \<Rightarrow> 'd policy \<Rightarrow> 'd metrics list \<Rightarrow> 'd metrics \<Rightarrow> 'd" where
  "score d pol cands m =
     (let w = weight_sum d pol in
      dadd d (dadd d
        (dmul d (ddiv d (quality_weight pol) w) (normalize d (bounds_of d (map quality cands)) False (quality m)))
        (dmul d (ddiv d (cost_weight pol) w) (normalize d (bounds_of d (map cost cands)) True (cost m))))
        (dmul d (ddiv d (time_weight pol) w) (normalize d (bounds_of d (map secs cands)) True (secs m))))"

definition candidates :: "'d dops \<Rightarrow> 'd policy \<Rightarrow> 'd metrics list \<Rightarrow> (nat \<times> 'd metrics) list" where
  "candidates d pol ms = filter (\<lambda>(_, m). satisfies d pol m) (enumerate 0 ms)"

definition best_candidate :: "'d dops \<Rightarrow> 'd policy \<Rightarrow> (nat \<times> 'd metrics) list \<Rightarrow> nat" where
  "best_candidate d pol cands = fst (fold (\<lambda>(i, m) (best, best_score).
       let s = score d pol (map snd cands) m in if dlt d best_score s then (i, s) else (best, best_score))
     cands (fst (hd cands), dlit d (- 1) 0))"

definition select_metrics :: "'d dops \<Rightarrow> 'd policy \<Rightarrow> 'd metrics list \<Rightarrow> nat" where
  "select_metrics d pol ms =
     (if ms = [] then 0
      else case candidates d pol ms of
        [] \<Rightarrow> fallback_index d pol ms
      | [c] \<Rightarrow> fst c
      | cands \<Rightarrow> best_candidate d pol cands)"

definition select_optimal_model ::
    "'d dops \<Rightarrow> (string \<times> (int \<times> int) \<times> (int \<times> int) \<times> (int \<times> int)) list \<Rightarrow> 'd policy \<Rightarrow> string list \<Rightarrow> nat" where
  "select_optimal_model d db pol paths = select_metrics d pol (map (lookup_metrics d db) paths)"

subsection \<open>The catalog\<close>

record model_entry =
  entry_name :: string
  entry_path :: string

datatype 'd strategy = FirstModel | RandomModel nat | OptimalModel "'d policy"

text \<open>\<open>RandomModel r\<close> carries the number that the distribution over \<open>0 .. n - 1\<close> yields.\<close>

definition strategy_index ::
    "'d dops \<Rightarrow> (string \<times> (int \<times> int) \<times> (int \<times> int) \<times> (int \<times> int)) list \<Rightarrow> 'd strategy \<Rightarrow> 'z model_entry_scheme list \<Rightarrow> nat" where
  "strategy_index d db strat es = (case strat of
     FirstModel \<Rightarrow> 0
   | RandomModel r \<Rightarrow> r
   | OptimalModel pol \<Rightarrow> select_optimal_model d db pol (map entry_path es))"

definition last_named :: "string \<Rightarrow> 'z model_entry_scheme list \<Rightarrow> nat option" where
  "last_named name es = fold (\<lambda>(i, e) r. if entry_name e = name then Some i else r) (enumerate 0 es) None"

definition select_model ::
    "'d dops \<Rightarrow> (string \<times> (int \<times> int) \<times> (int \<times> int) \<times> (int \<times> int)) list \<Rightarrow> 'd strategy \<Rightarrow> 'z model_entry_scheme list list \<Rightarrow> string
       \<Rightarrow> 'z model_entry_scheme res" where
  "select_model d db strat schemas name =
     (let es = concat schemas in
      if name \<noteq> [] then
        (case last_named name es of
           None \<Rightarrow> Inl (BinderException (''Model with name '' @ name @ '' does not exist in calatog!''))
         | Some i \<Rightarrow> Inr (es ! i))
      else if es = [] then Inl (BinderException ''No models available in catalog for model selection!'')
      else let i = strategy_index d db strat es in
        if i < length es then Inr (es ! i) else Inl (Undefined ''entries[model_idx] past the end''))"

subsection \<open>The index is in range and meets the constraints\<close>

lemma first_best_bound: "xs \<noteq> [] \<Longrightarrow> first_best better xs < length xs"
proof -
  assume "xs \<noteq> []"
  have "fold (\<lambda>i best. if better (xs ! i) (xs ! best) then i else best) is b \<in> insert b (set is)" for "is" b
    by (induction "is" arbitrary: b) auto
  from this [of "[1..<length xs]" 0] \<open>xs \<noteq> []\<close> show ?thesis by (auto simp: first_best_def)
qed

lemma best_candidate_in: "cands \<noteq> [] \<Longrightarrow> best_candidate d pol cands \<in> fst ` set cands"
proof -
  assume ne: "cands \<noteq> []"
  have "fst (fold (\<lambda>(i, m) (best, best_score). if dlt d best_score (f m) then (i, f m) else (best, best_score)) xs (b, s))
      \<in> insert b (fst ` set xs)" for f :: "'a metrics \<Rightarrow> 'a" and xs :: "(nat \<times> 'a metrics) list" and b s
  proof (induction xs arbitrary: b s)
    case (Cons x xs)
    obtain i m where x: "x = (i, m)" by (cases x)
    show ?case using Cons [of i "f m"] Cons [of b s] by (cases "dlt d s (f m)") (auto simp: x)
  qed simp
  from this [of "score d pol (map snd cands)" cands "fst (hd cands)" "dlit d (- 1) 0"] ne
  show ?thesis unfolding best_candidate_def Let_def by (cases cands) auto
qed

lemma candidates_nth: "(i, m) \<in> set (candidates d pol ms) \<longleftrightarrow> i < length ms \<and> m = ms ! i \<and> satisfies d pol m"
  by (auto simp: candidates_def in_set_enumerate_eq)

lemma candidates_empty: "candidates d pol ms = [] \<longleftrightarrow> (\<forall>m \<in> set ms. \<not> satisfies d pol m)"
proof
  assume "candidates d pol ms = []"
  then have "\<And>i m. (i, m) \<notin> set (candidates d pol ms)" by simp
  then show "\<forall>m \<in> set ms. \<not> satisfies d pol m"
    unfolding candidates_nth by (metis in_set_conv_nth)
next
  assume "\<forall>m \<in> set ms. \<not> satisfies d pol m"
  then have "(i, m) \<notin> set (candidates d pol ms)" for i m unfolding candidates_nth by auto
  then show "candidates d pol ms = []" by (metis list.set_intros(1) neq_Nil_conv surj_pair)
qed

lemma select_metrics_cases:
  assumes "ms \<noteq> []"
  shows "if \<exists>m \<in> set ms. satisfies d pol m
    then (select_metrics d pol ms, ms ! select_metrics d pol ms) \<in> set (candidates d pol ms)
    else select_metrics d pol ms = fallback_index d pol ms"
proof (cases "candidates d pol ms")
  case Nil
  then have "\<not> (\<exists>m \<in> set ms. satisfies d pol m)" by (simp add: candidates_empty)
  then show ?thesis using Nil assms by (simp add: select_metrics_def)
next
  case (Cons c cs)
  then have ex: "\<exists>m \<in> set ms. satisfies d pol m" by (metis candidates_empty list.distinct(1))
  have "select_metrics d pol ms \<in> fst ` set (candidates d pol ms)"
    using Cons assms best_candidate_in [of "candidates d pol ms" d pol]
    by (cases cs) (auto simp: select_metrics_def)
  then obtain m where "(select_metrics d pol ms, m) \<in> set (candidates d pol ms)" by force
  moreover from this have "m = ms ! select_metrics d pol ms" by (simp add: candidates_nth)
  ultimately show ?thesis using ex by simp
qed

lemma select_optimal_valid:
  assumes "paths \<noteq> []"
  shows "select_optimal_model d db pol paths < length paths"
    and "\<exists>p \<in> set paths. satisfies d pol (lookup_metrics d db p) \<Longrightarrow>
      satisfies d pol (lookup_metrics d db (paths ! select_optimal_model d db pol paths))"
proof -
  let ?ms = "map (lookup_metrics d db) paths"
  have ne: "?ms \<noteq> []" using assms by simp
  note c = select_metrics_cases [OF ne, of d pol]
  have "fallback_index d pol ?ms < length ?ms"
    using first_best_bound [OF ne] by (simp add: fallback_index_def)
  with c show lt: "select_optimal_model d db pol paths < length paths"
    by (auto simp: select_optimal_model_def candidates_nth split: if_splits)
  show "satisfies d pol (lookup_metrics d db (paths ! select_optimal_model d db pol paths))"
    if "\<exists>p \<in> set paths. satisfies d pol (lookup_metrics d db p)"
    using c that lt by (auto simp: select_optimal_model_def candidates_nth split: if_splits)
qed

text \<open>The optimal selection returns the index of a listed model; if any model meets the
  constraints of the policy, the selected one does.\<close>
lemma select_optimal_model_valid:
  assumes "paths \<noteq> []"
  shows "select_optimal_model d db pol paths < length paths \<and>
    ((\<exists>p \<in> set paths. satisfies d pol (lookup_metrics d db p)) \<longrightarrow>
      satisfies d pol (lookup_metrics d db (paths ! select_optimal_model d db pol paths)))"
  using select_optimal_valid [OF assms] by blast


text \<open>Exact arithmetic for the witnesses: fractions as pairs, compared by cross products.\<close>

definition frac_lit :: "int \<Rightarrow> int \<Rightarrow> int \<times> int" where
  "frac_lit m e = (if 0 \<le> e then (m * 10 ^ nat e, 1) else (m, 10 ^ nat (- e)))"

definition frac_ops :: "(int \<times> int) dops" where
  "frac_ops = \<lparr>dadd = (\<lambda>(a, b) (c, d). (a * d + c * b, b * d)), dsub = (\<lambda>(a, b) (c, d). (a * d - c * b, b * d)),
     dmul = (\<lambda>(a, b) (c, d). (a * c, b * d)),
     ddiv = (\<lambda>(a, b) (c, d). if c < 0 then (- a * d, - b * c) else (a * d, b * c)),
     dlt = (\<lambda>(a, b) (c, d). a * d < c * b), deq = (\<lambda>(a, b) (c, d). a * d = c * b),
     dinf = (10 ^ 9, 1), dminus_inf = (- (10 ^ 9), 1), dlit = frac_lit\<rparr>"

definition demo_policy :: "(int \<times> int) policy" where
  "demo_policy = \<lparr>quality_weight = (1, 2), cost_weight = (1, 2), time_weight = (0, 1), min_quality = (75, 1),
     max_cost = (0, 1), max_time = (0, 1)\<rparr>"

definition demo_paths :: "string list" where
  "demo_paths = [''gpt-4o'', ''gpt-5'', ''gpt-5-nano'']"

lemma select_optimal_model_valid_witness:
  "select_optimal_model frac_ops metrics_db demo_policy demo_paths < 3 \<and>
   satisfies frac_ops demo_policy (lookup_metrics frac_ops metrics_db
     (demo_paths ! select_optimal_model frac_ops metrics_db demo_policy demo_paths))"
proof -
  have ne: "demo_paths \<noteq> []" "length demo_paths = 3" by (simp_all add: demo_paths_def)
  have "\<exists>p \<in> set demo_paths. satisfies frac_ops demo_policy (lookup_metrics frac_ops metrics_db p)" by code_simp
  then show ?thesis using select_optimal_model_valid [OF ne(1), of frac_ops metrics_db demo_policy] ne(2) by simp
qed

text \<open>Comparison of doubles without NaN, on the values that are compared.\<close>

definition orders :: "'d dops \<Rightarrow> 'd set \<Rightarrow> bool" where
  "orders d S \<longleftrightarrow> (\<forall>x \<in> S. \<not> dlt d x x) \<and> (\<forall>x \<in> S. \<forall>y \<in> S. \<forall>z \<in> S. dlt d x y \<longrightarrow> dlt d y z \<longrightarrow> dlt d x z) \<and>
     (\<forall>x \<in> S. \<forall>y \<in> S. \<forall>z \<in> S. dlt d x z \<longrightarrow> dlt d x y \<or> dlt d y z)"

lemma fold_argmax:
  fixes f :: "'m \<Rightarrow> 'd" and d :: "'d dops" and x :: "nat \<times> 'm"
  assumes ord: "orders d S" and S: "\<And>i m. (i, m) \<in> set (x # xs) \<Longrightarrow> f m \<in> S"
    and low: "dlt d low (f (snd x))" and sorted: "sorted_wrt (\<lambda>p q. fst p < fst q) (x # xs)"
  shows "\<exists>(b, m) \<in> set (x # xs).
    fold (\<lambda>(i, m) (best, best_score). if dlt d best_score (f m) then (i, f m) else (best, best_score)) (x # xs) (b0, low) = (b, f m) \<and>
    (\<forall>(i, m') \<in> set (x # xs). \<not> dlt d (f m) (f m') \<and> (i < b \<longrightarrow> dlt d (f m') (f m)))"
  using S sorted
proof (induction xs rule: rev_induct)
  case Nil
  obtain i m where x: "x = (i, m)" by (cases x)
  then have "f m \<in> S" using Nil.prems(1) [of i m] by simp
  then have "\<not> dlt d (f m) (f m)" using ord unfolding orders_def by blast
  then show ?case using low x by simp
next
  case (snoc y ys)
  let ?step = "\<lambda>(i, m) (best, best_score). if dlt d best_score (f m) then (i, f m) else (best, best_score)"
  obtain i n where y: "y = (i, n)" by (cases y)
  have "sorted_wrt (\<lambda>p q. fst p < fst q) (x # ys)"
    using snoc.prems(2) by (simp add: sorted_wrt_append)
  moreover have "\<And>j k. (j, k) \<in> set (x # ys) \<Longrightarrow> f k \<in> S" using snoc.prems(1) by force
  ultimately obtain b m where m: "(b, m) \<in> set (x # ys)" "fold ?step (x # ys) (b0, low) = (b, f m)"
    and best: "\<And>j k. (j, k) \<in> set (x # ys) \<Longrightarrow> \<not> dlt d (f m) (f k) \<and> (j < b \<longrightarrow> dlt d (f k) (f m))"
    using snoc.IH by blast
  have last: "j < i" if "(j, k) \<in> set (x # ys)" for j k
  proof -
    have "sorted_wrt (\<lambda>p q. fst p < fst q) ((x # ys) @ [y])" using snoc.prems(2) by simp
    then show ?thesis using that y unfolding sorted_wrt_append by fastforce
  qed
  have S: "f n \<in> S" "\<And>j k. (j, k) \<in> set (x # ys) \<Longrightarrow> f k \<in> S" using snoc.prems(1) y by force+
  have fold_y: "fold ?step (x # ys @ [y]) (b0, low) = ?step y (b, f m)" using m(2) by simp
  have mS: "f m \<in> S" using S(2) [OF m(1)] .
  show ?case
  proof (cases "dlt d (f m) (f n)")
    case True
    have 1: "dlt d (f k) (f n)" if "(j, k) \<in> set (x # ys)" for j k
      using ord True best [OF that] S(1) S(2) [OF that] mS unfolding orders_def by blast
    have 2: "\<not> dlt d (f n) (f k)" if "(j, k) \<in> set (x # ys)" for j k
      using ord 1 [OF that] S(1) S(2) [OF that] unfolding orders_def by blast
    have 3: "\<not> dlt d (f n) (f n)" using ord S(1) unfolding orders_def by blast
    have "\<not> dlt d (f n) (f k) \<and> (j < i \<longrightarrow> dlt d (f k) (f n))" if "(j, k) \<in> set (x # ys @ [y])" for j k
      using that 1 2 3 y by auto
    moreover have "(i, n) \<in> set (x # ys @ [y])" using y by simp
    ultimately show ?thesis unfolding fold_y using True y by (intro bexI [of _ "(i, n)"]) auto
  next
    case False
    have "\<not> dlt d (f m) (f k) \<and> (j < b \<longrightarrow> dlt d (f k) (f m))" if "(j, k) \<in> set (x # ys @ [y])" for j k
      using that best False last [OF m(1)] y by auto
    moreover have "(b, m) \<in> set (x # ys @ [y])" using m(1) by auto
    ultimately show ?thesis unfolding fold_y using False y by (intro bexI [of _ "(b, m)"]) auto
  qed
qed

lemma candidates_sorted: "sorted_wrt (\<lambda>p q. fst p < fst q) (candidates d pol ms)"
proof -
  have "sorted_wrt (\<lambda>p q. fst p < fst q) (enumerate n ms)" for n
    by (induction ms arbitrary: n) (auto simp: in_set_enumerate_eq)
  then show ?thesis unfolding candidates_def by (simp add: sorted_wrt_filter)
qed

text \<open>The score of the selected model is not beaten by any other candidate's, for several
  candidates whose scores are comparable, the first one's above -1 (the start value of the search);
  every candidate listed before the selected one scores less, so the first maximum wins.\<close>
lemma select_metrics_maximal:
  assumes cands: "candidates d pol ms = c1 # c2 # cs"
    and ord: "orders d (score d pol (map snd (c1 # c2 # cs)) ` snd ` set (c1 # c2 # cs))"
    and above: "dlt d (dlit d (- 1) 0) (score d pol (map snd (c1 # c2 # cs)) (snd c1))"
  shows "\<exists>m. (select_metrics d pol ms, m) \<in> set (c1 # c2 # cs) \<and>
    (\<forall>(i, m') \<in> set (c1 # c2 # cs). \<not> dlt d (score d pol (map snd (c1 # c2 # cs)) m) (score d pol (map snd (c1 # c2 # cs)) m') \<and>
      (i < select_metrics d pol ms \<longrightarrow>
        dlt d (score d pol (map snd (c1 # c2 # cs)) m') (score d pol (map snd (c1 # c2 # cs)) m)))"
proof -
  let ?cs = "c1 # c2 # cs"
  let ?f = "score d pol (map snd ?cs)"
  have "select_metrics d pol ms = best_candidate d pol ?cs"
    using cands by (auto simp: select_metrics_def candidates_def)
  moreover have mem: "?f m \<in> ?f ` snd ` set ?cs" if "(i, m) \<in> set ?cs" for i m
    using that by (metis imageI snd_conv)
  note fold_argmax [where f = ?f and S = "?f ` snd ` set ?cs" and ?b0.0 = "fst c1", OF ord mem above
    candidates_sorted [of d pol ms, unfolded cands]]
  ultimately show ?thesis unfolding best_candidate_def Let_def list.sel(1) by fastforce
qed

definition demo_metrics :: "(int \<times> int) metrics list" where
  "demo_metrics = [\<lparr>quality = (74, 1), cost = (3, 1), secs = (1, 1)\<rparr>, \<lparr>quality = (80, 1), cost = (2, 1), secs = (1, 1)\<rparr>,
     \<lparr>quality = (90, 1), cost = (1, 1), secs = (2, 1)\<rparr>]"

lemma select_metrics_maximal_witness:
  "\<exists>m. (select_metrics frac_ops demo_policy demo_metrics, m) \<in> set [(1, demo_metrics ! 1), (2, demo_metrics ! 2)] \<and>
    (\<forall>(i, m') \<in> set [(1, demo_metrics ! 1), (2, demo_metrics ! 2)].
      \<not> dlt frac_ops (score frac_ops demo_policy (map snd [(1 :: nat, demo_metrics ! 1), (2, demo_metrics ! 2)]) m)
          (score frac_ops demo_policy (map snd [(1 :: nat, demo_metrics ! 1), (2, demo_metrics ! 2)]) m') \<and>
      (i < select_metrics frac_ops demo_policy demo_metrics \<longrightarrow>
        dlt frac_ops (score frac_ops demo_policy (map snd [(1 :: nat, demo_metrics ! 1), (2, demo_metrics ! 2)]) m')
          (score frac_ops demo_policy (map snd [(1 :: nat, demo_metrics ! 1), (2, demo_metrics ! 2)]) m)))"
proof (rule select_metrics_maximal)
  show "candidates frac_ops demo_policy demo_metrics = [(1, demo_metrics ! 1), (2, demo_metrics ! 2)]" by code_simp
  show "orders frac_ops (score frac_ops demo_policy (map snd [(1 :: nat, demo_metrics ! 1), (2, demo_metrics ! 2)]) `
      snd ` set [(1 :: nat, demo_metrics ! 1), (2, demo_metrics ! 2)])" by code_simp
  show "dlt frac_ops (dlit frac_ops (- 1) 0) (score frac_ops demo_policy (map snd [(1 :: nat, demo_metrics ! 1), (2, demo_metrics ! 2)])
      (snd (1 :: nat, demo_metrics ! 1)))" by code_simp
qed

subsection \<open>Selecting from the catalog\<close>

lemma last_named_snoc [simp]:
  "last_named n (es @ [e]) = (if entry_name e = n then Some (length es) else last_named n es)"
  by (simp add: last_named_def enumerate_append_eq)

lemma last_named_Nil [simp]: "last_named n [] = None"
  by (simp add: last_named_def)

lemma last_named_None: "last_named n es = None \<longleftrightarrow> (\<forall>e \<in> set es. entry_name e \<noteq> n)"
  by (induction es rule: rev_induct) auto

lemma last_named_Some:
  "last_named n es = Some i \<Longrightarrow> i < length es \<and> entry_name (es ! i) = n \<and> (\<forall>e \<in> set (drop (Suc i) es). entry_name e \<noteq> n)"
proof (induction es rule: rev_induct)
  case (snoc e es)
  show ?case
  proof (cases "entry_name e = n")
    case False
    then have "last_named n es = Some i" using snoc.prems by simp
    with snoc.IH False show ?thesis by (auto simp: nth_append)
  qed (use snoc.prems in \<open>auto\<close>)
qed simp

lemma strategy_index_bound:
  assumes "es \<noteq> []" "\<And>r. strat = RandomModel r \<Longrightarrow> r < length es"
  shows "strategy_index d db strat es < length es"
  using assms select_optimal_valid(1) [of "map entry_path es"]
  by (auto simp: strategy_index_def split: strategy.splits)

text \<open>C21: a prediction that names a model gets the last catalog entry of that name over all
  schemas and a binder error if there is none; without a name a strategy that stays inside the list
  yields a catalog entry, and an empty catalog is a binder error.\<close>
theorem select_model_correct:
  assumes "\<forall>r. strat = RandomModel r \<longrightarrow> r < length (concat schemas)"
  shows "case select_model d db strat schemas name of
      Inr e \<Rightarrow> \<exists>i < length (concat schemas). concat schemas ! i = e \<and>
        (if name = [] then i = strategy_index d db strat (concat schemas)
         else entry_name e = name \<and> (\<forall>e' \<in> set (drop (Suc i) (concat schemas)). entry_name e' \<noteq> name))
    | Inl err \<Rightarrow> (\<exists>msg. err = BinderException msg) \<and>
        (if name = [] then concat schemas = [] else \<forall>e \<in> set (concat schemas). entry_name e \<noteq> name)"
proof (cases "name = []")
  case True
  then show ?thesis using strategy_index_bound [of "concat schemas" strat d db] assms
    by (auto simp: select_model_def Let_def)
next
  case False
  show ?thesis
  proof (cases "last_named name (concat schemas)")
    case None
    then have "\<forall>e \<in> set (concat schemas). entry_name e \<noteq> name" by (simp only: last_named_None)
    then show ?thesis using False None by (simp add: select_model_def Let_def)
  next
    case (Some i)
    then show ?thesis using False last_named_Some [OF Some] by (auto simp: select_model_def Let_def)
  qed
qed

theorem select_model_correct_witness:
  "select_model frac_ops metrics_db FirstModel
     [[\<lparr>entry_name = ''a'', entry_path = ''gpt-5''\<rparr>], [\<lparr>entry_name = ''a'', entry_path = ''o4-mini''\<rparr>]] ''a''
     = Inr \<lparr>entry_name = ''a'', entry_path = ''o4-mini''\<rparr> \<and>
   (\<exists>i < 2. [\<lparr>entry_name = ''a'', entry_path = ''gpt-5''\<rparr>, \<lparr>entry_name = ''a'', entry_path = ''o4-mini''\<rparr>] ! i =
       \<lparr>entry_name = ''a'', entry_path = ''o4-mini''\<rparr> \<and>
     (\<forall>e' \<in> set (drop (Suc i) [\<lparr>entry_name = ''a'', entry_path = ''gpt-5''\<rparr>, \<lparr>entry_name = ''a'', entry_path = ''o4-mini''\<rparr>]).
       entry_name e' \<noteq> ''a''))"
proof -
  let ?s = "[[\<lparr>entry_name = ''a'', entry_path = ''gpt-5''\<rparr>], [\<lparr>entry_name = ''a'', entry_path = ''o4-mini''\<rparr>]]"
  have run: "select_model frac_ops metrics_db FirstModel ?s ''a'' = Inr \<lparr>entry_name = ''a'', entry_path = ''o4-mini''\<rparr>"
    by (simp add: select_model_def last_named_def)
  show ?thesis using select_model_correct [where strat = FirstModel and schemas = ?s and d = frac_ops and db = metrics_db and name = "''a''"] unfolding run
    by (auto simp: numeral_2_eq_2)
qed

text \<open>A path that is not a key, such as \<open>gpt-4\<close>, is looked up by substring, and the answer
  depends on the order in which the hash map is visited: two orders of the same map give the
  metrics of different models.\<close>
lemma lookup_depends_on_order:
  assumes "dlit d 8050 (- 2) \<noteq> dlit d 6230 (- 2)"
  shows "\<exists>db1 db2. set db1 = set metrics_db \<and> distinct (map fst db1) \<and> set db2 = set metrics_db \<and> distinct (map fst db2) \<and>
    lookup_metrics d db1 ''gpt-4'' \<noteq> lookup_metrics d db2 ''gpt-4''"
proof -
  have keys: "distinct (map fst metrics_db)" by code_simp
  have no_key: "map_of metrics_db ''gpt-4'' = None" by code_simp
  have no_suffix: "find (\<lambda>(key, _). suffix_key ''gpt-4'' key) metrics_db = None" by code_simp
  have first: "find (\<lambda>(key, _). contains_text ''gpt-4'' key) metrics_db
      = Some (''gpt-4.1-2025-04-14'', (8050, - 2), (800, - 8), (760, - 5))" by code_simp
  have last: "find (\<lambda>(key, _). contains_text ''gpt-4'' key) (rev metrics_db)
      = Some (''azure/gpt-4.1-nano-2025-04-14'', (6230, - 2), (400, - 9), (600, - 5))" by code_simp
  have "map_of (rev metrics_db) ''gpt-4'' = None" by code_simp
  moreover have "find (\<lambda>(key, _). suffix_key ''gpt-4'' key) (rev metrics_db) = None" by code_simp
  ultimately have 2: "lookup_metrics d (rev metrics_db) ''gpt-4'' = to_metrics d ((6230, - 2), (400, - 9), (600, - 5))"
    using last by (simp add: lookup_metrics_def)
  have 1: "lookup_metrics d metrics_db ''gpt-4'' = to_metrics d ((8050, - 2), (800, - 8), (760, - 5))"
    using no_key no_suffix first by (simp add: lookup_metrics_def)
  have "distinct (map fst (rev metrics_db))" using keys by (simp add: rev_map [symmetric])
  moreover have "to_metrics d ((8050, - 2), (800, - 8), (760, - 5)) \<noteq> to_metrics d ((6230, - 2), (400, - 9), (600, - 5))"
    using assms by (simp add: to_metrics_def)
  ultimately show ?thesis using keys 1 2 by (intro exI [of _ metrics_db] exI [of _ "rev metrics_db"]) simp
qed

lemma lookup_depends_on_order_witness:
  "\<exists>db1 db2. set db1 = set metrics_db \<and> distinct (map fst db1) \<and> set db2 = set metrics_db \<and> distinct (map fst db2) \<and>
    lookup_metrics frac_ops db1 ''gpt-4'' \<noteq> lookup_metrics frac_ops db2 ''gpt-4''"
  by (rule lookup_depends_on_order) code_simp

end
