(* ===== verification/Serialization.thy ===== *)
theory Serialization
  imports Prelude "HOL-Library.Word"
begin

unbundle bit_operations_syntax

section \<open>Binary serialization\<close>

text \<open>
  \<open>src/include/duckdb/common/serializer/encoding_util.hpp\<close> (LEB128) and the binary serializer and
  deserializer of \<open>src/common/serializer\<close>. A stream is the list of its bytes; primitives are written
  in the byte order of a little-endian host. The deserializer can look one field id ahead. What a
  writer and a reader of a value promise each other is the locale \<open>codec\<close>.
\<close>

type_synonym byte = "8 word"

subsection \<open>LEB128\<close>

lemma unat_drop_7: "unat (drop_bit 7 (v :: 'a::len word)) = unat v div 128"
  using unat_drop_bit_eq [of 7 v] by (simp only: drop_bit_eq_div) simp

lemma drop_7_less: "drop_bit 7 (v :: 'a::len word) \<noteq> 0 \<Longrightarrow> unat (drop_bit 7 v) < unat v"
proof -
  assume "drop_bit 7 v \<noteq> 0"
  then have "unat v div 128 \<noteq> 0" by (metis unat_drop_7 unat_eq_zero)
  then have "0 < unat v" by (cases "unat v = 0") simp_all
  then show ?thesis unfolding unat_drop_7 by simp
qed

function encode_unsigned :: "'a::len word \<Rightarrow> byte list" where
  "encode_unsigned v =
     (let b = ucast (v AND 0x7F); v' = drop_bit 7 v
      in if v' \<noteq> 0 then (b OR 0x80) # encode_unsigned v' else [b])"
  by pat_completeness auto
termination by (relation "measure unat") (simp_all add: drop_7_less)

declare encode_unsigned.simps [simp del]

text \<open>The decoder reads from a buffer; it stops with an error when the shift exceeds the width.\<close>

fun decode_unsigned :: "nat \<Rightarrow> 'a::len word \<Rightarrow> byte list \<Rightarrow> ('a word \<times> nat) res" where
  "decode_unsigned shift result [] = Inl (Undefined ''read past the buffer'')"
| "decode_unsigned shift result (b # bs) =
     (if LENGTH('a) \<le> shift then Inl (IOException ''Failed to decode LEB128 integer: data may be corrupt'')
      else let result' = result OR push_bit shift (ucast (b AND 0x7F)) in
        if b AND 0x80 \<noteq> 0 then mapR (\<lambda>(v, n). (v, Suc n)) (decode_unsigned (shift + 7) result' bs)
        else Inr (result', 1))"

lemma bit_127 [simp]: "bit (127 :: int) n \<longleftrightarrow> n < 7"
proof -
  have "(127 :: int) = mask 7" by (simp add: mask_eq_exp_minus_1)
  then show ?thesis by (simp only: bit_mask_iff) (simp add: possible_bit_def)
qed

lemma bit_128 [simp]: "bit (128 :: int) n \<longleftrightarrow> n = 7"
proof -
  have "(128 :: int) = 2 ^ 7" by simp
  then show ?thesis by (simp only: bit_exp_iff) (auto simp: possible_bit_def)
qed

lemma byte_and_80: "(b :: byte) AND 0x80 \<noteq> 0 \<longleftrightarrow> bit b 7"
proof
  assume "b AND 0x80 \<noteq> 0"
  then obtain n where "bit (b AND 0x80) n" by (metis bit_eqI bit_0_eq bot_apply bot_bool_def)
  then show "bit b 7" by (auto simp: bit_and_iff)
next
  assume "bit b 7"
  then have "bit (b AND 0x80) 7" by (simp add: bit_and_iff)
  then show "b AND 0x80 \<noteq> 0" by (metis bit_0_eq bot_apply bot_bool_def)
qed

lemma chunk_bit:
  "8 \<le> LENGTH('a) \<Longrightarrow> bit (ucast ((v :: 'a::len word) AND 0x7F) :: byte) n \<longleftrightarrow> n < 7 \<and> bit v n"
  by (auto simp: bit_ucast_iff bit_and_iff dest: bit_imp_le_length)

text \<open>One step of decoding puts back the low bits of the value.\<close>

lemma decode_step:
  assumes "8 \<le> LENGTH('a)" "b = ucast ((v :: 'a::len word) AND 0x7F) \<or> b = ucast (v AND 0x7F) OR 0x80"
  shows "(r OR push_bit s (ucast ((b :: byte) AND 0x7F))) OR push_bit (s + 7) (drop_bit 7 v) = r OR push_bit s v"
proof (rule bit_word_eqI)
  fix n
  assume n: "n < LENGTH('a)"
  have low: "bit (b AND 0x7F) k \<longleftrightarrow> k < 7 \<and> bit v k" for k
    using assms(2) by (elim disjE) (auto simp only: bit_and_iff bit_or_iff chunk_bit [OF assms(1)] bit_numeral_word_iff bit_127 bit_128, simp_all)
  consider "n < s" | "s \<le> n" "n < s + 7" | "s + 7 \<le> n" by linarith
  then show "bit ((r OR push_bit s (ucast (b AND 0x7F))) OR push_bit (s + 7) (drop_bit 7 v)) n = bit (r OR push_bit s v) n"
  proof cases
    case 3
    then have "n - s - 7 + 7 = n - s" by simp
    then show ?thesis using n 3
      by (simp only: bit_or_iff bit_push_bit_iff bit_ucast_iff bit_drop_bit_eq low o_def) (auto simp add: add.commute)
  qed (use n in \<open>simp_all only: bit_or_iff bit_push_bit_iff bit_ucast_iff low possible_bit_word, simp_all add: less_diff_conv2\<close>)
qed

lemma encode_unsigned_continues:
  assumes "8 \<le> LENGTH('a)"
  shows "bit (ucast ((v :: 'a::len word) AND 0x7F) OR 0x80 :: byte) 7" "\<not> bit (ucast (v AND 0x7F) :: byte) 7"
  using assms by (simp_all add: bit_or_iff chunk_bit)

lemma decode_encode_unsigned_at:
  assumes "8 \<le> LENGTH('a)" "shift < LENGTH('a)" "unat (v :: 'a::len word) * 2 ^ shift < 2 ^ LENGTH('a)"
  shows "decode_unsigned shift r (encode_unsigned v @ bs) = Inr (r OR push_bit shift v, length (encode_unsigned v))"
  using assms(2,3)
proof (induction v arbitrary: shift r rule: encode_unsigned.induct)
  case (1 v)
  let ?b = "ucast (v AND 0x7F) :: byte"
  show ?case
  proof (cases "drop_bit 7 v = 0")
    case True
    have "decode_unsigned shift r (?b # bs) = Inr (r OR push_bit shift (ucast (?b AND 0x7F)), 1)"
      using 1(2) encode_unsigned_continues(2) [OF assms(1), of v] by (simp add: byte_and_80)
    moreover have "r OR push_bit shift (ucast (?b AND 0x7F)) = r OR push_bit shift v"
      using decode_step [OF assms(1), of ?b v r shift] True by simp
    ultimately show ?thesis using True by (simp add: encode_unsigned.simps [of v])
  next
    case False
    let ?c = "?b OR 0x80"
    have div: "unat (drop_bit 7 v) \<noteq> 0" using False by (simp add: unat_eq_zero)
    have le: "unat (drop_bit 7 v) * 128 \<le> unat v" unfolding unat_drop_7 by simp
    have bound: "unat (drop_bit 7 v) * 2 ^ (shift + 7) < 2 ^ LENGTH('a)"
    proof -
      have "unat (drop_bit 7 v) * 2 ^ (shift + 7) = unat (drop_bit 7 v) * 128 * 2 ^ shift" by (simp add: power_add)
      also have "\<dots> \<le> unat v * 2 ^ shift" using le by simp
      finally show ?thesis using 1(3) by simp
    qed
    have "1 * 2 ^ (shift + 7) \<le> unat (drop_bit 7 v) * 2 ^ (shift + 7)"
      by (rule mult_le_mono1) (use div in linarith)
    then have "2 ^ (shift + 7) < (2 :: nat) ^ LENGTH('a)" using bound by linarith
    then have sh: "shift + 7 < LENGTH('a)" by (metis power_less_imp_less_exp one_less_numeral_iff semiring_norm(76))
    have "decode_unsigned (shift + 7) (r OR push_bit shift (ucast (?c AND 0x7F))) (encode_unsigned (drop_bit 7 v) @ bs)
        = Inr ((r OR push_bit shift (ucast (?c AND 0x7F))) OR push_bit (shift + 7) (drop_bit 7 v),
            length (encode_unsigned (drop_bit 7 v)))"
      using 1(1) [OF refl refl False] sh bound by blast
    moreover have "encode_unsigned v = ?c # encode_unsigned (drop_bit 7 v)"
      using False by (simp add: encode_unsigned.simps [of v] Let_def)
    ultimately show ?thesis
      using 1(2) encode_unsigned_continues(1) [OF assms(1), of v] decode_step [OF assms(1), of ?c v r shift]
      by (simp only: append_Cons decode_unsigned.simps byte_and_80 Let_def not_le [symmetric] if_True if_False
          mapR_simps list.size) (simp add: not_le)
  qed
qed

lemma length_encode_unsigned: "8 \<le> LENGTH('a) \<Longrightarrow> unat (v :: 'a::len word) < 2 ^ n \<Longrightarrow> 7 * length (encode_unsigned v) \<le> n + 7"
proof (induction v arbitrary: n rule: encode_unsigned.induct)
  case (1 v)
  show ?case
  proof (cases "drop_bit 7 v = 0")
    case False
    then have div: "unat v div 128 \<noteq> 0" by (metis unat_drop_7 unat_eq_zero)
    have n: "7 < n"
    proof (rule ccontr)
      assume "\<not> 7 < n"
      then have "(2 :: nat) ^ n \<le> 2 ^ 7" by (intro power_increasing) simp_all
      then show False using 1(3) div by simp
    qed
    then have "(2 :: nat) ^ n = 2 ^ (n - 7) * 2 ^ 7" by (simp only: power_add [symmetric]) simp
    then have "unat v < 2 ^ (n - 7) * 128" using 1(3) by simp
    then have "unat (drop_bit 7 v) < 2 ^ (n - 7)" unfolding unat_drop_7
      by (rule less_mult_imp_div_less)
    then have "7 * length (encode_unsigned (drop_bit 7 v)) \<le> n - 7 + 7" using 1(1) [OF refl refl False 1(2)] by blast
    moreover have "length (encode_unsigned v) = Suc (length (encode_unsigned (drop_bit 7 v)))"
      using False by (simp add: encode_unsigned.simps [of v] Let_def)
    ultimately show ?thesis using n by simp
  qed (simp add: encode_unsigned.simps [of v])
qed

subsection \<open>Reading and writing values\<close>

text \<open>What a writer and a reader promise each other.\<close>

locale codec =
  fixes wr :: "'a \<Rightarrow> byte list" and rd :: "byte list \<Rightarrow> ('a \<times> byte list) res" and valid :: "'a \<Rightarrow> bool"
  assumes read_write: "valid x \<Longrightarrow> rd (wr x @ s) = Inr (x, s)"
begin

lemma write_injective: "valid x \<Longrightarrow> valid y \<Longrightarrow> wr x = wr y \<Longrightarrow> x = y"
  by (metis Inr_inject prod.inject read_write)

lemma write_prefix_free: "valid x \<Longrightarrow> valid y \<Longrightarrow> wr x @ s = wr y @ t \<Longrightarrow> x = y \<and> s = t"
  by (metis Inr_inject prod.inject read_write)

end

definition end_of_stream :: "'a res" where
  "end_of_stream = Inl (SerializationException ''not enough data in file to deserialize result'')"

definition read_data :: "nat \<Rightarrow> byte list \<Rightarrow> (byte list \<times> byte list) res" where
  "read_data n s = (if length s < n then end_of_stream else Inr (take n s, drop n s))"

fun varint_bytes :: "nat \<Rightarrow> byte list \<Rightarrow> (byte list \<times> byte list) res" where
  "varint_bytes 0 s = Inr ([], s)"
| "varint_bytes (Suc k) s = bindR (read_data 1 s) (\<lambda>(b, r).
     if hd b AND 0x80 = 0 then Inr (b, r) else mapR (\<lambda>(bs, r'). (b @ bs, r')) (varint_bytes k r))"

definition read_varint :: "byte list \<Rightarrow> ('a::len word \<times> byte list) res" where
  "read_varint s = bindR (varint_bytes 16 s) (\<lambda>(bs, r).
     mapR (\<lambda>(v, _). (v, r)) (decode_unsigned 0 0 (bs @ replicate (16 - length bs) 0)))"

lemma read_data_append [simp]: "read_data (length xs) (xs @ s) = Inr (xs, s)"
  by (simp add: read_data_def)

lemma read_data_Cons [simp]: "read_data (Suc 0) (x # s) = Inr ([x], s)"
  by (simp add: read_data_def)

lemma varint_bytes_encode:
  "8 \<le> LENGTH('a) \<Longrightarrow> length (encode_unsigned (v :: 'a::len word)) \<le> k \<Longrightarrow>
   varint_bytes k (encode_unsigned v @ s) = Inr (encode_unsigned v, s)"
proof (induction v arbitrary: k rule: encode_unsigned.induct)
  case (1 v)
  note cont = encode_unsigned_continues [OF 1(2), of v, folded byte_and_80]
  show ?case
  proof (cases "drop_bit 7 v = 0")
    case True
    then show ?thesis using 1(3) cont(2) by (cases k) (simp_all add: encode_unsigned.simps [of v])
  next
    case False
    then have e: "encode_unsigned v = (ucast (v AND 0x7F) OR 0x80) # encode_unsigned (drop_bit 7 v)"
      by (simp add: encode_unsigned.simps [of v] Let_def)
    then obtain k' where k: "k = Suc k'" "length (encode_unsigned (drop_bit 7 v)) \<le> k'"
      using 1(3) by (cases k) auto
    show ?thesis using 1(1) [OF refl refl False 1(2) k(2)] cont(1) unfolding e k(1) by simp
  qed
qed

lemma varint_codec:
  assumes "8 \<le> LENGTH('a::len)" "LENGTH('a) \<le> 64"
  shows "codec (encode_unsigned :: 'a word \<Rightarrow> byte list) read_varint (\<lambda>_. True)"
proof
  fix v :: "'a word" and s
  have "7 * length (encode_unsigned v) \<le> LENGTH('a) + 7"
    using length_encode_unsigned [OF assms(1), of v "LENGTH('a)"] by (simp add: unsigned_less)
  then have len: "length (encode_unsigned v) \<le> 16" using assms(2) by linarith
  have "decode_unsigned 0 0 (encode_unsigned v @ bs) = Inr (v, length (encode_unsigned v))" for bs
    using decode_encode_unsigned_at [OF assms(1), of 0 v 0 bs] assms(1) unsigned_less [of v] by simp
  then show "read_varint (encode_unsigned v @ s) = Inr (v, s)"
    by (simp add: read_varint_def varint_bytes_encode [OF assms(1) len])
qed

interpretation u8: codec "encode_unsigned :: 8 word \<Rightarrow> byte list" read_varint "\<lambda>_. True"
  by (rule varint_codec) simp_all

interpretation u32: codec "encode_unsigned :: 32 word \<Rightarrow> byte list" read_varint "\<lambda>_. True"
  by (rule varint_codec) simp_all

interpretation u64: codec "encode_unsigned :: 64 word \<Rightarrow> byte list" read_varint "\<lambda>_. True"
  by (rule varint_codec) simp_all

text \<open>Signed integers: \<open>EncodeSignedLEB128\<close> on the value, \<open>DecodeSignedLEB128\<close> at the width of the type.\<close>

definition last_group :: "int \<Rightarrow> byte \<Rightarrow> bool" where
  "last_group v b \<longleftrightarrow> v = 0 \<and> b AND 0x40 = 0 \<or> v = - 1 \<and> b AND 0x40 \<noteq> 0"

lemma byte_of_int_and: "bit (word_of_int (v AND 0x7F) :: byte) n \<longleftrightarrow> n < 7 \<and> bit v n"
  by (auto simp: bit_word_of_int_iff bit_and_iff)

lemma byte_and_40: "(b :: byte) AND 0x40 \<noteq> 0 \<longleftrightarrow> bit b 6"
proof -
  have b64: "bit (64 :: int) n \<longleftrightarrow> n = 6" for n
  proof -
    have "(64 :: int) = 2 ^ 6" by simp
    then show ?thesis by (simp only: bit_exp_iff) (auto simp: possible_bit_def)
  qed
  show ?thesis
  proof
    assume "b AND 0x40 \<noteq> 0"
    then obtain n where "bit (b AND 0x40) n" by (metis bit_eqI bit_0_eq bot_apply bot_bool_def)
    then show "bit b 6" by (auto simp: bit_and_iff bit_numeral_word_iff b64)
  next
    assume "bit b 6"
    then have "bit (b AND 0x40) 6" by (simp add: bit_and_iff bit_numeral_word_iff b64)
    then show "b AND 0x40 \<noteq> 0" by (metis bit_0_eq bot_apply bot_bool_def)
  qed
qed

lemma small_last_group: "- 64 \<le> v \<Longrightarrow> v < 64 \<Longrightarrow> last_group (drop_bit 7 v) (word_of_int (v AND 0x7F))"
proof -
  assume v: "- 64 \<le> v" "v < 64"
  have "bit v 6 \<longleftrightarrow> v < 0"
  proof -
    have "odd (v div 64) \<longleftrightarrow> v < 0"
    proof (cases "v < 0")
      case True
      then have "v div 64 = - 1" using v(1) by presburger
      then show ?thesis using True by simp
    next
      case False
      then have "v div 64 = 0" using v(2) by simp
      then show ?thesis using False by simp
    qed
    then show ?thesis by (simp add: bit_iff_odd)
  qed
  moreover have "v div 128 = (if v < 0 then - 1 else 0)" using v by presburger
  then have "drop_bit 7 v = (if v < 0 then - 1 else 0)" by (simp add: drop_bit_eq_div)
  ultimately show ?thesis using byte_and_40 [of "word_of_int (v AND 0x7F)"] by (auto simp: last_group_def byte_of_int_and)
qed

lemma div_128_shrinks: "\<not> (- 64 \<le> v \<and> v < 64) \<Longrightarrow> \<bar>2 * (v div 128) + 1\<bar> < \<bar>2 * v + 1\<bar>" for v :: int
proof -
  assume v: "\<not> (- 64 \<le> v \<and> v < 64)"
  define q r where "q = v div 128" "r = v mod 128"
  then have qr: "v = 128 * q + r" "0 \<le> r" "r < 128" "v div 128 = q" by simp_all
  consider "q = 0" | "q = - 1" | "1 \<le> q" | "q \<le> - 2" by linarith
  then show ?thesis by cases (use v qr in linarith)+
qed

function encode_signed :: "int \<Rightarrow> byte list" where
  "encode_signed v =
     (let b = word_of_int (v AND 0x7F); v' = drop_bit 7 v
      in if last_group v' b then [b] else (b OR 0x80) # encode_signed v')"
  by pat_completeness auto
termination
proof (relation "measure (\<lambda>v. nat \<bar>2 * v + 1\<bar>)")
  fix v :: int and b :: byte and v'
  assume b: "b = word_of_int (v AND 0x7F)" "v' = drop_bit 7 v" "\<not> last_group v' b"
  then have "\<not> (- 64 \<le> v \<and> v < 64)" using small_last_group by blast
  then have "\<bar>2 * (v div 128) + 1\<bar> < \<bar>2 * v + 1\<bar>" by (rule div_128_shrinks)
  moreover have "v' = v div 128" unfolding b(2) by (simp add: drop_bit_eq_div)
  ultimately show "(v', v) \<in> measure (\<lambda>v. nat \<bar>2 * v + 1\<bar>)" by simp
qed simp

declare encode_signed.simps [simp del]

fun decode_signed :: "nat \<Rightarrow> 'a::len word \<Rightarrow> byte list \<Rightarrow> ('a word \<times> nat) res" where
  "decode_signed shift result [] = Inl (Undefined ''read past the buffer'')"
| "decode_signed shift result (b # bs) =
     (if LENGTH('a) \<le> shift then Inl (IOException ''Failed to decode LEB128 integer: data may be corrupt'')
      else let result' = result OR push_bit shift (ucast (b AND 0x7F)); shift' = shift + 7 in
        if b AND 0x80 \<noteq> 0 then mapR (\<lambda>(v, n). (v, Suc n)) (decode_signed shift' result' bs)
        else Inr (if shift' < LENGTH('a) \<and> b AND 0x40 \<noteq> 0 then result' OR - push_bit shift' 1 else result', 1))"

lemma signed_group_bits:
  assumes "8 \<le> LENGTH('a)" "b = word_of_int (v AND 0x7F) \<or> b = word_of_int (v AND 0x7F) OR 0x80"
  shows "bit (ucast ((b :: byte) AND 0x7F) :: 'a::len word) n \<longleftrightarrow> n < 7 \<and> bit v n"
  using assms by (auto simp: bit_ucast_iff bit_and_iff bit_or_iff byte_of_int_and bit_numeral_word_iff)

lemma minus_push_bit: "bit (- push_bit s (1 :: 'a::len word)) n \<longleftrightarrow> s \<le> n \<and> n < LENGTH('a)"
proof -
  have "- push_bit s (1 :: 'a word) = NOT (mask s)" by (simp add: minus_exp_eq_not_mask)
  then show ?thesis by (auto simp only: bit_not_iff bit_mask_iff possible_bit_word) 
qed

lemma decode_encode_signed_at:
  assumes "8 \<le> LENGTH('a)" "shift < LENGTH('a)"
    and "- (2 ^ (LENGTH('a) - 1 - shift)) \<le> v" "v < 2 ^ (LENGTH('a) - 1 - shift)"
  shows "decode_signed shift (r :: 'a::len word) (encode_signed v @ bs) =
    Inr (r OR push_bit shift (word_of_int v), length (encode_signed v))"
  using assms(2-)
proof (induction v arbitrary: shift r rule: encode_signed.induct)
  case (1 v)
  let ?b = "word_of_int (v AND 0x7F) :: byte"
  note bits = signed_group_bits [OF assms(1)]
  show ?case
  proof (cases "last_group (drop_bit 7 v) ?b")
    case True
    have e: "encode_signed v = [?b]" using True by (simp add: encode_signed.simps [of v])
    have end': "\<not> ?b AND 0x80 \<noteq> 0" by (simp add: byte_and_80 byte_of_int_and)
    have high: "bit v n \<longleftrightarrow> bit v 6" if "7 \<le> n" for n
    proof -
      have "bit v n \<longleftrightarrow> bit (drop_bit 7 v) (n - 7)" using that by (simp add: bit_drop_bit_eq)
      moreover have "drop_bit 7 v = (if bit v 6 then - 1 else 0)"
        using True byte_and_40 [of ?b] by (auto simp: last_group_def byte_of_int_and)
      ultimately show ?thesis by simp
    qed
    define g where "g = (ucast (?b AND 0x7F) :: 'a word)"
    have g: "bit g k \<longleftrightarrow> k < 7 \<and> bit v k" for k unfolding g_def by (rule bits) simp
    have "(if shift + 7 < LENGTH('a) \<and> ?b AND 0x40 \<noteq> 0
        then r OR push_bit shift g OR - push_bit (shift + 7) 1 else r OR push_bit shift g)
      = r OR push_bit shift (word_of_int v)"
      (is "?l = _")
    proof (rule bit_word_eqI)
      fix n
      assume n: "n < LENGTH('a)"
      have six: "(?b AND 0x40 \<noteq> 0) = bit v 6" by (simp add: byte_and_40 byte_of_int_and)
      have l: "bit ?l n \<longleftrightarrow> bit r n \<or> (shift \<le> n \<and> n - shift < 7 \<and> bit v (n - shift)) \<or> (shift + 7 \<le> n \<and> bit v 6)"
        using n by (cases "shift + 7 < LENGTH('a) \<and> bit v 6")
          (auto simp add: six bit_or_iff bit_push_bit_iff g minus_push_bit simp del: push_bit_of_1)
      have "bit (push_bit shift (word_of_int v :: 'a word)) n \<longleftrightarrow> shift \<le> n \<and> bit v (n - shift)"
        using n by (auto simp: bit_push_bit_iff bit_word_of_int_iff)
      then show "bit ?l n = bit (r OR push_bit shift (word_of_int v)) n"
        unfolding l bit_or_iff using high [of "n - shift"] by (cases "shift + 7 \<le> n") auto
    qed
    from this [unfolded g_def] show ?thesis unfolding e using 1(2) end'
      by (auto simp add: Let_def or.assoc simp del: push_bit_of_1 split: if_splits)
  next
    case False
    let ?c = "?b OR 0x80" and ?v = "drop_bit 7 v"
    have "\<not> (- 64 \<le> v \<and> v < 64)" using False small_last_group by blast
    then have sh: "shift + 7 < LENGTH('a)"
    proof (rule contrapos_np)
      assume "\<not> shift + 7 < LENGTH('a)"
      then have "(2 :: int) ^ (LENGTH('a) - 1 - shift) \<le> 2 ^ 6" by (intro power_increasing) simp_all
      then show "- 64 \<le> v \<and> v < 64" using 1(3,4) by simp
    qed
    then have "LENGTH('a) - 1 - shift = LENGTH('a) - 1 - (shift + 7) + 7" by simp
    then have p: "(2 :: int) ^ (LENGTH('a) - 1 - shift) = 2 ^ (LENGTH('a) - 1 - (shift + 7)) * 128"
      by (simp only: power_add) simp
    have bound: "- (2 ^ (LENGTH('a) - 1 - (shift + 7))) \<le> ?v" "?v < 2 ^ (LENGTH('a) - 1 - (shift + 7))"
      using 1(3,4) unfolding p drop_bit_eq_div by simp_all
    have e: "encode_signed v = ?c # encode_signed ?v" using False by (simp add: encode_signed.simps [of v])
    have cont: "?c AND 0x80 \<noteq> 0" by (simp add: byte_and_80 bit_or_iff)
    define g where "g = (ucast (?c AND 0x7F) :: 'a word)"
    have g: "bit g k \<longleftrightarrow> k < 7 \<and> bit v k" for k unfolding g_def by (rule bits) simp
    have step: "(r OR push_bit shift g) OR push_bit (shift + 7) (word_of_int ?v) = r OR push_bit shift (word_of_int v)"
    proof (rule bit_word_eqI)
      fix n
      assume n: "n < LENGTH('a)"
      have l: "bit ((r OR push_bit shift g) OR push_bit (shift + 7) (word_of_int ?v)) n \<longleftrightarrow>
          bit r n \<or> (shift \<le> n \<and> n - shift < 7 \<and> bit v (n - shift)) \<or> (shift + 7 \<le> n \<and> bit v (7 + (n - (shift + 7))))"
        using n by (auto simp: bit_or_iff bit_push_bit_iff g bit_word_of_int_iff bit_drop_bit_eq)
      have "bit (push_bit shift (word_of_int v :: 'a word)) n \<longleftrightarrow> shift \<le> n \<and> bit v (n - shift)"
        using n by (auto simp: bit_push_bit_iff bit_word_of_int_iff)
      moreover have "7 + (n - (shift + 7)) = n - shift" if "shift + 7 \<le> n" using that by simp
      ultimately show "bit ((r OR push_bit shift g) OR push_bit (shift + 7) (word_of_int ?v)) n =
          bit (r OR push_bit shift (word_of_int v)) n"
        unfolding l by (cases "shift + 7 \<le> n") (auto simp: bit_or_iff)
    qed
    have "decode_signed (shift + 7) (r OR push_bit shift g) (encode_signed ?v @ bs) =
        Inr ((r OR push_bit shift g) OR push_bit (shift + 7) (word_of_int ?v), length (encode_signed ?v))"
      by (rule 1(1) [OF refl refl False sh bound])
    then show ?thesis using 1(2) cont unfolding e step by (simp add: g_def Let_def)
  qed
qed

lemma length_encode_signed:
  "- (2 ^ n) \<le> v \<Longrightarrow> v < 2 ^ n \<Longrightarrow> 7 * length (encode_signed v) \<le> n + 14"
proof (induction v arbitrary: n rule: encode_signed.induct)
  case (1 v)
  show ?case
  proof (cases "last_group (drop_bit 7 v) (word_of_int (v AND 0x7F))")
    case False
    then have big: "\<not> (- 64 \<le> v \<and> v < 64)" using small_last_group by blast
    have n: "7 \<le> n"
    proof (rule ccontr)
      assume "\<not> 7 \<le> n"
      then have "(2 :: int) ^ n \<le> 2 ^ 6" by (intro power_increasing) simp_all
      then show False using 1(2,3) big by simp
    qed
    then have "(2 :: int) ^ n = 2 ^ (n - 7) * 2 ^ 7" by (simp only: power_add [symmetric]) simp
    then have "- (2 ^ (n - 7)) \<le> drop_bit 7 v" "drop_bit 7 v < 2 ^ (n - 7)"
      using 1(2,3) by (simp_all add: drop_bit_eq_div)
    from 1(1) [OF refl refl False this] n False show ?thesis by (simp add: encode_signed.simps [of v] Let_def)
  qed (simp add: encode_signed.simps [of v])
qed

lemma varint_bytes_signed:
  "length (encode_signed v) \<le> k \<Longrightarrow> varint_bytes k (encode_signed v @ s) = Inr (encode_signed v, s)"
proof (induction v arbitrary: k rule: encode_signed.induct)
  case (1 v)
  let ?b = "word_of_int (v AND 0x7F) :: byte"
  have cont: "\<not> ?b AND 0x80 \<noteq> 0" "(?b OR 0x80) AND 0x80 \<noteq> 0" by (simp_all add: byte_and_80 byte_of_int_and bit_or_iff)
  show ?case
  proof (cases "last_group (drop_bit 7 v) ?b")
    case True
    then show ?thesis using 1(2) cont(1) by (cases k) (simp_all add: encode_signed.simps [of v])
  next
    case False
    then have e: "encode_signed v = (?b OR 0x80) # encode_signed (drop_bit 7 v)" by (simp add: encode_signed.simps [of v] Let_def)
    then obtain k' where k: "k = Suc k'" "length (encode_signed (drop_bit 7 v)) \<le> k'" using 1(2) by (cases k) auto
    show ?thesis using 1(1) [OF refl refl False k(2)] cont(2) unfolding e k(1) by simp
  qed
qed

definition read_signed32 :: "byte list \<Rightarrow> (int \<times> byte list) res" where
  "read_signed32 s = bindR (varint_bytes 16 s) (\<lambda>(bs, r).
     mapR (\<lambda>(v :: 32 word, _). (sint v, r)) (decode_signed 0 0 (bs @ replicate (16 - length bs) 0)))"

interpretation i32: codec encode_signed read_signed32 in_int32
proof
  fix v s
  assume "in_int32 v"
  then have v: "- (2 ^ 31) \<le> v" "v < 2 ^ 31" by (simp_all add: in_int32_def)
  have len: "length (encode_signed v) \<le> 16" using length_encode_signed [OF v] by simp
  have "sint (word_of_int v :: 32 word) = v"
    using v by (simp add: signed_of_int signed_take_bit_int_eq_self)
  moreover have "decode_signed 0 (0 :: 32 word) (encode_signed v @ bs) = Inr (word_of_int v, length (encode_signed v))" for bs
    using decode_encode_signed_at [of 0 v "0 :: 32 word" bs] v by simp
  ultimately show "read_signed32 (encode_signed v @ s) = Inr (v, s)"
    by (simp add: read_signed32_def varint_bytes_signed [OF len])
qed

definition write_bool :: "bool \<Rightarrow> byte list" where
  "write_bool b = [if b then 1 else 0]"

definition read_bool :: "byte list \<Rightarrow> (bool \<times> byte list) res" where
  "read_bool s = mapR (\<lambda>(b, r). (hd b \<noteq> 0, r)) (read_data 1 s)"

interpretation bool: codec write_bool read_bool "\<lambda>_. True"
  by unfold_locales (simp add: write_bool_def read_bool_def)

text \<open>Strings: the length as a 32-bit varint, whose cast is checked, then the bytes.\<close>

definition bytes_of :: "string \<Rightarrow> byte list" where
  "bytes_of s = map of_char s"

definition text_of_bytes :: "byte list \<Rightarrow> string" where
  "text_of_bytes bs = map (\<lambda>b. char_of (unat b)) bs"

lemma unat_word_of_nat: "n < 2 ^ LENGTH('a) \<Longrightarrow> unat (word_of_nat n :: 'a::len word) = n"
  by (simp add: unsigned_of_nat take_bit_nat_eq_self)

lemma text_bytes [simp]: "text_of_bytes (bytes_of s) = s"
proof -
  have "char_of (unat (of_char c :: byte)) = c" for c
  proof -
    have "unat (of_char c :: byte) = of_char c"
      using unat_word_of_nat [of "of_char c", where 'a = 8] by (simp add: of_nat_of_char)
    then show ?thesis by simp
  qed
  then show ?thesis by (simp add: text_of_bytes_def bytes_of_def o_def)
qed

lemma bytes_of_Nil [simp]: "bytes_of [] = []"
  by (simp add: bytes_of_def)

lemma length_bytes [simp]: "length (bytes_of s) = length s"
  by (simp add: bytes_of_def)

definition write_string :: "string \<Rightarrow> byte list res" where
  "write_string s =
     (if length s < 2 ^ 32 then Inr (encode_unsigned (word_of_nat (length s) :: 32 word) @ bytes_of s)
      else Inl (InternalException ''Information loss on integer cast''))"

definition read_string :: "byte list \<Rightarrow> (string \<times> byte list) res" where
  "read_string s = bindR (read_varint s) (\<lambda>(len :: 32 word, r).
     if len = 0 then Inr ([], r) else mapR (\<lambda>(bs, r'). (text_of_bytes bs, r')) (read_data (unat len) r))"

interpretation string: codec "\<lambda>s. projr (write_string s)" read_string "\<lambda>s. length s < 2 ^ 32"
proof
  fix x :: string and s
  assume x: "length x < 2 ^ 32"
  then have "unat (word_of_nat (length x) :: 32 word) = length x" by (simp add: unat_word_of_nat)
  moreover from this have "(word_of_nat (length x) :: 32 word) = 0 \<longleftrightarrow> x = []" by (metis length_0_conv unat_eq_zero)
  moreover have "read_data (length x) (bytes_of x @ s) = Inr (bytes_of x, s)"
    using read_data_append [of "bytes_of x" s] by simp
  ultimately show "read_string (projr (write_string x) @ s) = Inr (x, s)"
    using x by (cases "x = []") (simp_all add: write_string_def read_string_def u32.read_write)
qed

text \<open>Lists: the number of elements, then each of them. The element writer can fail.\<close>

definition write_list :: "('a \<Rightarrow> byte list res) \<Rightarrow> 'a list \<Rightarrow> byte list res" where
  "write_list wr xs = mapR (\<lambda>bs. encode_unsigned (word_of_nat (length xs) :: 64 word) @ concat bs) (traverse wr xs)"

fun read_elements :: "(byte list \<Rightarrow> ('a \<times> byte list) res) \<Rightarrow> nat \<Rightarrow> byte list \<Rightarrow> ('a list \<times> byte list) res" where
  "read_elements rd 0 s = Inr ([], s)"
| "read_elements rd (Suc n) s = bindR (rd s) (\<lambda>(x, r). mapR (\<lambda>(xs, r'). (x # xs, r')) (read_elements rd n r))"

definition read_list :: "(byte list \<Rightarrow> ('a \<times> byte list) res) \<Rightarrow> byte list \<Rightarrow> ('a list \<times> byte list) res" where
  "read_list rd s = bindR (read_varint s) (\<lambda>(n :: 64 word, r). read_elements rd (unat n) r)"

context codec
begin

lemma read_elements_write:
  "\<forall>x \<in> set xs. valid x \<Longrightarrow> read_elements rd (length xs) (concat (map wr xs) @ s) = Inr (xs, s)"
  by (induction xs) (simp_all add: read_write)

end

lemma traverse_projr: "\<forall>x \<in> set xs. \<exists>y. wr x = Inr y \<Longrightarrow> traverse wr xs = Inr (map (\<lambda>x. projr (wr x)) xs)"
  by (induction xs) auto

lemma list_codec:
  assumes "codec (\<lambda>x. projr (wr x)) rd valid" "\<And>x. valid x \<Longrightarrow> \<exists>y. wr x = Inr y"
  shows "codec (\<lambda>xs. projr (write_list wr xs)) (read_list rd) (\<lambda>xs. length xs < 2 ^ 64 \<and> (\<forall>x \<in> set xs. valid x))"
proof
  fix xs s
  assume xs: "length xs < 2 ^ 64 \<and> (\<forall>x \<in> set xs. valid x)"
  then have "unat (word_of_nat (length xs) :: 64 word) = length xs" by (intro unat_word_of_nat) simp
  moreover have "traverse wr xs = Inr (map (\<lambda>x. projr (wr x)) xs)" using xs assms(2) by (intro traverse_projr) blast
  moreover have "read_elements rd (length xs) (concat (map (\<lambda>x. projr (wr x)) xs) @ s) = Inr (xs, s)"
    using xs by (intro codec.read_elements_write [OF assms(1)]) blast
  ultimately show "read_list rd (projr (write_list wr xs) @ s) = Inr (xs, s)"
    by (simp add: write_list_def read_list_def u64.read_write)
qed

lemma write_list_ok:
  "(\<And>x. x \<in> set xs \<Longrightarrow> \<exists>y. wr x = Inr y) \<Longrightarrow> \<exists>bs. write_list wr xs = Inr bs"
  by (simp add: write_list_def traverse_projr)

subsection \<open>Objects\<close>

definition write_field :: "nat \<Rightarrow> byte list" where
  "write_field f = [word_of_nat f, word_of_nat (f div 256)]"

definition terminator :: nat where
  "terminator = 0xFFFF"

definition write_property :: "nat \<Rightarrow> byte list res \<Rightarrow> byte list res" where
  "write_property f v = mapR (\<lambda>bs. write_field f @ bs) v"

definition write_with_default :: "nat \<Rightarrow> bool \<Rightarrow> byte list res \<Rightarrow> byte list res" where
  "write_with_default f is_default v = (if is_default then Inr [] else write_property f v)"

definition write_object :: "byte list res list \<Rightarrow> byte list res" where
  "write_object ps = mapR (\<lambda>bs. concat bs @ write_field terminator) (traverse (\<lambda>p. p) ps)"

text \<open>The reading side keeps at most one field id that it has read ahead.\<close>

record deserializer =
  stream :: "byte list"
  buffered :: "nat option"

definition read_field :: "byte list \<Rightarrow> (nat \<times> byte list) res" where
  "read_field s = mapR (\<lambda>(bs, r). (unat (bs ! 0) + 256 * unat (bs ! 1), r)) (read_data 2 s)"

definition peek_field :: "deserializer \<Rightarrow> (nat \<times> deserializer) res" where
  "peek_field d = (case buffered d of
     Some f \<Rightarrow> Inr (f, d)
   | None \<Rightarrow> mapR (\<lambda>(f, r). (f, \<lparr>stream = r, buffered = Some f\<rparr>)) (read_field (stream d)))"

definition next_field :: "deserializer \<Rightarrow> (nat \<times> deserializer) res" where
  "next_field d = (case buffered d of
     Some f \<Rightarrow> Inr (f, d\<lparr>buffered := None\<rparr>)
   | None \<Rightarrow> mapR (\<lambda>(f, r). (f, d\<lparr>stream := r\<rparr>)) (read_field (stream d)))"

definition read_value :: "(byte list \<Rightarrow> ('a \<times> byte list) res) \<Rightarrow> deserializer \<Rightarrow> ('a \<times> deserializer) res" where
  "read_value rd d = mapR (\<lambda>(x, r). (x, d\<lparr>stream := r\<rparr>)) (rd (stream d))"

definition read_property :: "nat \<Rightarrow> (byte list \<Rightarrow> ('a \<times> byte list) res) \<Rightarrow> deserializer \<Rightarrow> ('a \<times> deserializer) res" where
  "read_property f rd d = bindR (next_field d) (\<lambda>(g, d').
     if g \<noteq> f then Inl (SerializationException ''Failed to deserialize: field id mismatch'') else read_value rd d')"

definition read_with_default ::
    "nat \<Rightarrow> 'a \<Rightarrow> (byte list \<Rightarrow> ('a \<times> byte list) res) \<Rightarrow> deserializer \<Rightarrow> ('a \<times> deserializer) res" where
  "read_with_default f dflt rd d = bindR (peek_field d) (\<lambda>(g, d').
     if g = f then read_value rd (d'\<lparr>buffered := None\<rparr>) else Inr (dflt, d'))"

definition object_end :: "deserializer \<Rightarrow> deserializer res" where
  "object_end d = bindR (next_field d) (\<lambda>(g, d').
     if g \<noteq> terminator then Inl (SerializationException ''Failed to deserialize: expected end of object'') else Inr d')"

subsection \<open>The bytes that are still to be read\<close>

definition pending :: "deserializer \<Rightarrow> byte list" where
  "pending d = (case buffered d of None \<Rightarrow> stream d | Some f \<Rightarrow> write_field f @ stream d)"

definition starts_above :: "nat \<Rightarrow> byte list \<Rightarrow> bool" where
  "starts_above f s \<longleftrightarrow> (\<exists>g r. s = write_field g @ r \<and> f < g \<and> g < 65536)"

lemma read_field_write [simp]: "f < 65536 \<Longrightarrow> read_field (write_field f @ s) = Inr (f, s)"
proof -
  assume f: "f < 65536"
  have "unat (word_of_nat f :: byte) = f mod 256" "unat (word_of_nat (f div 256) :: byte) = f div 256"
    using f by (simp_all add: unsigned_of_nat take_bit_eq_mod)
  then show ?thesis by (simp add: read_field_def write_field_def read_data_def)
qed

definition wf_deserializer :: "deserializer \<Rightarrow> bool" where
  "wf_deserializer d \<longleftrightarrow> (\<forall>f. buffered d = Some f \<longrightarrow> f < 65536)"

lemma write_field_inj: "f < 65536 \<Longrightarrow> g < 65536 \<Longrightarrow> write_field f @ s = write_field g @ r \<Longrightarrow> f = g \<and> s = r"
  by (metis Inr_inject prod.inject read_field_write)

lemma peek_field_pending:
  assumes "wf_deserializer d" "pending d = write_field f @ s" "f < 65536"
  shows "peek_field d = Inr (f, \<lparr>stream = s, buffered = Some f\<rparr>)"
proof (cases "buffered d")
  case None
  then show ?thesis using assms by (simp add: peek_field_def pending_def)
next
  case (Some g)
  then have "write_field g @ stream d = write_field f @ s" "g < 65536"
    using assms(1,2) by (simp_all add: pending_def wf_deserializer_def)
  then have "g = f" "stream d = s" using write_field_inj [of g f] assms(3) by simp_all
  then show ?thesis using Some by (simp add: peek_field_def)
qed

lemma next_field_pending:
  assumes "wf_deserializer d" "pending d = write_field f @ s" "f < 65536"
  shows "next_field d = Inr (f, \<lparr>stream = s, buffered = None\<rparr>)"
proof (cases "buffered d")
  case None
  then show ?thesis using assms by (simp add: next_field_def pending_def)
next
  case (Some g)
  then have "write_field g @ stream d = write_field f @ s" "g < 65536"
    using assms(1,2) by (simp_all add: pending_def wf_deserializer_def)
  then have "g = f" "stream d = s" using write_field_inj [of g f] assms(3) by simp_all
  then show ?thesis using Some by (simp add: next_field_def)
qed

lemma object_end_pending:
  assumes "wf_deserializer d" "pending d = write_field terminator @ s"
  shows "object_end d = Inr \<lparr>stream = s, buffered = None\<rparr>"
  using next_field_pending [OF assms] by (simp add: object_end_def terminator_def)

lemma starts_above_terminator: "f < 65535 \<Longrightarrow> starts_above f (write_field terminator @ s)"
  unfolding starts_above_def terminator_def by (intro exI [of _ 65535] exI [of _ s]) simp

context codec
begin

text \<open>A property that is written is read back and leaves the rest of the object.\<close>

lemma read_property_pending:
  assumes "wf_deserializer d" "pending d = write_field f @ wr x @ s" "f < 65536" "valid x"
  shows "\<exists>d'. read_property f rd d = Inr (x, d') \<and> wf_deserializer d' \<and> pending d' = s"
  using next_field_pending [OF assms(1,2,3)] assms(4)
  by (simp add: read_property_def read_value_def read_write wf_deserializer_def pending_def)

lemma read_with_default_pending:
  assumes "wf_deserializer d" "pending d = (if x = dflt then [] else write_field f @ wr x) @ s" "f < 65536"
    and "x \<noteq> dflt \<Longrightarrow> valid x" "starts_above f s"
  shows "\<exists>d'. read_with_default f dflt rd d = Inr (x, d') \<and> wf_deserializer d' \<and> pending d' = s"
proof (cases "x = dflt")
  case True
  obtain g r where g: "s = write_field g @ r" "f < g" "g < 65536" using assms(5) unfolding starts_above_def by blast
  then have "peek_field d = Inr (g, \<lparr>stream = r, buffered = Some g\<rparr>)"
    using assms(1,2) True by (intro peek_field_pending) simp_all
  then show ?thesis using g True by (simp add: read_with_default_def wf_deserializer_def pending_def)
next
  case False
  then have "peek_field d = Inr (f, \<lparr>stream = wr x @ s, buffered = Some f\<rparr>)"
    using assms by (intro peek_field_pending) simp_all
  then show ?thesis using False assms(4)
    by (simp add: read_with_default_def read_value_def read_write wf_deserializer_def pending_def)
qed

end

lemma starts_above_default:
  assumes "f < g" "g < 65536" "starts_above g s"
  shows "starts_above f ((if b then [] else write_field g @ bs) @ s)"
proof (cases b)
  case True
  then have "(if b then [] else write_field g @ bs) @ s = s" by simp
  then show ?thesis using assms unfolding starts_above_def by (metis less_trans)
next
  case False
  then have "(if b then [] else write_field g @ bs) @ s = write_field g @ (bs @ s)" by simp
  then show ?thesis using assms(1,2) unfolding starts_above_def by blast
qed

text \<open>Readers in sequence: \<open>yields r x s\<close> says that a read gives \<open>x\<close> and leaves \<open>s\<close> to be read.\<close>

definition yields :: "('a \<times> deserializer) res \<Rightarrow> 'a \<Rightarrow> byte list \<Rightarrow> bool" where
  "yields r x s \<longleftrightarrow> (\<exists>d. r = Inr (x, d) \<and> wf_deserializer d \<and> pending d = s)"

lemma yields_bind:
  "yields r x s \<Longrightarrow> (\<And>d. wf_deserializer d \<Longrightarrow> pending d = s \<Longrightarrow> yields (k (x, d)) y t) \<Longrightarrow> yields (bindR r k) y t"
  by (auto simp: yields_def)

lemma yields_map: "yields r x s \<Longrightarrow> y = f x \<Longrightarrow> yields (mapR (\<lambda>(v, d). (f v, d)) r) y s"
  by (auto simp: yields_def)

context codec
begin

lemmas read_property_yields = read_property_pending [folded yields_def]

lemmas read_with_default_yields = read_with_default_pending [folded yields_def]

end

lemma write_with_default_bytes:
  "write_with_default f b v = Inr bs \<Longrightarrow> bs = (if b then [] else write_field f @ projr v) \<and> (\<not> b \<longrightarrow> (\<exists>y. v = Inr y))"
  by (cases v) (auto simp: write_with_default_def write_property_def split: if_splits)

end
