(* ===== verification/Catalog.thy ===== *)
theory Catalog
  imports Selector Serialization
begin

section \<open>Models in the catalog\<close>

text \<open>
  CREATE MODEL: \<open>src/parser/transform/statement/transform_create_model.cpp\<close>, the parsed statement
  \<open>CreateModelInfo\<close> with its copy and its serialization
  (\<open>src/parser/parsed_data/create_model_info.cpp\<close>,
  \<open>src/storage/serialization/serialize_create_info.cpp\<close>) and the catalog entry
  (\<open>src/catalog/catalog_entry/model_catalog_entry.cpp\<close>). Options are the pairs of a
  case-insensitive map, output columns are kept as pairs of a name and a type.
\<close>

datatype model_type = TABULAR | LM | GNN | LLM | EMBED

text \<open>The fields that \<open>CreateModelInfo\<close> and \<open>ModelData\<close> have in common.\<close>

record model_data =
  md_type :: model_type
  md_path :: string
  md_on_prompt :: bool
  md_base_api :: string
  md_secret :: string
  md_rel :: string
  md_inputs :: "string list"
  md_excludes :: "string list"
  md_opt_rel :: string
  md_opt_inputs :: "string list"
  md_opt_excludes :: "string list"
  md_outputs :: cols
  md_options :: options

datatype on_conflict = ErrorOnConflict | IgnoreOnConflict | ReplaceOnConflict | AlterOnConflict

record create_model_info =
  ci_catalog :: string
  ci_schema :: string
  ci_name :: string
  ci_temporary :: bool
  ci_conflict :: on_conflict
  ci_comment :: string
  ci_data :: model_data

definition new_model_data :: model_data where
  "new_model_data = \<lparr>md_type = TABULAR, md_path = [], md_on_prompt = False, md_base_api = [], md_secret = [],
     md_rel = [], md_inputs = [], md_excludes = [], md_opt_rel = [], md_opt_inputs = [], md_opt_excludes = [],
     md_outputs = [], md_options = []\<rparr>"

definition create_info_copy :: "create_model_info \<Rightarrow> create_model_info" where
  "create_info_copy i = (let d = ci_data i in
     \<lparr>ci_catalog = ci_catalog i, ci_schema = ci_schema i, ci_name = ci_name i, ci_temporary = ci_temporary i,
      ci_conflict = ci_conflict i, ci_comment = ci_comment i,
      ci_data = new_model_data\<lparr>md_type := md_type d, md_path := md_path d, md_base_api := md_base_api d,
        md_secret := md_secret d, md_rel := md_rel d, md_inputs := md_inputs d, md_excludes := md_excludes d,
        md_opt_rel := md_opt_rel d, md_opt_inputs := md_opt_inputs d, md_opt_excludes := md_opt_excludes d,
        md_outputs := md_outputs d, md_options := md_options d\<rparr>\<rparr>)"

subsection \<open>The statement\<close>

record columns_clause =
  input_set :: "string list"
  exclude_set :: "string list"

record model_on =
  on_prompt :: bool
  is_embedding :: bool
  on_base_api :: "string option"
  on_secret :: "string option"
  rel_name :: "string option"
  rel_feat :: "columns_clause option"
  opt_name :: "string option"
  opt_feat :: "columns_clause option"
  output_set :: "(string \<times> ltype \<times> bool) list"    \<comment> \<open>the flag: has constraints\<close>
  on_options :: options

record model_on_info =
  moi_rname :: string
  moi_inputs :: "string list"
  moi_excludes :: "string list"
  moi_oname :: string
  moi_opt_inputs :: "string list"
  moi_opt_excludes :: "string list"
  moi_outputs :: cols
  moi_options :: options
  moi_on_prompt :: bool
  moi_base_api :: string
  moi_secret :: string

text \<open>\<open>insert\<close> of a case-insensitive map keeps the first entry of a key.\<close>

fun insert_options :: "options \<Rightarrow> options \<Rightarrow> options" where
  "insert_options [] m = m"
| "insert_options ((k, v) # kvs) m =
     insert_options kvs (if option_of m k = None then m @ [(k, v)] else m)"

definition text_of :: "string option \<Rightarrow> string" where
  "text_of s = (case s of None \<Rightarrow> [] | Some t \<Rightarrow> t)"

definition new_model_on_info :: model_on_info where
  "new_model_on_info = \<lparr>moi_rname = [], moi_inputs = [], moi_excludes = [], moi_oname = [], moi_opt_inputs = [],
     moi_opt_excludes = [], moi_outputs = [], moi_options = [], moi_on_prompt = False, moi_base_api = [], moi_secret = []\<rparr>"

definition column_of :: "string \<times> ltype \<times> bool \<Rightarrow> (string \<times> ltype) res" where
  "column_of c = (if snd (snd c) then Inl (ParserException ''Result set must not contain constraints!'')
     else Inr (fst c, fst (snd c)))"

definition transform_model_on :: "model_on \<Rightarrow> model_on_info res" where
  "transform_model_on m =
     (let n = new_model_on_info\<lparr>moi_options := insert_options (on_options m) []\<rparr>;
          api = n\<lparr>moi_base_api := text_of (on_base_api m), moi_secret := text_of (on_secret m)\<rparr>
      in if on_prompt m then Inr (api\<lparr>moi_on_prompt := True\<rparr>)
         else if is_embedding m then Inr api
         else mapR (\<lambda>cs. n\<lparr>
             moi_rname := (case opt_name m of Some o' \<Rightarrow> o' | None \<Rightarrow> text_of (rel_name m)),
             moi_inputs := (case rel_feat m of None \<Rightarrow> [] | Some f \<Rightarrow> input_set f),
             moi_excludes := (case rel_feat m of None \<Rightarrow> [] | Some f \<Rightarrow> exclude_set f),
             moi_opt_inputs := (case opt_feat m of None \<Rightarrow> [] | Some f \<Rightarrow> input_set f),
             moi_opt_excludes := (case opt_feat m of None \<Rightarrow> [] | Some f \<Rightarrow> exclude_set f),
             moi_outputs := cs\<rparr>)
           (traverse column_of (output_set m)))"

record create_model_stmt =
  st_catalog :: string
  st_schema :: string
  st_name :: string
  st_persistent :: bool
  st_conflict :: on_conflict
  st_type :: model_type
  st_path :: string
  st_on :: model_on

definition transform_create_model :: "create_model_stmt \<Rightarrow> create_model_info res" where
  "transform_create_model s = mapR (\<lambda>on.
     let d = new_model_data\<lparr>md_type := st_type s, md_path := st_path s\<rparr>;
         d = (if moi_on_prompt on
              then d\<lparr>md_on_prompt := True, md_base_api := moi_base_api on, md_secret := moi_secret on\<rparr>
              else if st_type s = EMBED then d\<lparr>md_base_api := moi_base_api on, md_secret := moi_secret on\<rparr>
              else d\<lparr>md_rel := moi_rname on, md_inputs := moi_inputs on, md_excludes := moi_excludes on,
                md_opt_rel := moi_oname on, md_opt_inputs := moi_opt_inputs on, md_opt_excludes := moi_opt_excludes on,
                md_outputs := moi_outputs on, md_on_prompt := False\<rparr>)
     in \<lparr>ci_catalog = st_catalog s, ci_schema = st_schema s, ci_name = st_name s, ci_temporary = \<not> st_persistent s,
         ci_conflict = st_conflict s, ci_comment = [], ci_data = d\<lparr>md_options := moi_options on\<rparr>\<rparr>)
   (transform_model_on (st_on s))"

subsection \<open>The entry\<close>

record catalog_model = model_entry +
  ce_catalog :: string
  ce_schema :: string
  ce_temporary :: bool
  ce_comment :: string
  ce_data :: model_data

definition model_catalog_entry :: "string \<Rightarrow> string \<Rightarrow> create_model_info \<Rightarrow> catalog_model" where
  "model_catalog_entry cat sch i = \<lparr>entry_name = ci_name i, entry_path = md_path (ci_data i), ce_catalog = cat,
     ce_schema = sch, ce_temporary = ci_temporary i, ce_comment = ci_comment i, ce_data = ci_data i\<rparr>"

definition entry_info :: "catalog_model \<Rightarrow> create_model_info" where
  "entry_info e = \<lparr>ci_catalog = ce_catalog e, ci_schema = ce_schema e, ci_name = entry_name e, ci_temporary = False,
     ci_conflict = ErrorOnConflict, ci_comment = ce_comment e, ci_data = ce_data e\<rparr>"

definition entry_copy :: "catalog_model \<Rightarrow> catalog_model" where
  "entry_copy e = (model_catalog_entry (ce_catalog e) (ce_schema e) (entry_info e))\<lparr>ce_data := ce_data e\<rparr>"

subsection \<open>Serialization\<close>

text \<open>The properties of \<open>CreateModelInfo\<close>, after those of \<open>CreateInfo\<close>. How a type and the options
  are written is a parameter: the pairs \<open>wt\<close>, \<open>rt\<close> and \<open>wo\<close>, \<open>ro\<close>.\<close>

fun model_type_code :: "model_type \<Rightarrow> 8 word" where
  "model_type_code TABULAR = 0"
| "model_type_code LM = 1"
| "model_type_code GNN = 2"
| "model_type_code LLM = 3"
| "model_type_code EMBED = 4"

definition read_model_type :: "byte list \<Rightarrow> (model_type \<times> byte list) res" where
  "read_model_type s = bindR (read_varint s) (\<lambda>(b :: 8 word, r).
     case find (\<lambda>t. model_type_code t = b) [TABULAR, LM, GNN, LLM, EMBED] of
       None \<Rightarrow> Inl (Undefined ''enum value'') | Some t \<Rightarrow> Inr (t, r))"

definition write_model ::
    "(ltype \<Rightarrow> byte list res) \<Rightarrow> (options \<Rightarrow> byte list res) \<Rightarrow> string \<Rightarrow> model_data \<Rightarrow> byte list res list" where
  "write_model wt wo name d =
     [write_with_default 200 (name = []) (write_string name),
      write_property 201 (Inr (encode_unsigned (model_type_code (md_type d)))),
      write_with_default 202 (md_path d = []) (write_string (md_path d)),
      write_with_default 203 (md_rel d = []) (write_string (md_rel d)),
      write_with_default 204 (md_inputs d = []) (write_list write_string (md_inputs d)),
      write_with_default 205 (md_excludes d = []) (write_list write_string (md_excludes d)),
      write_with_default 206 (md_opt_rel d = []) (write_string (md_opt_rel d)),
      write_with_default 207 (md_opt_inputs d = []) (write_list write_string (md_opt_inputs d)),
      write_with_default 208 (md_opt_excludes d = []) (write_list write_string (md_opt_excludes d)),
      write_with_default 209 (map fst (md_outputs d) = []) (write_list write_string (map fst (md_outputs d))),
      write_with_default 210 (map snd (md_outputs d) = []) (write_list wt (map snd (md_outputs d))),
      write_with_default 211 (md_options d = []) (wo (md_options d)),
      write_with_default 212 (md_on_prompt d = False) (Inr (write_bool (md_on_prompt d))),
      write_with_default 213 (md_base_api d = []) (write_string (md_base_api d)),
      write_with_default 214 (md_secret d = []) (write_string (md_secret d))]"

definition read_model ::
    "(byte list \<Rightarrow> (ltype \<times> byte list) res) \<Rightarrow> (byte list \<Rightarrow> (options \<times> byte list) res) \<Rightarrow> deserializer
       \<Rightarrow> ((string \<times> model_data) \<times> deserializer) res" where
  "read_model rt ro s =
     bindR (read_with_default 200 [] read_string s) (\<lambda>(name, s).
     bindR (read_property 201 read_model_type s) (\<lambda>(ty, s).
     bindR (read_with_default 202 [] read_string s) (\<lambda>(path, s).
     bindR (read_with_default 203 [] read_string s) (\<lambda>(rel, s).
     bindR (read_with_default 204 [] (read_list read_string) s) (\<lambda>(ins, s).
     bindR (read_with_default 205 [] (read_list read_string) s) (\<lambda>(exs, s).
     bindR (read_with_default 206 [] read_string s) (\<lambda>(orel, s).
     bindR (read_with_default 207 [] (read_list read_string) s) (\<lambda>(oins, s).
     bindR (read_with_default 208 [] (read_list read_string) s) (\<lambda>(oexs, s).
     bindR (read_with_default 209 [] (read_list read_string) s) (\<lambda>(onames, s).
     bindR (read_with_default 210 [] (read_list rt) s) (\<lambda>(otypes, s).
     bindR (read_with_default 211 [] ro s) (\<lambda>(opts, s).
     bindR (read_with_default 212 False read_bool s) (\<lambda>(onp, s).
     bindR (read_with_default 213 [] read_string s) (\<lambda>(api, s).
     mapR (\<lambda>(secret, s). ((name, \<lparr>md_type = ty, md_path = path, md_on_prompt = onp, md_base_api = api,
         md_secret = secret, md_rel = rel, md_inputs = ins, md_excludes = exs, md_opt_rel = orel,
         md_opt_inputs = oins, md_opt_excludes = oexs, md_outputs = zip onames otypes, md_options = opts\<rparr>), s))
       (read_with_default 214 [] read_string s)))))))))))))))"

subsection \<open>Reading back\<close>

interpretation model_type: codec "\<lambda>t. encode_unsigned (model_type_code t)" read_model_type "\<lambda>_. True"
proof
  fix t s
  have "find (\<lambda>t'. model_type_code t' = model_type_code t) [TABULAR, LM, GNN, LLM, EMBED] = Some t"
    by (cases t) simp_all
  then show "read_model_type (encode_unsigned (model_type_code t) @ s) = Inr (t, s)"
    by (simp add: read_model_type_def u8.read_write)
qed

interpretation strings: codec "\<lambda>xs. projr (write_list write_string xs)" "read_list read_string"
  "\<lambda>xs. length xs < 2 ^ 64 \<and> (\<forall>x \<in> set xs. length x < 2 ^ 32)"
  by (rule list_codec [OF string.codec_axioms]) (simp add: write_string_def)

lemma write_string_length: "write_string s = Inr bs \<Longrightarrow> length s < 2 ^ 32"
  by (auto simp: write_string_def split: if_splits)

lemma write_strings_lengths: "write_list write_string xs = Inr bs \<Longrightarrow> \<forall>x \<in> set xs. length x < 2 ^ 32"
  by (fastforce simp del: power_numeral simp: write_list_def mapR_Inr_iff traverse_Inr_iff in_set_conv_nth
      intro: write_string_length)

lemma string_property:
  assumes "write_with_default f (x = []) (write_string x) = Inr bs" "wf_deserializer d" "pending d = bs @ s"
    "f < 65536" "starts_above f s"
  shows "yields (read_with_default f [] read_string d) x s"
  using write_with_default_bytes [OF assms(1)] assms(2-) write_string_length
  by (intro string.read_with_default_yields) auto

lemma strings_property:
  assumes "write_with_default f (x = []) (write_list write_string x) = Inr bs" "wf_deserializer d" "pending d = bs @ s"
    "f < 65536" "starts_above f s" "length x < 2 ^ 64"
  shows "yields (read_with_default f [] (read_list read_string) d) x s"
  using write_with_default_bytes [OF assms(1)] assms(2-) write_strings_lengths
  by (intro strings.read_with_default_yields) blast+

lemma default_starts_above:
  "write_with_default g b v = Inr bs \<Longrightarrow> f < g \<Longrightarrow> g < 65536 \<Longrightarrow> starts_above g s \<Longrightarrow> starts_above f (bs @ s)"
  using write_with_default_bytes [of g b v bs] starts_above_default [of f g s b "projr v"] by simp

lemma property_starts_above:
  "write_property g v = Inr bs \<Longrightarrow> f < g \<Longrightarrow> g < 65536 \<Longrightarrow> starts_above f (bs @ s)"
  by (auto simp: write_property_def mapR_Inr_iff starts_above_def intro!: exI [of _ g])

text \<open>A codec for types and for options, as far as one model uses them.\<close>

definition options_codec :: "(options \<Rightarrow> byte list res) \<Rightarrow> (byte list \<Rightarrow> (options \<times> byte list) res) \<Rightarrow> bool" where
  "options_codec wo ro \<longleftrightarrow> codec (\<lambda>x. projr (wo x)) ro (\<lambda>x. \<exists>bs. wo x = Inr bs)"

definition types_codec :: "(ltype \<Rightarrow> byte list res) \<Rightarrow> (byte list \<Rightarrow> (ltype \<times> byte list) res) \<Rightarrow> bool" where
  "types_codec wt rt \<longleftrightarrow> codec (\<lambda>x. projr (wt x)) rt (\<lambda>x. \<exists>bs. wt x = Inr bs)"

lemma options_property:
  assumes "options_codec wo ro" "write_with_default f (x = []) (wo x) = Inr bs" "wf_deserializer d" "pending d = bs @ s"
    "f < 65536" "starts_above f s"
  shows "yields (read_with_default f [] ro d) x s"
  using write_with_default_bytes [OF assms(2)] assms(3-)
  by (intro codec.read_with_default_yields [OF assms(1) [unfolded options_codec_def]]) auto

lemma types_property:
  assumes "types_codec wt rt" "write_with_default f (x = []) (write_list wt x) = Inr bs" "wf_deserializer d" "pending d = bs @ s"
    "f < 65536" "starts_above f s" "length x < 2 ^ 64"
  shows "yields (read_with_default f [] (read_list rt) d) x s"
proof (rule codec.read_with_default_yields [OF list_codec [OF assms(1) [unfolded types_codec_def]]])
  show "length x < 2 ^ 64 \<and> (\<forall>y \<in> set x. \<exists>b. wt y = Inr b)" if ne: "x \<noteq> []"
  proof -
    obtain y where "write_list wt x = Inr y" using write_with_default_bytes [OF assms(2)] ne by blast
    then have "\<forall>y \<in> set x. \<exists>b. wt y = Inr b" unfolding write_list_def mapR_Inr_iff traverse_Inr_iff
      by (auto simp: in_set_conv_nth)
    then show ?thesis using assms(7) by blast
  qed
  show "pending d = (if x = [] then [] else write_field f @ projr (write_list wt x)) @ s"
    using write_with_default_bytes [OF assms(2)] assms(4) by simp
qed (use assms in auto)

lemma model_type_property:
  assumes "write_property f (Inr (encode_unsigned (model_type_code t))) = Inr bs" "wf_deserializer d" "pending d = bs @ s"
    "f < 65536"
  shows "yields (read_property f read_model_type d) t s"
  using assms by (intro model_type.read_property_yields) (auto simp: write_property_def)

lemma bool_property:
  assumes "write_with_default f (x = False) (Inr (write_bool x)) = Inr bs" "wf_deserializer d" "pending d = bs @ s"
    "f < 65536" "starts_above f s"
  shows "yields (read_with_default f False read_bool d) x s"
  using write_with_default_bytes [OF assms(1)] assms(2-)
  by (intro bool.read_with_default_yields) auto

definition fits :: "model_data \<Rightarrow> bool" where
  "fits d \<longleftrightarrow> length (md_inputs d) < 2 ^ 64 \<and> length (md_excludes d) < 2 ^ 64 \<and> length (md_opt_inputs d) < 2 ^ 64 \<and>
     length (md_opt_excludes d) < 2 ^ 64 \<and> length (md_outputs d) < 2 ^ 64"

lemma traverse_id_Cons: "traverse (\<lambda>p. p) (p # ps) = Inr bss \<longleftrightarrow> (\<exists>b bs. p = Inr b \<and> traverse (\<lambda>p. p) ps = Inr bs \<and> bss = b # bs)"
  by (auto simp: bindR_Inr_iff mapR_Inr_iff)

lemma read_model_yields:
  assumes tc: "types_codec wt rt" and oc: "options_codec wo ro" and fits: "fits d"
    and w: "traverse (\<lambda>p. p) (write_model wt wo name d) = Inr bss"
    and st: "wf_deserializer st" "pending st = concat bss @ write_field terminator @ s"
  shows "yields (read_model rt ro st) (name, d) (write_field terminator @ s)"
proof -
  obtain b0 b1 b2 b3 b4 b5 b6 b7 b8 b9 b10 b11 b12 b13 b14 where bss: "bss = [b0, b1, b2, b3, b4, b5, b6, b7, b8, b9, b10, b11, b12, b13, b14]"
    and b: "write_with_default 200 (name = []) (write_string name) = Inr b0"
     "write_property 201 (Inr (encode_unsigned (model_type_code (md_type d)))) = Inr b1"
     "write_with_default 202 (md_path d = []) (write_string (md_path d)) = Inr b2"
     "write_with_default 203 (md_rel d = []) (write_string (md_rel d)) = Inr b3"
     "write_with_default 204 (md_inputs d = []) (write_list write_string (md_inputs d)) = Inr b4"
     "write_with_default 205 (md_excludes d = []) (write_list write_string (md_excludes d)) = Inr b5"
     "write_with_default 206 (md_opt_rel d = []) (write_string (md_opt_rel d)) = Inr b6"
     "write_with_default 207 (md_opt_inputs d = []) (write_list write_string (md_opt_inputs d)) = Inr b7"
     "write_with_default 208 (md_opt_excludes d = []) (write_list write_string (md_opt_excludes d)) = Inr b8"
     "write_with_default 209 (map fst (md_outputs d) = []) (write_list write_string (map fst (md_outputs d))) = Inr b9"
     "write_with_default 210 (map snd (md_outputs d) = []) (write_list wt (map snd (md_outputs d))) = Inr b10"
     "write_with_default 211 (md_options d = []) (wo (md_options d)) = Inr b11"
     "write_with_default 212 (md_on_prompt d = False) (Inr (write_bool (md_on_prompt d))) = Inr b12"
     "write_with_default 213 (md_base_api d = []) (write_string (md_base_api d)) = Inr b13"
     "write_with_default 214 (md_secret d = []) (write_string (md_secret d)) = Inr b14"
    using w unfolding write_model_def traverse_id_Cons traverse.simps(1) by blast
  have a14: "starts_above 214 (write_field terminator @ s)" by (rule starts_above_terminator) simp
  have a13: "starts_above 213 (b14 @ write_field terminator @ s)" by (rule default_starts_above [OF b(15) _ _ a14]) simp_all
  have a12: "starts_above 212 (b13 @ b14 @ write_field terminator @ s)" by (rule default_starts_above [OF b(14) _ _ a13]) simp_all
  have a11: "starts_above 211 (b12 @ b13 @ b14 @ write_field terminator @ s)" by (rule default_starts_above [OF b(13) _ _ a12]) simp_all
  have a10: "starts_above 210 (b11 @ b12 @ b13 @ b14 @ write_field terminator @ s)" by (rule default_starts_above [OF b(12) _ _ a11]) simp_all
  have a9: "starts_above 209 (b10 @ b11 @ b12 @ b13 @ b14 @ write_field terminator @ s)" by (rule default_starts_above [OF b(11) _ _ a10]) simp_all
  have a8: "starts_above 208 (b9 @ b10 @ b11 @ b12 @ b13 @ b14 @ write_field terminator @ s)" by (rule default_starts_above [OF b(10) _ _ a9]) simp_all
  have a7: "starts_above 207 (b8 @ b9 @ b10 @ b11 @ b12 @ b13 @ b14 @ write_field terminator @ s)" by (rule default_starts_above [OF b(9) _ _ a8]) simp_all
  have a6: "starts_above 206 (b7 @ b8 @ b9 @ b10 @ b11 @ b12 @ b13 @ b14 @ write_field terminator @ s)" by (rule default_starts_above [OF b(8) _ _ a7]) simp_all
  have a5: "starts_above 205 (b6 @ b7 @ b8 @ b9 @ b10 @ b11 @ b12 @ b13 @ b14 @ write_field terminator @ s)" by (rule default_starts_above [OF b(7) _ _ a6]) simp_all
  have a4: "starts_above 204 (b5 @ b6 @ b7 @ b8 @ b9 @ b10 @ b11 @ b12 @ b13 @ b14 @ write_field terminator @ s)" by (rule default_starts_above [OF b(6) _ _ a5]) simp_all
  have a3: "starts_above 203 (b4 @ b5 @ b6 @ b7 @ b8 @ b9 @ b10 @ b11 @ b12 @ b13 @ b14 @ write_field terminator @ s)" by (rule default_starts_above [OF b(5) _ _ a4]) simp_all
  have a2: "starts_above 202 (b3 @ b4 @ b5 @ b6 @ b7 @ b8 @ b9 @ b10 @ b11 @ b12 @ b13 @ b14 @ write_field terminator @ s)" by (rule default_starts_above [OF b(4) _ _ a3]) simp_all
  have a1: "starts_above 201 (b2 @ b3 @ b4 @ b5 @ b6 @ b7 @ b8 @ b9 @ b10 @ b11 @ b12 @ b13 @ b14 @ write_field terminator @ s)" by (rule default_starts_above [OF b(3) _ _ a2]) simp_all
  have a0: "starts_above 200 (b1 @ b2 @ b3 @ b4 @ b5 @ b6 @ b7 @ b8 @ b9 @ b10 @ b11 @ b12 @ b13 @ b14 @ write_field terminator @ s)" by (rule property_starts_above [OF b(2)]) simp_all
  note props = string_property [OF b(1) _ _ _ a0]
    model_type_property [OF b(2)]
    string_property [OF b(3) _ _ _ a2]
    string_property [OF b(4) _ _ _ a3]
    strings_property [OF b(5) _ _ _ a4]
    strings_property [OF b(6) _ _ _ a5]
    string_property [OF b(7) _ _ _ a6]
    strings_property [OF b(8) _ _ _ a7]
    strings_property [OF b(9) _ _ _ a8]
    strings_property [OF b(10) _ _ _ a9]
    types_property [OF tc b(11) _ _ _ a10]
    options_property [OF oc b(12) _ _ _ a11]
    bool_property [OF b(13) _ _ _ a12]
    string_property [OF b(14) _ _ _ a13]
    string_property [OF b(15) _ _ _ a14]
  have st': "pending st = b0 @ b1 @ b2 @ b3 @ b4 @ b5 @ b6 @ b7 @ b8 @ b9 @ b10 @ b11 @ b12 @ b13 @ b14 @ write_field terminator @ s" using st(2) unfolding bss by simp
  show ?thesis unfolding read_model_def
    using fits st(1) st' unfolding fits_def
    by (elim conjE) ((rule yields_bind, rule props, assumption, assumption, simp, (simp; fail)?, unfold prod.case)+,
      rule yields_map, rule props, assumption, assumption, simp, (simp; fail)?, simp add: zip_map_fst_snd)
qed

definition demo_wt :: "ltype \<Rightarrow> byte list res" where
  "demo_wt t = (case t of VARCHAR \<Rightarrow> Inr [25] | INTEGER \<Rightarrow> Inr [13] | DOUBLE \<Rightarrow> Inr [23] | BOOLEAN \<Rightarrow> Inr [10]
     | OTHER n \<Rightarrow> Inl (SerializationException n))"

definition demo_rt :: "byte list \<Rightarrow> (ltype \<times> byte list) res" where
  "demo_rt s = (case s of [] \<Rightarrow> end_of_stream
     | b # r \<Rightarrow> Inr (if b = 25 then VARCHAR else if b = 13 then INTEGER else if b = 23 then DOUBLE else BOOLEAN, r))"

definition demo_wo :: "options \<Rightarrow> byte list res" where
  "demo_wo opts = (if opts = [] then Inr [] else Inl (SerializationException ''options''))"

definition demo_ro :: "byte list \<Rightarrow> (options \<times> byte list) res" where
  "demo_ro s = Inr ([], s)"

lemma demo_codecs: "types_codec demo_wt demo_rt" "options_codec demo_wo demo_ro"
  unfolding types_codec_def options_codec_def
  by (unfold_locales, auto simp: demo_wt_def demo_rt_def demo_wo_def demo_ro_def split: ltype.splits if_splits)

definition demo_model :: model_data where
  "demo_model = new_model_data\<lparr>md_type := LLM, md_path := ''gpt-5'', md_on_prompt := True, md_secret := ''k'',
     md_inputs := [''a'', ''b''], md_outputs := [(''x'', INTEGER)]\<rparr>"

subsection \<open>Statements, entries and copies\<close>

text \<open>The relation of the optional clause is stored in place of the model's relation.\<close>

lemma optional_relation_overwrites:
  assumes "transform_create_model s = Inr i" "\<not> on_prompt (st_on s)" "\<not> is_embedding (st_on s)" "st_type s \<noteq> EMBED"
    "opt_name (st_on s) = Some rel"
  shows "md_rel (ci_data i) = rel" "md_opt_rel (ci_data i) = []"
  using assms by (auto simp: transform_create_model_def transform_model_on_def mapR_Inr_iff new_model_on_info_def Let_def)

lemma prompt_model_fields:
  assumes "transform_create_model s = Inr i" "on_prompt (st_on s)"
  shows "md_on_prompt (ci_data i)" "md_outputs (ci_data i) = []" "md_inputs (ci_data i) = []"
    "md_base_api (ci_data i) = text_of (on_base_api (st_on s))" "md_secret (ci_data i) = text_of (on_secret (st_on s))"
  using assms by (auto simp: transform_create_model_def transform_model_on_def new_model_on_info_def new_model_data_def Let_def)

text \<open>A catalog entry keeps every field of the statement that created it and gives them back as
  a statement; its own copy becomes permanent. The copy of the statement, however, is faithful exactly
  for the models that are not prompt models: \<open>CreateModelInfo::Copy\<close> does not copy \<open>on_prompt\<close>.\<close>
lemma model_copies:
  "ci_data (entry_info (model_catalog_entry cat sch i)) = ci_data i \<and>
   ci_name (entry_info (model_catalog_entry cat sch i)) = ci_name i \<and>
   entry_copy (model_catalog_entry cat sch i) = (model_catalog_entry cat sch i)\<lparr>ce_temporary := False\<rparr> \<and>
   (create_info_copy i = i \<longleftrightarrow> \<not> md_on_prompt (ci_data i))"
proof -
  obtain ct cs cn tmp cf cm d where i: "i = \<lparr>ci_catalog = ct, ci_schema = cs, ci_name = cn, ci_temporary = tmp,
      ci_conflict = cf, ci_comment = cm, ci_data = d\<rparr>" by (cases i)
  show ?thesis unfolding i
    by (cases d) (simp add: entry_info_def model_catalog_entry_def entry_copy_def create_info_copy_def new_model_data_def)
qed

end
