(* ===== verification/Binding.thy ===== *)
theory Binding
  imports Catalog
begin

section \<open>Parsing and binding predictions\<close>

text \<open>
  From the text of a prompt to what a predictor is told. \<open>transform_predict.cpp\<close> and
  \<open>transform_table_predict.cpp\<close> (\<open>src/parser/transform\<close>) find the placeholders and the output
  columns of a prompt with regular expressions; \<open>bind_predictref.cpp\<close> and
  \<open>bind_predict_expression.cpp\<close> (\<open>src/planner/binder\<close>) look up the model and resolve the columns;
  the copies and comparisons are those of \<open>predict_expression.cpp\<close>,
  \<open>bound_predict_expression.cpp\<close> and \<open>table_predict_ref.cpp\<close>. The two regular expressions are
  deterministic enough for a scanner: each repetition ends where the next part can start.
\<close>

subsection \<open>The prompt\<close>

definition is_alpha :: "char \<Rightarrow> bool" where
  "is_alpha c \<longleftrightarrow> (65 \<le> char_code c \<and> char_code c \<le> 90) \<or> (97 \<le> char_code c \<and> char_code c \<le> 122)"

definition is_word :: "char \<Rightarrow> bool" where
  "is_word c \<longleftrightarrow> is_alpha c \<or> is_digit c \<or> c = CHR ''_''"

definition is_space :: "char \<Rightarrow> bool" where
  "is_space c \<longleftrightarrow> char_code c = 32 \<or> (9 \<le> char_code c \<and> char_code c \<le> 13)"

text \<open>\<open>(\w+)\s+(INTEGER|VARCHAR|BOOLEAN|BOOL|DOUBLE)\<close>, ignoring case, at the start of a text: the
  two groups and what follows the match.\<close>

definition type_words :: "string list" where
  "type_words = [''INTEGER'', ''VARCHAR'', ''BOOLEAN'', ''BOOL'', ''DOUBLE'']"

definition match_out :: "string \<Rightarrow> ((string \<times> string) \<times> string) option" where
  "match_out s =
     (let w = takeWhile is_word s; t = dropWhile is_word s; u = dropWhile is_space t
      in if w = [] \<or> u = t then None
         else map_option (\<lambda>k. ((w, take (length k) u), drop (length k) u))
           (find (\<lambda>k. length k \<le> length u \<and> ci_equals (take (length k) u) k) type_words))"

lemma match_out_shorter: "match_out s = Some (m, r) \<Longrightarrow> length r < length s"
proof -
  assume "match_out s = Some (m, r)"
  then have "takeWhile is_word s \<noteq> []" "\<exists>k. r = drop k (dropWhile is_space (dropWhile is_word s))"
    by (auto simp: match_out_def Let_def split: if_splits)
  then obtain k where k: "takeWhile is_word s \<noteq> []" "r = drop k (dropWhile is_space (dropWhile is_word s))" by blast
  have "length r \<le> length (dropWhile is_word s)" unfolding k(2)
    by (metis diff_le_self le_trans length_drop length_dropWhile_le)
  moreover have "length s = length (takeWhile is_word s) + length (dropWhile is_word s)"
    by (metis length_append takeWhile_dropWhile_id)
  ultimately show ?thesis using k(1) by (cases "takeWhile is_word s") auto
qed

text \<open>\<open>sregex_iterator\<close>: the matches from left to right, not overlapping.\<close>

function out_matches :: "string \<Rightarrow> (string \<times> string) list" where
  "out_matches s = (case s of [] \<Rightarrow> []
     | c # cs \<Rightarrow> (case match_out s of None \<Rightarrow> out_matches cs | Some (m, r) \<Rightarrow> m # out_matches r))"
  by pat_completeness auto
termination by (relation "measure length") (auto dest!: match_out_shorter)

declare out_matches.simps [simp del]

text \<open>The placeholders \<open>{{column}}\<close>; in scalar prompts also \<open>{{table.column}}\<close>.\<close>

definition ident :: "string \<Rightarrow> (string \<times> string) option" where
  "ident s = (case s of [] \<Rightarrow> None
     | c # cs \<Rightarrow> if is_alpha c \<or> c = CHR ''_'' then Some (c # takeWhile is_word cs, dropWhile is_word cs) else None)"

definition match_in :: "bool \<Rightarrow> string \<Rightarrow> (string \<times> string) option" where
  "match_in qualified s =
     (if take 2 s \<noteq> ''{{'' then None
      else case ident (drop 2 s) of None \<Rightarrow> None
      | Some (x, r) \<Rightarrow>
          let (name, rest) = (case r of
              CHR ''.'' # r' \<Rightarrow> (case (if qualified then ident r' else None) of
                  None \<Rightarrow> (x, r) | Some (y, r'') \<Rightarrow> (x @ ''.'' @ y, r''))
            | _ \<Rightarrow> (x, r))
          in if take 2 rest = ''}}'' then Some (name, drop 2 rest) else None)"

lemma ident_shorter: "ident s = Some (x, r) \<Longrightarrow> length r < length s"
  by (cases s) (auto simp: ident_def less_Suc_eq_le length_dropWhile_le split: if_splits)

lemma match_in_shorter:
  assumes "match_in q s = Some (n, r)"
  shows "length r < length s"
proof -
  obtain x t where x: "ident (drop 2 s) = Some (x, t)" using assms
    by (auto simp: match_in_def split: if_splits option.splits)
  have "length r \<le> length t"
  proof (cases "\<exists>t'. t = CHR ''.'' # t' \<and> q \<and> ident t' \<noteq> None")
    case True
    then obtain t' y u where t: "t = CHR ''.'' # t'" "q" "ident t' = Some (y, u)" by auto
    then have "r = drop 2 u" using assms x by (auto simp: match_in_def split: if_splits)
    then show ?thesis using ident_shorter [OF t(3)] t(1) by simp
  next
    case False
    then have "(case t of CHR ''.'' # r' \<Rightarrow> (case (if q then ident r' else None) of
        None \<Rightarrow> (x, t) | Some (y, r'') \<Rightarrow> (x @ ''.'' @ y, r'')) | _ \<Rightarrow> (x, t)) = (x, t)"
      by (cases q) (auto split: list.splits char.splits bool.splits option.splits)
    then have "r = drop 2 t" using assms x by (auto simp: match_in_def split: if_splits)
    then show ?thesis by simp
  qed
  then show ?thesis using ident_shorter [OF x] by simp
qed

function in_matches :: "bool \<Rightarrow> string \<Rightarrow> string list" where
  "in_matches q s = (case s of [] \<Rightarrow> []
     | c # cs \<Rightarrow> (case match_in q s of None \<Rightarrow> in_matches q cs | Some (m, r) \<Rightarrow> m # in_matches q r))"
  by pat_completeness auto
termination by (relation "measure (length \<circ> snd)") (auto dest!: match_in_shorter)

declare in_matches.simps [simp del]

subsection \<open>Parsed predictions\<close>

type_synonym column_ref = "string option \<times> string"

definition make_column_ref :: "string \<Rightarrow> column_ref" where
  "make_column_ref s = (let t = takeWhile (\<lambda>c. c \<noteq> CHR ''.'') s in
     if t = s then (None, s) else (Some t, drop (Suc (length t)) s))"

record predict_expression =
  pe_model :: string
  pe_prompt :: string
  pe_agg :: bool
  pe_out :: "string \<times> ltype"
  pe_inputs :: "string list"
  pe_children :: "column_ref list"
  pe_agg_func :: string

fun out_column :: "string \<Rightarrow> nat \<Rightarrow> (string \<times> string) list \<Rightarrow> string \<times> ltype \<Rightarrow> (string \<times> ltype) res" where
  "out_column model n [] c = Inr c"
| "out_column model n ((name, ty) # ms) c =
     (if 0 < n then Inl (ParserException (''Scalar predict clause only support one output column. At model '' @ model))
      else bindR (type_to_logical_type ty) (\<lambda>t. out_column model (Suc n) ms (name, t)))"

definition transform_predict :: "string \<Rightarrow> string \<Rightarrow> bool \<Rightarrow> predict_expression res" where
  "transform_predict model ptext agg =
     mapR (\<lambda>out. let ins = in_matches True ptext in
         \<lparr>pe_model = model, pe_prompt = ptext, pe_agg = agg, pe_out = out, pe_inputs = ins,
          pe_children = map make_column_ref ins, pe_agg_func = ''llm_agg''\<rparr>)
       (out_column model 0 (out_matches ptext) ([], OTHER ''INVALID''))"

definition predict_expression_equal :: "predict_expression \<Rightarrow> predict_expression \<Rightarrow> bool" where
  "predict_expression_equal a b \<longleftrightarrow> pe_children a = pe_children b \<and> pe_model a = pe_model b \<and>
     pe_prompt a = pe_prompt b \<and> pe_agg a = pe_agg b"

record 'src table_predict_ref =
  tp_model :: string
  tp_prompt :: string
  tp_embedding :: bool
  tp_inputs :: "column_ref list"
  tp_source :: "'src option"
  tp_opt_source :: "'src option"
  tp_alias :: string
  tp_column_aliases :: "string list"

definition transform_table_predict ::
    "string \<Rightarrow> string option \<Rightarrow> string option \<Rightarrow> 'src option \<Rightarrow> 'src option \<Rightarrow> string \<Rightarrow> string list \<Rightarrow> 'src table_predict_ref" where
  "transform_table_predict model prompt_of emb_col src opt_src alias aliases =
     \<lparr>tp_model = model, tp_prompt = text_of prompt_of, tp_embedding = (emb_col \<noteq> None),
      tp_inputs = map make_column_ref (in_matches False (text_of prompt_of)) @
        (case emb_col of None \<Rightarrow> [] | Some c \<Rightarrow> [make_column_ref c]),
      tp_source = src, tp_opt_source = opt_src, tp_alias = alias, tp_column_aliases = aliases\<rparr>"

text \<open>\<open>TableRef::Equals\<close> compares the aliases (and a sample clause).\<close>

definition table_predict_equal :: "('src \<Rightarrow> 'src \<Rightarrow> bool) \<Rightarrow> 'src table_predict_ref \<Rightarrow> 'src table_predict_ref \<Rightarrow> bool res" where
  "table_predict_equal eq a b =
     (if tp_alias a \<noteq> tp_alias b \<or> tp_column_aliases a \<noteq> tp_column_aliases b then Inr False
      else (case tp_source a of
          Some x \<Rightarrow> (case tp_source b of None \<Rightarrow> Inl (Undefined ''null pointer'')
            | Some y \<Rightarrow> Inr (eq x y \<and> tp_model a = tp_model b))
        | None \<Rightarrow> Inr (tp_model a = tp_model b)))"

subsection \<open>Case-insensitive maps\<close>

fun ci_put :: "string \<Rightarrow> 'v \<Rightarrow> (string \<times> 'v) list \<Rightarrow> (string \<times> 'v) list" where
  "ci_put k v [] = [(k, v)]"
| "ci_put k v ((k', v') # m) = (if ci_equals k' k then (k', v) # m else (k', v') # ci_put k v m)"

definition ci_find :: "(string \<times> 'v) list \<Rightarrow> string \<Rightarrow> (string \<times> 'v) option" where
  "ci_find m k = find (\<lambda>p. ci_equals (fst p) k) m"

text \<open>The embedding catalog: for a column its last entry. \<open>embs\<close> are the entries in scan order.\<close>

definition embedding_columns :: "(string \<times> string) list \<Rightarrow> (string \<times> string) list" where
  "embedding_columns embs = fold (\<lambda>(c, e) m. ci_put c e m) embs []"

definition add_embeddings :: "(string \<times> string) list \<Rightarrow> string list \<Rightarrow> string list \<times> (string \<times> string) list" where
  "add_embeddings embs ins =
     fold (\<lambda>c (cs, sub). case ci_find (embedding_columns embs) c of
         None \<Rightarrow> (cs, sub) | Some (k, e) \<Rightarrow> (cs @ [e], ci_put k e sub)) ins (ins, [])"

subsection \<open>Binding a table prediction\<close>

definition name_map :: "string list \<Rightarrow> (string \<times> nat) list" where
  "name_map names = fold (\<lambda>(i, n) m. ci_put n i m) (enumerate 0 names) []"

definition feature_error :: "'a res" where
  "feature_error = Inl (BinderException ''Input table should contain the BY feature columns'')"

definition excluding_mask :: "string list \<Rightarrow> string list \<Rightarrow> nat list" where
  "excluding_mask names excludes = map fst (filter (\<lambda>(i, n). n \<notin> set excludes) (enumerate 0 names))"

definition bind_mask :: "string list \<Rightarrow> string list \<Rightarrow> string list \<Rightarrow> nat list res" where
  "bind_mask names ins excludes =
     (if ins \<noteq> [] then traverse (\<lambda>c. case ci_find (name_map names) c of None \<Rightarrow> feature_error | Some (_, i) \<Rightarrow> Inr i) ins
      else if excludes \<noteq> [] then Inr (excluding_mask names excludes)
      else Inr [0..<length names])"

definition bind_opt_mask :: "string list \<Rightarrow> string list \<Rightarrow> string list \<Rightarrow> nat list res" where
  "bind_opt_mask names ins excludes =
     (if ins \<noteq> [] then traverse (\<lambda>c. case find (\<lambda>p. c = snd p) (enumerate 0 names) of
          None \<Rightarrow> feature_error | Some (i, _) \<Rightarrow> Inr i) ins
      else if excludes \<noteq> [] then Inr (excluding_mask names excludes)
      else Inr [0..<length names])"

definition column_names :: "string \<Rightarrow> column_ref list \<Rightarrow> string list res" where
  "column_names what refs = traverse (\<lambda>(t, c). if t \<noteq> None
     then Inl (BinderException (what @ '' expression cannot contain qualified columns'')) else Inr c) refs"

record bound_predict = pinfo +
  bp_type :: model_type
  bp_model :: string
  bp_path :: string
  bp_prompt :: string
  bp_base_api :: string
  bp_secret :: string
  bp_types :: "ltype list"
  bp_opt_mask :: "nat list"
  bp_input_types :: "ltype list"
  bp_options :: options

text \<open>The stored model, completed by the prompt's columns or the embedding's.\<close>

definition prompt_columns :: "string \<Rightarrow> column_ref list \<Rightarrow> model_data \<Rightarrow> model_data res" where
  "prompt_columns task refs d =
     (if md_on_prompt d
      then bindR (traverse (\<lambda>(n, t). mapR (Pair n) (type_to_logical_type t)) (out_matches task)) (\<lambda>outs.
           mapR (\<lambda>ins. d\<lparr>md_outputs := md_outputs d @ outs, md_inputs := md_inputs d @ ins\<rparr>) (column_names ''PREDICT'' refs))
      else Inr d)"

definition embedding_outputs :: "bool \<Rightarrow> column_ref list \<Rightarrow> model_data \<Rightarrow> model_data res" where
  "embedding_outputs is_emb refs d =
     (if is_emb
      then mapR (\<lambda>ins. d\<lparr>md_outputs := md_outputs d @ [(''vec'', OTHER ''FLOAT[384]'')], md_inputs := md_inputs d @ ins\<rparr>)
        (column_names ''EMBED'' refs)
      else Inr d)"

text \<open>The columns of the source: \<open>None\<close> without a source. The model is already selected.\<close>

definition bind_table ::
    "(string \<times> string) list \<Rightarrow> 'src table_predict_ref \<Rightarrow> cols option \<Rightarrow> cols option \<Rightarrow> catalog_model
       \<Rightarrow> (bound_predict \<times> cols) res" where
  "bind_table embs ref src opt_src entry =
     bindR (prompt_columns (tp_prompt ref) (tp_inputs ref) (ce_data entry)) (\<lambda>d.
     bindR (embedding_outputs (tp_embedding ref) (tp_inputs ref) d) (\<lambda>d.
       let online = md_on_prompt d \<or> tp_embedding ref;
           base = \<lparr>input_mask = [], input_set_names = [], embedding_column_map = [], result_set = md_outputs d,
             bp_type = md_type d, bp_model = tp_model ref, bp_path = md_path d, bp_prompt = tp_prompt ref,
             bp_base_api = (if online then md_base_api d else []), bp_secret = (if online then md_secret d else []),
             bp_types = map snd (md_outputs d), bp_opt_mask = [], bp_input_types = [], bp_options = md_options d\<rparr>
       in case src of
          None \<Rightarrow> Inr (base, md_outputs d)
        | Some cs \<Rightarrow>
            let names = map fst cs;
                (ins, sub) = (if md_inputs d = [] then ([], []) else add_embeddings embs (md_inputs d))
            in bindR (bind_mask names ins (md_excludes d)) (\<lambda>cols_of.
               mapR (\<lambda>omask. (base\<lparr>input_mask := cols_of, input_set_names := ins, embedding_column_map := sub,
                     bp_opt_mask := omask, bp_input_types := map snd cs, bp_types := map snd cs @ map snd (md_outputs d)\<rparr>,
                   cs @ md_outputs d))
                 (if md_type d \<noteq> GNN then Inr []
                  else case opt_src of None \<Rightarrow> Inl (Undefined ''null pointer'')
                    | Some os \<Rightarrow> bind_opt_mask (map fst os) (md_opt_inputs d) (md_opt_excludes d)))))"

definition bind_table_predict ::
    "'d dops \<Rightarrow> (string \<times> (int \<times> int) \<times> (int \<times> int) \<times> (int \<times> int)) list \<Rightarrow> 'd strategy \<Rightarrow> catalog_model list list
       \<Rightarrow> (string \<times> string) list \<Rightarrow> 'src table_predict_ref \<Rightarrow> cols option \<Rightarrow> cols option \<Rightarrow> (bound_predict \<times> cols) res" where
  "bind_table_predict d db strat schemas embs ref src opt_src =
     bindR (select_model d db strat schemas (tp_model ref)) (bind_table embs ref src opt_src)"

subsection \<open>Binding a scalar prediction\<close>

text \<open>\<open>column_type\<close> binds a column reference; \<open>secrets\<close> gives the bearer token of a named secret.\<close>

definition bind_predict_expression ::
    "'d dops \<Rightarrow> (string \<times> (int \<times> int) \<times> (int \<times> int) \<times> (int \<times> int)) list \<Rightarrow> 'd strategy \<Rightarrow> catalog_model list list
       \<Rightarrow> (string \<times> string) list \<Rightarrow> (string \<rightharpoonup> string) \<Rightarrow> (column_ref \<Rightarrow> ltype res) \<Rightarrow> predict_expression
       \<Rightarrow> (bound_predict \<times> column_ref list) res" where
  "bind_predict_expression d db strat schemas embs secrets column_type e =
     (let (ins, sub) = add_embeddings embs (pe_inputs e);
          kids = pe_children e @ map (\<lambda>n. (None, n)) (drop (length (pe_inputs e)) ins)
      in bindR (traverse column_type kids) (\<lambda>types.
         bindR (select_model d db strat schemas (pe_model e)) (\<lambda>entry.
           let md = ce_data entry;
               secret = (if md_secret md = [] then Inr []
                 else case secrets (md_secret md) of
                   None \<Rightarrow> Inl (CatalogException (''Secret '' @ md_secret md @ '' for the API is not found in the catalogs!''))
                 | Some token \<Rightarrow> Inr token)
           in mapR (\<lambda>s. (\<lparr>input_mask = [], input_set_names = ins, embedding_column_map = sub, result_set = [pe_out e],
                bp_type = md_type md, bp_model = pe_model e, bp_path = md_path md, bp_prompt = pe_prompt e,
                bp_base_api = md_base_api md, bp_secret = s, bp_types = [], bp_opt_mask = [],
                bp_input_types = types, bp_options = md_options md\<rparr>, kids)) secret)))"

text \<open>\<open>BindAggregate\<close> selects a model by name only: the first one.\<close>

definition aggregate_model :: "catalog_model list list \<Rightarrow> string \<Rightarrow> catalog_model res" where
  "aggregate_model schemas name = (case find (\<lambda>e. entry_name e = name) (concat schemas) of
     None \<Rightarrow> Inl (BinderException (''Model with name '' @ name @ '' does not exist in calatog!'')) | Some e \<Rightarrow> Inr e)"

text \<open>\<open>BoundPredictExpression::Copy\<close> and \<open>LlmAggBindData::Copy\<close>: a fresh record, not every field of
  which is filled. \<open>bp_type\<close> is always copied.\<close>

definition copy_bound :: "bound_predict \<Rightarrow> bound_predict" where
  "copy_bound b = \<lparr>input_mask = [], input_set_names = input_set_names b, embedding_column_map = [],
     result_set = result_set b, bp_type = bp_type b, bp_model = bp_model b, bp_path = bp_path b, bp_prompt = bp_prompt b,
     bp_base_api = bp_base_api b, bp_secret = bp_secret b, bp_types = [], bp_opt_mask = [],
     bp_input_types = bp_input_types b, bp_options = []\<rparr>"

definition bound_equal :: "bound_predict \<Rightarrow> bound_predict \<Rightarrow> bool" where
  "bound_equal a b \<longleftrightarrow> bp_type a = bp_type b \<and> bp_model a = bp_model b \<and> bp_path a = bp_path b \<and> bp_prompt a = bp_prompt b"

subsection \<open>Case-insensitive maps, again\<close>

lemma ci_equals_equiv: "ci_equals a a" "ci_equals a b \<Longrightarrow> ci_equals b a" "ci_equals a b \<Longrightarrow> ci_equals b c \<Longrightarrow> ci_equals a c"
  by (simp_all add: ci_equals_def)

lemma ci_find_put:
  "map_option snd (ci_find (ci_put k v m) k') = (if ci_equals k k' then Some v else map_option snd (ci_find m k'))"
proof (induction m)
  case (Cons p m)
  obtain k1 v1 where p: "p = (k1, v1)" by (cases p)
  show ?case
  proof (cases "ci_equals k1 k")
    case True
    then have "ci_equals k1 k' \<longleftrightarrow> ci_equals k k'" using ci_equals_equiv by blast
    then show ?thesis using True p by (simp add: ci_find_def)
  next
    case False
    show ?thesis
    proof (cases "ci_equals k1 k'")
      case True
      then have "\<not> ci_equals k k'" using False ci_equals_equiv by blast
      then show ?thesis using False True p by (simp add: ci_find_def)
    next
      case other: False
      then show ?thesis using Cons False p by (simp add: ci_find_def)
    qed
  qed
qed (simp add: ci_find_def)

text \<open>A table filled in order gives the last entry of a key.\<close>

definition last_ci :: "(string \<times> 'v) list \<Rightarrow> string \<Rightarrow> 'v option" where
  "last_ci ps k = map_option snd (find (\<lambda>p. ci_equals (fst p) k) (rev ps))"

lemma find_append: "find P (xs @ ys) = (case find P xs of None \<Rightarrow> find P ys | Some x \<Rightarrow> Some x)"
  by (induction xs) simp_all

lemma ci_table: "map_option snd (ci_find (fold (\<lambda>(c, v) m. ci_put c v m) ps []) k) = last_ci ps k"
proof (induction ps rule: rev_induct)
  case (snoc p ps)
  obtain c v where "p = (c, v)" by (cases p)
  then show ?case using snoc by (simp add: ci_find_put last_ci_def)
qed (simp add: ci_find_def last_ci_def)

lemma last_ci_Some:
  assumes "last_ci (map (\<lambda>(i, n). (n, i)) (enumerate 0 names)) c = Some i"
  shows "i < length names \<and> ci_equals (names ! i) c \<and> (\<forall>j. i < j \<and> j < length names \<longrightarrow> \<not> ci_equals (names ! j) c)"
  using assms
proof (induction names rule: rev_induct)
  case (snoc n names)
  show ?case
  proof (cases "ci_equals n c")
    case True
    then show ?thesis using snoc.prems by (auto simp: last_ci_def enumerate_append_eq)
  next
    case False
    then have "last_ci (map (\<lambda>(i, n). (n, i)) (enumerate 0 names)) c = Some i"
      using snoc.prems by (simp add: last_ci_def enumerate_append_eq)
    then show ?thesis using snoc.IH False by (auto simp: nth_append less_Suc_eq)
  qed
qed (simp add: last_ci_def)

lemma name_map_find:
  "map_option snd (ci_find (name_map names) c) = last_ci (map (\<lambda>(i, n). (n, i)) (enumerate 0 names)) c"
proof -
  have "fold (\<lambda>(i, n) m. ci_put n i m) xs m = fold (\<lambda>(c, v) m. ci_put c v m) (map (\<lambda>(i, n). (n, i)) xs) m" for xs m
    by (induction xs arbitrary: m) auto
  from this [of "enumerate 0 names" "[]"] show ?thesis unfolding name_map_def by (simp only: ci_table)
qed

text \<open>What a mask says about the columns it was bound to.\<close>

definition resolves :: "string list \<Rightarrow> string list \<Rightarrow> nat list \<Rightarrow> bool" where
  "resolves names ins cols_of \<longleftrightarrow> length cols_of = length ins \<and> (\<forall>k < length ins. cols_of ! k < length names \<and>
     ci_equals (names ! (cols_of ! k)) (ins ! k) \<and>
     (\<forall>j. cols_of ! k < j \<and> j < length names \<longrightarrow> \<not> ci_equals (names ! j) (ins ! k)))"

lemma bind_mask_resolves:
  assumes "bind_mask names ins excludes = Inr cols_of" "ins \<noteq> []"
  shows "resolves names ins cols_of"
proof -
  have tr: "traverse (\<lambda>c. case ci_find (name_map names) c of None \<Rightarrow> feature_error | Some (_, i) \<Rightarrow> Inr i) ins = Inr cols_of"
    using assms by (simp add: bind_mask_def)
  have "last_ci (map (\<lambda>(i, n). (n, i)) (enumerate 0 names)) (ins ! k) = Some (cols_of ! k)" if "k < length ins" for k
  proof -
    have "(case ci_find (name_map names) (ins ! k) of None \<Rightarrow> feature_error | Some (_, i) \<Rightarrow> Inr i) = Inr (cols_of ! k)"
      using tr that unfolding traverse_Inr_iff by blast
    then have "map_option snd (ci_find (name_map names) (ins ! k)) = Some (cols_of ! k)"
      by (auto simp: feature_error_def split: option.splits)
    then show ?thesis unfolding name_map_find .
  qed
  moreover have "length cols_of = length ins" using tr unfolding traverse_Inr_iff by blast
  ultimately show ?thesis using last_ci_Some unfolding resolves_def by blast
qed

lemma bind_mask_unnamed:
  assumes "bind_mask names [] excludes = Inr cols_of"
  shows "cols_of = map fst (filter (\<lambda>(i, n). excludes = [] \<or> n \<notin> set excludes) (enumerate 0 names))"
  using assms by (cases "excludes = []") (auto simp: bind_mask_def excluding_mask_def split_def)

lemma add_embeddings_prefix: "\<exists>es. fst (add_embeddings embs ins) = ins @ es"
proof -
  have "\<exists>es. fst (fold (\<lambda>c (cs, sub). case ci_find (embedding_columns embs) c of
      None \<Rightarrow> (cs, sub) | Some (k, e) \<Rightarrow> (cs @ [e], ci_put k e sub)) xs (cs0, sub0)) = cs0 @ es" for xs cs0 sub0
  proof (induction xs arbitrary: cs0 sub0)
    case (Cons x xs)
    show ?case
    proof (cases "ci_find (embedding_columns embs) x")
      case None
      then show ?thesis using Cons by simp
    next
      case (Some p)
      obtain k e where "p = (k, e)" by (cases p)
      then show ?thesis using Some Cons [of "cs0 @ [e]" "ci_put k e sub0"] by auto
    qed
  qed simp
  then show ?thesis unfolding add_embeddings_def by blast
qed

lemma bind_table_spec:
  assumes "bind_table embs ref (Some cs) opt entry = Inr (b, cols)"
  shows "cols = cs @ result_set b"
    and "input_set_names b \<noteq> [] \<Longrightarrow> resolves (map fst cs) (input_set_names b) (input_mask b)"
    and "input_set_names b = [] \<Longrightarrow> input_mask b = map fst (filter (\<lambda>(i, n). md_excludes (ce_data entry) = [] \<or>
       n \<notin> set (md_excludes (ce_data entry))) (enumerate 0 (map fst cs)))"
proof -
  obtain d1 where d1: "prompt_columns (tp_prompt ref) (tp_inputs ref) (ce_data entry) = Inr d1"
    using assms by (auto simp: bind_table_def bindR_Inr_iff)
  obtain d where d: "embedding_outputs (tp_embedding ref) (tp_inputs ref) d1 = Inr d"
    using assms d1 by (auto simp: bind_table_def bindR_Inr_iff)
  have ex: "md_excludes d = md_excludes (ce_data entry)"
    using d1 d by (auto simp: prompt_columns_def embedding_outputs_def bindR_Inr_iff mapR_Inr_iff split: if_splits)
  obtain ins sub where ins: "(if md_inputs d = [] then ([], []) else add_embeddings embs (md_inputs d)) = (ins, sub)" by fastforce
  have "\<exists>cols_of. bind_mask (map fst cs) ins (md_excludes d) = Inr cols_of \<and> input_mask b = cols_of \<and> input_set_names b = ins \<and>
      result_set b = md_outputs d \<and> cols = cs @ md_outputs d"
    using assms unfolding bind_table_def d1 d bindR_simps Let_def option.case ins prod.case
    by (auto simp: bindR_Inr_iff mapR_Inr_iff)
  then obtain cols_of where m: "bind_mask (map fst cs) ins (md_excludes d) = Inr cols_of" "input_mask b = cols_of"
    "input_set_names b = ins" "result_set b = md_outputs d" "cols = cs @ md_outputs d" by blast
  show "cols = cs @ result_set b" using m by simp
  show "resolves (map fst cs) (input_set_names b) (input_mask b)" if "input_set_names b \<noteq> []"
    using bind_mask_resolves [OF m(1)] that m by simp
  show "input_mask b = map fst (filter (\<lambda>(i, n). md_excludes (ce_data entry) = [] \<or>
       n \<notin> set (md_excludes (ce_data entry))) (enumerate 0 (map fst cs)))" if "input_set_names b = []"
    using bind_mask_unnamed [of "map fst cs" "md_excludes d" cols_of] that m ex by simp
qed

lemma completed_model:
  assumes "prompt_columns task refs d0 = Inr d1" "embedding_outputs is_emb refs d1 = Inr d"
  shows "\<exists>outs ins. md_outputs d = md_outputs d0 @ outs \<and> md_inputs d = md_inputs d0 @ ins"
  using assms by (auto simp: prompt_columns_def embedding_outputs_def bindR_Inr_iff mapR_Inr_iff split: if_splits)

lemma bind_table_columns:
  assumes "bind_table embs ref (Some cs) opt entry = Inr (b, cols)"
  shows "take (length (md_outputs (ce_data entry))) (result_set b) = md_outputs (ce_data entry)"
    and "take (length (md_inputs (ce_data entry))) (input_set_names b) = md_inputs (ce_data entry)"
proof -
  obtain d1 d where d: "prompt_columns (tp_prompt ref) (tp_inputs ref) (ce_data entry) = Inr d1"
    "embedding_outputs (tp_embedding ref) (tp_inputs ref) d1 = Inr d"
    using assms by (auto simp: bind_table_def bindR_Inr_iff)
  obtain ins sub where ins: "(if md_inputs d = [] then ([], []) else add_embeddings embs (md_inputs d)) = (ins, sub)" by fastforce
  then obtain es where es: "ins = md_inputs d @ es"
    using add_embeddings_prefix [of embs "md_inputs d"] by (auto split: if_splits)
  have "input_set_names b = ins" "result_set b = md_outputs d"
    using assms unfolding bind_table_def d bindR_simps Let_def option.case ins prod.case
    by (auto simp: bindR_Inr_iff mapR_Inr_iff)
  with completed_model [OF d] es
  show "take (length (md_outputs (ce_data entry))) (result_set b) = md_outputs (ce_data entry)"
    and "take (length (md_inputs (ce_data entry))) (input_set_names b) = md_inputs (ce_data entry)" by auto
qed


definition demo_entry :: catalog_model where
  "demo_entry = model_catalog_entry [] [] \<lparr>ci_catalog = [], ci_schema = [], ci_name = ''m'', ci_temporary = False,
     ci_conflict = ErrorOnConflict, ci_comment = [], ci_data = new_model_data\<lparr>md_type := LLM, md_on_prompt := True\<rparr>\<rparr>"

definition demo_ref :: "unit table_predict_ref" where
  "demo_ref = transform_table_predict ''m'' (Some ''y BOOL{{A}}'') None (Some ()) None [] []"

definition demo_cols :: cols where
  "demo_cols = [(''a'', INTEGER), (''b'', VARCHAR), (''A_vec'', OTHER ''FLOAT[384]'')]"

lemma demo_bound: "\<exists>b cols. bind_table_predict frac_ops metrics_db FirstModel [[demo_entry]] [(''a'', ''a_vec'')] demo_ref (Some demo_cols) None
    = Inr (b, cols) \<and> input_set_names b = [''A'', ''a_vec''] \<and> input_mask b = [0, 2]"
proof -
  have "in_matches False ''y BOOL{{A}}'' = [''A'']" by code_simp
  moreover have "out_matches ''y BOOL{{A}}'' = [(''y'', ''BOOL'')]" by code_simp
  moreover have "add_embeddings [(''a'', ''a_vec'')] [''A''] = ([''A'', ''a_vec''], [(''a'', ''a_vec'')])" by code_simp
  moreover have "bind_mask (map fst demo_cols) [''A'', ''a_vec''] [] = Inr [0, 2]" by code_simp
  ultimately show ?thesis
    by (simp add: bind_table_predict_def select_model_def last_named_def bind_table_def prompt_columns_def embedding_outputs_def
        demo_entry_def demo_ref_def model_catalog_entry_def transform_table_predict_def new_model_data_def text_of_def
        column_names_def make_column_ref_def type_to_logical_type_def Let_def)
qed

definition demo_all :: catalog_model where
  "demo_all = demo_entry\<lparr>ce_data := new_model_data\<lparr>md_excludes := [''b'']\<rparr>\<rparr>"

lemma demo_selected: "select_model frac_ops metrics_db FirstModel [[demo_entry]] ''m'' = Inr demo_entry"
  "select_model frac_ops metrics_db FirstModel [[demo_all]] ''m'' = Inr demo_all"
  by (simp_all add: select_model_def last_named_def demo_entry_def demo_all_def model_catalog_entry_def new_model_data_def Let_def)

lemma demo_ref_model: "tp_model demo_ref = ''m''"
  by (simp add: demo_ref_def transform_table_predict_def)

lemma demo_bound_all: "\<exists>b cols. bind_table_predict frac_ops metrics_db FirstModel [[demo_all]] [] demo_ref (Some demo_cols) None
    = Inr (b, cols) \<and> input_set_names b = []"
proof -
  have "bind_mask (map fst demo_cols) [] [''b''] = Inr [0, 2]" by code_simp
  with demo_selected(2) show ?thesis
    by (simp add: bind_table_predict_def bind_table_def prompt_columns_def embedding_outputs_def
        demo_all_def demo_ref_def transform_table_predict_def new_model_data_def text_of_def)
qed


subsection \<open>Placeholders\<close>

definition valid_ident :: "string \<Rightarrow> bool" where
  "valid_ident a \<longleftrightarrow> a \<noteq> [] \<and> (is_alpha (hd a) \<or> hd a = CHR ''_'') \<and> list_all is_word a"

lemma match_in_brace: "CHR ''{'' \<noteq> c \<Longrightarrow> match_in q (c # cs) = None"
  by (simp add: match_in_def)

lemma in_matches_skip: "CHR ''{'' \<notin> set t \<Longrightarrow> in_matches q (t @ s) = in_matches q s"
  by (induction t) (simp_all add: in_matches.simps [of _ "_ # _"] match_in_brace)

lemma match_in_placeholder:
  assumes "valid_ident a"
  shows "match_in q (''{{'' @ a @ ''}}'' @ s) = Some (a, s)"
proof -
  obtain c cs where a: "a = c # cs" "is_alpha c \<or> c = CHR ''_''" "list_all is_word cs"
    using assms by (cases a) (auto simp: valid_ident_def)
  have close: "\<not> is_word (CHR ''}'')" by code_simp
  have words: "\<forall>x \<in> set cs. is_word x" using a(3) by (simp add: list_all_iff)
  have "takeWhile is_word (cs @ CHR ''}'' # r) = cs" "dropWhile is_word (cs @ CHR ''}'' # r) = CHR ''}'' # r" for r
    using words close by (simp_all add: takeWhile_append2 dropWhile_append2)
  then have "ident (a @ ''}}'' @ s) = Some (a, ''}}'' @ s)" using a by (simp add: ident_def)
  then show ?thesis by (simp add: match_in_def numeral_2_eq_2)
qed

lemma in_matches_segments:
  assumes "\<forall>(t, a) \<in> set segs. CHR ''{'' \<notin> set t \<and> valid_ident a" "CHR ''{'' \<notin> set tail"
  shows "in_matches q (concat (map (\<lambda>(t, a). t @ ''{{'' @ a @ ''}}'') segs) @ tail) = map snd segs"
  using assms(1)
proof (induction segs)
  case Nil
  then show ?case using in_matches_skip [OF assms(2), of q "[]"] by (simp add: in_matches.simps)
next
  case (Cons p segs)
  obtain t a where p: "p = (t, a)" by (cases p)
  let ?rest = "concat (map (\<lambda>(t, a). t @ ''{{'' @ a @ ''}}'') segs) @ tail"
  have "in_matches q (''{{'' @ a @ ''}}'' @ ?rest) = a # in_matches q ?rest"
    using match_in_placeholder [of a q ?rest] Cons.prems p by (subst in_matches.simps) simp
  then show ?case using Cons p in_matches_skip [of t q "''{{'' @ a @ ''}}'' @ ?rest"] by simp
qed

lemma ident_column: "valid_ident a \<Longrightarrow> make_column_ref a = (None, a)"
proof -
  assume a: "valid_ident a"
  have dot: "\<not> is_word (CHR ''.'')" by code_simp
  have "takeWhile (\<lambda>c. c \<noteq> CHR ''.'') a = a" using a dot
    by (intro takeWhile_eq_all_conv [THEN iffD2]) (auto simp: valid_ident_def list_all_iff)
  then show ?thesis by (simp add: make_column_ref_def)
qed

text \<open>The inputs of a scalar prediction are the placeholders of its prompt, in order: for a prompt
  written as texts without braces between placeholders of column names, exactly those names, each
  bound as an unqualified column.\<close>
lemma predict_inputs_roundtrip:
  assumes "\<forall>(t, a) \<in> set segs. CHR ''{'' \<notin> set t \<and> valid_ident a" "CHR ''{'' \<notin> set tail"
    and "transform_predict model (concat (map (\<lambda>(t, a). t @ ''{{'' @ a @ ''}}'') segs) @ tail) agg = Inr e"
  shows "pe_inputs e = map snd segs \<and> pe_children e = map (\<lambda>a. (None, a)) (pe_inputs e)"
proof -
  have "pe_inputs e = map snd segs" "pe_children e = map make_column_ref (map snd segs)"
    using assms(3) in_matches_segments [OF assms(1,2), of True]
    by (auto simp: transform_predict_def mapR_Inr_iff Let_def)
  moreover have "map make_column_ref (map snd segs) = map (\<lambda>a. (None, a)) (map snd segs)"
    using assms(1) ident_column by (intro map_cong) auto
  ultimately show ?thesis by simp
qed

lemma predict_inputs_roundtrip_witness:
  "\<exists>e. transform_predict ''m'' ''{{a}}~{{b_1}}?'' False = Inr e \<and> pe_inputs e = [''a'', ''b_1''] \<and>
    pe_children e = [(None, ''a''), (None, ''b_1'')]"
proof -
  let ?segs = "[([], ''a''), (''~'', ''b_1'')]"
  have "out_matches ''{{a}}~{{b_1}}?'' = []" by code_simp
  then obtain e where e: "transform_predict ''m'' ''{{a}}~{{b_1}}?'' False = Inr e"
    by (simp add: transform_predict_def)
  have "valid_ident ''a''" "valid_ident ''b_1''" by code_simp+
  then have "\<forall>(t, a) \<in> set ?segs. CHR ''{'' \<notin> set t \<and> valid_ident a" by simp
  from predict_inputs_roundtrip [OF this, of "''?''" "''m''" False e] e show ?thesis by simp
qed

subsection \<open>Copies\<close>

text \<open>How a scalar prediction starts to execute: every child is an input.\<close>

definition execution_info :: "bound_predict \<Rightarrow> column_ref list \<Rightarrow> bound_predict" where
  "execution_info b kids = b\<lparr>input_mask := input_mask b @ [0..<length kids]\<rparr>"

text \<open>The copy of a bound prediction compares equal to it and yet is the same exactly if the
  prediction has no mask, no embedding columns, no result types, no second mask and no options: an
  optimizer that copies the expression makes it run with default options and with its embedding
  columns in the prompt.\<close>
lemma copy_bound_faithful_iff:
  "bound_equal (copy_bound b) b \<and>
   (execution_info (copy_bound b) kids = execution_info b kids \<longleftrightarrow>
     input_mask b = [] \<and> embedding_column_map b = [] \<and> bp_types b = [] \<and> bp_opt_mask b = [] \<and> bp_options b = [])"
  by (cases b) (auto simp: bound_equal_def copy_bound_def execution_info_def)

text \<open>A model name that several entries have means the last of them to a scalar prediction and the
  first of them to an aggregate.\<close>
lemma aggregate_and_scalar_models_differ:
  assumes "name \<noteq> []" "concat schemas = e1 # es @ [e2]" "entry_name e1 = name" "entry_name e2 = name"
  shows "aggregate_model schemas name = Inr e1 \<and> select_model d db strat schemas name = Inr e2"
proof -
  have "last_named name (concat schemas) = Some (Suc (length es))"
    using assms(4) last_named_snoc [of name "e1 # es" e2] unfolding assms(2) by simp
  then show ?thesis using assms by (simp add: aggregate_model_def select_model_def nth_append)
qed

lemma aggregate_and_scalar_models_differ_witness:
  "aggregate_model [[demo_entry], [demo_entry\<lparr>entry_path := ''gpt-5''\<rparr>]] ''m'' = Inr demo_entry \<and>
   select_model frac_ops metrics_db FirstModel [[demo_entry], [demo_entry\<lparr>entry_path := ''gpt-5''\<rparr>]] ''m''
     = Inr (demo_entry\<lparr>entry_path := ''gpt-5''\<rparr>)"
  by (rule aggregate_and_scalar_models_differ [where es = "[]"]) (simp_all add: demo_entry_def model_catalog_entry_def)

end
