(* ===== verification/Typing.thy ===== *)
theory Typing
  imports Predictor
begin

section \<open>The cells of a predicted chunk are well typed\<close>

text \<open>
  A result chunk has a declared type per column. Everything \<open>PredictChunk\<close> writes goes through
  \<open>populate_row_data\<close> and \<open>fill_null\<close>; the typing of a cell is carried from there through the array
  overloads, the cache, the batches and the retries.
\<close>

text \<open>A value of a type: NULL, or the constructor of the type; an integer fits 32 bits.\<close>

fun has_type :: "ltype \<Rightarrow> 'd val \<Rightarrow> bool" where
  "has_type _ VNull = True"
| "has_type VARCHAR (VStr _) = True"
| "has_type INTEGER (VInt i) = in_int32 i"
| "has_type DOUBLE (VDouble _) = True"
| "has_type BOOLEAN (VBool _) = True"
| "has_type _ _ = False"

definition typed_chunk :: "cols \<Rightarrow> 'd chunk \<Rightarrow> bool" where
  "typed_chunk cols ch \<longleftrightarrow> (\<forall>k r. k < length cols \<longrightarrow> has_type (snd (cols ! k)) (cells ch k r))"

text \<open>What the JSON library promises: a float read as an \<open>int\<close> is one.\<close>

definition int_reader :: "'d jlib \<Rightarrow> bool" where
  "int_reader lib \<longleftrightarrow> (\<forall>d. in_int32 (j_to_int lib d))"

named_theorems typing

lemma typed_set_value [typing]:
  "typed_chunk cols ch \<Longrightarrow> (k < length cols \<Longrightarrow> has_type (snd (cols ! k)) v) \<Longrightarrow> typed_chunk cols (set_value k r v ch)"
  by (auto simp: typed_chunk_def)

lemma typed_card [typing]: "typed_chunk cols ch \<Longrightarrow> typed_chunk cols (ch\<lparr>card := n\<rparr>)"
  by (simp add: typed_chunk_def)

lemma has_type_member:
  "int_reader lib \<Longrightarrow> convert_member lib t m = Inr v \<Longrightarrow> has_type t v"
  by (auto simp: convert_member_def extract_longest_integer_def int_reader_def Let_def mapR_Inr_iff in_int32_to_int32
      split: ltype.splits json.splits if_splits)

lemma has_type_cell: "int_reader lib \<Longrightarrow> cell_value lib j c = Inr v \<Longrightarrow> has_type (snd c) v"
  by (auto simp: cell_value_def catch_cell_def dest: has_type_member split: option.splits sum.splits exn.splits)

lemma typed_populate [typing]:
  assumes "int_reader lib" "populate_row_data lib cols j row out = Inr ch" "typed_chunk cols out"
  shows "typed_chunk cols ch"
  using assms(2)[unfolded populate_row_data_def] assms(3)
proof (rule foldR_invariant)
  fix x u v
  assume x: "x \<in> set (enumerate 0 cols)" and u: "typed_chunk cols u"
    and v: "(case x of (k, c) \<Rightarrow> \<lambda>ch. mapR (\<lambda>v. set_value k row v ch) (cell_value lib j c)) u = Inr v"
  obtain k c where kc: "x = (k, c)" "cols ! k = c" using x [unfolded in_set_enumerate_eq] by (intro that [of "fst x" "snd x"]) auto
  then obtain w where "cell_value lib j c = Inr w" "v = set_value k row w u" using v by (auto simp: mapR_Inr_iff)
  then show "typed_chunk cols v" using u kc(2) has_type_cell [OF assms(1), of j c w] by (auto intro: typed_set_value)
qed

lemma typed_fill_null [typing]: "typed_chunk cols ch \<Longrightarrow> typed_chunk cols (fill_null cols row ch)"
proof -
  assume "typed_chunk cols ch"
  then have "typed_chunk cols (fold (\<lambda>k. set_value k row VNull) ks ch)" for ks
    by (induction ks arbitrary: ch) (simp_all add: typed_set_value)
  then show ?thesis by (simp add: fill_null_def)
qed

lemma typed_fill_nulls [typing]: "typed_chunk cols ch \<Longrightarrow> typed_chunk cols (fill_nulls cols rows ch)"
  unfolding fill_nulls_def by (induction rows arbitrary: ch) (simp_all add: typed_fill_null)

lemma typed_row [typing]:
  "int_reader lib \<Longrightarrow> extract_row_data lib cols t row out = Inr ch \<Longrightarrow> typed_chunk cols out \<Longrightarrow> typed_chunk cols ch"
  by (auto simp: extract_row_data_def intro: typing split: sum.splits option.splits)

lemma typed_rows [typing]:
  assumes "int_reader lib" "extract_array_rows lib cols t rows out n = Inr ch" "typed_chunk cols out"
  shows "typed_chunk cols ch"
proof (cases "reply_array lib t")
  case None
  then show ?thesis using assms by (auto simp: extract_array_rows_def intro: typing)
next
  case (Some a)
  then obtain ch' where
    fold: "foldR (\<lambda>(i, j). populate_row_data lib cols j (rows ! i)) (enumerate 0 (take n a)) out = Inr ch'"
    and ch: "ch = (if length a < n then fill_nulls cols (map (\<lambda>i. rows ! i) [length a..<n]) ch' else ch')"
    using assms(2) by (auto simp: extract_array_rows_def bindR_Inr_iff)
  have "typed_chunk cols ch'" using fold assms(3)
    by (rule foldR_invariant) (auto dest: typed_populate [OF assms(1)])
  then show ?thesis by (simp add: ch typed_fill_nulls)
qed

lemma typed_dedup [typing]:
  assumes "int_reader lib" "extract_array_dedup lib cols t m i n st = Inr r" "typed_chunk cols (snd st)"
  shows "typed_chunk cols (snd r)"
proof (cases "reply_array_dedup lib t")
  case None
  then show ?thesis using assms by (auto simp: extract_array_dedup_def intro: typing)
next
  case (Some a)
  then obtain c ch where fold: "foldR (dedup_element lib cols m) (enumerate i a) st = Inr (c, ch)"
    and r: "snd r = (if i + length a < i + n - 1 then fill_nulls cols [i + length a..<i + n] ch else ch)"
    using assms(2) by (auto simp: extract_array_dedup_def bindR_Inr_iff)
  have "typed_chunk cols (snd (c, ch))" using fold assms(3)
  proof (rule foldR_invariant [where P = "\<lambda>s. typed_chunk cols (snd s)"])
    fix x u v
    assume "typed_chunk cols (snd u)" "dedup_element lib cols m x u = Inr v"
    then show "typed_chunk cols (snd v)"
      by (auto simp: dedup_element_def mapR_Inr_iff split: prod.splits if_splits
          elim!: foldR_invariant [where P = "typed_chunk cols"] dest: typed_populate [OF assms(1)])
  qed
  then show ?thesis by (simp add: r typed_fill_nulls)
qed

text \<open>The state of a prediction whose result chunk is typed.\<close>

abbreviation typed_state :: "pinfo \<Rightarrow> 'd pstate \<Rightarrow> bool" where
  "typed_state info st \<equiv> typed_chunk (result_set info) (result st)"

lemma typed_classify:
  assumes "int_reader lib" "classify_rows lib p info inp rows st = Inr st'" "typed_state info st"
  shows "typed_state info st'"
proof -
  obtain u where u: "foldR (classify_row lib p info inp) [0..<rows] st = Inr u" "result st' = result u"
    using assms(2) by (auto simp: classify_rows_def mapR_Inr_iff)
  from u(1) assms(3) have "typed_state info u"
    by (rule foldR_invariant)
      (auto simp: classify_row_def bindR_Inr_iff mapR_Inr_iff dest: typed_row [OF assms(1)] split: bool.splits option.splits)
  then show ?thesis using u(2) by simp
qed

lemma typed_propagate:
  assumes "int_reader lib" "propagate_single_result lib p info t idx st = Inr st'" "typed_state info st"
  shows "typed_state info st'"
proof -
  have step: "typed_state info v" if "typed_state info u"
    "mapR (\<lambda>ch. u\<lparr>result := ch\<rparr>) (extract_row_data lib (result_set info) t tid (result u)) = Inr v" for u v tid
    using that typed_row [OF assms(1)] by (auto simp: mapR_Inr_iff)
  show ?thesis
  proof (cases "use_cache p \<and> idx < length (tuple_id_map st)")
    case True
    obtain key ids where "tuple_id_map st ! idx = (key, ids)" by fastforce
    then have "foldR (\<lambda>tid st. mapR (\<lambda>ch. st\<lparr>result := ch\<rparr>) (extract_row_data lib (result_set info) t tid (result st))) ids
        (st\<lparr>cache := (cache st)(key \<mapsto> t)\<rparr>) = Inr st'"
      using assms(2) True by (simp add: propagate_single_result_def Let_def)
    then show ?thesis by (rule foldR_invariant) (use assms(3) step in auto)
  next
    case False
    then show ?thesis using assms(2,3) step by (auto simp: propagate_single_result_def split: if_splits)
  qed
qed

lemma typed_process:
  assumes "int_reader lib" "process_result lib p info r st = Inr st'" "typed_state info st"
  shows "typed_state info st'"
proof (cases "is_concat r")
  case True
  then show ?thesis
    using assms(2,3) typed_dedup [OF assms(1)] typed_rows [OF assms(1)]
    by (fastforce simp: process_result_def Let_def mapR_Inr_iff split: if_splits)
next
  case False
  then have "foldR (\<lambda>i st. if i < length (outputs r)
                 then propagate_single_result lib p info (outputs r ! i) (frow r + i) st
                 else Inl (Undefined ''outputs[i] past the end''))
          [0..<n_rows r] (count_result r st) = Inr st'"
    using assms(2) by (simp add: process_result_def Let_def)
  then show ?thesis
    by (rule foldR_invariant) (use assms(3) typed_propagate [OF assms(1)] in \<open>auto split: if_splits\<close>)
qed

lemma typed_retry:
  assumes "int_reader lib" "retry_row lib api p info i st = Inr st'" "typed_state info st"
  shows "typed_state info st'"
  using assms(2,3) typed_propagate [OF assms(1)]
  by (fastforce simp: retry_row_def bindR_Inr_iff Let_def split: if_splits)

text \<open>C10: a prediction over a chunk keeps the declared types: whatever the model replies and whichever
  batches fail, every cell of the result is NULL or a value of its column's type, and every INTEGER fits
  32 bits.\<close>
theorem predict_chunk_typed:
  assumes lib: "int_reader lib" and run: "predict_chunk lib api p info inp rows out cache0 = Some (Inr st)"
    and out: "typed_chunk (result_set info) out"
  shows "typed_chunk (result_set info) (result st)"
proof -
  obtain s where s: "classify_rows lib p info inp rows (initial_state out cache0) = Inr s"
      "run_batches lib api p info s = Some (Inr st)"
    using run by (auto simp: predict_chunk_def split: sum.splits)
  have ts: "typed_state info s" using typed_classify [OF lib s(1)] out by simp
  obtain groups imp u where u: "foldR (run_batch lib api p info imp) (concat groups) s = Inr u"
      "foldR (retry_row lib api p info) (batch_fails u) u = Inr st"
    using s(2) by (auto simp: run_batches_def Let_def bindR_Inr_iff split: sum.splits)
  from u(1) ts have "typed_state info u"
    by (rule foldR_invariant) (auto simp: run_batch_def bindR_Inr_iff dest: typed_process [OF lib])
  with u(2) show ?thesis
    by (rule foldR_invariant) (auto dest: typed_retry [OF lib])
qed

declare schedule.simps [code]

definition typed_lib :: "int jlib" where
  "typed_lib = demo_lib\<lparr>j_to_int := to_int32\<rparr>"

definition typed_start :: "int chunk" where
  "typed_start = demo_chunk\<lparr>cells := \<lambda>_ _. VNull\<rparr>"

theorem predict_chunk_typed_witness:
  "case predict_chunk typed_lib demo_api demo_predictor demo_info demo_input 3 typed_start Map.empty of
     Some (Inr st) \<Rightarrow> typed_chunk demo_cols (result st) | _ \<Rightarrow> False"
proof -
  have "case predict_chunk typed_lib demo_api demo_predictor demo_info demo_input 3 typed_start Map.empty of
     Some (Inr st) \<Rightarrow> True | _ \<Rightarrow> False" by code_simp
  then obtain st where
    st: "predict_chunk typed_lib demo_api demo_predictor demo_info demo_input 3 typed_start Map.empty = Some (Inr st)"
    by (auto split: option.splits sum.splits)
  have lib: "int_reader typed_lib" by (simp add: int_reader_def typed_lib_def in_int32_to_int32)
  have cols: "result_set demo_info = demo_cols" by code_simp
  have "typed_chunk (result_set demo_info) typed_start" by (simp add: typed_chunk_def typed_start_def)
  from predict_chunk_typed [OF lib st this] show ?thesis using st cols by simp
qed

end
