(* ===== verification/Plan.thy ===== *)
theory Plan
  imports Binding
begin

section \<open>Logical plans\<close>

text \<open>
  The part of the logical plan the prediction rules of the optimizer read and rewrite: column
  bindings (\<open>column_binding.hpp\<close>), bound expressions, the operators of
  \<open>src/planner/operator\<close> with the bindings and types they output, the traversal of expressions
  (\<open>expression_iterator.cpp\<close>) and of operators (\<open>logical_operator_visitor.cpp\<close>), and
  \<open>ColumnBindingReplacer\<close>. The meaning of expressions and of the two operators a rewrite introduces
  is given on rows that map bindings to values.
\<close>

subsection \<open>Expressions and operators\<close>

type_synonym binding = "nat \<times> nat"

datatype comparison =
    COMPARE_EQUAL | COMPARE_NOTEQUAL | COMPARE_LESSTHAN | COMPARE_GREATERTHAN
  | COMPARE_LESSTHANOREQUALTO | COMPARE_GREATERTHANOREQUALTO

text \<open>\<open>OtherExpr\<close> stands for every other class, with the children the iterator enumerates.\<close>

datatype bexpr =
    ColumnRef ltype binding
  | PredictExpr ltype bound_predict "bexpr list"
  | ComparisonExpr comparison bexpr bexpr
  | OtherExpr nat ltype "bexpr list"

fun expr_children :: "bexpr \<Rightarrow> bexpr list" where
  "expr_children (ColumnRef _ _) = []"
| "expr_children (PredictExpr _ _ es) = es"
| "expr_children (ComparisonExpr _ l r) = [l, r]"
| "expr_children (OtherExpr _ _ es) = es"

fun return_type :: "bexpr \<Rightarrow> ltype" where
  "return_type (ColumnRef t _) = t"
| "return_type (PredictExpr t _ _) = t"
| "return_type (ComparisonExpr _ _ _) = BOOLEAN"
| "return_type (OtherExpr _ t _) = t"

datatype join_kind = AnyKindJoin | ComparisonJoin | DelimJoin | AsofJoin | BaseJoin

datatype join_type =
    JoinInner | JoinLeft | JoinRight | JoinOuter | JoinSemi | JoinAnti | JoinMark | JoinSingle
  | JoinRightSemi | JoinRightAnti

text \<open>\<open>BoundLimitNode\<close>: the kinds of a LIMIT or an OFFSET. A percentage is a double, kept as its bits.\<close>

datatype limit_node =
    LimitUnset | LimitConstant nat | LimitPercentage int | LimitExpression bexpr | LimitExpressionPercentage bexpr

text \<open>
  The fields of each operator class. A filter carries its address, by which a visitor recognises
  it. A join has the comparisons of its conditions, whose sides are among its expressions;
  a set operation has its column count and whether it is ALL; \<open>LogicalDistinct\<close> says whether it is a DISTINCT ON. \<open>LogicalGet\<close> has the types of its column ids;
  \<open>LogicalOther\<close> is every remaining class, which outputs the columns given or, with \<open>None\<close>, those of
  its first child.
\<close>

datatype op_class =
    LogicalGet nat string "string list" "ltype list" "nat list"
  | LogicalFilter nat int "nat list"
  | LogicalProjection nat
  | LogicalCrossProduct
  | LogicalJoin join_kind join_type nat "nat list" "nat list" "comparison list"
  | LogicalIntersect nat nat bool
  | LogicalExcept nat nat bool
  | LogicalPredict nat "bound_predict option"
  | LogicalDistinct bool
  | LogicalOrder "nat list"
  | LogicalLimit limit_node limit_node
  | LogicalOther nat "(binding \<times> ltype) list option"

text \<open>An operator: its class, the expressions a visitor enumerates, and its children.\<close>

datatype lop = Op (op_class: op_class) (op_exprs: "bexpr list") (op_children: "lop list")

text \<open>\<open>MapBindings\<close> and \<open>MapTypes\<close>, on the bindings with their types.\<close>

definition map_columns :: "'a list \<Rightarrow> nat list \<Rightarrow> 'a list" where
  "map_columns cols pm = (if pm = [] then cols else map ((!) cols) pm)"

definition generate_bindings :: "nat \<Rightarrow> ltype list \<Rightarrow> (binding \<times> ltype) list" where
  "generate_bindings idx tys = map (\<lambda>i. ((idx, i), tys ! i)) [0..<length tys]"

definition get_columns :: "nat \<Rightarrow> ltype list \<Rightarrow> nat list \<Rightarrow> (binding \<times> ltype) list" where
  "get_columns idx tys pids =
     (if tys = [] then [((idx, 0), OTHER ''BIGINT'')]
      else if pids = [] then generate_bindings idx tys else map (\<lambda>p. ((idx, p), tys ! p)) pids)"

text \<open>\<open>GetColumnBindings\<close> and \<open>ResolveTypes\<close> of an operator, from those of its children.\<close>

definition first_columns :: "'a list list \<Rightarrow> 'a list" where
  "first_columns css = (case css of [] \<Rightarrow> [] | cs # _ \<Rightarrow> cs)"

definition second_columns :: "'a list list \<Rightarrow> 'a list" where
  "second_columns css = (case css of _ # cs # _ \<Rightarrow> cs | _ \<Rightarrow> [])"

definition join_columns ::
    "join_type \<Rightarrow> nat \<Rightarrow> nat list \<Rightarrow> nat list \<Rightarrow> (binding \<times> ltype) list list \<Rightarrow> (binding \<times> ltype) list" where
  "join_columns jt mark lmap rmap css =
     (let left = map_columns (first_columns css) lmap; right = map_columns (second_columns css) rmap in
      if jt = JoinSemi \<or> jt = JoinAnti then left
      else if jt = JoinMark then left @ [((mark, 0), BOOLEAN)]
      else if jt = JoinRightSemi \<or> jt = JoinRightAnti then right
      else left @ right)"

fun class_columns :: "op_class \<Rightarrow> ltype list \<Rightarrow> (binding \<times> ltype) list list \<Rightarrow> (binding \<times> ltype) list" where
  "class_columns (LogicalGet idx _ _ tys pids) _ css = get_columns idx tys pids"
| "class_columns (LogicalFilter _ _ pm) _ css = map_columns (first_columns css) pm"
| "class_columns (LogicalProjection idx) ts css = generate_bindings idx ts"
| "class_columns LogicalCrossProduct _ css = first_columns css @ second_columns css"
| "class_columns (LogicalJoin _ jt mark lmap rmap _) _ css = join_columns jt mark lmap rmap css"
| "class_columns (LogicalIntersect idx n _) _ css = generate_bindings idx (map snd (take n (first_columns css)))"
| "class_columns (LogicalExcept idx n _) _ css = generate_bindings idx (map snd (take n (first_columns css)))"
| "class_columns (LogicalPredict idx info) _ css =
     generate_bindings idx (case info of None \<Rightarrow> [] | Some b \<Rightarrow> bp_types b)"
| "class_columns (LogicalDistinct _) _ css = first_columns css"
| "class_columns (LogicalOrder pm) _ css = map_columns (first_columns css) pm"
| "class_columns (LogicalLimit _ _) _ css = first_columns css"
| "class_columns (LogicalOther _ out) _ css = (case out of None \<Rightarrow> first_columns css | Some cs \<Rightarrow> cs)"

fun columns :: "lop \<Rightarrow> (binding \<times> ltype) list" where
  "columns (Op k es cs) = class_columns k (map return_type es) (map columns cs)"

definition column_bindings :: "lop \<Rightarrow> binding list" where
  "column_bindings p = map fst (columns p)"

subsection \<open>Replacing column bindings\<close>

type_synonym replacements = "(binding \<times> binding) list"

text \<open>The loop of \<open>VisitExpression\<close> goes on after a replacement.\<close>

definition replace_binding :: "replacements \<Rightarrow> binding \<Rightarrow> binding" where
  "replace_binding rs b = fold (\<lambda>(old, new) b. if b = old then new else b) rs b"

fun replace_expr :: "replacements \<Rightarrow> bexpr \<Rightarrow> bexpr" where
  "replace_expr rs (ColumnRef t b) = ColumnRef t (replace_binding rs b)"
| "replace_expr rs (PredictExpr t i es) = PredictExpr t i (map (replace_expr rs) es)"
| "replace_expr rs (ComparisonExpr c l r) = ComparisonExpr c (replace_expr rs l) (replace_expr rs r)"
| "replace_expr rs (OtherExpr k t es) = OtherExpr k t (map (replace_expr rs) es)"

text \<open>
  \<open>VisitChildOfOperatorWithProjectionMap\<close>: the projection map of an operator above the child is
  rewritten when the visit changed the child's bindings.
\<close>

definition position :: "'a \<Rightarrow> 'a list \<Rightarrow> nat option" where
  "position x xs = find (\<lambda>i. xs ! i = x) [0..<length xs]"

fun remap :: "'a list \<Rightarrow> 'a list \<Rightarrow> nat list \<Rightarrow> nat list option" where
  "remap before after [] = Some []"
| "remap before after (p # ps) =
     (case position (before ! p) after of
        None \<Rightarrow> None
      | Some q \<Rightarrow> map_option (\<lambda>qs. q # qs) (remap before after ps))"

definition fix_map :: "lop \<Rightarrow> lop \<Rightarrow> nat list \<Rightarrow> nat list" where
  "fix_map before after pm =
     (if pm = [] \<or> column_bindings before = column_bindings after then pm
      else case remap (column_bindings before) (column_bindings after) pm of None \<Rightarrow> [] | Some m \<Rightarrow> m)"

fun fix_class :: "lop list \<Rightarrow> lop list \<Rightarrow> op_class \<Rightarrow> op_class" where
  "fix_class (l # r # _) (l' # r' # _) (LogicalJoin k jt m lmap rmap ops) =
     LogicalJoin k jt m (fix_map l l' lmap) (fix_map r r' rmap) ops"
| "fix_class (c # _) (c' # _) (LogicalFilter a lim pm) = LogicalFilter a lim (fix_map c c' pm)"
| "fix_class (c # _) (c' # _) (LogicalOrder pm) = LogicalOrder (fix_map c c' pm)"
| "fix_class _ _ k = k"

fun is_filter_at :: "nat \<Rightarrow> op_class \<Rightarrow> bool" where
  "is_filter_at a (LogicalFilter a' _ _) = (a = a')"
| "is_filter_at a _ = False"

fun replace_operator :: "replacements \<Rightarrow> nat \<Rightarrow> lop \<Rightarrow> lop" where
  "replace_operator rs stop (Op k es cs) =
     (if is_filter_at stop k then Op k es cs
      else let cs' = map (replace_operator rs stop) cs
           in Op (fix_class cs cs' k) (map (replace_expr rs) es) cs')"

subsection \<open>Facts about bindings\<close>

lemma length_generate_bindings [simp]: "length (generate_bindings idx tys) = length tys"
  by (simp add: generate_bindings_def)

lemma nth_generate_bindings [simp]: "i < length tys \<Longrightarrow> generate_bindings idx tys ! i = ((idx, i), tys ! i)"
  by (simp add: generate_bindings_def)

lemma generate_bindings_fst: "map fst (generate_bindings idx tys) = map (Pair idx) [0..<length tys]"
  by (simp add: generate_bindings_def)

lemma length_column_bindings [simp]: "length (column_bindings p) = length (columns p)"
  by (simp add: column_bindings_def)

lemma map_columns_Nil [simp]: "map_columns cols [] = cols"
  by (simp add: map_columns_def)

lemma return_type_replace [simp]: "return_type (replace_expr rs e) = return_type e"
  by (cases e) simp_all

lemma fix_map_same: "column_bindings before = column_bindings after \<Longrightarrow> fix_map before after pm = pm"
  by (simp add: fix_map_def)

lemma fix_class_same:
  "map column_bindings cs = map column_bindings cs' \<Longrightarrow> fix_class cs cs' k = k"
  by (induction cs cs' k rule: fix_class.induct) (auto simp: fix_map_same)

text \<open>A replacement of bindings in expressions changes no operator's own bindings or types, so the
  projection maps stay.\<close>

lemma columns_replace_operator: "columns (replace_operator rs stop p) = columns p"
proof (induction p)
  case (Op k es cs)
  have eq: "map columns (map (replace_operator rs stop) cs) = map columns cs"
    using Op.IH by simp
  have eq': "map (\<lambda>p. columns (replace_operator rs stop p)) cs = map columns cs"
    using Op.IH by simp
  have "map column_bindings (map (replace_operator rs stop) cs) = map column_bindings cs"
    using Op.IH by (simp add: column_bindings_def)
  then have "fix_class cs (map (replace_operator rs stop) cs) k = k"
    by (intro fix_class_same) simp
  then show ?case using eq' by (simp add: Let_def comp_def del: map_eq_conv)
qed

lemma replace_operator_simps:
  "replace_operator rs stop (Op k es cs) =
     (if is_filter_at stop k then Op k es cs
      else Op k (map (replace_expr rs) es) (map (replace_operator rs stop) cs))"
proof -
  have "fix_class cs (map (replace_operator rs stop) cs) k = k"
    by (rule fix_class_same) (simp add: column_bindings_def columns_replace_operator)
  then show ?thesis by (simp add: Let_def)
qed

declare replace_operator.simps [simp del]

lemma replace_binding_other: "b \<notin> fst ` set rs \<Longrightarrow> replace_binding rs b = b"
  by (induction rs) (auto simp: replace_binding_def)

lemma replace_binding_Cons:
  "replace_binding ((old, new) # rs) b = replace_binding rs (if b = old then new else b)"
  by (simp add: replace_binding_def)

text \<open>When no new binding is an old one, the loop replaces a binding at most once.\<close>

lemma replace_binding_old:
  assumes "distinct (map fst rs)" "\<forall>n \<in> snd ` set rs. n \<notin> fst ` set rs" "(old, new) \<in> set rs"
  shows "replace_binding rs old = new"
  using assms
proof (induction rs)
  case (Cons r rs)
  obtain x y where r: "r = (x, y)" by (cases r)
  show ?case
  proof (cases "old = x")
    case True
    then have "new = y" using Cons.prems(1,3) r by (auto simp: rev_image_eqI)
    moreover have "replace_binding rs y = y"
      using Cons.prems(2) r by (intro replace_binding_other) auto
    ultimately show ?thesis using r True by (simp add: replace_binding_Cons)
  next
    case False
    then show ?thesis using Cons r by (simp add: replace_binding_Cons)
  qed
qed simp

lemma position_Some: "position x xs = Some i \<Longrightarrow> i < length xs \<and> xs ! i = x"
  by (auto simp: position_def find_Some_iff)

lemma position_None: "position x xs = None \<longleftrightarrow> x \<notin> set xs"
  by (auto simp: position_def find_None_iff in_set_conv_nth)

lemma position_nth: "distinct xs \<Longrightarrow> i < length xs \<Longrightarrow> position (xs ! i) xs = Some i"
  by (cases "position (xs ! i) xs") (auto simp: position_None dest!: position_Some simp: nth_eq_iff_index_eq)

subsection \<open>Rows\<close>

text \<open>
  A row maps the bindings of an operator to values. What a predictor answers, how values compare and
  what other functions compute are parameters.
\<close>

type_synonym 'v row = "binding \<rightharpoonup> 'v"

record 'v semantics =
  answer :: "bound_predict \<Rightarrow> 'v list \<Rightarrow> 'v"
  compare :: "comparison \<Rightarrow> 'v \<Rightarrow> 'v \<Rightarrow> 'v"
  apply_other :: "nat \<Rightarrow> 'v list \<Rightarrow> 'v"
  holds :: "'v \<Rightarrow> bool"

fun eval_expr :: "'v semantics \<Rightarrow> 'v row \<Rightarrow> bexpr \<Rightarrow> 'v" where
  "eval_expr S r (ColumnRef _ b) = the (r b)"
| "eval_expr S r (PredictExpr _ i es) = answer S i (map (eval_expr S r) es)"
| "eval_expr S r (ComparisonExpr c x y) = compare S c (eval_expr S r x) (eval_expr S r y)"
| "eval_expr S r (OtherExpr k _ es) = apply_other S k (map (eval_expr S r) es)"

text \<open>Filters and projections over the rows of their child.\<close>

definition all_hold :: "'v semantics \<Rightarrow> bexpr list \<Rightarrow> 'v row \<Rightarrow> bool" where
  "all_hold S es r \<longleftrightarrow> list_all (\<lambda>e. holds S (eval_expr S r e)) es"

definition eval_filter :: "'v semantics \<Rightarrow> bexpr list \<Rightarrow> 'v row list \<Rightarrow> 'v row list" where
  "eval_filter S es rows = filter (all_hold S es) rows"

definition project_row :: "'v semantics \<Rightarrow> nat \<Rightarrow> bexpr list \<Rightarrow> 'v row \<Rightarrow> 'v row" where
  "project_row S idx es r = (\<lambda>(t, c). if t = idx \<and> c < length es then Some (eval_expr S r (es ! c)) else None)"

text \<open>The bindings an expression reads.\<close>

fun refs_of :: "bexpr \<Rightarrow> binding set" where
  "refs_of (ColumnRef _ b) = {b}"
| "refs_of (PredictExpr _ _ es) = \<Union>(set (map refs_of es))"
| "refs_of (ComparisonExpr _ l r) = refs_of l \<union> refs_of r"
| "refs_of (OtherExpr _ _ es) = \<Union>(set (map refs_of es))"

lemma eval_replace_expr:
  assumes "\<And>b. b \<in> refs_of e \<Longrightarrow> the (r' (replace_binding rs b)) = the (r b)"
  shows "eval_expr S r' (replace_expr rs e) = eval_expr S r e"
  using assms
proof (induction e)
  case (PredictExpr t i es)
  then have "map (eval_expr S r' \<circ> replace_expr rs) es = map (eval_expr S r) es" by auto
  then show ?case by (metis eval_expr.simps(2) list.map_comp replace_expr.simps(2))
next
  case (OtherExpr k t es)
  then have "map (eval_expr S r' \<circ> replace_expr rs) es = map (eval_expr S r) es" by auto
  then show ?case by (metis eval_expr.simps(4) list.map_comp replace_expr.simps(4))
qed auto


lemma eval_expr_cong:
  "(\<And>b. b \<in> refs_of e \<Longrightarrow> r' b = r b) \<Longrightarrow> eval_expr S r' e = eval_expr S r e"
proof (induction e)
  case (PredictExpr t i es)
  then have "map (eval_expr S r') es = map (eval_expr S r) es" by auto
  then show ?case by (metis eval_expr.simps(2))
next
  case (OtherExpr k t es)
  then have "map (eval_expr S r') es = map (eval_expr S r) es" by auto
  then show ?case by (metis eval_expr.simps(4))
qed auto

lemma all_hold_append [simp]: "all_hold S (es @ fs) r \<longleftrightarrow> all_hold S es r \<and> all_hold S fs r"
  by (simp add: all_hold_def)

lemma all_hold_simps [simp]:
  "all_hold S [] r" "all_hold S (e # es) r \<longleftrightarrow> holds S (eval_expr S r e) \<and> all_hold S es r"
  by (simp_all add: all_hold_def)

lemma all_hold_cong:
  "(\<And>e b. e \<in> set es \<Longrightarrow> b \<in> refs_of e \<Longrightarrow> r' b = r b) \<Longrightarrow> all_hold S es r' = all_hold S es r"
  by (simp add: all_hold_def list_all_iff) (metis eval_expr_cong)

end
