(* ===== verification/Expressions.thy ===== *)
theory Expressions
  imports Plan
begin

section \<open>Enumerating expressions\<close>

text \<open>
  The bound expressions in full, one constructor per class, with \<open>ExpressionIterator::EnumerateChildren\<close>
  (\<open>src/planner/expression_iterator.cpp\<close>), and the expressions each operator holds outside its
  \<open>expressions\<close>, with \<open>LogicalOperatorVisitor::EnumerateExpressions\<close>
  (\<open>src/planner/logical_operator_visitor.cpp\<close>). A rewriting visitor changes the children through the
  references it is given, which \<open>replace_bound\<close> and \<open>map_fields\<close> write out. \<open>abstract_expr\<close> forgets the classes the
  optimizer rules do not look at: what is proved of the expressions of \<open>Plan\<close> holds of these.
\<close>

subsection \<open>Expressions\<close>

text \<open>Each has its return type; a number stands for what a class has besides its children (a
  function, a constant, a cast). \<open>BoundLeaf\<close> is one of the five classes without children besides the
  column reference, \<open>UnboundExpr\<close> an expression the iterator does not know.\<close>

datatype bound_expr =
    BoundAggregate ltype nat "bound_expr list" "bound_expr option" "bound_expr list option"
  | BoundBetween ltype nat bound_expr bound_expr bound_expr
  | BoundCase ltype nat "(bound_expr \<times> bound_expr) list" bound_expr
  | BoundCast ltype nat bound_expr
  | BoundComparison comparison bound_expr bound_expr
  | BoundConjunction ltype nat "bound_expr list"
  | BoundFunction ltype nat "bound_expr list"
  | BoundPredict ltype bound_predict "bound_expr list"
  | BoundOperator ltype nat "bound_expr list"
  | BoundSubquery ltype nat "bound_expr list"
  | BoundWindow ltype nat "bound_expr list" "bound_expr list" "bound_expr list" "bound_expr option"
      "bound_expr option" "bound_expr option" "bound_expr option" "bound_expr option" "bound_expr list"
  | BoundUnnest ltype nat bound_expr
  | BoundColumnRef ltype binding
  | BoundLeaf ltype nat
  | UnboundExpr nat

definition opt_list :: "'a option \<Rightarrow> 'a list" where
  "opt_list x = (case x of None \<Rightarrow> [] | Some y \<Rightarrow> [y])"

fun enumerate_children :: "bound_expr \<Rightarrow> bound_expr list res" where
  "enumerate_children (BoundAggregate _ _ children fil order_bys) =
     Inr (children @ opt_list fil @ (case order_bys of None \<Rightarrow> [] | Some os \<Rightarrow> os))"
| "enumerate_children (BoundBetween _ _ input lower upper) = Inr [input, lower, upper]"
| "enumerate_children (BoundCase _ _ checks els) = Inr (concat (map (\<lambda>(w, t). [w, t]) checks) @ [els])"
| "enumerate_children (BoundCast _ _ c) = Inr [c]"
| "enumerate_children (BoundComparison _ l r) = Inr [l, r]"
| "enumerate_children (BoundConjunction _ _ es) = Inr es"
| "enumerate_children (BoundFunction _ _ es) = Inr es"
| "enumerate_children (BoundPredict _ _ es) = Inr es"
| "enumerate_children (BoundOperator _ _ es) = Inr es"
| "enumerate_children (BoundSubquery _ _ es) = Inr es"
| "enumerate_children (BoundWindow _ _ partitions os children fil start en offset dflt arg_orders) =
     Inr (partitions @ os @ children @ opt_list fil @ opt_list start @ opt_list en @ opt_list offset @
          opt_list dflt @ arg_orders)"
| "enumerate_children (BoundUnnest _ _ c) = Inr [c]"
| "enumerate_children (BoundColumnRef _ _) = Inr []"
| "enumerate_children (BoundLeaf _ _) = Inr []"
| "enumerate_children (UnboundExpr _) = Inl (InternalException ''ExpressionIterator used on unbound expression'')"

text \<open>\<open>ColumnBindingReplacer::VisitExpression\<close> on these expressions: a column reference is rewritten,
  then the children are visited in place.\<close>

fun replace_bound :: "replacements \<Rightarrow> bound_expr \<Rightarrow> bound_expr" where
  "replace_bound rs (BoundAggregate t k es f os) =
     BoundAggregate t k (map (replace_bound rs) es) (map_option (replace_bound rs) f)
       (map_option (map (replace_bound rs)) os)"
| "replace_bound rs (BoundBetween t k a b c) = BoundBetween t k (replace_bound rs a) (replace_bound rs b) (replace_bound rs c)"
| "replace_bound rs (BoundCase t k cs e) =
     BoundCase t k (map (map_prod (replace_bound rs) (replace_bound rs)) cs) (replace_bound rs e)"
| "replace_bound rs (BoundCast t k c) = BoundCast t k (replace_bound rs c)"
| "replace_bound rs (BoundComparison c l r) = BoundComparison c (replace_bound rs l) (replace_bound rs r)"
| "replace_bound rs (BoundConjunction t k es) = BoundConjunction t k (map (replace_bound rs) es)"
| "replace_bound rs (BoundFunction t k es) = BoundFunction t k (map (replace_bound rs) es)"
| "replace_bound rs (BoundPredict t i es) = BoundPredict t i (map (replace_bound rs) es)"
| "replace_bound rs (BoundOperator t k es) = BoundOperator t k (map (replace_bound rs) es)"
| "replace_bound rs (BoundSubquery t k es) = BoundSubquery t k (map (replace_bound rs) es)"
| "replace_bound rs (BoundWindow t k ps os es f s e f' d as) =
     BoundWindow t k (map (replace_bound rs) ps) (map (replace_bound rs) os) (map (replace_bound rs) es)
       (map_option (replace_bound rs) f) (map_option (replace_bound rs) s) (map_option (replace_bound rs) e)
       (map_option (replace_bound rs) f') (map_option (replace_bound rs) d) (map (replace_bound rs) as)"
| "replace_bound rs (BoundUnnest t k c) = BoundUnnest t k (replace_bound rs c)"
| "replace_bound rs (BoundColumnRef t b) = BoundColumnRef t (replace_binding rs b)"
| "replace_bound rs (BoundLeaf t k) = BoundLeaf t k"
| "replace_bound rs (UnboundExpr k) = UnboundExpr k"

text \<open>The expression as the optimizer rules see it.\<close>

fun abstract_expr :: "bound_expr \<Rightarrow> bexpr" where
  "abstract_expr (BoundAggregate t k es f os) =
     OtherExpr k t (map abstract_expr es @ opt_list (map_option abstract_expr f) @
       (case map_option (map abstract_expr) os of None \<Rightarrow> [] | Some xs \<Rightarrow> xs))"
| "abstract_expr (BoundBetween t k a b c) = OtherExpr k t [abstract_expr a, abstract_expr b, abstract_expr c]"
| "abstract_expr (BoundCase t k cs e) =
     OtherExpr k t (concat (map (\<lambda>(w, t). [w, t]) (map (map_prod abstract_expr abstract_expr) cs)) @ [abstract_expr e])"
| "abstract_expr (BoundCast t k c) = OtherExpr k t [abstract_expr c]"
| "abstract_expr (BoundComparison c l r) = ComparisonExpr c (abstract_expr l) (abstract_expr r)"
| "abstract_expr (BoundConjunction t k es) = OtherExpr k t (map abstract_expr es)"
| "abstract_expr (BoundFunction t k es) = OtherExpr k t (map abstract_expr es)"
| "abstract_expr (BoundPredict t i es) = PredictExpr t i (map abstract_expr es)"
| "abstract_expr (BoundOperator t k es) = OtherExpr k t (map abstract_expr es)"
| "abstract_expr (BoundSubquery t k es) = OtherExpr k t (map abstract_expr es)"
| "abstract_expr (BoundWindow t k ps os es f s e f' d as) =
     OtherExpr k t (map abstract_expr ps @ map abstract_expr os @ map abstract_expr es @
       opt_list (map_option abstract_expr f) @ opt_list (map_option abstract_expr s) @
       opt_list (map_option abstract_expr e) @ opt_list (map_option abstract_expr f') @
       opt_list (map_option abstract_expr d) @ map abstract_expr as)"
| "abstract_expr (BoundUnnest t k c) = OtherExpr k t [abstract_expr c]"
| "abstract_expr (BoundColumnRef t b) = ColumnRef t b"
| "abstract_expr (BoundLeaf t k) = OtherExpr k t []"
| "abstract_expr (UnboundExpr k) = OtherExpr k (OTHER ''INVALID'') []"

subsection \<open>Operators\<close>

text \<open>The expressions of an operator outside \<open>expressions\<close>: the orders of ORDER BY and TOP N, the
  targets and orders of DISTINCT, the two conditions of ON CONFLICT, the conditions of joins as pairs of
  sides, the values of LIMIT, the groups of an aggregate, the actions of MERGE INTO.\<close>

datatype op_fields =
    ExpressionGetFields "bound_expr list list"
  | OrderFields "bound_expr list"
  | TopNFields "bound_expr list"
  | DistinctFields "bound_expr list" "bound_expr list option"
  | RecursiveCTEFields "bound_expr list"
  | InsertFields "bound_expr option" "bound_expr option"
  | DependentJoinFields "bound_expr list" "(bound_expr \<times> bound_expr) list" "bound_expr list" "bound_expr list"
  | ComparisonJoinFields "bound_expr list" "(bound_expr \<times> bound_expr) list" "bound_expr option"
  | AnyJoinFields bound_expr
  | LimitFields "bound_expr option" "bound_expr option"
  | AggregateFields "bound_expr list"
  | MergeIntoFields "(bound_expr option \<times> bound_expr list) list list"
  | NoFields

definition sides :: "('a \<times> 'a) list \<Rightarrow> 'a list" where
  "sides conds = concat (map (\<lambda>(l, r). [l, r]) conds)"

fun field_expressions :: "op_fields \<Rightarrow> bound_expr list" where
  "field_expressions (ExpressionGetFields ess) = concat ess"
| "field_expressions (OrderFields os) = os"
| "field_expressions (TopNFields os) = os"
| "field_expressions (DistinctFields targets order_by) =
     targets @ (case order_by of None \<Rightarrow> [] | Some os \<Rightarrow> os)"
| "field_expressions (RecursiveCTEFields targets) = targets"
| "field_expressions (InsertFields on_conflict do_update) = opt_list on_conflict @ opt_list do_update"
| "field_expressions (DependentJoinFields dup conds arbitrary children) = dup @ sides conds @ arbitrary @ children"
| "field_expressions (ComparisonJoinFields dup conds pred) = dup @ sides conds @ opt_list pred"
| "field_expressions (AnyJoinFields cond) = [cond]"
| "field_expressions (LimitFields lim off) = opt_list lim @ opt_list off"
| "field_expressions (AggregateFields groups) = groups"
| "field_expressions (MergeIntoFields actions) =
     concat (map (\<lambda>(cond, es). opt_list cond @ es) (concat actions))"
| "field_expressions NoFields = []"

definition enumerate_expressions :: "op_fields \<Rightarrow> bound_expr list \<Rightarrow> bound_expr list" where
  "enumerate_expressions held expressions = field_expressions held @ expressions"

text \<open>\<open>VisitOperatorExpressions\<close> with a visitor that rewrites each expression in place.\<close>

fun map_fields :: "(bound_expr \<Rightarrow> bound_expr) \<Rightarrow> op_fields \<Rightarrow> op_fields" where
  "map_fields f (ExpressionGetFields ess) = ExpressionGetFields (map (map f) ess)"
| "map_fields f (OrderFields es) = OrderFields (map f es)"
| "map_fields f (TopNFields es) = TopNFields (map f es)"
| "map_fields f (DistinctFields ts os) = DistinctFields (map f ts) (map_option (map f) os)"
| "map_fields f (RecursiveCTEFields es) = RecursiveCTEFields (map f es)"
| "map_fields f (InsertFields a b) = InsertFields (map_option f a) (map_option f b)"
| "map_fields f (DependentJoinFields ds cs as es) =
     DependentJoinFields (map f ds) (map (map_prod f f) cs) (map f as) (map f es)"
| "map_fields f (ComparisonJoinFields ds cs p) = ComparisonJoinFields (map f ds) (map (map_prod f f) cs) (map_option f p)"
| "map_fields f (AnyJoinFields e) = AnyJoinFields (f e)"
| "map_fields f (LimitFields a b) = LimitFields (map_option f a) (map_option f b)"
| "map_fields f (AggregateFields es) = AggregateFields (map f es)"
| "map_fields f (MergeIntoFields ass) = MergeIntoFields (map (map (map_prod (map_option f) (map f))) ass)"
| "map_fields f NoFields = NoFields"

subsection \<open>The rules see every expression\<close>

lemma opt_list_map: "opt_list (map_option f x) = map f (opt_list x)"
  by (cases x) (simp_all add: opt_list_def)

lemma sides_map: "sides (map (map_prod f f) cs) = map f (sides cs)"
  by (induction cs) (auto simp: sides_def)

text \<open>The abstraction used by the optimizer rules keeps exactly the children the iterator
  enumerates, for every class, so a rule that walks the abstract expression reaches what the iterator
  reaches; only the expression the iterator rejects has none.\<close>
lemma abstract_children:
  "enumerate_children e = Inr es \<Longrightarrow> expr_children (abstract_expr e) = map abstract_expr es"
  by (cases e) (auto simp: opt_list_map map_concat comp_def split_def split: option.splits)

lemma abstract_children_witness:
  "expr_children (abstract_expr (BoundCase BOOLEAN 7 [(BoundLeaf BOOLEAN 1, BoundLeaf BOOLEAN 2)] (BoundLeaf BOOLEAN 3))) =
     [OtherExpr 1 BOOLEAN [], OtherExpr 2 BOOLEAN [], OtherExpr 3 BOOLEAN []]"
  using abstract_children [of "BoundCase BOOLEAN 7 [(BoundLeaf BOOLEAN 1, BoundLeaf BOOLEAN 2)] (BoundLeaf BOOLEAN 3)"]
  by simp

text \<open>The binding replacer on the expressions of the code is the one on the abstract expressions, and an operator's
  expressions are rewritten once each, in the order of enumeration.\<close>
lemma replace_bound_refines:
  "abstract_expr (replace_bound rs e) = replace_expr rs (abstract_expr e) \<and>
   enumerate_expressions (map_fields (replace_bound rs) held) (map (replace_bound rs) es) =
     map (replace_bound rs) (enumerate_expressions held es)"
proof
  show "abstract_expr (replace_bound rs e) = replace_expr rs (abstract_expr e)"
    by (induction e) (auto simp: opt_list_def map_concat split: option.splits intro!: arg_cong [of _ _ concat])
  have "field_expressions (map_fields (replace_bound rs) held) = map (replace_bound rs) (field_expressions held)"
    by (cases held) (auto simp: opt_list_map sides_map map_concat comp_def split_def split: option.splits)
  then show "enumerate_expressions (map_fields (replace_bound rs) held) (map (replace_bound rs) es) =
     map (replace_bound rs) (enumerate_expressions held es)"
    by (simp add: enumerate_expressions_def)
qed

end
