(* ===== verification/Split_Join.thy ===== *)
theory Split_Join
  imports Plan
begin

section \<open>Splitting a prediction over a join\<close>

text \<open>
  \<open>src/optimizer/split_predict_join_to_extract_predicate.cpp\<close>: a filter whose PREDICT reads two
  columns of a join becomes two extraction predictions, one per column, in two projections over the
  join, and a comparison of their outputs. The two tasks and the comparison are written by a language
  model: \<open>api\<close> is the endpoint, asked with the number of earlier calls and a request. The operators
  above the filter are then corrected with \<open>ColumnBindingReplacer\<close>.
\<close>

subsection \<open>Finding the prediction\<close>

fun is_supported_join :: "op_class \<Rightarrow> bool" where
  "is_supported_join LogicalCrossProduct = True"
| "is_supported_join (LogicalJoin k _ _ _ _ _) = (k = BaseJoin \<or> k = ComparisonJoin)"
| "is_supported_join _ = False"

definition first_some :: "'a option list \<Rightarrow> 'a option" where
  "first_some xs = (case find (\<lambda>x. x \<noteq> None) xs of None \<Rightarrow> None | Some x \<Rightarrow> x)"

fun find_first_predict :: "bexpr \<Rightarrow> (bound_predict \<times> bexpr list) option" where
  "find_first_predict (PredictExpr _ i es) = Some (i, es)"
| "find_first_predict (ColumnRef _ _) = None"
| "find_first_predict (ComparisonExpr _ l r) = first_some [find_first_predict l, find_first_predict r]"
| "find_first_predict (OtherExpr _ _ es) = first_some (map find_first_predict es)"

fun collect_bindings :: "bexpr \<Rightarrow> binding list" where
  "collect_bindings (ColumnRef _ b) = [b]"
| "collect_bindings (PredictExpr _ _ es) = concat (map collect_bindings es)"
| "collect_bindings (ComparisonExpr _ l r) = collect_bindings l @ collect_bindings r"
| "collect_bindings (OtherExpr _ _ es) = concat (map collect_bindings es)"

text \<open>How many of the child's columns the first PREDICT of an expression reads.\<close>

definition matched_columns :: "binding list \<Rightarrow> bexpr \<Rightarrow> nat" where
  "matched_columns child_output e =
     (case find_first_predict e of None \<Rightarrow> 0
      | Some (_, es) \<Rightarrow> let refs = concat (map collect_bindings es) in
          length (filter (\<lambda>cb. cb \<in> set refs) child_output))"

definition over_join :: "lop \<Rightarrow> bool" where
  "over_join child =
     (is_supported_join (op_class child) \<or>
      (case op_class child of LogicalProjection _ \<Rightarrow>
         (case op_children child of [] \<Rightarrow> False | c # _ \<Rightarrow> is_supported_join (op_class c)) | _ \<Rightarrow> False))"

definition can_split :: "lop \<Rightarrow> bool" where
  "can_split p =
     (case p of
        Op (LogicalFilter _ lim _) es (child # _) \<Rightarrow>
          lim = - 1 \<and> over_join child \<and>
          list_ex (\<lambda>e. find_first_predict e \<noteq> None \<and> 2 \<le> matched_columns (column_bindings child) e) es
      | _ \<Rightarrow> False)"

subsection \<open>Asking for the decomposition\<close>

definition comma :: "string list \<Rightarrow> string" where
  "comma xs = (case xs of [] \<Rightarrow> [] | y # ys \<Rightarrow> y @ concat (map ((@) '', '') ys))"

fun append_table_schemas :: "lop \<Rightarrow> string \<Rightarrow> string" where
  "append_table_schemas (Op k es cs) out =
     fold append_table_schemas cs
       (case k of LogicalGet _ name names _ _ \<Rightarrow>
          (if out \<noteq> [] then out @ '', '' else out) @ name @ ''('' @ comma names @ '')''
        | _ \<Rightarrow> out)"

record decomposed =
  task1 :: string
  task1_output_column :: string
  task2 :: string
  task2_output_column :: string
  predicate :: string

text \<open>A request is the model, the system and the user message. The response schema is fixed.\<close>

type_synonym 'd split_api = "nat \<Rightarrow> string \<Rightarrow> string \<Rightarrow> string \<Rightarrow> 'd json res"

definition newline :: string where "newline = [CHR 0x0A]"

definition split_system_message :: string where
  "split_system_message =
     ''You are a database optimizer with knowledge about semantic tasks.'' @ newline @
     '' Semantic task template, `extract the {<output_column> VARCHAR} from {{input_column}}`,'' @
     '' where <input_column> and <output_column> should be replaced appropriately.''"

definition split_user_message :: "string \<Rightarrow> string \<Rightarrow> string" where
  "split_user_message task schemas =
     ''Convert the following task `'' @ task @ ''` to two separate extraction tasks and a predicate.'' @ newline @
     '' Extraction task is a prompt like above that takes a single input and produces an attribute'' @
     '' that can be used to apply the predicate.'' @ newline @
     '' Predicate should be a relational operation.'' @ newline @ '' Schemas: '' @ schemas"

text \<open>\<open>completion["choices"][0]["message"]["content"]\<close>; on a value that is not const, a missing member
  or element is null, which is not a string.\<close>

definition first_message :: "'d json \<Rightarrow> string option" where
  "first_message completion =
     (case json_member completion ''choices'' of
        Some (JArr (c # _)) \<Rightarrow>
          (case json_member c ''message'' of
             Some m \<Rightarrow> (case json_member m ''content'' of Some (JStr s) \<Rightarrow> Some s | _ \<Rightarrow> None)
           | None \<Rightarrow> None)
      | _ \<Rightarrow> None)"

definition string_member :: "'d json \<Rightarrow> string \<Rightarrow> string option" where
  "string_member j k = (case json_member j k of Some (JStr s) \<Rightarrow> Some s | _ \<Rightarrow> None)"

definition parse_decomposition :: "'d jlib \<Rightarrow> 'd json \<Rightarrow> decomposed option" where
  "parse_decomposition lib completion =
     (case first_message completion of None \<Rightarrow> None | Some content \<Rightarrow>
      (case extract_json content of Inl _ \<Rightarrow> None | Inr s \<Rightarrow>
       (case j_parse lib s of None \<Rightarrow> None | Some j \<Rightarrow>
        (case (string_member j ''task1'', string_member j ''task1_output_column'',
               string_member j ''task2'', string_member j ''task2_output_column'', string_member j ''predicate'') of
           (Some a, Some b, Some c, Some d, Some e) \<Rightarrow>
             Some \<lparr>task1 = a, task1_output_column = b, task2 = c, task2_output_column = d, predicate = e\<rparr>
         | _ \<Rightarrow> None))))"

definition call_decomposition ::
    "'d jlib \<Rightarrow> 'd split_api \<Rightarrow> nat \<Rightarrow> bound_predict \<Rightarrow> lop \<Rightarrow> decomposed res" where
  "call_decomposition lib api n info join =
     bindR (api n (bp_path info) split_system_message
              (split_user_message (bp_prompt info) (append_table_schemas join [])))
       (\<lambda>completion. case parse_decomposition lib completion of
          None \<Rightarrow> Inl (InternalException ''SplitPredictJoin: failed to parse decomposition response'')
        | Some d \<Rightarrow> Inr d)"

definition parse_comparison :: "string \<Rightarrow> comparison" where
  "parse_comparison pred =
     (if contains_text ''!='' pred \<or> contains_text ''<>'' pred then COMPARE_NOTEQUAL
      else if contains_text ''<='' pred then COMPARE_LESSTHANOREQUALTO
      else if contains_text ''>='' pred then COMPARE_GREATERTHANOREQUALTO
      else if contains_text ''<'' pred then COMPARE_LESSTHAN
      else if contains_text ''>'' pred then COMPARE_GREATERTHAN
      else COMPARE_EQUAL)"

fun comparison_symbol :: "comparison \<Rightarrow> string" where
  "comparison_symbol COMPARE_EQUAL = ''=''"
| "comparison_symbol COMPARE_NOTEQUAL = ''!=''"
| "comparison_symbol COMPARE_LESSTHAN = ''<''"
| "comparison_symbol COMPARE_GREATERTHAN = ''>''"
| "comparison_symbol COMPARE_LESSTHANOREQUALTO = ''<=''"
| "comparison_symbol COMPARE_GREATERTHANOREQUALTO = ''>=''"

subsection \<open>The rewrite\<close>

text \<open>The binder's next table index, the fixes to apply above each rewritten filter (its address and
  the replaced bindings), and the number of calls so far.\<close>

record split_state =
  next_table_index :: nat
  pending_fixes :: "(nat \<times> replacements) list"
  decompositions :: nat

text \<open>The information of one extraction task: fresh but for the model, its address and options.\<close>

definition task_info :: "bound_predict \<Rightarrow> string \<Rightarrow> string \<Rightarrow> nat \<Rightarrow> bound_predict" where
  "task_info orig task_prompt out_name n =
     \<lparr>input_mask = [],
      input_set_names = [if n < length (input_set_names orig) then input_set_names orig ! n else ''input''],
      embedding_column_map = [], result_set = [(out_name, VARCHAR)], bp_type = bp_type orig,
      bp_model = bp_model orig, bp_path = bp_path orig, bp_prompt = task_prompt,
      bp_base_api = bp_base_api orig, bp_secret = bp_secret orig, bp_types = [], bp_opt_mask = [],
      bp_input_types = [], bp_options = bp_options orig\<rparr>"

definition proj1_exprs :: "(binding \<times> ltype) list \<Rightarrow> bound_predict \<Rightarrow> decomposed \<Rightarrow> nat \<Rightarrow> bexpr list" where
  "proj1_exprs cols info d i =
     map (\<lambda>(b, t). ColumnRef t b) cols @
     [PredictExpr VARCHAR (task_info info (task1 d) (task1_output_column d) 0)
        [ColumnRef (snd (cols ! i)) (fst (cols ! i))]]"

definition proj2_exprs :: "nat \<Rightarrow> (binding \<times> ltype) list \<Rightarrow> bound_predict \<Rightarrow> decomposed \<Rightarrow> nat \<Rightarrow> bexpr list" where
  "proj2_exprs proj1 cols info d j =
     map (\<lambda>k. ColumnRef (snd (cols ! k)) (proj1, k)) [0..<length cols] @
     [ColumnRef VARCHAR (proj1, length cols),
      PredictExpr VARCHAR (task_info info (task2 d) (task2_output_column d) 1)
        [ColumnRef (snd (cols ! j)) (proj1, j)]]"

definition split_comparison :: "nat \<Rightarrow> nat \<Rightarrow> decomposed \<Rightarrow> bexpr" where
  "split_comparison proj2 n d =
     ComparisonExpr (parse_comparison (predicate d))
       (ColumnRef VARCHAR (proj2, n)) (ColumnRef VARCHAR (proj2, Suc n))"

definition first_predict :: "bexpr list \<Rightarrow> (bound_predict \<times> bexpr list) option" where
  "first_predict es = first_some (map find_first_predict es)"

text \<open>A child of the PREDICT, cast to a column reference: the children are a checked vector and the cast is
  checked. \<open>find_join_col\<close> gives \<open>INVALID_INDEX\<close> for a column that the join does not have, and then the checked
  read of \<open>join_types\<close> throws.\<close>

definition bad_index :: exn where
  "bad_index = InternalException ''Attempted to access index within vector of size''"

definition input_reference :: "bexpr list \<Rightarrow> nat \<Rightarrow> binding res" where
  "input_reference kids n =
     (if length kids \<le> n then Inl bad_index
      else case kids ! n of
        ColumnRef _ b \<Rightarrow> Inr b
      | _ \<Rightarrow> Inl (InternalException ''Failed to cast expression to type - expression type mismatch''))"

definition input_column :: "binding list \<Rightarrow> binding \<Rightarrow> nat res" where
  "input_column bs b = (case position b bs of None \<Rightarrow> Inl bad_index | Some i \<Rightarrow> Inr i)"

definition transform_filter_join :: "'d jlib \<Rightarrow> 'd split_api \<Rightarrow> lop \<Rightarrow> split_state \<Rightarrow> (lop \<times> split_state) res" where
  "transform_filter_join lib api p st =
     (case p of
        Op (LogicalFilter a lim pm) es (join # cs) \<Rightarrow>
          let cols = columns join; bs = map fst cols in
          (case first_predict es of
             None \<Rightarrow> Inl (Undefined ''null PREDICT'')
           | Some (info, kids) \<Rightarrow>
               bindR (call_decomposition lib api (decompositions st) info join) (\<lambda>d.
               bindR (input_reference kids 0) (\<lambda>b1.
               bindR (input_reference kids 1) (\<lambda>b2.
               bindR (input_column bs b1) (\<lambda>i.
               bindR (input_column bs b2) (\<lambda>j.
                 let proj1 = next_table_index st; proj2 = Suc proj1 in
                 Inr (Op (LogicalFilter a lim pm) [split_comparison proj2 (length cols) d]
                        (Op (LogicalProjection proj2) (proj2_exprs proj1 cols info d j)
                           [Op (LogicalProjection proj1) (proj1_exprs cols info d i) [join]] # cs),
                      \<lparr>next_table_index = Suc proj2,
                       pending_fixes = pending_fixes st @ [(a, zip bs (map (Pair proj2) [0..<length cols]))],
                       decompositions = Suc (decompositions st)\<rparr>)))))))
      | Op (LogicalFilter a lim pm) es [] \<Rightarrow> Inl bad_index
      | _ \<Rightarrow> Inl (InternalException ''Failed to cast logical operator to type - logical operator type mismatch''))"

subsection \<open>The whole plan\<close>

fun weight :: "lop \<Rightarrow> nat" where
  "weight (Op k es cs) = (case k of LogicalFilter _ _ _ \<Rightarrow> 4 | _ \<Rightarrow> 1) + sum_list (map weight cs)"

lemma weight_child: "c \<in> set (op_children p) \<Longrightarrow> weight c < weight p"
proof (cases p)
  case (Op k es cs)
  assume "c \<in> set (op_children p)"
  then have "weight c \<le> sum_list (map weight cs)" using Op by (simp add: member_le_sum_list)
  then show ?thesis using Op by (simp split: op_class.splits)
qed

lemma transform_filter_join_shape:
  assumes "transform_filter_join lib api p st = Inr (q, st')"
  obtains a lim pm es join cs info kids d i j where
    "p = Op (LogicalFilter a lim pm) es (join # cs)" "first_predict es = Some (info, kids)"
    "call_decomposition lib api (decompositions st) info join = Inr d"
    "q = Op (LogicalFilter a lim pm) [split_comparison (Suc (next_table_index st)) (length (columns join)) d]
           (Op (LogicalProjection (Suc (next_table_index st))) (proj2_exprs (next_table_index st) (columns join) info d j)
              [Op (LogicalProjection (next_table_index st)) (proj1_exprs (columns join) info d i) [join]] # cs)"
  using assms unfolding transform_filter_join_def
  by (auto simp: Let_def bindR_Inr_iff column_bindings_def
      split: lop.splits op_class.splits list.splits option.splits prod.splits)

lemma weight_transform_child:
  assumes "transform_filter_join lib api p st = Inr (q, st')" "c \<in> set (op_children q)"
  shows "weight c < weight p"
proof -
  from assms(1) obtain a lim pm es join cs info kids d i j where
    p: "p = Op (LogicalFilter a lim pm) es (join # cs)" and
    q: "q = Op (LogicalFilter a lim pm) [split_comparison (Suc (next_table_index st)) (length (columns join)) d]
           (Op (LogicalProjection (Suc (next_table_index st))) (proj2_exprs (next_table_index st) (columns join) info d j)
              [Op (LogicalProjection (next_table_index st)) (proj1_exprs (columns join) info d i) [join]] # cs)"
    by (rule transform_filter_join_shape)
  have "weight c \<le> sum_list (map weight cs)" if "c \<in> set cs"
    using that by (simp add: member_le_sum_list)
  then show ?thesis using assms(2) p q by fastforce
qed

definition split_here :: "'d jlib \<Rightarrow> 'd split_api \<Rightarrow> lop \<Rightarrow> split_state \<Rightarrow> (lop \<times> split_state) res" where
  "split_here lib api p st = (if can_split p then transform_filter_join lib api p st else Inr (p, st))"

lemma weight_split_here:
  "split_here lib api p st = Inr (q, st') \<Longrightarrow> c \<in> set (op_children q) \<Longrightarrow> weight c < weight p"
  by (auto simp: split_here_def weight_child weight_transform_child split: if_splits)

function transform_plan :: "'d jlib \<Rightarrow> 'd split_api \<Rightarrow> lop \<Rightarrow> split_state \<Rightarrow> (lop \<times> split_state) res" where
  "transform_plan lib api p st =
     bindR (split_here lib api p st) (\<lambda>r.
       mapR (\<lambda>(cs, st'). (Op (op_class (fst r)) (op_exprs (fst r)) cs, st'))
         (foldR (\<lambda>c acc. mapR (\<lambda>(c', st'). (fst acc @ [c'], st')) (transform_plan lib api c (snd acc)))
            (op_children (fst r)) ([], snd r)))"
  by pat_completeness auto
termination
  by (relation "measure (\<lambda>(_, _, p, _). weight p)") (auto simp: weight_split_here)

declare transform_plan.simps [simp del]

definition split_optimize :: "'d jlib \<Rightarrow> 'd split_api \<Rightarrow> nat \<Rightarrow> lop \<Rightarrow> (lop \<times> split_state) res" where
  "split_optimize lib api idx p =
     mapR (\<lambda>(q, st). (fold (\<lambda>(a, rs). replace_operator rs a) (pending_fixes st) q, st))
       (transform_plan lib api p \<lparr>next_table_index = idx, pending_fixes = [], decompositions = 0\<rparr>)"

subsection \<open>The rewritten filter\<close>

lemma input_column_ref: "distinct bs \<Longrightarrow> i < length bs \<Longrightarrow> bs ! i = b \<Longrightarrow> input_column bs b = Inr i"
  by (auto simp: input_column_def position_nth)

lemma input_column_Inr: "b \<in> set bs \<Longrightarrow> \<exists>i. input_column bs b = Inr i"
  using position_None [of b bs] by (auto simp: input_column_def split: option.splits)

lemma input_column_Inl: "b \<notin> set bs \<Longrightarrow> input_column bs b = Inl bad_index"
  by (simp add: input_column_def position_None [THEN iffD2])

lemma input_reference_throws:
  "(\<exists>t b. n < length kids \<and> kids ! n = ColumnRef t b \<and> input_reference kids n = Inr b) \<or>
   (\<not> (\<exists>t b. n < length kids \<and> kids ! n = ColumnRef t b)) \<and> (\<exists>m. input_reference kids n = Inl (InternalException m))"
  by (cases "n < length kids"; cases "kids ! n") (simp_all add: input_reference_def bad_index_def)

lemma length_proj1_exprs [simp]: "length (proj1_exprs cols info d i) = Suc (length cols)"
  by (simp add: proj1_exprs_def)

lemma length_proj2_exprs [simp]: "length (proj2_exprs x cols info d j) = Suc (Suc (length cols))"
  by (simp add: proj2_exprs_def)

lemma project1_column:
  "k < length cols \<Longrightarrow> project_row S x (proj1_exprs cols info d i) r (x, k) = Some (the (r (fst (cols ! k))))"
  by (simp add: project_row_def) (simp add: proj1_exprs_def nth_append split_def)

lemma project1_answer:
  "i < length cols \<Longrightarrow> project_row S x (proj1_exprs cols info d i) r (x, length cols) =
     Some (answer S (task_info info (task1 d) (task1_output_column d) 0) [the (r (fst (cols ! i)))])"
  by (simp add: project_row_def) (simp add: proj1_exprs_def nth_append)

lemma project2_column:
  "k < length cols \<Longrightarrow> project_row S y (proj2_exprs x cols info d j) r (y, k) = Some (the (r (x, k)))"
  by (simp add: project_row_def) (simp add: proj2_exprs_def nth_append)

lemma project2_answers:
  assumes "j < length cols"
  shows "project_row S y (proj2_exprs x cols info d j) r (y, length cols) = Some (the (r (x, length cols)))"
    and "project_row S y (proj2_exprs x cols info d j) r (y, Suc (length cols)) =
      Some (answer S (task_info info (task2 d) (task2_output_column d) 1) [the (r (x, j))])"
  by (simp_all add: project_row_def) (simp_all add: proj2_exprs_def nth_append)

text \<open>A row of the join as the two projections hand it on.\<close>

definition widen ::
    "'v semantics \<Rightarrow> (binding \<times> ltype) list \<Rightarrow> bound_predict \<Rightarrow> decomposed \<Rightarrow> nat \<Rightarrow> nat \<Rightarrow> nat \<Rightarrow> 'v row \<Rightarrow> 'v row" where
  "widen S cols info d x i j r =
     project_row S (Suc x) (proj2_exprs x cols info d j) (project_row S x (proj1_exprs cols info d i) r)"

definition split_holds ::
    "'v semantics \<Rightarrow> bound_predict \<Rightarrow> decomposed \<Rightarrow> binding \<Rightarrow> binding \<Rightarrow> 'v row \<Rightarrow> bool" where
  "split_holds S info d b1 b2 r =
     holds S (compare S (parse_comparison (predicate d))
       (answer S (task_info info (task1 d) (task1_output_column d) 0) [the (r b1)])
       (answer S (task_info info (task2 d) (task2_output_column d) 1) [the (r b2)]))"

lemma eval_split_comparison:
  assumes "i < length cols" "j < length cols"
  shows "eval_expr S (widen S cols info d x i j r) (split_comparison (Suc x) (length cols) d) =
    compare S (parse_comparison (predicate d))
       (answer S (task_info info (task1 d) (task1_output_column d) 0) [the (r (fst (cols ! i)))])
       (answer S (task_info info (task2 d) (task2_output_column d) 1) [the (r (fst (cols ! j)))])"
  using assms by (simp add: split_comparison_def widen_def project2_answers project1_answer project1_column)

lemma widen_column:
  "k < length cols \<Longrightarrow> widen S cols info d x i j r (Suc x, k) = Some (the (r (fst (cols ! k))))"
  by (simp add: widen_def project2_column project1_column)

lemma widen_replaced:
  assumes "distinct (map fst cols)" "\<forall>b \<in> set (map fst cols). fst b < x" "b \<in> set (map fst cols)"
  shows "widen S cols info d x i j r (replace_binding (zip (map fst cols) (map (Pair (Suc x)) [0..<length cols])) b) = Some (the (r b))"
proof -
  let ?rs = "zip (map fst cols) (map (Pair (Suc x)) [0..<length cols])"
  obtain k where k: "k < length cols" "b = fst (cols ! k)" using assms(3) by (auto simp: in_set_conv_nth)
  have dom: "map fst ?rs = map fst cols" by simp
  have ran: "snd ` set ?rs \<subseteq> {n. fst n = Suc x}" by (auto simp: set_zip)
  have old: "fst ` set ?rs = set (map fst cols)" by (metis dom list.set_map)
  have "?rs ! k \<in> set ?rs" using k by (intro nth_mem) simp
  then have "(b, (Suc x, k)) \<in> set ?rs" using k by simp
  moreover have "\<forall>n \<in> snd ` set ?rs. n \<notin> fst ` set ?rs"
  proof
    fix n assume "n \<in> snd ` set ?rs"
    then have n: "fst n = Suc x" using ran by auto
    show "n \<notin> fst ` set ?rs"
    proof
      assume "n \<in> fst ` set ?rs"
      then have "n \<in> set (map fst cols)" unfolding old .
      then have "fst n < x" using assms(2) by blast
      then show False using n by simp
    qed
  qed
  ultimately have "replace_binding ?rs b = (Suc x, k)"
    using assms(1) dom by (intro replace_binding_old) auto
  then show ?thesis using k by (simp add: widen_column)
qed

text \<open>C4: a filter over a join whose first PREDICT has two join columns as its first children is rewritten into
  a filter over two projections. On any rows of the join it keeps, in order, exactly the rows for
  which the model's comparison holds between the two extracted values, each of them predicted from
  one column; and every expression of an operator above that reads the join's columns has, after its
  bindings are replaced, the value it had on the row of the join.\<close>
theorem split_rewrite_correct:
  assumes first: "first_predict es = Some (info, ColumnRef t1 b1 # ColumnRef t2 b2 # kids)"
    and d: "call_decomposition lib api (decompositions st) info join = Inr d"
    and b: "b1 \<in> set (column_bindings join)" "b2 \<in> set (column_bindings join)"
    and dist: "distinct (column_bindings join)"
    and fresh: "\<forall>b \<in> set (column_bindings join). fst b < next_table_index st"
  shows "\<exists>x es1 es2 cmp rs.
    transform_filter_join lib api (Op (LogicalFilter a lim pm) es (join # cs)) st =
      Inr (Op (LogicalFilter a lim pm) [cmp]
             (Op (LogicalProjection (Suc x)) es2 [Op (LogicalProjection x) es1 [join]] # cs),
           \<lparr>next_table_index = x + 2, pending_fixes = pending_fixes st @ [(a, rs)],
            decompositions = Suc (decompositions st)\<rparr>) \<and>
    (\<forall>S rows. eval_filter S [cmp] (map (project_row S (Suc x) es2 \<circ> project_row S x es1) rows) =
       map (project_row S (Suc x) es2 \<circ> project_row S x es1) (filter (split_holds S info d b1 b2) rows)) \<and>
    (\<forall>S r e. refs_of e \<subseteq> set (column_bindings join) \<longrightarrow>
       eval_expr S (project_row S (Suc x) es2 (project_row S x es1 r)) (replace_expr rs e) = eval_expr S r e)"
proof -
  let ?x = "next_table_index st" and ?cols = "columns join"
  let ?bs = "map fst ?cols"
  let ?rs = "zip ?bs (map (Pair (Suc ?x)) [0..<length ?cols])"
  obtain i where i: "i < length ?cols" "fst (?cols ! i) = b1"
    using b(1) by (auto simp: column_bindings_def in_set_conv_nth)
  obtain j where j: "j < length ?cols" "fst (?cols ! j) = b2"
    using b(2) by (auto simp: column_bindings_def in_set_conv_nth)
  have bs: "distinct ?bs" using dist by (simp add: column_bindings_def)
  let ?kids = "ColumnRef t1 b1 # ColumnRef t2 b2 # kids"
  have kids: "input_reference ?kids 0 = Inr b1" "input_reference ?kids 1 = Inr b2"
    by (simp_all add: input_reference_def)
  have cols: "input_column ?bs b1 = Inr i" "input_column ?bs b2 = Inr j"
    using bs i j by (auto intro: input_column_ref)
  have eq: "transform_filter_join lib api (Op (LogicalFilter a lim pm) es (join # cs)) st =
      Inr (Op (LogicalFilter a lim pm) [split_comparison (Suc ?x) (length ?cols) d]
             (Op (LogicalProjection (Suc ?x)) (proj2_exprs ?x ?cols info d j)
                [Op (LogicalProjection ?x) (proj1_exprs ?cols info d i) [join]] # cs),
           \<lparr>next_table_index = ?x + 2, pending_fixes = pending_fixes st @ [(a, ?rs)],
            decompositions = Suc (decompositions st)\<rparr>)"
    unfolding transform_filter_join_def
    using kids cols by (simp add: Let_def first d)
  have w: "widen S ?cols info d ?x i j r =
      project_row S (Suc ?x) (proj2_exprs ?x ?cols info d j) (project_row S ?x (proj1_exprs ?cols info d i) r)" for S :: "'v semantics" and r
    by (simp add: widen_def)
  have keep: "eval_filter S [split_comparison (Suc ?x) (length ?cols) d] (map (widen S ?cols info d ?x i j) rows) =
      map (widen S ?cols info d ?x i j) (filter (split_holds S info d b1 b2) rows)" for S :: "'v semantics" and rows
    using i j by (simp add: eval_filter_def filter_map comp_def eval_split_comparison split_holds_def cong: filter_cong)
  have above: "refs_of e \<subseteq> set (column_bindings join) \<Longrightarrow>
      eval_expr S (widen S ?cols info d ?x i j r) (replace_expr ?rs e) = eval_expr S r e"
    for S :: "'v semantics" and r e
    by (rule eval_replace_expr, subst widen_replaced) (use bs fresh in \<open>auto simp: column_bindings_def\<close>)
  show ?thesis
    using eq keep above by (intro exI [of _ ?x] exI) (fastforce simp: w [symmetric] comp_def)
qed

subsection \<open>A plan that is split\<close>

definition split_get :: "nat \<Rightarrow> lop" where
  "split_get i = Op (LogicalGet i ''t'' [''a'', ''b''] [VARCHAR, VARCHAR] []) [] []"

definition split_info :: bound_predict where
  "split_info = \<lparr>input_mask = [], input_set_names = [''a''], embedding_column_map = [], result_set = [(''ok'', BOOLEAN)],
     bp_type = LLM, bp_model = ''m'', bp_path = ''p'', bp_prompt = ''q'', bp_base_api = [], bp_secret = [],
     bp_types = [BOOLEAN], bp_opt_mask = [], bp_input_types = [], bp_options = []\<rparr>"

definition split_join :: lop where
  "split_join = Op LogicalCrossProduct [] [split_get 0, split_get 1]"

definition split_filter :: "bexpr list \<Rightarrow> lop" where
  "split_filter es = Op (LogicalFilter 9 (- 1) []) es [split_join]"

definition split_predict :: "nat \<Rightarrow> bexpr" where
  "split_predict t = PredictExpr BOOLEAN split_info [ColumnRef VARCHAR (0, 0), ColumnRef VARCHAR (t, 1)]"

definition split_reply :: "int json" where
  "split_reply = JObj [(''task1'', JStr ''x''), (''task1_output_column'', JStr ''u''), (''task2'', JStr ''y''),
     (''task2_output_column'', JStr ''v''), (''predicate'', JStr ''u <= v'')]"

definition split_lib :: "int jlib" where
  "split_lib = demo_lib\<lparr>j_parse := (\<lambda>s. if s = ''{}'' then Some split_reply else None)\<rparr>"

definition demo_split_api :: "int split_api" where
  "demo_split_api n model sys user =
     Inr (JObj [(''choices'', JArr [JObj [(''message'', JObj [(''content'', JStr ''{}'')])]])])"

definition split_start :: split_state where
  "split_start = \<lparr>next_table_index = 2, pending_fixes = [], decompositions = 0\<rparr>"

definition split_answer :: decomposed where
  "split_answer = \<lparr>task1 = ''x'', task1_output_column = ''u'', task2 = ''y'', task2_output_column = ''v'', predicate = ''u <= v''\<rparr>"

lemma demo_decomposition: "call_decomposition split_lib demo_split_api n info join = Inr split_answer"
  by (simp add: call_decomposition_def demo_split_api_def parse_decomposition_def first_message_def json_member_def
      extract_json_def is_open_def close_of_def split_lib_def split_reply_def string_member_def split_answer_def)

lemma split_join_bindings: "column_bindings split_join = [(0, 0), (0, 1), (1, 0), (1, 1)]"
  by (simp add: split_join_def split_get_def column_bindings_def first_columns_def second_columns_def get_columns_def
      generate_bindings_def upt_rec)

lemma over_split_join: "over_join split_join"
  by (simp add: over_join_def split_join_def)

lemma split_predict_first: "first_predict [split_predict t] =
    Some (split_info, [ColumnRef VARCHAR (0, 0), ColumnRef VARCHAR (t, 1)])"
  by (simp add: first_predict_def split_predict_def first_some_def)

theorem split_rewrite_correct_witness:
  "\<exists>q st rs. transform_filter_join split_lib demo_split_api (split_filter [split_predict 1]) split_start = Inr (q, st) \<and>
     pending_fixes st = [(9, rs)] \<and> next_table_index st = 4"
proof -
  obtain x es1 es2 cmp rs where "transform_filter_join split_lib demo_split_api
      (Op (LogicalFilter 9 (- 1) []) [split_predict 1] (split_join # [])) split_start =
      Inr (Op (LogicalFilter 9 (- 1) []) [cmp]
             [Op (LogicalProjection (Suc x)) es2 [Op (LogicalProjection x) es1 [split_join]]],
           \<lparr>next_table_index = x + 2, pending_fixes = pending_fixes split_start @ [(9, rs)],
            decompositions = Suc (decompositions split_start)\<rparr>)"
    using split_rewrite_correct [where cs = "[]" and a = 9 and lim = "- 1" and pm = "[]" and st = split_start,
        OF split_predict_first [of 1] demo_decomposition, of split_join]
    by (auto simp: split_join_bindings split_start_def)
  moreover from this have "x = 2"
    unfolding transform_filter_join_def
    by (auto simp: Let_def split_predict_first demo_decomposition bindR_Inr_iff split_start_def)
  ultimately show ?thesis by (simp add: split_filter_def split_start_def)
qed

subsection \<open>When the rule applies\<close>

lemma set_collect_bindings: "set (collect_bindings e) = refs_of e"
  by (induction e) auto

lemma two_of_distinct:
  assumes "distinct xs"
  shows "2 \<le> length (filter P xs) \<longleftrightarrow> (\<exists>x \<in> set xs. \<exists>y \<in> set xs. x \<noteq> y \<and> P x \<and> P y)"
proof
  assume "2 \<le> length (filter P xs)"
  then obtain x y ys where f: "filter P xs = x # y # ys" by (auto simp: Suc_le_length_iff numeral_2_eq_2)
  then have "{x, y} \<subseteq> set (filter P xs)" by simp
  moreover have "x \<noteq> y" using f assms distinct_filter [of xs P] by auto
  ultimately show "\<exists>x \<in> set xs. \<exists>y \<in> set xs. x \<noteq> y \<and> P x \<and> P y" by auto
next
  assume "\<exists>x \<in> set xs. \<exists>y \<in> set xs. x \<noteq> y \<and> P x \<and> P y"
  then obtain x y where "{x, y} \<subseteq> set (filter P xs)" "x \<noteq> y" by auto
  then have "2 \<le> Finite_Set.card (set (filter P xs))" using card_mono [of "set (filter P xs)" "{x, y}"] by simp
  also have "\<dots> \<le> length (filter P xs)" by (rule card_length)
  finally show "2 \<le> length (filter P xs)" .
qed

text \<open>C29: a filter is split when it has no limit, stands on a join or on a projection of one, and the first
  PREDICT of one of its expressions reads two different columns of that child. Nothing requires the
  two columns to come from different sides of the join, as the header of the class says.\<close>
theorem can_split_iff:
  assumes "distinct (column_bindings child)"
  shows "can_split (Op (LogicalFilter a lim pm) es (child # cs)) \<longleftrightarrow>
    lim = - 1 \<and> over_join child \<and>
    (\<exists>e \<in> set es. \<exists>info kids. find_first_predict e = Some (info, kids) \<and>
      (\<exists>b1 \<in> set (column_bindings child). \<exists>b2 \<in> set (column_bindings child). b1 \<noteq> b2 \<and>
        (\<exists>k \<in> set kids. b1 \<in> refs_of k) \<and> (\<exists>k \<in> set kids. b2 \<in> refs_of k)))"
proof -
  have each: "find_first_predict e \<noteq> None \<and> 2 \<le> matched_columns (column_bindings child) e \<longleftrightarrow>
    (\<exists>info kids. find_first_predict e = Some (info, kids) \<and>
      (\<exists>b1 \<in> set (column_bindings child). \<exists>b2 \<in> set (column_bindings child). b1 \<noteq> b2 \<and>
        (\<exists>k \<in> set kids. b1 \<in> refs_of k) \<and> (\<exists>k \<in> set kids. b2 \<in> refs_of k)))" for e
  proof (cases "find_first_predict e")
    case (Some r)
    then show ?thesis
      by (cases r) (simp add: matched_columns_def two_of_distinct [OF assms] set_collect_bindings)
  qed simp
  show ?thesis unfolding can_split_def by (simp only: lop.case op_class.case list.case list_ex_iff each)
qed

theorem can_split_iff_witness:
  "can_split (split_filter [split_predict 0]) \<and> can_split (split_filter [split_predict 1]) \<and>
   \<not> can_split (split_filter [split_predict 2])"
  using can_split_iff [of split_join 9 "- 1" "[]" "[split_predict 0]" "[]"]
    can_split_iff [of split_join 9 "- 1" "[]" "[split_predict 1]" "[]"]
    can_split_iff [of split_join 9 "- 1" "[]" "[split_predict 2]" "[]"]
  by (simp add: split_filter_def split_join_bindings split_predict_def over_split_join)

text \<open>C30: the rewrite takes the first PREDICT of the filter, which need not be the one that made the rule
  apply. It succeeds exactly when the first two children of that PREDICT are columns of the filter's child;
  otherwise the query fails with an \<open>InternalException\<close>: for a missing child, for a child that is no column
  reference, and for a column that the join does not have.\<close>
theorem split_throws_iff:
  assumes "first_predict es = Some (info, kids)" "call_decomposition lib api (decompositions st) info join = Inr d"
  shows "if \<exists>t1 b1 t2 b2 rest. kids = ColumnRef t1 b1 # ColumnRef t2 b2 # rest \<and>
          b1 \<in> set (column_bindings join) \<and> b2 \<in> set (column_bindings join)
    then \<exists>q st'. transform_filter_join lib api (Op (LogicalFilter a lim pm) es (join # cs)) st = Inr (q, st')
    else \<exists>m. transform_filter_join lib api (Op (LogicalFilter a lim pm) es (join # cs)) st = Inl (InternalException m)"
    (is "if ?ok then ?returns else ?throws")
proof -
  let ?bs = "map fst (columns join)"
  consider t1 b1 t2 b2 rest where "kids = ColumnRef t1 b1 # ColumnRef t2 b2 # rest"
      "input_reference kids 0 = Inr b1" "input_reference kids 1 = Inr b2"
    | m where "input_reference kids 0 = Inl (InternalException m)" "\<not> ?ok"
    | b1 m where "input_reference kids 0 = Inr b1" "input_reference kids 1 = Inl (InternalException m)" "\<not> ?ok"
    using input_reference_throws [of 0 kids] input_reference_throws [of 1 kids]
    by (cases kids; cases "tl kids") auto
  then show ?thesis
  proof cases
    case (1 t1 b1 t2 b2 rest)
    have ok: "?ok \<longleftrightarrow> b1 \<in> set ?bs \<and> b2 \<in> set ?bs" using 1(1) by (simp add: column_bindings_def)
    show ?thesis
    proof (cases "b1 \<in> set ?bs \<and> b2 \<in> set ?bs")
      case True
      then obtain i j where "input_column ?bs b1 = Inr i" "input_column ?bs b2 = Inr j" using input_column_Inr by metis
      then have ?returns using assms 1(2,3) by (simp add: transform_filter_join_def Let_def)
      then show ?thesis using True ok by simp
    next
      case False
      have "\<exists>m. bindR (input_column ?bs b1) (\<lambda>i. bindR (input_column ?bs b2) (f i)) = Inl (InternalException m)"
        for f :: "nat \<Rightarrow> nat \<Rightarrow> (lop \<times> split_state) res"
      proof (cases "b1 \<in> set ?bs")
        case True
        then obtain i where "input_column ?bs b1 = Inr i" using input_column_Inr by metis
        then show ?thesis using False True input_column_Inl [of b2 ?bs] by (simp add: bad_index_def)
      qed (use input_column_Inl [of b1 ?bs] in \<open>simp add: bad_index_def\<close>)
      then have ?throws using assms 1(2,3) by (simp add: transform_filter_join_def Let_def)
      moreover have "\<not> ?ok" using ok False by blast
      ultimately show ?thesis by (simp only: if_False)
    qed
  next
    case (2 m)
    then have ?throws using assms by (simp add: transform_filter_join_def Let_def)
    then show ?thesis using 2(2) by (simp only: if_False)
  next
    case (3 b1 m)
    then have ?throws using assms by (simp add: transform_filter_join_def Let_def)
    then show ?thesis using 3(3) by (simp only: if_False)
  qed
qed

theorem split_throws_iff_witness:
  "can_split (split_filter [PredictExpr BOOLEAN split_info [ColumnRef VARCHAR (0, 0)], split_predict 1]) \<and>
   (\<exists>m. transform_filter_join split_lib demo_split_api
      (split_filter [PredictExpr BOOLEAN split_info [ColumnRef VARCHAR (0, 0)], split_predict 1]) split_start = Inl (InternalException m)) \<and>
   (\<exists>q st'. transform_filter_join split_lib demo_split_api (split_filter [split_predict 1]) split_start = Inr (q, st'))"
proof (intro conjI)
  show "can_split (split_filter [PredictExpr BOOLEAN split_info [ColumnRef VARCHAR (0, 0)], split_predict 1])"
    by (simp add: can_split_def split_filter_def over_split_join split_join_bindings split_predict_def matched_columns_def)
  show "\<exists>m. transform_filter_join split_lib demo_split_api
      (split_filter [PredictExpr BOOLEAN split_info [ColumnRef VARCHAR (0, 0)], split_predict 1]) split_start = Inl (InternalException m)"
    unfolding split_filter_def
    using split_throws_iff [where es = "[PredictExpr BOOLEAN split_info [ColumnRef VARCHAR (0, 0)], split_predict 1]"
        and info = split_info and kids = "[ColumnRef VARCHAR (0, 0)]" and lib = split_lib and api = demo_split_api
        and d = split_answer and st = split_start and join = split_join and a = 9 and lim = "- 1" and pm = "[]" and cs = "[]",
        OF _ demo_decomposition]
    by (simp add: first_predict_def first_some_def split_join_bindings)
  show "\<exists>q st'. transform_filter_join split_lib demo_split_api (split_filter [split_predict 1]) split_start = Inr (q, st')"
    unfolding split_filter_def
    using split_throws_iff [where es = "[split_predict 1]"
        and info = split_info and kids = "[ColumnRef VARCHAR (0, 0), ColumnRef VARCHAR (1, 1)]" and lib = split_lib and api = demo_split_api
        and d = split_answer and st = split_start and join = split_join and a = 9 and lim = "- 1" and pm = "[]" and cs = "[]",
        OF _ demo_decomposition]
    by (simp add: first_predict_def first_some_def split_join_bindings split_predict_def)
qed

text \<open>A plan without a splittable filter is left alone, and no call is made.\<close>

fun splittable :: "lop \<Rightarrow> bool" where
  "splittable (Op k es cs) = (can_split (Op k es cs) \<or> list_ex splittable cs)"

lemma foldR_unchanged:
  "(\<And>c. c \<in> set cs \<Longrightarrow> f c st = Inr (c, st)) \<Longrightarrow>
   foldR (\<lambda>c acc. mapR (\<lambda>(c', st'). (fst acc @ [c'], st')) (f c (snd acc))) cs (xs, st) = Inr (xs @ cs, st)"
  by (induction cs arbitrary: xs) auto

lemma transform_plan_unchanged: "\<not> splittable p \<Longrightarrow> transform_plan lib api p st = Inr (p, st)"
proof (induction p)
  case (Op k es cs)
  have here: "split_here lib api (Op k es cs) st = Inr (Op k es cs, st)"
    using Op.prems by (simp add: split_here_def)
  have "foldR (\<lambda>c acc. mapR (\<lambda>(c', st'). (fst acc @ [c'], st')) (transform_plan lib api c (snd acc))) cs ([], st)
      = Inr ([] @ cs, st)"
    using Op by (intro foldR_unchanged) (auto simp: list_ex_iff)
  then show ?case using here by (simp add: transform_plan.simps [of _ _ "Op k es cs"])
qed

lemma split_optimize_unchanged:
  "\<not> splittable p \<Longrightarrow>
   split_optimize lib api idx p = Inr (p, \<lparr>next_table_index = idx, pending_fixes = [], decompositions = 0\<rparr>)"
  by (simp add: split_optimize_def transform_plan_unchanged)

subsection \<open>The comparison in the model's reply\<close>

lemma contains_text_free: "a \<notin> set x \<Longrightarrow> contains_text (a # p) (x @ z) = contains_text (a # p) z"
  by (induction x) auto

lemma contains_text_absent: "a \<notin> set x \<Longrightarrow> \<not> contains_text (a # p) x"
  by (induction x) auto

text \<open>Whatever comparison a predicate is written with is the one the rewritten filter uses, as long as
  its operands contain no comparison characters; a predicate without any is taken for an equality.\<close>
lemma parse_comparison_symbol:
  assumes "set (x @ y) \<inter> set ''<>!='' = {}"
  shows "parse_comparison (x @ comparison_symbol c @ y) = c \<and> parse_comparison (x @ y) = COMPARE_EQUAL"
proof -
  have x: "CHR ''<'' \<notin> set x" "CHR ''>'' \<notin> set x" "CHR ''!'' \<notin> set x" "CHR ''='' \<notin> set x"
    and y: "CHR ''<'' \<notin> set y" "CHR ''>'' \<notin> set y" "CHR ''!'' \<notin> set y" "CHR ''='' \<notin> set y"
    using assms by auto
  note free = x y [THEN contains_text_absent] contains_text_free
  have y1: "take 1 y \<noteq> [CHR ''='']" "take 1 y \<noteq> [CHR ''>'']" using y by (cases y; auto)+
  have "parse_comparison (x @ comparison_symbol c @ y) = c"
    using y1 by (cases c) (simp_all add: parse_comparison_def free)
  moreover have "parse_comparison (x @ y) = COMPARE_EQUAL"
    by (simp add: parse_comparison_def free)
  ultimately show ?thesis ..
qed

lemma parse_comparison_symbol_witness:
  "parse_comparison ''u <= v'' = COMPARE_LESSTHANOREQUALTO \<and> parse_comparison ''u v'' = COMPARE_EQUAL"
  using parse_comparison_symbol [of "''u ''" "''v''" COMPARE_EQUAL]
    parse_comparison_symbol [of "''u ''" "'' v''" COMPARE_LESSTHANOREQUALTO] by simp

end
