(* ===== verification/Filter_Pullup.thy ===== *)
theory Filter_Pullup
  imports Plan
begin

section \<open>Pulling filters up\<close>

text \<open>
  \<open>src/optimizer/filter_pullup.cpp\<close> and \<open>src/optimizer/pullup/\<close>: the filters below a fork of the plan
  are collected and put back above it, and an inner join becomes a cross product under its
  conditions. \<open>PredictPullup\<close> (\<open>predict_pullup.cpp\<close>) is the same traversal for PREDICT operators. The
  filters a \<open>FilterPullup\<close> object has collected are an argument and a result of \<open>rewrite_filters\<close>.
  The assignment of \<open>can_pullup\<close> in \<open>PullupSetOperation\<close> has no reader: both sides are rewritten by
  objects of their own, and the callers of the same object test the flag before they descend. Its
  assignment of \<open>can_add_column\<close> changes nothing either: the flag is false by default, and every object
  is built with the default or with the flag of the object that builds it.
\<close>

subsection \<open>Rebinding a filter to a projection\<close>

text \<open>\<open>ReplaceExpressionBinding\<close>: the projection may grow by the columns it lacks.\<close>

fun rebind :: "nat \<Rightarrow> bexpr list \<Rightarrow> bexpr \<Rightarrow> bexpr \<times> bexpr list"
  and rebind_list :: "nat \<Rightarrow> bexpr list \<Rightarrow> bexpr list \<Rightarrow> bexpr list \<times> bexpr list" where
  "rebind idx ps (ColumnRef t b) =
     (case position (ColumnRef t b) ps of
        Some i \<Rightarrow> (ColumnRef t (idx, i), ps)
      | None \<Rightarrow> (ColumnRef t (idx, length ps), ps @ [ColumnRef t b]))"
| "rebind idx ps (PredictExpr t i es) = (let (es', ps') = rebind_list idx ps es in (PredictExpr t i es', ps'))"
| "rebind idx ps (ComparisonExpr c l r) =
     (let (l', ps') = rebind idx ps l; (r', ps'') = rebind idx ps' r in (ComparisonExpr c l' r', ps''))"
| "rebind idx ps (OtherExpr k t es) = (let (es', ps') = rebind_list idx ps es in (OtherExpr k t es', ps'))"
| "rebind_list idx ps [] = ([], ps)"
| "rebind_list idx ps (e # es) =
     (let (e', ps') = rebind idx ps e; (es', ps'') = rebind_list idx ps' es in (e' # es', ps''))"

text \<open>\<open>GeneratePullupFilter\<close>. The address of a new filter plays no part here.\<close>

definition new_filter :: "bexpr list \<Rightarrow> lop \<Rightarrow> lop" where
  "new_filter fs child = Op (LogicalFilter 0 (- 1) []) fs [child]"

text \<open>\<open>ProjectSetOperation\<close> and \<open>RevertFilterPullup\<close>.\<close>

definition project_set_operation :: "nat \<Rightarrow> bexpr list \<Rightarrow> lop \<Rightarrow> bexpr list \<Rightarrow> lop \<times> bexpr list" where
  "project_set_operation idx es child fs =
     (let (changed, copy) = rebind_list idx es fs in
      if length es < length copy then (Op (LogicalProjection idx) es [new_filter fs child], [])
      else (Op (LogicalProjection idx) es [child], changed))"

definition pullup_projection :: "bool \<Rightarrow> nat \<Rightarrow> bexpr list \<Rightarrow> lop \<Rightarrow> bexpr list \<Rightarrow> lop \<times> bexpr list" where
  "pullup_projection add_column idx es child fs =
     (if fs = [] then (Op (LogicalProjection idx) es [child], fs)
      else if \<not> add_column then project_set_operation idx es child fs
      else let (fs', es') = rebind_list idx es fs in (Op (LogicalProjection idx) es' [child], fs'))"

subsection \<open>Forks\<close>

definition pullup_both_side :: "op_class \<Rightarrow> bexpr list \<Rightarrow> lop \<times> bexpr list \<Rightarrow> lop \<times> bexpr list \<Rightarrow> lop" where
  "pullup_both_side k es l r =
     (if snd l @ snd r \<noteq> [] then new_filter (snd l @ snd r) (Op k es [fst l, fst r])
      else Op k es [fst l, fst r])"

definition pullup_from_left :: "op_class \<Rightarrow> bexpr list \<Rightarrow> lop \<times> bexpr list \<Rightarrow> lop \<times> bexpr list \<Rightarrow> lop" where
  "pullup_from_left k es l r =
     (if snd l \<noteq> [] \<and> snd r = [] then new_filter (snd l) (Op k es [fst l, fst r])
      else Op k es [fst l, fst r])"

text \<open>The conditions of a join as expressions: a comparison join has two sides per condition.\<close>

fun pair_conditions :: "comparison list \<Rightarrow> bexpr list \<Rightarrow> bexpr list" where
  "pair_conditions (c # cs) (l # r # es) = ComparisonExpr c l r # pair_conditions cs es"
| "pair_conditions _ _ = []"

definition join_conditions :: "join_kind \<Rightarrow> comparison list \<Rightarrow> bexpr list \<Rightarrow> bexpr list" where
  "join_conditions kind ops es = (if kind = AnyKindJoin then es else pair_conditions ops es)"

definition pullup_inner_join ::
    "bool \<Rightarrow> op_class \<Rightarrow> bexpr list \<Rightarrow> bexpr list \<Rightarrow> lop \<times> bexpr list \<Rightarrow> lop \<times> bexpr list \<Rightarrow> bexpr list \<Rightarrow> lop \<times> bexpr list" where
  "pullup_inner_join can_pullup k es conditions l r fs =
     (let below = snd l @ snd r; expressions = below @ conditions;
          cross = Op LogicalCrossProduct [] [fst l, fst r]
      in if below = [] \<and> \<not> can_pullup then (Op k es [fst l, fst r], fs)
         else if can_pullup then (cross, fs @ expressions)
         else (new_filter expressions cross, fs))"

text \<open>\<open>ReplaceFilterTableIndex\<close> in the filter a set operation got.\<close>

fun set_table_index :: "nat \<Rightarrow> bexpr \<Rightarrow> bexpr" where
  "set_table_index idx (ColumnRef t b) = ColumnRef t (idx, snd b)"
| "set_table_index idx (PredictExpr t i es) = PredictExpr t i (map (set_table_index idx) es)"
| "set_table_index idx (ComparisonExpr c l r) = ComparisonExpr c (set_table_index idx l) (set_table_index idx r)"
| "set_table_index idx (OtherExpr k t es) = OtherExpr k t (map (set_table_index idx) es)"

definition fix_set_operation :: "nat \<Rightarrow> lop \<Rightarrow> lop" where
  "fix_set_operation idx p =
     (case p of Op (LogicalFilter a lim pm) es cs \<Rightarrow> Op (LogicalFilter a lim pm) (map (set_table_index idx) es) cs
      | _ \<Rightarrow> p)"

definition finish_pullup :: "op_class \<Rightarrow> bexpr list \<Rightarrow> lop list \<Rightarrow> bexpr list \<Rightarrow> lop \<times> bexpr list" where
  "finish_pullup k es cs fs =
     (if fs = [] then (Op k es cs, fs) else (new_filter fs (Op k es cs), []))"

subsection \<open>The traversal\<close>

fun rewrite_filters :: "bool \<Rightarrow> bool \<Rightarrow> lop \<Rightarrow> bexpr list \<Rightarrow> lop \<times> bexpr list" where
  "rewrite_filters can_pullup add_column (Op k es cs) fs =
     (case (k, cs) of
        (LogicalFilter a lim pm, [c]) \<Rightarrow>
          (let (c', fs') = rewrite_filters can_pullup add_column c fs in
           if can_pullup \<and> pm = [] then (c', fs' @ es) else (Op k es [c'], fs'))
      | (LogicalProjection idx, [c]) \<Rightarrow>
          (let (c', fs') = rewrite_filters can_pullup add_column c fs in
           pullup_projection add_column idx es c' fs')
      | (LogicalCrossProduct, [l, r]) \<Rightarrow>
          (pullup_both_side k es (rewrite_filters True add_column l []) (rewrite_filters True add_column r []), fs)
      | (LogicalJoin kind jt mark lmap rmap ops, [l, r]) \<Rightarrow>
          (if kind = BaseJoin then finish_pullup k es (map (\<lambda>c. fst (rewrite_filters False False c [])) cs) fs
           else if jt = JoinInner \<and> kind = DelimJoin then (Op k es cs, fs)
           else if jt = JoinInner \<and> kind \<noteq> AsofJoin then
             pullup_inner_join can_pullup k es (join_conditions kind ops es)
               (rewrite_filters True add_column l []) (rewrite_filters True add_column r []) fs
           else if jt = JoinInner \<or> jt = JoinLeft \<or> jt = JoinAnti \<or> jt = JoinSemi then
             (pullup_from_left k es (rewrite_filters True add_column l []) (rewrite_filters False add_column r []), fs)
           else finish_pullup k es (map (\<lambda>c. fst (rewrite_filters False False c [])) cs) fs)
      | (LogicalIntersect idx n all, [l, r]) \<Rightarrow>
          (fix_set_operation idx
             (pullup_both_side k es (rewrite_filters True False l []) (rewrite_filters True False r [])), fs)
      | (LogicalExcept idx n all, [l, r]) \<Rightarrow>
          (fix_set_operation idx
             (pullup_from_left k es (rewrite_filters True False l []) (rewrite_filters False False r [])), fs)
      | (LogicalDistinct on, [c]) \<Rightarrow>
          (if on then finish_pullup k es (map (\<lambda>c. fst (rewrite_filters False False c [])) cs) fs
           else let (c', fs') = rewrite_filters can_pullup add_column c fs in (Op k es [c'], fs'))
      | (LogicalOrder pm, [c]) \<Rightarrow>
          (let (c', fs') = rewrite_filters can_pullup add_column c fs in (Op k es [c'], fs'))
      | _ \<Rightarrow> finish_pullup k es (map (\<lambda>c. fst (rewrite_filters False False c [])) cs) fs)"

definition filter_pullup :: "lop \<Rightarrow> lop" where
  "filter_pullup p = fst (rewrite_filters False False p [])"


subsection \<open>What a plan computes\<close>

text \<open>
  Rows in order, for the operators filters move through; scans, the matching of an AS OF join, sort
  keys and all other operators are parameters. Conditions that are NULL do not hold.
\<close>

record 'v plan_semantics = "'v semantics" +
  scan :: "nat \<Rightarrow> 'v row list"
  nearest :: "bexpr list \<Rightarrow> 'v row \<Rightarrow> 'v row list \<Rightarrow> nat option"
  sort_rank :: "'v list \<Rightarrow> int"
  operate :: "op_class \<Rightarrow> bexpr list \<Rightarrow> 'v row list list \<Rightarrow> 'v row list"
  null_value :: 'v
  limit_of :: "limit_node \<Rightarrow> nat \<Rightarrow> nat"
  predict_row :: "bound_predict option \<Rightarrow> 'v row \<Rightarrow> 'v list"

definition conform :: "binding list \<Rightarrow> 'v row \<Rightarrow> 'v row" where
  "conform bs r = (\<lambda>b. if b \<in> set bs then Some (the (r b)) else None)"

definition cross :: "'v row list \<Rightarrow> 'v row list \<Rightarrow> 'v row list" where
  "cross L R = concat (map (\<lambda>l. map (\<lambda>r. l ++ r) R) L)"

definition join_matches ::
    "'v plan_semantics \<Rightarrow> join_kind \<Rightarrow> comparison list \<Rightarrow> bexpr list \<Rightarrow> 'v row list \<Rightarrow> 'v row \<Rightarrow> 'v row list" where
  "join_matches S kind ops es R l =
     (if kind = AsofJoin
      then (case nearest S es l R of Some i \<Rightarrow> if i < length R then [l ++ (R ! i)] else [] | None \<Rightarrow> [])
      else filter (all_hold (semantics.truncate S) (join_conditions kind ops es)) (map (\<lambda>r. l ++ r) R))"

text \<open>What one left row contributes to a join driven by its left side.\<close>

definition left_driven :: "'v plan_semantics \<Rightarrow> join_type \<Rightarrow> binding list \<Rightarrow> 'v row list \<Rightarrow> 'v row \<Rightarrow> 'v row list" where
  "left_driven S jt rbs ms l =
     (case jt of
        JoinInner \<Rightarrow> ms
      | JoinLeft \<Rightarrow> (if ms = [] then [l ++ (\<lambda>b. if b \<in> set rbs then Some (null_value S) else None)] else ms)
      | JoinSemi \<Rightarrow> (if ms = [] then [] else [l])
      | JoinAnti \<Rightarrow> (if ms = [] then [l] else [])
      | _ \<Rightarrow> [])"

text \<open>Set operations compare rows by position.\<close>

definition tuple_of :: "binding list \<Rightarrow> 'v row \<Rightarrow> 'v list" where
  "tuple_of bs r = map (\<lambda>b. the (r b)) bs"

definition row_of_tuple :: "nat \<Rightarrow> 'v list \<Rightarrow> 'v row" where
  "row_of_tuple idx vs = (\<lambda>(t, c). if t = idx \<and> c < length vs then Some (vs ! c) else None)"

fun intersect_all :: "'a list \<Rightarrow> 'a list \<Rightarrow> 'a list" where
  "intersect_all [] ys = []"
| "intersect_all (x # xs) ys = (if x \<in> set ys then x # intersect_all xs (remove1 x ys) else intersect_all xs ys)"

fun except_all :: "'a list \<Rightarrow> 'a list \<Rightarrow> 'a list" where
  "except_all [] ys = []"
| "except_all (x # xs) ys = (if x \<in> set ys then except_all xs (remove1 x ys) else x # except_all xs ys)"

definition intersect_lists :: "bool \<Rightarrow> 'a list \<Rightarrow> 'a list \<Rightarrow> 'a list" where
  "intersect_lists all xs ys = (if all then intersect_all xs ys else remdups (filter (\<lambda>x. x \<in> set ys) xs))"

definition except_lists :: "bool \<Rightarrow> 'a list \<Rightarrow> 'a list \<Rightarrow> 'a list" where
  "except_lists all xs ys = (if all then except_all xs ys else remdups (filter (\<lambda>x. x \<notin> set ys) xs))"

text \<open>The rows a LIMIT keeps: those after the offset, up to the limit. Percentages and expressions are
  evaluated once, on the number of rows.\<close>

fun limit_amount :: "'v plan_semantics \<Rightarrow> limit_node \<Rightarrow> nat \<Rightarrow> nat" where
  "limit_amount S (LimitConstant c) n = c"
| "limit_amount S l n = limit_of S l n"

definition limit_rows :: "'v plan_semantics \<Rightarrow> limit_node \<Rightarrow> limit_node \<Rightarrow> 'a list \<Rightarrow> 'a list" where
  "limit_rows S lim off xs =
     (let rest = if off = LimitUnset then xs else drop (limit_amount S off (length xs)) xs
      in if lim = LimitUnset then rest else take (limit_amount S lim (length xs)) rest)"

fun eval_class ::
    "'v plan_semantics \<Rightarrow> op_class \<Rightarrow> bexpr list \<Rightarrow> binding list \<Rightarrow> binding list list \<Rightarrow> 'v row list list \<Rightarrow> 'v row list" where
  "eval_class S (LogicalGet idx _ _ _ _) es out _ _ = map (conform out) (scan S idx)"
| "eval_class S (LogicalFilter _ _ _) es out [c] [R] = map (conform out) (eval_filter (semantics.truncate S) es R)"
| "eval_class S (LogicalProjection idx) es out [c] [R] = map (project_row (semantics.truncate S) idx es) R"
| "eval_class S LogicalCrossProduct es out [a, b] [L, R] = cross L R"
| "eval_class S (LogicalJoin kind jt mark lmap rmap ops) es out [a, b] [L, R] =
     (if kind \<noteq> BaseJoin \<and> jt \<in> {JoinInner, JoinLeft, JoinSemi, JoinAnti}
      then map (conform out) (concat (map (\<lambda>l. left_driven S jt b (join_matches S kind ops es R l) l) L))
      else map (conform out) (operate S (LogicalJoin kind jt mark lmap rmap ops) es [L, R]))"
| "eval_class S (LogicalIntersect idx n all) es out [a, b] [L, R] =
     map (row_of_tuple idx) (intersect_lists all (map (tuple_of a) L) (map (tuple_of b) R))"
| "eval_class S (LogicalExcept idx n all) es out [a, b] [L, R] =
     map (row_of_tuple idx) (except_lists all (map (tuple_of a) L) (map (tuple_of b) R))"
| "eval_class S (LogicalDistinct on) es out [c] [R] =
     (if on then map (conform out) (operate S (LogicalDistinct on) es [R]) else remdups R)"
| "eval_class S (LogicalOrder pm) es out [c] [R] =
     map (conform out) (sort_key (\<lambda>r. sort_rank S (map (eval_expr (semantics.truncate S) r) es)) R)"
| "eval_class S (LogicalLimit lim off) es out [c] [R] = map (conform out) (limit_rows S lim off R)"
| "eval_class S (LogicalPredict idx info) es out [c] [R] =
     map (\<lambda>r. conform out (row_of_tuple idx (predict_row S info r))) R"
| "eval_class S k es out css Rs = map (conform out) (operate S k es Rs)"

fun eval_plan :: "'v plan_semantics \<Rightarrow> lop \<Rightarrow> 'v row list" where
  "eval_plan S (Op k es cs) =
     eval_class S k es (column_bindings (Op k es cs)) (map column_bindings cs) (map (eval_plan S) cs)"

text \<open>
  The plans the pass meets: expressions read the children's columns, the two sides of a join have
  different bindings, projection maps are not set yet, a LIMIT reads no column, a PREDICT has at most
  one child, and the children of a set operation output
  the columns of one table index in order.
\<close>

fun wf_class :: "op_class \<Rightarrow> bexpr list \<Rightarrow> binding list list \<Rightarrow> bool" where
  "wf_class (LogicalFilter _ _ pm) es css = (length css = 1 \<and> pm = [])"
| "wf_class (LogicalProjection _) es css = (length css = 1)"
| "wf_class LogicalCrossProduct es css = (length css = 2 \<and> set (css ! 0) \<inter> set (css ! 1) = {})"
| "wf_class (LogicalJoin kind jt mark lmap rmap ops) es css =
     (length css = 2 \<and> set (css ! 0) \<inter> set (css ! 1) = {} \<and> lmap = [] \<and> rmap = [])"
| "wf_class (LogicalIntersect idx n all) es css =
     (length css = 2 \<and> (\<exists>t u. css = [map (Pair t) [0..<n], map (Pair u) [0..<n]]))"
| "wf_class (LogicalExcept idx n all) es css =
     (length css = 2 \<and> (\<exists>t u. css = [map (Pair t) [0..<n], map (Pair u) [0..<n]]))"
| "wf_class (LogicalDistinct _) es css = (length css = 1)"
| "wf_class (LogicalOrder pm) es css = (length css = 1 \<and> pm = [])"
| "wf_class (LogicalLimit _ _) es css = (length css = 1 \<and> (\<forall>e \<in> set es. refs_of e = {}))"
| "wf_class (LogicalPredict _ _) es css = (length css \<le> 1)"
| "wf_class _ _ _ = True"

fun wf_plan :: "lop \<Rightarrow> bool" where
  "wf_plan (Op k es cs) =
     (list_all wf_plan cs \<and> list_all (\<lambda>e. refs_of e \<subseteq> \<Union>(set (map (set \<circ> column_bindings) cs))) es \<and>
      wf_class k es (map column_bindings cs))"

subsection \<open>Rows and their bindings\<close>

lemma conform_id: "dom r = set bs \<Longrightarrow> conform bs r = r"
proof (rule ext)
  fix b assume "dom r = set bs"
  then have "r b \<noteq> None \<longleftrightarrow> b \<in> set bs" by (metis domIff)
  then show "conform bs r b = r b" by (auto simp: conform_def)
qed

lemma dom_conform [simp]: "dom (conform bs r) = set bs"
  by (auto simp: conform_def dom_def)

lemma dom_project_row: "dom (project_row S idx es r) = set (map (Pair idx) [0..<length es])"
  by (auto simp: project_row_def dom_def split: if_splits)

lemma dom_row_of_tuple: "dom (row_of_tuple idx vs) = set (map (Pair idx) [0..<length vs])"
  by (auto simp: row_of_tuple_def dom_def split: if_splits)

lemma column_bindings_projection: "column_bindings (Op (LogicalProjection idx) es cs) = map (Pair idx) [0..<length es]"
  by (simp add: column_bindings_def generate_bindings_fst)

lemma column_bindings_setop:
  "length (column_bindings a) = n \<Longrightarrow> column_bindings (Op (LogicalIntersect idx n all) es [a, b]) = map (Pair idx) [0..<n]"
  "length (column_bindings a) = n \<Longrightarrow> column_bindings (Op (LogicalExcept idx n all) es [a, b]) = map (Pair idx) [0..<n]"
  by (simp_all add: column_bindings_def generate_bindings_fst first_columns_def)

lemma set_intersect_all: "set (intersect_all xs ys) \<subseteq> set xs"
  by (induction xs ys rule: intersect_all.induct) auto

lemma set_except_all: "set (except_all xs ys) \<subseteq> set xs"
  by (induction xs ys rule: except_all.induct) auto

lemma set_intersect_lists: "set (intersect_lists all xs ys) \<subseteq> set xs"
  using set_intersect_all [of xs ys] by (auto simp: intersect_lists_def)

lemma set_except_lists: "set (except_lists all xs ys) \<subseteq> set xs"
  using set_except_all [of xs ys] by (auto simp: except_lists_def)

lemma length_tuple_of [simp]: "length (tuple_of bs r) = length bs"
  by (simp add: tuple_of_def)


lemma two_lists: "length xs = 2 \<Longrightarrow> \<exists>a b. xs = [a, b]"
  by (auto simp: length_Suc_conv numeral_2_eq_2)

lemma one_list: "length xs = 1 \<Longrightarrow> \<exists>a. xs = [a]"
  by (auto simp: length_Suc_conv)

lemma row_dom: "wf_plan p \<Longrightarrow> r \<in> set (eval_plan S p) \<Longrightarrow> dom r = set (column_bindings p)"
proof (induction p arbitrary: r)
  case (Op k es cs)
  have wf: "wf_class k es (map column_bindings cs)" and sub: "list_all wf_plan cs" using Op.prems(1) by auto
  have IH: "dom r = set (column_bindings c)" if "c \<in> set cs" "r \<in> set (eval_plan S c)" for c r
    using Op.IH that sub by (auto simp: list_all_iff)
  show ?case
  proof (cases k)
    case (LogicalProjection idx)
    then obtain c where "cs = [c]" using wf one_list [of cs] by auto
    then obtain x where "r = project_row (semantics.truncate S) idx es x"
      using Op.prems(2) LogicalProjection by auto
    then show ?thesis using LogicalProjection by (simp only: dom_project_row column_bindings_projection)
  next
    case LogicalCrossProduct
    then obtain a b where cs: "cs = [a, b]" using wf two_lists [of cs] by auto
    have "set (column_bindings (Op k es cs)) = set (column_bindings a) \<union> set (column_bindings b)"
      using LogicalCrossProduct cs by (auto simp: column_bindings_def first_columns_def second_columns_def)
    moreover obtain x y where "r = x ++ y" "x \<in> set (eval_plan S a)" "y \<in> set (eval_plan S b)"
      using Op.prems(2) LogicalCrossProduct cs by (auto simp: cross_def)
    ultimately show ?thesis using IH [of a x] IH [of b y] cs by (auto simp: dom_map_add)
  next
    case (LogicalFilter a lim pm)
    then obtain c where "cs = [c]" using wf one_list [of cs] by auto
    then obtain x where "r = conform (column_bindings (Op k es cs)) x"
      using Op.prems(2) LogicalFilter by auto
    then show ?thesis by (simp only: dom_conform)
  next
    case (LogicalJoin kind jt mark lmap rmap ops)
    then obtain a b where "cs = [a, b]" using wf two_lists [of cs] by auto
    then obtain x where "r = conform (column_bindings (Op k es cs)) x"
      using Op.prems(2) LogicalJoin by (auto simp del: columns.simps split: if_splits)
    then show ?thesis by (simp only: dom_conform)
  next
    case (LogicalIntersect idx n all)
    then obtain a b t where cs: "cs = [a, b]" "column_bindings a = map (Pair t) [0..<n]"
      using wf two_lists [of cs] by auto
    then have len: "length (column_bindings a) = n" by simp
    obtain vs where "r = row_of_tuple idx vs" "vs \<in> set (map (tuple_of (column_bindings a)) (eval_plan S a))"
      using Op.prems(2) LogicalIntersect cs(1) set_intersect_lists by fastforce
    then show ?thesis using len cs(1) LogicalIntersect
      by (auto simp: dom_row_of_tuple column_bindings_setop simp del: columns.simps length_column_bindings)
  next
    case (LogicalExcept idx n all)
    then obtain a b t where cs: "cs = [a, b]" "column_bindings a = map (Pair t) [0..<n]"
      using wf two_lists [of cs] by auto
    then have len: "length (column_bindings a) = n" by simp
    obtain vs where "r = row_of_tuple idx vs" "vs \<in> set (map (tuple_of (column_bindings a)) (eval_plan S a))"
      using Op.prems(2) LogicalExcept cs(1) set_except_lists by fastforce
    then show ?thesis using len cs(1) LogicalExcept
      by (auto simp: dom_row_of_tuple column_bindings_setop simp del: columns.simps length_column_bindings)
  next
    case (LogicalDistinct on)
    then obtain c where cs: "cs = [c]" using wf one_list [of cs] by auto
    then have "column_bindings (Op k es cs) = column_bindings c"
      using LogicalDistinct by (simp add: column_bindings_def first_columns_def)
    show ?thesis
    proof (cases on)
      case True
      then obtain x where "r = conform (column_bindings (Op k es cs)) x"
        using Op.prems(2) LogicalDistinct cs by (auto simp del: columns.simps)
      then show ?thesis by (simp only: dom_conform)
    next
      case False
      then have "r \<in> set (eval_plan S c)" using Op.prems(2) LogicalDistinct cs by simp
      then show ?thesis using IH [of c r] cs \<open>column_bindings (Op k es cs) = column_bindings c\<close> by simp
    qed
  next
    case (LogicalOrder pm)
    then obtain c where "cs = [c]" using wf one_list [of cs] by auto
    then obtain x where "r = conform (column_bindings (Op k es cs)) x"
      using Op.prems(2) LogicalOrder by auto
    then show ?thesis by (simp only: dom_conform)
  next
    case (LogicalGet idx nm ns tys pids)
    then obtain x where "r = conform (column_bindings (Op k es cs)) x"
      using Op.prems(2) by (auto simp del: columns.simps)
    then show ?thesis by (simp only: dom_conform)
  next
    case (LogicalPredict idx info)
    then obtain x where "r = conform (column_bindings (Op k es cs)) x"
      using Op.prems(2) by (cases cs; cases "tl cs") (auto simp del: columns.simps)
    then show ?thesis by (simp only: dom_conform)
  next
    case (LogicalLimit lim off)
    then obtain x where "r = conform (column_bindings (Op k es cs)) x"
      using Op.prems(2) by (cases cs; cases "tl cs") (auto simp del: columns.simps)
    then show ?thesis by (simp only: dom_conform)
  next
    case (LogicalOther n out)
    then obtain x where "r = conform (column_bindings (Op k es cs)) x"
      using Op.prems(2) by (auto simp del: columns.simps)
    then show ?thesis by (simp only: dom_conform)
  qed
qed

subsection \<open>Moving a filter\<close>

text \<open>\<open>pulled S p q fs\<close>: \<open>p\<close> computes what \<open>q\<close> does under the filters \<open>fs\<close>.\<close>

definition pulled :: "'v plan_semantics \<Rightarrow> lop \<Rightarrow> lop \<Rightarrow> bexpr list \<Rightarrow> bool" where
  "pulled S p q fs \<longleftrightarrow>
     wf_plan q \<and> columns q = columns p \<and> list_all (\<lambda>f. refs_of f \<subseteq> set (column_bindings p)) fs \<and>
     eval_plan S p = eval_filter (semantics.truncate S) fs (eval_plan S q)"

lemma eval_filter_Nil [simp]: "eval_filter S [] rows = rows"
  by (simp add: eval_filter_def)

lemma eval_filter_filter: "eval_filter S fs (eval_filter S es rows) = eval_filter S (fs @ es) rows"
  unfolding eval_filter_def filter_filter by (rule filter_cong) auto

lemma conform_rows: "\<forall>r \<in> set rows. dom r = set bs \<Longrightarrow> map (conform bs) rows = rows"
  by (simp add: map_idI conform_id)

lemma column_bindings_filter: "column_bindings (Op (LogicalFilter a lim []) es [c]) = column_bindings c"
  by (simp add: column_bindings_def first_columns_def)

lemma eval_plan_filter:
  "wf_plan c \<Longrightarrow> eval_plan S (Op (LogicalFilter a lim []) es [c]) = eval_filter (semantics.truncate S) es (eval_plan S c)"
  using row_dom [of c _ S]
  by (simp add: column_bindings_filter conform_rows eval_filter_def del: columns.simps)

lemma pulled_columns: "pulled S p q fs \<Longrightarrow> column_bindings q = column_bindings p"
  by (simp add: pulled_def column_bindings_def)

lemma pulled_dom: "pulled S p q fs \<Longrightarrow> r \<in> set (eval_plan S q) \<Longrightarrow> dom r = set (column_bindings p)"
  using row_dom pulled_columns pulled_def by metis

lemma pulled_new_filter:
  assumes "pulled S p q fs"
  shows "pulled S p (new_filter fs q) []"
proof -
  have "eval_plan S (new_filter fs q) = eval_plan S p"
    using assms by (simp add: new_filter_def pulled_def eval_plan_filter del: eval_plan.simps)
  moreover have "columns (new_filter fs q) = columns p"
    using assms by (simp add: new_filter_def pulled_def first_columns_def)
  moreover have "wf_plan (new_filter fs q)"
    using assms pulled_columns [OF assms] by (simp add: new_filter_def pulled_def)
  ultimately show ?thesis by (simp add: pulled_def)
qed

text \<open>A filter that is taken off, and one that stays.\<close>

lemma pulled_filter_off:
  assumes "pulled S c c' fs" "wf_plan (Op (LogicalFilter a lim []) es [c])"
  shows "pulled S (Op (LogicalFilter a lim []) es [c]) c' (fs @ es)"
proof -
  have "eval_plan S (Op (LogicalFilter a lim []) es [c]) = eval_filter (semantics.truncate S) es (eval_plan S c)"
    using assms(2) by (intro eval_plan_filter) simp
  also have "\<dots> = eval_filter (semantics.truncate S) (fs @ es) (eval_plan S c')"
    using assms(1) unfolding pulled_def eval_filter_def by (auto intro!: filter_cong)
  finally show ?thesis
    using assms by (simp add: pulled_def column_bindings_filter first_columns_def)
qed

lemma pulled_filter_on:
  assumes "pulled S c c' fs" "wf_plan (Op (LogicalFilter a lim []) es [c])"
  shows "pulled S (Op (LogicalFilter a lim []) es [c]) (Op (LogicalFilter a lim []) es [c']) fs"
proof -
  have "eval_plan S (Op (LogicalFilter a lim []) es [c]) = eval_filter (semantics.truncate S) es (eval_plan S c)"
    using assms(2) by (intro eval_plan_filter) simp
  also have "\<dots> = eval_filter (semantics.truncate S) fs (eval_filter (semantics.truncate S) es (eval_plan S c'))"
    using assms(1) unfolding pulled_def eval_filter_def by (auto intro!: filter_cong)
  also have "eval_filter (semantics.truncate S) es (eval_plan S c') = eval_plan S (Op (LogicalFilter a lim []) es [c'])"
    using assms(1) by (simp add: pulled_def eval_plan_filter del: eval_plan.simps)
  finally show ?thesis
    using assms pulled_columns [OF assms(1)] by (simp add: pulled_def column_bindings_filter first_columns_def)
qed

text \<open>Operators whose children compute the same rows as before.\<close>

lemma pulled_children:
  assumes "list_all2 (\<lambda>c c'. pulled S c c' []) cs cs'" "wf_plan (Op k es cs)"
  shows "pulled S (Op k es cs) (Op k es cs') []"
proof -
  have cols: "map columns cs' = map columns cs" and rows: "map (eval_plan S) cs' = map (eval_plan S) cs"
    and wf: "list_all wf_plan cs'"
    using assms(1) by (induction rule: list_all2_induct) (auto simp: pulled_def)
  have "map column_bindings ds = map (map fst) (map columns ds)" for ds
    by (simp add: column_bindings_def)
  then have bs: "map column_bindings cs' = map column_bindings cs" using cols by metis
  then have sets: "map (set \<circ> column_bindings) cs' = map (set \<circ> column_bindings) cs" by (metis list.map_comp)
  have col: "columns (Op k es cs') = columns (Op k es cs)" unfolding columns.simps cols ..
  then have out: "column_bindings (Op k es cs') = column_bindings (Op k es cs)" unfolding column_bindings_def by simp
  have "wf_plan (Op k es cs')" using assms(2) wf unfolding wf_plan.simps bs sets by blast
  moreover have "eval_plan S (Op k es cs') = eval_plan S (Op k es cs)" unfolding eval_plan.simps out bs rows ..
  ultimately show ?thesis using col by (simp add: pulled_def)
qed

subsection \<open>Filters through projections\<close>

text \<open>A rebound expression, read on a row of any projection that starts with the resulting columns.\<close>

lemma rebind_correct:
  "rebind idx ps e = (e', ps') \<Longrightarrow>
     (\<exists>added. ps' = ps @ added) \<and> refs_of e' \<subseteq> Pair idx ` {..<length ps'} \<and>
     (\<forall>more (S :: 'v semantics) r. eval_expr S (project_row S idx (ps' @ more) r) e' = eval_expr S r e)"
  "rebind_list idx ps es = (es', ps') \<Longrightarrow>
     (\<exists>added. ps' = ps @ added) \<and> (\<forall>e \<in> set es'. refs_of e \<subseteq> Pair idx ` {..<length ps'}) \<and>
     (\<forall>more (S :: 'v semantics) r. map (eval_expr S (project_row S idx (ps' @ more) r)) es' = map (eval_expr S r) es)"
proof (induction idx ps e and idx ps es arbitrary: e' ps' and es' ps' rule: rebind_rebind_list.induct)
  case (1 idx ps t b)
  show ?case
  proof (cases "position (ColumnRef t b) ps")
    case None
    then show ?thesis using 1 by (auto simp: project_row_def nth_append)
  next
    case (Some i)
    then have "i < length ps" "ps ! i = ColumnRef t b" using position_Some by fastforce+
    then show ?thesis using 1 Some by (auto simp: project_row_def nth_append)
  qed
next
  case (2 idx ps t i es)
  obtain es1 ps1 where r: "rebind_list idx ps es = (es1, ps1)" by fastforce
  with 2(2) have e': "e' = PredictExpr t i es1" "ps' = ps1" by auto
  have "\<forall>more (S :: 'v semantics) r. eval_expr S (project_row S idx (ps' @ more) r) e' = eval_expr S r (PredictExpr t i es)"
    unfolding e' eval_expr.simps using 2(1) [OF r] by (metis (no_types, lifting))
  with 2(1) [OF r] e' show ?case by auto
next
  case (3 idx ps c l r)
  obtain l1 ps1 where l: "rebind idx ps l = (l1, ps1)" by fastforce
  obtain r1 ps2 where r: "rebind idx ps1 r = (r1, ps2)" by fastforce
  have e': "e' = ComparisonExpr c l1 r1" "ps' = ps2" using 3(3) l r by auto
  note il = 3(1) [OF l] and ir = 3(2) [OF l [symmetric] refl r]
  obtain a1 where a1: "ps2 = ps1 @ a1" using conjunct1 [OF ir] by blast
  have "refs_of l1 \<subseteq> Pair idx ` {..<length ps2}" using il a1 by auto
  moreover have "eval_expr S (project_row S idx (ps2 @ more) x) l1 = eval_expr S x l" for more x and S :: "'v semantics"
    using il a1 by simp
  ultimately show ?case using e' il ir a1 by auto
next
  case (4 idx ps k t es)
  obtain es1 ps1 where r: "rebind_list idx ps es = (es1, ps1)" by fastforce
  with 4(2) have e': "e' = OtherExpr k t es1" "ps' = ps1" by auto
  have "\<forall>more (S :: 'v semantics) r. eval_expr S (project_row S idx (ps' @ more) r) e' = eval_expr S r (OtherExpr k t es)"
    unfolding e' eval_expr.simps using 4(1) [OF r] by (metis (no_types, lifting))
  with 4(1) [OF r] e' show ?case by auto
next
  case (6 idx ps e es)
  obtain e1 ps1 where e: "rebind idx ps e = (e1, ps1)" by fastforce
  obtain es1 ps2 where es: "rebind_list idx ps1 es = (es1, ps2)" by fastforce
  have r: "es' = e1 # es1" "ps' = ps2" using 6(3) e es by auto
  note ie = 6(1) [OF e] and ies = 6(2) [OF e [symmetric] refl es]
  obtain a1 where a1: "ps2 = ps1 @ a1" using conjunct1 [OF ies] by blast
  have "refs_of e1 \<subseteq> Pair idx ` {..<length ps2}" using ie a1 by auto
  moreover have "eval_expr S (project_row S idx (ps2 @ more) x) e1 = eval_expr S x e" for more x and S :: "'v semantics"
    using ie a1 by simp
  moreover have "\<exists>added. ps' = ps @ added" using r ie a1 by auto
  ultimately show ?case using r ies by simp
qed auto

lemma all_hold_map: "all_hold S es r = list_all (holds S) (map (eval_expr S r) es)"
  by (simp add: all_hold_def list.pred_map comp_def)

lemma pulled_projection:
  assumes "pulled S c c' fs" "wf_plan (Op (LogicalProjection idx) es [c])"
    and "pullup_projection False idx es c' fs = (q, gs)"
  shows "pulled S (Op (LogicalProjection idx) es [c]) q gs"
proof -
  obtain fs' es' where r: "rebind_list idx es fs = (fs', es')" by fastforce
  obtain added where es': "es' = es @ added" using rebind_correct(2) [OF r] by auto
  consider "fs = []" | "fs \<noteq> []" "added \<noteq> []" | "fs \<noteq> []" "added = []" by auto
  then show ?thesis
  proof cases
    case 1
    then have "pulled S c c' []" "q = Op (LogicalProjection idx) es [c']" "gs = []"
      using assms(1,3) by (auto simp: pullup_projection_def)
    then show ?thesis using assms(2) pulled_children [of S "[c]" "[c']"] by simp
  next
    case 2
    then have "q = Op (LogicalProjection idx) es [new_filter fs c']" "gs = []"
      using assms(3) r es' by (auto simp: pullup_projection_def project_set_operation_def)
    then show ?thesis
      using assms(2) pulled_new_filter [OF assms(1)] pulled_children [of S "[c]" "[new_filter fs c']"] by simp
  next
    case 3
    then have q: "q = Op (LogicalProjection idx) es [c']" "gs = fs'"
      using assms(3) r es' by (auto simp: pullup_projection_def project_set_operation_def)
    have refs: "\<forall>f \<in> set fs'. refs_of f \<subseteq> set (map (Pair idx) [0..<length es])"
      using conjunct1 [OF conjunct2 [OF rebind_correct(2) [OF r]]] 3 es'
      unfolding set_map set_upt atLeast0LessThan by simp
    have val: "map (eval_expr T (project_row T idx es x)) fs' = map (eval_expr T x) fs" for T :: "'a semantics" and x
      using rebind_correct(2) [OF r] 3 es' by (metis append_Nil2)
    then have hold: "all_hold T fs' (project_row T idx es x) = all_hold T fs x" for T :: "'a semantics" and x
      by (simp add: all_hold_map del: map_eq_conv)
    have "eval_plan S (Op (LogicalProjection idx) es [c]) =
        map (project_row (semantics.truncate S) idx es) (filter (all_hold (semantics.truncate S) fs) (eval_plan S c'))"
      using assms(1) by (simp add: pulled_def eval_filter_def)
    also have "\<dots> = eval_filter (semantics.truncate S) fs' (eval_plan S (Op (LogicalProjection idx) es [c']))"
      by (simp add: eval_filter_def filter_map comp_def hold)
    finally show ?thesis
      using assms(1,2) pulled_columns [OF assms(1)] refs q
      by (simp add: pulled_def list_all_iff column_bindings_projection del: eval_plan.simps)
  qed
qed

subsection \<open>Filters through joins\<close>

lemma filter_cross:
  "(\<And>l r. l \<in> set L \<Longrightarrow> r \<in> set R \<Longrightarrow> T (l ++ r) = (P l \<and> Q r)) \<Longrightarrow>
   filter T (cross L R) = cross (filter P L) (filter Q R)"
proof (induction L)
  case (Cons l L)
  have "filter T (map (\<lambda>r. l ++ r) R) = map (\<lambda>r. l ++ r) (filter (\<lambda>r. P l \<and> Q r) R)"
    using Cons.prems by (simp add: filter_map comp_def cong: filter_cong)
  then show ?case using Cons by (simp add: cross_def)
qed (simp add: cross_def)

lemma all_hold_left:
  assumes "list_all (\<lambda>f. refs_of f \<subseteq> set a) fs" "dom r \<inter> set a = {}"
  shows "all_hold S fs (l ++ r) = all_hold S fs l"
proof (rule all_hold_cong)
  fix e x assume "e \<in> set fs" "x \<in> refs_of e"
  then have "x \<notin> dom r" using assms by (auto simp: list_all_iff)
  then show "(l ++ r) x = l x" by (rule map_add_dom_app_simps)
qed

lemma all_hold_right:
  assumes "list_all (\<lambda>f. refs_of f \<subseteq> set b) fs" "dom r = set b"
  shows "all_hold S fs (l ++ r) = all_hold S fs r"
proof (rule all_hold_cong)
  fix e x assume "e \<in> set fs" "x \<in> refs_of e"
  then have "x \<in> dom r" using assms by (auto simp: list_all_iff)
  then show "(l ++ r) x = r x" by (rule map_add_dom_app_simps)
qed

lemma column_bindings_cross: "column_bindings (Op LogicalCrossProduct es [a, b]) = column_bindings a @ column_bindings b"
  by (simp add: column_bindings_def first_columns_def second_columns_def)

lemma wf_cross_join:
  "wf_plan (Op LogicalCrossProduct [] [a, b]) \<longleftrightarrow>
     wf_plan a \<and> wf_plan b \<and> set (column_bindings a) \<inter> set (column_bindings b) = {}"
  by auto

lemma pulled_cross:
  assumes l: "pulled S a a' fs" and r: "pulled S b b' gs"
    and wf: "wf_plan (Op LogicalCrossProduct es [a, b])"
  shows "pulled S (Op LogicalCrossProduct es [a, b]) (Op LogicalCrossProduct es [a', b']) (fs @ gs)"
proof -
  have cols: "column_bindings a' = column_bindings a" "column_bindings b' = column_bindings b"
    using l r by (auto dest: pulled_columns)
  have rl: "list_all (\<lambda>f. refs_of f \<subseteq> set (column_bindings a)) fs" and rr: "list_all (\<lambda>f. refs_of f \<subseteq> set (column_bindings b)) gs"
    using l r by (auto simp: pulled_def)
  have "filter (all_hold T (fs @ gs)) (cross (eval_plan S a') (eval_plan S b')) =
      cross (filter (all_hold T fs) (eval_plan S a')) (filter (all_hold T gs) (eval_plan S b'))" for T
  proof (rule filter_cross)
    fix x y assume "x \<in> set (eval_plan S a')" "y \<in> set (eval_plan S b')"
    then have "dom y = set (column_bindings b)" using r pulled_dom by blast
    then show "all_hold T (fs @ gs) (x ++ y) = (all_hold T fs x \<and> all_hold T gs y)"
      using all_hold_left [OF rl, of y T x] all_hold_right [OF rr, of y T x] wf by (simp add: Int_commute)
  qed
  then have "eval_plan S (Op LogicalCrossProduct es [a, b]) =
      eval_filter (semantics.truncate S) (fs @ gs) (eval_plan S (Op LogicalCrossProduct es [a', b']))"
    using l r by (simp add: pulled_def eval_filter_def)
  then show ?thesis
    using l r wf cols rl rr
    by (auto simp: pulled_def list_all_iff column_bindings_cross first_columns_def second_columns_def simp del: eval_plan.simps)
qed

lemma pulled_trans:
  assumes "pulled S p q fs" "pulled S q q' gs" "set hs = set fs \<union> set gs"
  shows "pulled S p q' hs"
proof -
  have "eval_plan S p = eval_filter (semantics.truncate S) fs (eval_filter (semantics.truncate S) gs (eval_plan S q'))"
    using assms(1,2) by (simp add: pulled_def)
  also have "\<dots> = eval_filter (semantics.truncate S) hs (eval_plan S q')"
    using assms(3) unfolding eval_filter_def filter_filter
    by (intro filter_cong) (auto simp: all_hold_def list_all_iff)
  finally show ?thesis
    using assms pulled_columns [OF assms(1)] by (auto simp: pulled_def list_all_iff)
qed

lemma refs_pair_conditions:
  "f \<in> set (pair_conditions ops es) \<Longrightarrow> refs_of f \<subseteq> \<Union>(set (map refs_of es))"
  by (induction ops es rule: pair_conditions.induct) auto

lemma refs_join_conditions:
  "f \<in> set (join_conditions kind ops es) \<Longrightarrow> refs_of f \<subseteq> \<Union>(set (map refs_of es))"
  using refs_pair_conditions by (auto simp: join_conditions_def split: if_splits)

text \<open>An inner join is a cross product under the join's conditions.\<close>

lemma pulled_inner_join:
  assumes "wf_plan (Op (LogicalJoin kind JoinInner mark lmap rmap ops) es [a, b])" "kind = ComparisonJoin \<or> kind = AnyKindJoin"
  shows "pulled S (Op (LogicalJoin kind JoinInner mark lmap rmap ops) es [a, b]) (Op LogicalCrossProduct [] [a, b])
    (join_conditions kind ops es)"
proof -
  let ?J = "Op (LogicalJoin kind JoinInner mark lmap rmap ops) es [a, b]"
  let ?c = "join_conditions kind ops es"
  have maps: "lmap = []" "rmap = []" and wf: "wf_plan (Op LogicalCrossProduct [] [a, b])" using assms(1) by auto
  have cols: "columns ?J = columns (Op LogicalCrossProduct [] [a, b])"
    using maps by (simp add: join_columns_def first_columns_def second_columns_def)
  then have bs: "column_bindings ?J = column_bindings a @ column_bindings b"
    by (metis column_bindings_cross column_bindings_def)
  have "concat (map (\<lambda>l. filter P (map (\<lambda>r. l ++ r) R)) L) = filter P (cross L R)" for P :: "'a row \<Rightarrow> bool" and L R
    by (induction L) (simp_all add: cross_def)
  then have "eval_plan S ?J = map (conform (column_bindings ?J)) (filter (all_hold (semantics.truncate S) ?c) (eval_plan S (Op LogicalCrossProduct [] [a, b])))"
    using assms(2) by (auto simp: left_driven_def join_matches_def simp del: columns.simps)
  also have "\<dots> = filter (all_hold (semantics.truncate S) ?c) (eval_plan S (Op LogicalCrossProduct [] [a, b]))"
    using row_dom [OF wf] bs by (intro conform_rows) (auto simp: column_bindings_cross simp del: eval_plan.simps)
  finally have rows: "eval_plan S ?J = eval_filter (semantics.truncate S) ?c (eval_plan S (Op LogicalCrossProduct [] [a, b]))"
    by (simp add: eval_filter_def)
  have "refs_of f \<subseteq> set (column_bindings ?J)" if "f \<in> set ?c" for f
    using refs_join_conditions [OF that] assms(1) bs by (fastforce simp: list_all_iff)
  then show ?thesis using rows wf cols by (simp add: pulled_def list_all_iff)
qed

text \<open>A join driven by its left side: filters on the left side move above it.\<close>

lemma left_driven_row:
  assumes "x \<in> set (left_driven S jt rbs (join_matches S kind ops es R l) l)"
    and "\<forall>r \<in> set R. dom r \<inter> A = {}" "set rbs \<inter> A = {}"
  shows "\<exists>y. x = l ++ y \<and> dom y \<inter> A = {}"
proof -
  have m: "\<exists>y. x = l ++ y \<and> dom y \<inter> A = {}" if mem: "x \<in> set (join_matches S kind ops es R l)" for x
  proof -
    have ex: "\<exists>y \<in> set R. x = l ++ y"
    proof (cases "kind = AsofJoin")
      case True
      show ?thesis
      proof (cases "nearest S es l R")
        case (Some i)
        then have eq: "join_matches S kind ops es R l = (if i < length R then [l ++ (R ! i)] else [])"
          using True by (simp add: join_matches_def)
        show ?thesis
        proof (cases "i < length R")
          case True
          then have "x = l ++ (R ! i)" using mem unfolding eq by simp
          then show ?thesis using True by (intro bexI [of _ "R ! i"]) simp_all
        qed (use mem in \<open>simp add: eq\<close>)
      qed (use mem True in \<open>simp add: join_matches_def\<close>)
    qed (use mem in \<open>auto simp: join_matches_def\<close>)
    from ex obtain y where "y \<in> set R" "x = l ++ y" ..
    moreover from this(1) have "dom y \<inter> A = {}" using assms(2) by simp
    ultimately show ?thesis by (intro exI [of _ y] conjI)
  qed
  have "\<exists>y. l = l ++ y \<and> dom y \<inter> A = {}" by (rule exI [of _ Map.empty]) simp
  moreover have "dom (\<lambda>b. if b \<in> set rbs then Some (null_value S) else None) \<inter> A = {}"
    using assms(3) by (auto split: if_splits)
  ultimately show ?thesis using assms(1) m
    by (auto simp: left_driven_def split: join_type.splits if_splits)
qed

lemma filter_concat_map:
  assumes "\<And>l x. l \<in> set L \<Longrightarrow> x \<in> set (f l) \<Longrightarrow> T x = P l"
  shows "filter T (concat (map f L)) = concat (map f (filter P L))"
  using assms
proof (induction L)
  case (Cons l L)
  have "filter T (f l) = (if P l then f l else [])"
    using Cons.prems by (auto simp: filter_id_conv filter_empty_conv)
  moreover have "filter T (concat (map f L)) = concat (map f (filter P L))" using Cons by simp
  ultimately show ?case by simp
qed simp

lemma pulled_left_driven:
  assumes l: "pulled S a a' fs" and r: "pulled S b b' []"
    and wf: "wf_plan (Op (LogicalJoin kind jt mark lmap rmap ops) es [a, b])"
    and kind: "kind \<noteq> BaseJoin" "jt \<in> {JoinInner, JoinLeft, JoinSemi, JoinAnti}"
  shows "pulled S (Op (LogicalJoin kind jt mark lmap rmap ops) es [a, b])
    (Op (LogicalJoin kind jt mark lmap rmap ops) es [a', b']) fs"
proof -
  let ?k = "LogicalJoin kind jt mark lmap rmap ops"
  let ?A = "set (column_bindings a)"
  have colsa: "columns a' = columns a" "column_bindings a' = column_bindings a"
    and colsb: "columns b' = columns b" "column_bindings b' = column_bindings b"
    using l r pulled_columns [OF l] pulled_columns [OF r] by (simp_all add: pulled_def)
  have cols: "columns (Op ?k es [a', b']) = columns (Op ?k es [a, b])" using colsa colsb by simp
  then have out: "column_bindings (Op ?k es [a', b']) = column_bindings (Op ?k es [a, b])" by (simp add: column_bindings_def)
  have maps: "lmap = []" "rmap = []" and disj: "?A \<inter> set (column_bindings b) = {}" using wf by auto
  have sub: "?A \<subseteq> set (column_bindings (Op ?k es [a, b]))"
    using maps kind(2) by (auto simp: column_bindings_def join_columns_def first_columns_def Let_def)
  have refs: "list_all (\<lambda>f. refs_of f \<subseteq> ?A) fs" using l by (simp add: pulled_def)
  let ?out = "column_bindings (Op ?k es [a, b])"
  let ?T = "semantics.truncate S"
  let ?f = "\<lambda>l. map (conform ?out) (left_driven S jt (column_bindings b) (join_matches S kind ops es (eval_plan S b) l) l)"
  have rows_b: "\<forall>r \<in> set (eval_plan S b). dom r \<inter> ?A = {}"
    using r pulled_dom [of S b b' "[]"] disj unfolding pulled_def by auto
  have flt: "filter (all_hold ?T fs) (concat (map ?f (eval_plan S a'))) =
      concat (map ?f (filter (all_hold ?T fs) (eval_plan S a')))"
  proof (rule filter_concat_map)
    fix x z assume x: "x \<in> set (eval_plan S a')" "z \<in> set (?f x)"
    then obtain w where w: "z = conform ?out w"
      "w \<in> set (left_driven S jt (column_bindings b) (join_matches S kind ops es (eval_plan S b) x) x)" by auto
    obtain y where y: "w = x ++ y" "dom y \<inter> ?A = {}"
      using left_driven_row [OF w(2) rows_b] disj by (auto simp: Int_commute)
    have dx: "dom x = ?A" using l x(1) pulled_dom by blast
    show "all_hold ?T fs z = all_hold ?T fs x"
    proof (rule all_hold_cong)
      fix e u assume "e \<in> set fs" "u \<in> refs_of e"
      then have u: "u \<in> ?A" using refs by (auto simp: list_all_iff)
      then have "u \<notin> dom y" using y(2) by auto
      then have "w u = x u" unfolding y(1) by (rule map_add_dom_app_simps)
      moreover have "x u \<noteq> None" using u dx by (metis domIff)
      ultimately show "z u = x u" using w(1) sub u by (auto simp: conform_def)
    qed
  qed
  have c: "(kind \<noteq> BaseJoin \<and> jt \<in> {JoinInner, JoinLeft, JoinSemi, JoinAnti}) = True" using kind by blast
  have ea: "eval_plan S (Op ?k es [a, b]) = concat (map ?f (eval_plan S a))"
    unfolding eval_plan.simps list.map eval_class.simps c if_True by (simp only: map_concat list.map_comp comp_def)
  have eb: "eval_plan S (Op ?k es [a', b']) = concat (map ?f (eval_plan S a'))"
    using r unfolding eval_plan.simps out list.map eval_class.simps c if_True colsb pulled_def
    by (simp only: eval_filter_Nil map_concat list.map_comp comp_def)
  have ra: "eval_plan S a = filter (all_hold ?T fs) (eval_plan S a')" using l by (simp add: pulled_def eval_filter_def)
  have "eval_plan S (Op ?k es [a, b]) = eval_filter ?T fs (eval_plan S (Op ?k es [a', b']))"
    unfolding ea eb ra eval_filter_def flt ..
  moreover have "wf_plan (Op ?k es [a', b'])"
    using wf l r colsa colsb by (auto simp: pulled_def)
  moreover have "list_all (\<lambda>f. refs_of f \<subseteq> set ?out) fs"
    using refs sub by (auto simp: list_all_iff)
  ultimately show ?thesis using cols by (simp add: pulled_def del: eval_plan.simps columns.simps wf_plan.simps)
qed

subsection \<open>Filters through set operations\<close>

lemma filter_remove1_in: "P x \<Longrightarrow> filter P (remove1 x ys) = remove1 x (filter P ys)"
  by (induction ys) auto

lemma filter_remove1_out: "\<not> P x \<Longrightarrow> filter P (remove1 x ys) = filter P ys"
  by (induction ys) auto

lemma intersect_all_right: "\<forall>x \<in> set xs. Q x \<Longrightarrow> intersect_all xs (filter Q ys) = intersect_all xs ys"
  by (induction xs arbitrary: ys) (auto simp: filter_remove1_in [symmetric])

lemma except_all_right: "\<forall>x \<in> set xs. Q x \<Longrightarrow> except_all xs (filter Q ys) = except_all xs ys"
  by (induction xs arbitrary: ys) (auto simp: filter_remove1_in [symmetric])

lemma intersect_all_left: "intersect_all (filter P xs) ys = filter P (intersect_all xs ys)"
proof (induction xs arbitrary: ys)
  case (Cons x xs)
  show ?case
  proof (cases "P x")
    case False
    have "intersect_all (filter P xs) ys = intersect_all (filter P xs) (filter P ys)"
      by (rule intersect_all_right [symmetric]) simp
    also have "\<dots> = intersect_all (filter P xs) (filter P (remove1 x ys))"
      using False by (simp add: filter_remove1_out)
    also have "\<dots> = intersect_all (filter P xs) (remove1 x ys)"
      by (rule intersect_all_right) simp
    finally show ?thesis using Cons False by simp
  qed (use Cons in simp)
qed simp

lemma except_all_left: "except_all (filter P xs) ys = filter P (except_all xs ys)"
proof (induction xs arbitrary: ys)
  case (Cons x xs)
  show ?case
  proof (cases "P x")
    case False
    have "except_all (filter P xs) ys = except_all (filter P xs) (filter P ys)"
      by (rule except_all_right [symmetric]) simp
    also have "\<dots> = except_all (filter P xs) (filter P (remove1 x ys))"
      using False by (simp add: filter_remove1_out)
    also have "\<dots> = except_all (filter P xs) (remove1 x ys)"
      by (rule except_all_right) simp
    finally show ?thesis using Cons False by simp
  qed (use Cons in simp)
qed simp

lemma intersect_all_out: "\<forall>x \<in> set xs. \<not> Q x \<Longrightarrow> intersect_all xs (filter Q ys) = []"
  by (induction xs arbitrary: ys) auto

lemma intersect_all_filter_right: "intersect_all xs (filter Q ys) = filter Q (intersect_all xs ys)"
proof (induction xs arbitrary: ys)
  case (Cons x xs)
  show ?case
  proof (cases "Q x")
    case True
    then show ?thesis using Cons by (simp add: filter_remove1_in [symmetric])
  next
    case False
    then have "intersect_all xs (filter Q ys) = filter Q (intersect_all xs (remove1 x ys))"
      using Cons [of "remove1 x ys"] by (simp add: filter_remove1_out)
    then show ?thesis using Cons False by simp
  qed
qed simp

lemma intersect_lists_filter:
  "intersect_lists all (filter P xs) (filter Q ys) = filter (\<lambda>x. P x \<and> Q x) (intersect_lists all xs ys)"
proof (cases all)
  case True
  then show ?thesis by (simp add: intersect_lists_def intersect_all_left intersect_all_filter_right conj_commute)
next
  case False
  then show ?thesis
    by (simp add: intersect_lists_def remdups_filter [symmetric]) (rule arg_cong [of _ _ remdups], rule filter_cong, auto)
qed

lemma except_lists_filter: "except_lists all (filter P xs) ys = filter P (except_lists all xs ys)"
  by (simp add: except_lists_def except_all_left remdups_filter [symmetric] conj_commute)

lemma eval_set_table_index:
  assumes "refs_of e \<subseteq> set (map (Pair t) [0..<n])" "length vs = n"
  shows "eval_expr S (row_of_tuple idx vs) (set_table_index idx e) = eval_expr S (row_of_tuple t vs) e"
  using assms
proof (induction e)
  case (PredictExpr ty i es)
  then have "map (eval_expr S (row_of_tuple idx vs)) (map (set_table_index idx) es) = map (eval_expr S (row_of_tuple t vs)) es"
    by auto
  then show ?case by (simp del: map_eq_conv)
next
  case (OtherExpr k ty es)
  then have "map (eval_expr S (row_of_tuple idx vs)) (map (set_table_index idx) es) = map (eval_expr S (row_of_tuple t vs)) es"
    by auto
  then show ?case by (simp del: map_eq_conv)
qed (auto simp: row_of_tuple_def)

lemma refs_set_table_index:
  "refs_of e \<subseteq> set (map (Pair t) [0..<n]) \<Longrightarrow> refs_of (set_table_index idx e) \<subseteq> set (map (Pair idx) [0..<n])"
proof (induction e)
  case (PredictExpr ty i es)
  then have "refs_of (set_table_index idx e) \<subseteq> set (map (Pair idx) [0..<n])" if "e \<in> set es" for e
    using that by (simp add: UN_subset_iff)
  then show ?case by (simp add: UN_subset_iff)
next
  case (OtherExpr k ty es)
  then have "refs_of (set_table_index idx e) \<subseteq> set (map (Pair idx) [0..<n])" if "e \<in> set es" for e
    using that by (simp add: UN_subset_iff)
  then show ?case by (simp add: UN_subset_iff)
qed auto

lemma hold_set_table_index:
  assumes "list_all (\<lambda>f. refs_of f \<subseteq> set (map (Pair t) [0..<n])) fs" "length vs = n"
  shows "all_hold S (map (set_table_index idx) fs) (row_of_tuple idx vs) = all_hold S fs (row_of_tuple t vs)"
proof -
  have "eval_expr S (row_of_tuple idx vs) (set_table_index idx e) = eval_expr S (row_of_tuple t vs) e" if "e \<in> set fs" for e
    using assms that by (intro eval_set_table_index) (auto simp: list_all_iff)
  then show ?thesis by (simp add: all_hold_def list_all_iff)
qed

lemma row_of_tuple_of:
  assumes "dom r = set (map (Pair t) [0..<n])"
  shows "row_of_tuple t (tuple_of (map (Pair t) [0..<n]) r) = r"
proof (rule ext)
  fix b
  have "r b \<noteq> None \<longleftrightarrow> b \<in> set (map (Pair t) [0..<n])" using assms by (metis domIff)
  then show "row_of_tuple t (tuple_of (map (Pair t) [0..<n]) r) b = r b"
    by (cases b) (auto simp: row_of_tuple_def tuple_of_def)
qed

lemma tuples_filter:
  assumes "\<forall>r \<in> set L. dom r = set (map (Pair t) [0..<n])"
  shows "map (tuple_of (map (Pair t) [0..<n])) (filter (all_hold S fs) L) =
    filter (\<lambda>vs. all_hold S fs (row_of_tuple t vs)) (map (tuple_of (map (Pair t) [0..<n])) L)"
  using assms by (simp add: filter_map comp_def row_of_tuple_of cong: filter_cong)

lemma map_filter_commute:
  "(\<And>x. x \<in> set xs \<Longrightarrow> Q (f x) = P x) \<Longrightarrow> map f (filter P xs) = filter Q (map f xs)"
  by (induction xs) auto

lemma pulled_intersect:
  assumes l: "pulled S a a' fs" and r: "pulled S b b' gs"
    and wf: "wf_plan (Op (LogicalIntersect idx n all) es [a, b])"
  shows "pulled S (Op (LogicalIntersect idx n all) es [a, b]) (Op (LogicalIntersect idx n all) es [a', b'])
    (map (set_table_index idx) (fs @ gs))"
proof -
  obtain t u where tu: "column_bindings a = map (Pair t) [0..<n]" "column_bindings b = map (Pair u) [0..<n]" using wf by auto
  have ca: "columns a' = columns a" "column_bindings a' = map (Pair t) [0..<n]"
    and cb: "columns b' = columns b" "column_bindings b' = map (Pair u) [0..<n]"
    using l r tu pulled_columns [OF l] pulled_columns [OF r] by (simp_all add: pulled_def)
  have len: "length (column_bindings a) = n" using tu by simp
  let ?T = "semantics.truncate S"
  let ?A = "map (tuple_of (map (Pair t) [0..<n])) (eval_plan S a')"
  let ?B = "map (tuple_of (map (Pair u) [0..<n])) (eval_plan S b')"
  let ?P = "\<lambda>vs. all_hold ?T fs (row_of_tuple t vs)" and ?Q = "\<lambda>vs. all_hold ?T gs (row_of_tuple u vs)"
  have refs: "list_all (\<lambda>f. refs_of f \<subseteq> set (map (Pair t) [0..<n])) fs" "list_all (\<lambda>f. refs_of f \<subseteq> set (map (Pair u) [0..<n])) gs"
    using l r tu by (simp_all add: pulled_def)
  have da: "\<forall>r \<in> set (eval_plan S a'). dom r = set (map (Pair t) [0..<n])"
    and db: "\<forall>r \<in> set (eval_plan S b'). dom r = set (map (Pair u) [0..<n])"
    using pulled_dom [OF l] pulled_dom [OF r] tu by simp_all
  have ra: "eval_plan S a = filter (all_hold ?T fs) (eval_plan S a')" and rb: "eval_plan S b = filter (all_hold ?T gs) (eval_plan S b')"
    using l r by (simp_all add: pulled_def eval_filter_def)
  have "eval_plan S (Op (LogicalIntersect idx n all) es [a, b]) =
      map (row_of_tuple idx) (filter (\<lambda>vs. ?P vs \<and> ?Q vs) (intersect_lists all ?A ?B))"
    by (simp add: tu ra rb tuples_filter [OF da] tuples_filter [OF db] intersect_lists_filter)
  also have "\<dots> = filter (all_hold ?T (map (set_table_index idx) (fs @ gs))) (map (row_of_tuple idx) (intersect_lists all ?A ?B))"
  proof (rule map_filter_commute)
    fix vs assume "vs \<in> set (intersect_lists all ?A ?B)"
    then have "length vs = n" using set_intersect_lists [of all ?A ?B] by auto
    then show "all_hold ?T (map (set_table_index idx) (fs @ gs)) (row_of_tuple idx vs) = (?P vs \<and> ?Q vs)"
      by (simp add: hold_set_table_index [OF refs(1)] hold_set_table_index [OF refs(2)])
  qed
  also have "map (row_of_tuple idx) (intersect_lists all ?A ?B) = eval_plan S (Op (LogicalIntersect idx n all) es [a', b'])"
    by (simp add: ca cb)
  finally have rows: "eval_plan S (Op (LogicalIntersect idx n all) es [a, b]) =
      eval_filter ?T (map (set_table_index idx) (fs @ gs)) (eval_plan S (Op (LogicalIntersect idx n all) es [a', b']))"
    unfolding eval_filter_def .
  have "list_all (\<lambda>f. refs_of f \<subseteq> set (map (Pair idx) [0..<n])) (map (set_table_index idx) (fs @ gs))"
    using refs refs_set_table_index by (fastforce simp: list_all_iff)
  moreover have "wf_plan (Op (LogicalIntersect idx n all) es [a', b'])"
    using wf l r ca cb tu by (auto simp: pulled_def)
  moreover have "columns (Op (LogicalIntersect idx n all) es [a', b']) = columns (Op (LogicalIntersect idx n all) es [a, b])"
    using ca cb by (simp add: first_columns_def)
  ultimately show ?thesis using rows column_bindings_setop(1) [OF len]
    by (simp add: pulled_def del: eval_plan.simps columns.simps wf_plan.simps)
qed

lemma pulled_except:
  assumes l: "pulled S a a' fs" and r: "pulled S b b' []"
    and wf: "wf_plan (Op (LogicalExcept idx n all) es [a, b])"
  shows "pulled S (Op (LogicalExcept idx n all) es [a, b]) (Op (LogicalExcept idx n all) es [a', b'])
    (map (set_table_index idx) fs)"
proof -
  obtain t u where tu: "column_bindings a = map (Pair t) [0..<n]" "column_bindings b = map (Pair u) [0..<n]" using wf by auto
  have ca: "columns a' = columns a" "column_bindings a' = map (Pair t) [0..<n]"
    and cb: "columns b' = columns b" "column_bindings b' = map (Pair u) [0..<n]"
    using l r tu pulled_columns [OF l] pulled_columns [OF r] by (simp_all add: pulled_def)
  have len: "length (column_bindings a) = n" using tu by simp
  let ?T = "semantics.truncate S"
  let ?A = "map (tuple_of (map (Pair t) [0..<n])) (eval_plan S a')"
  let ?B = "map (tuple_of (map (Pair u) [0..<n])) (eval_plan S b')"
  let ?P = "\<lambda>vs. all_hold ?T fs (row_of_tuple t vs)"
  have refs: "list_all (\<lambda>f. refs_of f \<subseteq> set (map (Pair t) [0..<n])) fs"
    using l tu by (simp add: pulled_def)
  have da: "\<forall>r \<in> set (eval_plan S a'). dom r = set (map (Pair t) [0..<n])"
    using pulled_dom [OF l] tu by simp
  have ra: "eval_plan S a = filter (all_hold ?T fs) (eval_plan S a')" and rb: "eval_plan S b = eval_plan S b'"
    using l r by (simp_all add: pulled_def eval_filter_def)
  have "eval_plan S (Op (LogicalExcept idx n all) es [a, b]) =
      map (row_of_tuple idx) (filter ?P (except_lists all ?A ?B))"
    by (simp add: tu ra rb tuples_filter [OF da] except_lists_filter)
  also have "\<dots> = filter (all_hold ?T (map (set_table_index idx) fs)) (map (row_of_tuple idx) (except_lists all ?A ?B))"
  proof (rule map_filter_commute)
    fix vs assume "vs \<in> set (except_lists all ?A ?B)"
    then have "length vs = n" using set_except_lists [of all ?A ?B] by auto
    then show "all_hold ?T (map (set_table_index idx) fs) (row_of_tuple idx vs) = ?P vs"
      by (simp add: hold_set_table_index [OF refs])
  qed
  also have "map (row_of_tuple idx) (except_lists all ?A ?B) = eval_plan S (Op (LogicalExcept idx n all) es [a', b'])"
    by (simp add: ca cb)
  finally have rows: "eval_plan S (Op (LogicalExcept idx n all) es [a, b]) =
      eval_filter ?T (map (set_table_index idx) fs) (eval_plan S (Op (LogicalExcept idx n all) es [a', b']))"
    by (simp add: eval_filter_def)
  have "list_all (\<lambda>f. refs_of f \<subseteq> set (map (Pair idx) [0..<n])) (map (set_table_index idx) fs)"
    using refs refs_set_table_index by (fastforce simp: list_all_iff)
  moreover have "wf_plan (Op (LogicalExcept idx n all) es [a', b'])"
    using wf l r ca cb tu by (auto simp: pulled_def)
  moreover have "columns (Op (LogicalExcept idx n all) es [a', b']) = columns (Op (LogicalExcept idx n all) es [a, b])"
    using ca cb by (simp add: first_columns_def)
  ultimately show ?thesis using rows column_bindings_setop(2) [OF len]
    by (simp add: pulled_def del: eval_plan.simps columns.simps wf_plan.simps)
qed

text \<open>DISTINCT and ORDER BY.\<close>

lemma pulled_distinct:
  assumes "pulled S c c' fs" "wf_plan (Op (LogicalDistinct False) es [c])"
  shows "pulled S (Op (LogicalDistinct False) es [c]) (Op (LogicalDistinct False) es [c']) fs"
  using assms pulled_columns [OF assms(1)]
  by (auto simp: pulled_def eval_filter_def remdups_filter column_bindings_def first_columns_def list_all_iff)

lemma pulled_order:
  assumes "pulled S c c' fs" "wf_plan (Op (LogicalOrder []) es [c])"
  shows "pulled S (Op (LogicalOrder []) es [c]) (Op (LogicalOrder []) es [c']) fs"
proof -
  have bs: "column_bindings (Op (LogicalOrder []) es [d]) = column_bindings d" for d
    by (simp add: column_bindings_def first_columns_def)
  have ev: "eval_plan S (Op (LogicalOrder []) es [d]) =
      sort_key (\<lambda>r. sort_rank S (map (eval_expr (semantics.truncate S) r) es)) (eval_plan S d)" if "wf_plan d" for d
    using row_dom [OF that, of _ S] by (simp add: bs conform_rows del: columns.simps)
  have wf: "wf_plan c" "wf_plan c'" using assms by (auto simp: pulled_def)
  have "eval_plan S (Op (LogicalOrder []) es [c]) =
      eval_filter (semantics.truncate S) fs (eval_plan S (Op (LogicalOrder []) es [c']))"
    using assms(1) unfolding ev [OF wf(1)] ev [OF wf(2)] by (simp add: pulled_def eval_filter_def filter_sort)
  then show ?thesis
    using assms pulled_columns [OF assms(1)] bs
    by (simp add: pulled_def first_columns_def del: eval_plan.simps)
qed

subsection \<open>The whole traversal\<close>

lemma pulled_both_side_cross:
  assumes "pulled S a (fst l) (snd l)" "pulled S b (fst r) (snd r)" "wf_plan (Op LogicalCrossProduct es [a, b])"
  shows "pulled S (Op LogicalCrossProduct es [a, b]) (pullup_both_side LogicalCrossProduct es l r) []"
  using pulled_cross [OF assms] pulled_new_filter [OF pulled_cross [OF assms]]
  by (auto simp: pullup_both_side_def)

lemma pulled_finish:
  assumes "list_all2 (\<lambda>c c'. pulled S c c' []) cs cs'" "wf_plan (Op k es cs)"
    and "finish_pullup k es cs' [] = (q, gs)"
  shows "pulled S (Op k es cs) q gs" "gs = []"
  using assms pulled_children [OF assms(1,2)] by (auto simp: finish_pullup_def)

lemma pulled_inner:
  assumes l: "pulled S a (fst l) (snd l)" and r: "pulled S b (fst r) (snd r)"
    and wf: "wf_plan (Op (LogicalJoin kind JoinInner mark lmap rmap ops) es [a, b])"
    and kind: "kind = ComparisonJoin \<or> kind = AnyKindJoin"
    and q: "pullup_inner_join cp (LogicalJoin kind JoinInner mark lmap rmap ops) es (join_conditions kind ops es) l r [] = (q, gs)"
  shows "pulled S (Op (LogicalJoin kind JoinInner mark lmap rmap ops) es [a, b]) q gs \<and> (\<not> cp \<longrightarrow> gs = [])"
proof -
  let ?k = "LogicalJoin kind JoinInner mark lmap rmap ops"
  let ?x = "snd l @ snd r @ join_conditions kind ops es"
  have wfc: "wf_plan (Op LogicalCrossProduct [] [a, b])" using wf by auto
  have up: "pulled S (Op ?k es [a, b]) (Op LogicalCrossProduct [] [fst l, fst r]) ?x"
    by (rule pulled_trans [OF pulled_inner_join [OF wf kind] pulled_cross [OF l r wfc]]) auto
  consider "snd l @ snd r = []" "\<not> cp" | cp | "snd l @ snd r \<noteq> []" "\<not> cp" by blast
  then show ?thesis
  proof cases
    case 1
    then have "pulled S a (fst l) []" "pulled S b (fst r) []" "q = Op ?k es [fst l, fst r]" "gs = []"
      using l r q by (auto simp: pullup_inner_join_def)
    then show ?thesis using wf pulled_children [of S "[a, b]" "[fst l, fst r]"] by simp
  next
    case 2
    then have "q = Op LogicalCrossProduct [] [fst l, fst r]" "gs = ?x"
      using q by (auto simp: pullup_inner_join_def Let_def)
    then show ?thesis using up 2 by simp
  next
    case 3
    then have "q = new_filter ?x (Op LogicalCrossProduct [] [fst l, fst r])" "gs = []"
      using q by (auto simp: pullup_inner_join_def Let_def)
    then show ?thesis using pulled_new_filter [OF up] by simp
  qed
qed

lemma pulled_from_left_join:
  assumes "pulled S a (fst l) (snd l)" "pulled S b (fst r) []" "snd r = []"
    and "wf_plan (Op (LogicalJoin kind jt mark lmap rmap ops) es [a, b])"
    and "kind \<noteq> BaseJoin" "jt \<in> {JoinInner, JoinLeft, JoinSemi, JoinAnti}"
  shows "pulled S (Op (LogicalJoin kind jt mark lmap rmap ops) es [a, b])
    (pullup_from_left (LogicalJoin kind jt mark lmap rmap ops) es l r) []"
proof -
  note up = pulled_left_driven [OF assms(1,2,4-6)]
  show ?thesis
  proof (cases "snd l = []")
    case True
    then show ?thesis using up by (simp add: pullup_from_left_def)
  next
    case False
    then show ?thesis using pulled_new_filter [OF up] assms(3) by (simp add: pullup_from_left_def)
  qed
qed

lemma pulled_fix_intersect:
  assumes "pulled S a (fst l) (snd l)" "pulled S b (fst r) (snd r)" "wf_plan (Op (LogicalIntersect idx n all) es [a, b])"
  shows "pulled S (Op (LogicalIntersect idx n all) es [a, b])
    (fix_set_operation idx (pullup_both_side (LogicalIntersect idx n all) es l r)) []"
proof -
  note up = pulled_intersect [OF assms]
  show ?thesis
  proof (cases "snd l @ snd r = []")
    case True
    then show ?thesis using up by (simp add: pullup_both_side_def fix_set_operation_def)
  next
    case False
    then have "fix_set_operation idx (pullup_both_side (LogicalIntersect idx n all) es l r) =
        new_filter (map (set_table_index idx) (snd l @ snd r)) (Op (LogicalIntersect idx n all) es [fst l, fst r])"
      unfolding pullup_both_side_def fix_set_operation_def new_filter_def by simp
    then show ?thesis using pulled_new_filter [OF up] by simp
  qed
qed

lemma pulled_fix_except:
  assumes "pulled S a (fst l) (snd l)" "pulled S b (fst r) []" "snd r = []"
    and "wf_plan (Op (LogicalExcept idx n all) es [a, b])"
  shows "pulled S (Op (LogicalExcept idx n all) es [a, b])
    (fix_set_operation idx (pullup_from_left (LogicalExcept idx n all) es l r)) []"
proof -
  note up = pulled_except [OF assms(1,2,4)]
  show ?thesis
  proof (cases "snd l = []")
    case True
    then show ?thesis using up by (simp add: pullup_from_left_def fix_set_operation_def)
  next
    case False
    then have "fix_set_operation idx (pullup_from_left (LogicalExcept idx n all) es l r) =
        new_filter (map (set_table_index idx) (snd l)) (Op (LogicalExcept idx n all) es [fst l, fst r])"
      using assms(3) unfolding pullup_from_left_def fix_set_operation_def new_filter_def by simp
    then show ?thesis using pulled_new_filter [OF up] by simp
  qed
qed

lemma pulled_refl: "wf_plan p \<Longrightarrow> pulled S p p []"
  by (simp add: pulled_def)

lemma rewrite_filters_pulled:
  "wf_plan p \<Longrightarrow> rewrite_filters cp False p [] = (q, gs) \<Longrightarrow> pulled S p q gs \<and> (\<not> cp \<longrightarrow> gs = [])"
proof (induction p arbitrary: cp q gs)
  case (Op k es cs)
  have wf: "wf_class k es (map column_bindings cs)" and sub: "list_all wf_plan cs" using Op.prems(1) by auto
  have both: "pulled S c (fst (rewrite_filters f False c [])) (snd (rewrite_filters f False c [])) \<and>
      (\<not> f \<longrightarrow> snd (rewrite_filters f False c []) = [])" if "c \<in> set cs" for c f
    using Op.IH [OF that, of f] that sub by (cases "rewrite_filters f False c []") (auto simp: list_all_iff)
  then have IH: "c \<in> set cs \<Longrightarrow> pulled S c (fst (rewrite_filters f False c [])) (snd (rewrite_filters f False c []))"
    and none: "c \<in> set cs \<Longrightarrow> \<not> f \<Longrightarrow> snd (rewrite_filters f False c []) = []" for c f by auto
  let ?cs = "map (\<lambda>c. fst (rewrite_filters False False c [])) cs"
  have kids: "list_all2 (\<lambda>c c'. pulled S c c' []) cs ?cs"
    using IH [of _ False] none [of _ False] by (auto simp: list_all2_conv_all_nth)
  have finish: ?case if "finish_pullup k es ?cs [] = (q, gs)"
    using pulled_finish [OF kids Op.prems(1) that] by simp
  show ?case
  proof (cases k)
    case (LogicalFilter a lim pm)
    then obtain c where c: "cs = [c]" "pm = []" using wf one_list [of cs] by auto
    obtain c' fs where r: "rewrite_filters cp False c [] = (c', fs)" by fastforce
    have p: "pulled S c c' fs" "\<not> cp \<Longrightarrow> fs = []" using IH [of c cp] none [of c cp] c r by simp_all
    have "(q, gs) = (if cp then (c', fs @ es) else (Op k es [c'], fs))"
      using Op.prems(2) LogicalFilter c r by (auto split: if_splits)
    then show ?thesis
      using pulled_filter_off [OF p(1)] pulled_filter_on [OF p(1)] p(2) Op.prems(1) LogicalFilter c
      by (auto split: if_splits simp del: wf_plan.simps)
  next
    case (LogicalProjection idx)
    then obtain c where c: "cs = [c]" using wf one_list [of cs] by auto
    obtain c' fs where r: "rewrite_filters cp False c [] = (c', fs)" by fastforce
    have p: "pulled S c c' fs" "\<not> cp \<Longrightarrow> fs = []" using IH [of c cp] none [of c cp] c r by simp_all
    have q: "pullup_projection False idx es c' fs = (q, gs)" using Op.prems(2) LogicalProjection c r by simp
    have "\<not> cp \<Longrightarrow> gs = []" using p(2) q by (simp add: pullup_projection_def)
    then show ?thesis using pulled_projection [OF p(1) _ q] Op.prems(1) LogicalProjection c by (simp del: wf_plan.simps)
  next
    case LogicalCrossProduct
    then obtain a b where c: "cs = [a, b]" using wf two_lists [of cs] by auto
    then show ?thesis
      using pulled_both_side_cross [of S a _ b _ es, OF IH [of a True] IH [of b True]] Op.prems LogicalCrossProduct
      by (auto simp del: wf_plan.simps)
  next
    case (LogicalJoin kind jt mark lmap rmap ops)
    then obtain a b where c: "cs = [a, b]" using wf two_lists [of cs] by auto
    consider "kind = BaseJoin \<or> jt \<notin> {JoinInner, JoinLeft, JoinAnti, JoinSemi}" | "jt = JoinInner" "kind = DelimJoin"
      | "jt = JoinInner" "kind = ComparisonJoin \<or> kind = AnyKindJoin"
      | "kind \<noteq> BaseJoin" "jt \<in> {JoinInner, JoinLeft, JoinSemi, JoinAnti}" "jt = JoinInner \<longrightarrow> kind = AsofJoin"
      by (cases kind; cases jt) auto
    then show ?thesis
    proof cases
      case 1
      then have "finish_pullup k es ?cs [] = (q, gs)" using Op.prems(2) LogicalJoin c by (auto split: if_splits)
      then show ?thesis by (rule finish)
    next
      case 2
      then have "q = Op k es cs" "gs = []" using Op.prems(2) LogicalJoin c by (auto split: if_splits)
      then show ?thesis using pulled_refl [OF Op.prems(1)] by simp
    next
      case 3
      then have "pullup_inner_join cp k es (join_conditions kind ops es)
          (rewrite_filters True False a []) (rewrite_filters True False b []) [] = (q, gs)"
        using Op.prems(2) LogicalJoin c by (auto split: if_splits)
      then show ?thesis
        using pulled_inner [OF IH [of a True] IH [of b True] _ 3(2)] Op.prems(1) LogicalJoin c 3(1)
        by (simp del: wf_plan.simps)
    next
      case 4
      then have "q = pullup_from_left k es (rewrite_filters True False a []) (rewrite_filters False False b [])" "gs = []"
        using Op.prems(2) LogicalJoin c by (auto split: if_splits)
      then show ?thesis
        using pulled_from_left_join [OF IH [of a True] _ none [of b False] _ 4(1,2)] IH [of b False] none [of b False]
          Op.prems(1) LogicalJoin c
        by (simp del: wf_plan.simps)
    qed
  next
    case (LogicalIntersect idx n all)
    then obtain a b where c: "cs = [a, b]" using wf two_lists [of cs] by auto
    then show ?thesis
      using pulled_fix_intersect [of S a _ b _ idx n all es, OF IH [of a True] IH [of b True]] Op.prems LogicalIntersect
      by (auto simp del: wf_plan.simps)
  next
    case (LogicalExcept idx n all)
    then obtain a b where c: "cs = [a, b]" using wf two_lists [of cs] by auto
    then show ?thesis
      using pulled_fix_except [of S a _ b "rewrite_filters False False b []" idx n all es, OF IH [of a True]]
        IH [of b False] none [of b False] Op.prems LogicalExcept
      by (auto simp del: wf_plan.simps)
  next
    case (LogicalDistinct on)
    then obtain c where c: "cs = [c]" using wf one_list [of cs] by auto
    show ?thesis
    proof (cases on)
      case True
      then have "finish_pullup k es ?cs [] = (q, gs)" using Op.prems(2) LogicalDistinct c by auto
      then show ?thesis by (rule finish)
    next
      case False
      obtain c' fs where r: "rewrite_filters cp False c [] = (c', fs)" by fastforce
      have p: "pulled S c c' fs" "\<not> cp \<Longrightarrow> fs = []" using IH [of c cp] none [of c cp] c r by simp_all
      have "q = Op k es [c']" "gs = fs" using Op.prems(2) LogicalDistinct c r False by auto
      then show ?thesis using pulled_distinct [OF p(1)] p(2) Op.prems(1) LogicalDistinct c False by (simp del: wf_plan.simps)
    qed
  next
    case (LogicalOrder pm)
    then obtain c where c: "cs = [c]" "pm = []" using wf one_list [of cs] by auto
    obtain c' fs where r: "rewrite_filters cp False c [] = (c', fs)" by fastforce
    have p: "pulled S c c' fs" "\<not> cp \<Longrightarrow> fs = []" using IH [of c cp] none [of c cp] c r by simp_all
    have "q = Op k es [c']" "gs = fs" using Op.prems(2) LogicalOrder c r by auto
    then show ?thesis using pulled_order [OF p(1)] p(2) Op.prems(1) LogicalOrder c by (simp del: wf_plan.simps)
  next
    case (LogicalGet idx nm ns tys pids)
    then have "finish_pullup k es ?cs [] = (q, gs)" using Op.prems(2) by simp
    then show ?thesis by (rule finish)
  next
    case (LogicalPredict idx info)
    then have "finish_pullup k es ?cs [] = (q, gs)" using Op.prems(2) by simp
    then show ?thesis by (rule finish)
  next
    case (LogicalLimit lim off)
    then have "finish_pullup k es ?cs [] = (q, gs)" using Op.prems(2) by simp
    then show ?thesis by (rule finish)
  next
    case (LogicalOther n out)
    then have "finish_pullup k es ?cs [] = (q, gs)" using Op.prems(2) by simp
    then show ?thesis by (rule finish)
  qed
qed

text \<open>C3: pulling the filters of a well-formed plan up gives a well-formed plan with the same columns that
  computes the same rows in the same order, whatever the scans, predictions and functions are.\<close>
theorem filter_pullup_correct:
  assumes "wf_plan p"
  shows "wf_plan (filter_pullup p) \<and> columns (filter_pullup p) = columns p \<and>
    eval_plan S (filter_pullup p) = eval_plan S p"
proof -
  obtain q gs where r: "rewrite_filters False False p [] = (q, gs)" by fastforce
  then show ?thesis
    using rewrite_filters_pulled [OF assms r, of S] by (auto simp: pulled_def filter_pullup_def)
qed


definition demo_get :: "nat \<Rightarrow> lop" where
  "demo_get i = Op (LogicalGet i ''t'' [''a''] [VARCHAR] []) [] []"

definition demo_join :: lop where
  "demo_join = Op (LogicalJoin ComparisonJoin JoinInner 0 [] [] [COMPARE_EQUAL]) [ColumnRef VARCHAR (0, 0), ColumnRef VARCHAR (1, 0)]
     [Op (LogicalFilter 7 (- 1) []) [OtherExpr 3 BOOLEAN [ColumnRef VARCHAR (0, 0)]] [demo_get 0], demo_get 1]"

lemma wf_demo_join: "wf_plan demo_join"
  by (simp add: demo_join_def demo_get_def column_bindings_def get_columns_def first_columns_def generate_bindings_def)

theorem filter_pullup_correct_witness:
  "filter_pullup demo_join =
     new_filter [OtherExpr 3 BOOLEAN [ColumnRef VARCHAR (0, 0)],
                 ComparisonExpr COMPARE_EQUAL (ColumnRef VARCHAR (0, 0)) (ColumnRef VARCHAR (1, 0))]
       (Op LogicalCrossProduct [] [demo_get 0, demo_get 1]) \<and>
   (\<forall>S :: nat plan_semantics. eval_plan S (filter_pullup demo_join) = eval_plan S demo_join)"
proof (intro conjI allI)
  show "filter_pullup demo_join =
     new_filter [OtherExpr 3 BOOLEAN [ColumnRef VARCHAR (0, 0)],
                 ComparisonExpr COMPARE_EQUAL (ColumnRef VARCHAR (0, 0)) (ColumnRef VARCHAR (1, 0))]
       (Op LogicalCrossProduct [] [demo_get 0, demo_get 1])"
    by (simp add: filter_pullup_def demo_join_def demo_get_def finish_pullup_def pullup_inner_join_def join_conditions_def)
  fix S :: "nat plan_semantics"
  show "eval_plan S (filter_pullup demo_join) = eval_plan S demo_join"
    using filter_pullup_correct [OF wf_demo_join, of S] by simp
qed

end
