(* ===== verification/Predict_Pullup.thy ===== *)
theory Predict_Pullup
  imports Filter_Pullup
begin

section \<open>Pulling predictions up\<close>

text \<open>
  \<open>PredictPullup\<close> of \<open>src/optimizer/predict_pullup.cpp\<close> and \<open>src/optimizer/pullup/\<close>, modelled on
  \<open>FilterPullup\<close>: what it collects below a fork is not put back, since the code that would is
  commented out, and so is the pass in \<open>optimizer.cpp\<close>.
\<close>

text \<open>\<open>GeneratePullupPredict\<close>: only the first prediction is kept. The index of the new operator is not
  initialised in the code; \<open>None\<close> is a moved-from prediction.\<close>

definition generate_pullup_predict :: "nat \<Rightarrow> lop \<Rightarrow> bound_predict option list \<Rightarrow> lop" where
  "generate_pullup_predict uninit child infos =
     Op (LogicalPredict uninit (case infos of [] \<Rightarrow> None | i # _ \<Rightarrow> i)) [] [child]"

definition finish_predict_pullup ::
    "nat \<Rightarrow> op_class \<Rightarrow> bexpr list \<Rightarrow> lop list \<Rightarrow> bound_predict option list \<Rightarrow> lop \<times> bound_predict option list" where
  "finish_predict_pullup uninit k es cs infos =
     (if infos = [] then (Op k es cs, infos) else (generate_pullup_predict uninit (Op k es cs) infos, []))"

fun rewrite_predicts ::
    "nat \<Rightarrow> bool \<Rightarrow> lop \<Rightarrow> bound_predict option list \<Rightarrow> lop \<times> bound_predict option list" where
  "rewrite_predicts uninit can_pullup (Op k es cs) infos =
     (case (k, cs) of
        (LogicalPredict idx info, [c]) \<Rightarrow>
          (let (c', infos') = rewrite_predicts uninit can_pullup c infos in
           if can_pullup then (c', infos' @ [info]) else (Op k es [c'], infos'))
      | (LogicalProjection _, [c]) \<Rightarrow>
          (let (c', infos') = rewrite_predicts uninit can_pullup c infos in (Op k es [c'], infos'))
      | (LogicalDistinct _, [c]) \<Rightarrow>
          (let (c', infos') = rewrite_predicts uninit can_pullup c infos in (Op k es [c'], infos'))
      | (LogicalFilter _ _ _, [c]) \<Rightarrow>
          (let (c', infos') = rewrite_predicts uninit can_pullup c infos in (Op k es [c'], infos'))
      | (LogicalOrder _, [c]) \<Rightarrow>
          (let (c', infos') = rewrite_predicts uninit can_pullup c infos in (Op k es [c'], infos'))
      | (LogicalCrossProduct, [l, r]) \<Rightarrow> (Op k es [fst (rewrite_predicts uninit True l []), fst (rewrite_predicts uninit True r [])], infos)
      | (LogicalJoin kind jt _ _ _ _, [l, r]) \<Rightarrow>
          (if kind = BaseJoin then finish_predict_pullup uninit k es (map (\<lambda>c. fst (rewrite_predicts uninit False c [])) cs) infos
           else if jt = JoinInner then
             (if kind = AsofJoin then Op k es [fst (rewrite_predicts uninit True l []), fst (rewrite_predicts uninit False r [])]
              else if kind = DelimJoin then Op k es cs
              else Op k es [fst (rewrite_predicts uninit True l []), fst (rewrite_predicts uninit True r [])], infos)
           else if jt = JoinLeft \<or> jt = JoinAnti \<or> jt = JoinSemi then (Op k es [fst (rewrite_predicts uninit True l []), fst (rewrite_predicts uninit False r [])], infos)
           else finish_predict_pullup uninit k es (map (\<lambda>c. fst (rewrite_predicts uninit False c [])) cs) infos)
      | (LogicalIntersect _ _ _, [l, r]) \<Rightarrow> (Op k es [fst (rewrite_predicts uninit True l []), fst (rewrite_predicts uninit True r [])], infos)
      | (LogicalExcept _ _ _, [l, r]) \<Rightarrow> (Op k es [fst (rewrite_predicts uninit True l []), fst (rewrite_predicts uninit False r [])], infos)
      | _ \<Rightarrow> finish_predict_pullup uninit k es (map (\<lambda>c. fst (rewrite_predicts uninit False c [])) cs) infos)"

definition predict_pullup :: "lop \<Rightarrow> lop" where
  "predict_pullup p = fst (rewrite_predicts 0 False p [])"

text \<open>The chain of operators predictions move through, and a plan where they cannot meet a fork.\<close>

fun passes :: "op_class \<Rightarrow> bool" where
  "passes (LogicalProjection _) = True"
| "passes (LogicalDistinct _) = True"
| "passes (LogicalFilter _ _ _) = True"
| "passes (LogicalOrder _) = True"
| "passes _ = False"

fun chain_predicts :: "lop \<Rightarrow> bound_predict option list" where
  "chain_predicts (Op k es cs) =
     (case cs of [c] \<Rightarrow>
        (case k of LogicalPredict _ info \<Rightarrow> chain_predicts c @ [info]
         | _ \<Rightarrow> if passes k then chain_predicts c else [])
      | _ \<Rightarrow> [])"

fun no_fork :: "lop \<Rightarrow> bool" where
  "no_fork (Op k es cs) =
     ((case k of LogicalCrossProduct \<Rightarrow> False | LogicalJoin _ _ _ _ _ _ \<Rightarrow> False
       | LogicalIntersect _ _ _ \<Rightarrow> False | LogicalExcept _ _ _ \<Rightarrow> False | _ \<Rightarrow> True) \<and> list_all no_fork cs)"

lemma rewrite_predicts_no_fork: "no_fork p \<Longrightarrow> rewrite_predicts u False p [] = (p, [])"
proof (induction p)
  case (Op k es cs)
  then have "map (\<lambda>c. fst (rewrite_predicts u False c [])) cs = cs"
    by (intro map_idI) (auto simp: list_all_iff)
  then have fin: "finish_predict_pullup u k es (map (\<lambda>c. fst (rewrite_predicts u False c [])) cs) [] = (Op k es cs, [])"
    by (simp add: finish_predict_pullup_def)
  have one: "rewrite_predicts u False c [] = (c, [])" if "cs = [c]" for c using Op that by simp
  show ?case
    using Op.prems one fin by (auto simp: Let_def split: op_class.splits list.splits)
qed

lemma rewrite_predicts_chain: "snd (rewrite_predicts u True p []) = chain_predicts p"
proof (induction p)
  case (Op k es cs)
  have fin: "snd (finish_predict_pullup u k es xs []) = []" for xs by (simp add: finish_predict_pullup_def)
  have one: "snd (rewrite_predicts u True c []) = chain_predicts c" if "cs = [c]" for c using Op that by simp
  show ?case
    using one fin by (auto simp: Let_def split: op_class.splits list.splits prod.splits)
qed

text \<open>Where no operator forks, the pass changes nothing. At a cross product, an inner join or an
  intersection, every prediction between the fork and the next operator that stops the pull is
  removed and does not come back anywhere.\<close>
lemma predict_pullup_loses:
  "(no_fork p \<longrightarrow> predict_pullup p = p) \<and>
   (\<exists>l' r'. predict_pullup (Op LogicalCrossProduct es [l, r]) = Op LogicalCrossProduct es [l', r'] \<and>
      rewrite_predicts 0 True l [] = (l', chain_predicts l) \<and> rewrite_predicts 0 True r [] = (r', chain_predicts r))"
  by (simp add: predict_pullup_def rewrite_predicts_no_fork prod_eq_iff rewrite_predicts_chain)

lemma predict_pullup_loses_witness:
  "predict_pullup (Op (LogicalPredict 5 None) [] [demo_get 0]) = Op (LogicalPredict 5 None) [] [demo_get 0] \<and>
   predict_pullup (Op LogicalCrossProduct [] [Op (LogicalPredict 5 None) [] [demo_get 0], demo_get 1]) =
     Op LogicalCrossProduct [] [demo_get 0, demo_get 1]"
proof
  show "predict_pullup (Op (LogicalPredict 5 None) [] [demo_get 0]) = Op (LogicalPredict 5 None) [] [demo_get 0]"
    using predict_pullup_loses [of "Op (LogicalPredict 5 None) [] [demo_get 0]" "[]" "demo_get 0" "demo_get 1"]
    by (simp add: demo_get_def)
  show "predict_pullup (Op LogicalCrossProduct [] [Op (LogicalPredict 5 None) [] [demo_get 0], demo_get 1]) =
     Op LogicalCrossProduct [] [demo_get 0, demo_get 1]"
    by (simp add: predict_pullup_def demo_get_def finish_predict_pullup_def)
qed

end
