(* ===== verification/Predict_Plan.thy ===== *)
theory Predict_Plan
  imports Filter_Pullup Calls
begin

section \<open>From the logical to the physical plan of a prediction\<close>

text \<open>
  \<open>LimitPushdown\<close> of \<open>src/optimizer/limit_pushdown.cpp\<close>, which moves a LIMIT below projections and
  below predictions so that fewer rows are sent to a model, and the choice of the physical operator
  of a prediction in \<open>src/execution/physical_plan/plan_predict.cpp\<close>.
\<close>

subsection \<open>Limit pushdown\<close>

text \<open>\<open>vector::operator[]\<close> with the bounds check of \<open>duckdb::vector\<close>.\<close>

definition no_child :: exn where
  "no_child = InternalException ''Attempted to access index 0 within vector of size 0''"

fun is_expression_limit :: "limit_node \<Rightarrow> bool" where
  "is_expression_limit (LimitExpression _) = True"
| "is_expression_limit (LimitExpressionPercentage _) = True"
| "is_expression_limit _ = False"

text \<open>\<open>CanOptimize\<close>, on the classes of an operator and of its first child.\<close>

fun can_optimize :: "op_class \<Rightarrow> op_class \<Rightarrow> bool" where
  "can_optimize (LogicalLimit lim off) (LogicalProjection _) =
     (\<not> is_expression_limit off \<and> (case lim of LimitConstant c \<Rightarrow> c < 8192 | _ \<Rightarrow> False))"
| "can_optimize (LogicalLimit lim off) (LogicalPredict _ _) = True"
| "can_optimize _ _ = False"

fun is_limit :: "op_class \<Rightarrow> bool" where
  "is_limit (LogicalLimit _ _) = True"
| "is_limit _ = False"

text \<open>The swap at the head of \<open>Optimize\<close>. A LIMIT reads its first child to decide, and moving it down
  reads the first child of that child.\<close>

fun push_step :: "lop \<Rightarrow> lop res" where
  "push_step (Op k es []) = (if is_limit k then Inl no_child else Inr (Op k es []))"
| "push_step (Op k es (Op k' es' cs' # cs)) =
     (if can_optimize k k'
      then (case cs' of [] \<Rightarrow> Inl no_child | g # gs \<Rightarrow> Inr (Op k' es' (Op k es (g # cs) # gs)))
      else Inr (Op k es (Op k' es' cs' # cs)))"

lemma push_step_children:
  "push_step p = Inr q \<Longrightarrow> c \<in> set (op_children q) \<Longrightarrow> size c < size p"
proof (induction p rule: push_step.induct)
  case (2 k es k' es' cs' cs)
  then show ?case
    by (auto split: if_splits list.splits dest!: size_list_estimation' [where f = size and y = "size c"])
qed (auto split: if_splits)

function limit_pushdown :: "lop \<Rightarrow> lop res" where
  "limit_pushdown p =
     bindR (push_step p) (\<lambda>q. mapR (Op (op_class q) (op_exprs q)) (traverse limit_pushdown (op_children q)))"
  by pat_completeness auto
termination
  by (relation "measure size") (auto dest: push_step_children)

text \<open>The LIMITs that run into a prediction without an input: the walk down the first children.\<close>

fun reaches_scan :: "op_class \<Rightarrow> lop \<Rightarrow> bool" where
  "reaches_scan lim (Op k es cs) = (can_optimize lim k \<and> (case cs of [] \<Rightarrow> True | c # _ \<Rightarrow> reaches_scan lim c))"

fun hits_scan :: "lop \<Rightarrow> bool" where
  "hits_scan (Op k es cs) =
     (is_limit k \<and> (case cs of [] \<Rightarrow> True | c # _ \<Rightarrow> reaches_scan k c) \<or> list_ex hits_scan cs)"

declare limit_pushdown.simps [simp del]

lemma can_optimize_limit: "can_optimize k k' \<Longrightarrow> is_limit k \<and> \<not> is_limit k'"
  by (induction k k' rule: can_optimize.induct) simp_all

lemma hits_scan_step: "push_step p = Inl e \<Longrightarrow> e = no_child \<and> hits_scan p"
  by (induction p rule: push_step.induct) (auto split: if_splits list.splits dest: can_optimize_limit)

lemma hits_scan_children: "push_step p = Inr q \<Longrightarrow> hits_scan p \<longleftrightarrow> list_ex hits_scan (op_children q)"
proof (induction p rule: push_step.induct)
  case (2 k es k' es' cs' cs)
  then show ?case
    using can_optimize_limit [of k k'] by (cases cs') (auto split: if_splits)
qed (auto split: if_splits)

lemma limit_pushdown_result:
  "if hits_scan p then limit_pushdown p = Inl no_child else \<exists>q. limit_pushdown p = Inr q"
proof (induction p rule: limit_pushdown.induct)
  case (1 p)
  show ?case
  proof (cases "push_step p")
    case (Inl e)
    then show ?thesis using hits_scan_step [of p e] by (simp add: limit_pushdown.simps [of p])
  next
    case (Inr q)
    have ch: "if hits_scan c then limit_pushdown c = Inl no_child else \<exists>q. limit_pushdown c = Inr q"
      if "c \<in> set (op_children q)" for c using 1 Inr that by auto
    have "if list_ex hits_scan cs then traverse limit_pushdown cs = Inl no_child else \<exists>qs. traverse limit_pushdown cs = Inr qs"
      if "set cs \<subseteq> set (op_children q)" for cs
      using that
    proof (induction cs)
      case (Cons c cs)
      then show ?case using ch [of c] by (cases "hits_scan c"; cases "list_ex hits_scan cs") auto
    qed simp
    from this [of "op_children q"] show ?thesis
      using hits_scan_children [OF Inr] Inr by (auto simp: limit_pushdown.simps [of p] split: if_splits)
  qed
qed

subsection \<open>Limits commute with operators that compute row by row\<close>

lemma limit_rows_map: "limit_rows S lim off (map f xs) = map f (limit_rows S lim off xs)"
  by (simp add: limit_rows_def Let_def take_map drop_map)

lemma set_limit_rows: "set (limit_rows S lim off xs) \<subseteq> set xs"
  by (auto simp: limit_rows_def Let_def dest: in_set_takeD in_set_dropD split: if_splits)

lemma columns_limit: "columns (Op (LogicalLimit lim off) es [c]) = columns c"
  by (simp add: first_columns_def)

lemma eval_plan_limit:
  "wf_plan c \<Longrightarrow> eval_plan S (Op (LogicalLimit lim off) es [c]) = limit_rows S lim off (eval_plan S c)"
proof -
  assume "wf_plan c"
  then have "\<forall>r \<in> set (limit_rows S lim off (eval_plan S c)). dom r = set (column_bindings c)"
    using row_dom set_limit_rows by fast
  moreover have "column_bindings (Op (LogicalLimit lim off) es [c]) = column_bindings c"
    by (simp only: column_bindings_def columns_limit)
  ultimately show ?thesis by (simp add: conform_rows del: columns.simps)
qed

text \<open>A projection and a prediction map a function over the rows of their input.\<close>

lemma rowwise_operator:
  assumes "can_optimize k k'"
  obtains f where "\<And>c. eval_plan S (Op k' es' [c]) = map f (eval_plan S c)"
proof -
  from assms consider (proj) idx where "k' = LogicalProjection idx" | (pred) idx info where "k' = LogicalPredict idx info"
    by (cases "(k, k')" rule: can_optimize.cases) auto
  then show ?thesis
  proof cases
    case proj
    then show ?thesis using that [of "project_row (semantics.truncate S) idx es'"] by simp
  next
    case (pred idx info)
    then show ?thesis
      using that [of "\<lambda>r. conform (column_bindings (Op k' es' [])) (row_of_tuple idx (predict_row S info r))"]
      by (simp add: column_bindings_def)
  qed
qed

lemma rowwise_children: "can_optimize k k' \<Longrightarrow> wf_class k' es' css \<Longrightarrow> length css \<le> 1"
  by (cases "(k, k')" rule: can_optimize.cases) auto

lemma rowwise_wf:
  "wf_plan (Op k' es' [c]) \<Longrightarrow> wf_plan d \<Longrightarrow> columns d = columns c \<Longrightarrow> wf_plan (Op k' es' [d])"
  by (simp add: column_bindings_def)

lemma rowwise_columns: "columns d = columns c \<Longrightarrow> columns (Op k' es' [d]) = columns (Op k' es' [c])"
  by simp

lemma push_step_correct:
  assumes "wf_plan p" "push_step p = Inr q"
  shows "wf_plan q \<and> columns q = columns p \<and> eval_plan S q = eval_plan S p"
  using assms
proof (induction p rule: push_step.induct)
  case (2 k es k' es' cs' cs)
  show ?case
  proof (cases "can_optimize k k'")
    case True
    then obtain lim off where k: "k = LogicalLimit lim off"
      by (cases "(k, k')" rule: can_optimize.cases) auto
    have cs: "cs = []" using "2.prems"(1) k by simp
    obtain g where g: "cs' = [g]" "q = Op k' es' [Op k es [g]]"
      using "2.prems" True rowwise_children [OF True, of es' "map column_bindings cs'"] cs
      by (cases cs') (auto split: list.splits)
    let ?low = "Op k es [g]" and ?high = "Op k' es' [g]"
    have wf: "wf_plan g" "wf_plan ?high" and es: "\<forall>e \<in> set es. refs_of e = {}"
      using "2.prems"(1) k g cs by simp_all
    have wfl: "wf_plan ?low" using wf(1) es by (simp add: k list_all_iff)
    have low: "columns ?low = columns g" unfolding k by (rule columns_limit)
    obtain f where f: "\<And>c. eval_plan S (Op k' es' [c]) = map f (eval_plan S c)" using rowwise_operator [OF True, where S = S and es' = es'] by blast
    have "eval_plan S q = limit_rows S lim off (eval_plan S ?high)"
      unfolding g(2) f unfolding k eval_plan_limit [OF wf(1)] by (simp only: limit_rows_map)
    also have "\<dots> = eval_plan S (Op k es [?high])" unfolding k eval_plan_limit [OF wf(2)] ..
    finally have "eval_plan S q = eval_plan S (Op k es [?high])" .
    moreover have "columns q = columns (Op k es [?high])"
      unfolding g(2) rowwise_columns [OF low] unfolding k columns_limit ..
    ultimately show ?thesis
      using rowwise_wf [OF wf(2) wfl low] g cs by simp
  qed (use "2.prems" in auto)
qed (auto split: if_splits)

lemma replace_children:
  assumes "wf_plan (Op k es cs)" "length ds = length cs"
    and "\<And>i. i < length cs \<Longrightarrow> wf_plan (ds ! i) \<and> columns (ds ! i) = columns (cs ! i) \<and> eval_plan S (ds ! i) = eval_plan S (cs ! i)"
  shows "wf_plan (Op k es ds) \<and> columns (Op k es ds) = columns (Op k es cs) \<and> eval_plan S (Op k es ds) = eval_plan S (Op k es cs)"
proof -
  have c: "map columns ds = map columns cs" and e: "map (eval_plan S) ds = map (eval_plan S) cs"
    using assms by (auto intro: nth_equalityI)
  have b: "map column_bindings ds = map column_bindings cs"
    using c unfolding column_bindings_def by (metis (no_types, lifting) list.map_comp comp_apply map_eq_conv)
  have "map (set \<circ> column_bindings) ds = map (set \<circ> column_bindings) cs"
    using b by (metis list.map_comp)
  moreover have "list_all wf_plan ds" using assms by (auto simp: list_all_length)
  ultimately have "wf_plan (Op k es ds)" using assms(1) b by (simp del: map_map)
  then show ?thesis using b c e by (simp add: column_bindings_def del: map_eq_conv)
qed

lemma push_all_correct:
  assumes "wf_plan p" "limit_pushdown p = Inr q"
  shows "wf_plan q \<and> columns q = columns p \<and> eval_plan S q = eval_plan S p"
  using assms
proof (induction p arbitrary: q rule: limit_pushdown.induct)
  case (1 p)
  obtain m ds where m: "push_step p = Inr m" "traverse limit_pushdown (op_children m) = Inr ds"
      "q = Op (op_class m) (op_exprs m) ds"
    using "1.prems"(2) by (auto simp: limit_pushdown.simps [of p] res_simps simp del: traverse_Inr_iff)
  have wf: "wf_plan m" "columns m = columns p" "eval_plan S m = eval_plan S p"
    using push_step_correct [OF "1.prems"(1) m(1), of S] by simp_all
  have ds: "length ds = length (op_children m)"
      "\<And>i. i < length (op_children m) \<Longrightarrow> limit_pushdown (op_children m ! i) = Inr (ds ! i)"
    using m(2) by (auto simp: traverse_Inr_iff)
  have "wf_plan (ds ! i) \<and> columns (ds ! i) = columns (op_children m ! i) \<and> eval_plan S (ds ! i) = eval_plan S (op_children m ! i)"
    if "i < length (op_children m)" for i
    using "1.IH" [OF m(1) nth_mem [OF that] _ ds(2) [OF that]] wf(1) that
    by (cases m) (auto simp: list_all_length)
  then show ?case
    using replace_children [of "op_class m" "op_exprs m" "op_children m" ds S] wf m(3) ds(1) by simp
qed

text \<open>C6: the pass fails exactly when a LIMIT reaches a prediction without an input (the scan of a
  language model); otherwise the new plan has the same columns and computes the same rows, in order,
  whatever the scans, predictions and functions are.\<close>
theorem limit_pushdown_correct:
  assumes "wf_plan p"
  shows "if hits_scan p then limit_pushdown p = Inl no_child
    else \<exists>q. limit_pushdown p = Inr q \<and> wf_plan q \<and> columns q = columns p \<and> eval_plan S q = eval_plan S p"
  using limit_pushdown_result [of p] push_all_correct [OF assms, where S = S] by auto

definition demo_info :: "model_type \<Rightarrow> bound_predict" where
  "demo_info t = \<lparr>input_mask = [0], input_set_names = [''a''], embedding_column_map = [], result_set = [(''b'', VARCHAR)],
     bp_type = t, bp_model = ''m'', bp_path = [], bp_prompt = [], bp_base_api = [], bp_secret = [],
     bp_types = [VARCHAR, VARCHAR], bp_opt_mask = [], bp_input_types = [VARCHAR], bp_options = []\<rparr>"

definition demo_limit :: "lop list \<Rightarrow> lop" where
  "demo_limit below = Op (LogicalLimit (LimitConstant 3) LimitUnset) []
     [Op (LogicalProjection 4) [ColumnRef VARCHAR (5, 1)] [Op (LogicalPredict 5 (Some (demo_info LLM))) [] below]]"

lemma wf_demo_limit: "wf_plan (demo_limit [demo_get 0])" "wf_plan (demo_limit [])"
  by (simp_all add: demo_limit_def demo_get_def demo_info_def column_bindings_def get_columns_def first_columns_def
        generate_bindings_def)

theorem limit_pushdown_correct_witness:
  "limit_pushdown (demo_limit []) = Inl no_child \<and>
   (\<exists>q. limit_pushdown (demo_limit [demo_get 0]) = Inr q \<and>
      (\<forall>S :: nat plan_semantics. eval_plan S q = eval_plan S (demo_limit [demo_get 0])))"
proof -
  have h: "hits_scan (demo_limit [])" "\<not> hits_scan (demo_limit [demo_get 0])"
    by (simp_all add: demo_limit_def demo_get_def)
  have a: "\<exists>q. limit_pushdown (demo_limit [demo_get 0]) = Inr q \<and> eval_plan S q = eval_plan S (demo_limit [demo_get 0])"
    for S :: "nat plan_semantics" using limit_pushdown_correct [OF wf_demo_limit(1), of S] h(2) by auto
  then obtain q where q: "limit_pushdown (demo_limit [demo_get 0]) = Inr q" by blast
  then have "eval_plan S q = eval_plan S (demo_limit [demo_get 0])" for S :: "nat plan_semantics" using a [of S] by simp
  then show ?thesis using limit_pushdown_correct [OF wf_demo_limit(2)] h(1) q by auto
qed

lemma limit_pushdown_demo:
  "limit_pushdown (demo_limit [demo_get 0]) =
     Inr (Op (LogicalProjection 4) [ColumnRef VARCHAR (5, 1)]
       [Op (LogicalPredict 5 (Some (demo_info LLM))) []
         [Op (LogicalLimit (LimitConstant 3) LimitUnset) [] [demo_get 0]]])"
  by (simp add: demo_limit_def demo_get_def limit_pushdown.simps)

subsection \<open>Physical operators\<close>

datatype phys =
    PhysicalPredict bound_predict phys
  | PhysicalPredictScan bound_predict
  | PhysicalOther op_class "bexpr list" "phys list"

fun model_type_name :: "model_type \<Rightarrow> string" where
  "model_type_name TABULAR = ''TABULAR''"
| "model_type_name LM = ''LM''"
| "model_type_name GNN = ''GNN''"
| "model_type_name LLM = ''LLM''"
| "model_type_name EMBED = ''EMBED''"

text \<open>\<open>CreatePlan(LogicalPredict &)\<close> on the planned children; every other operator plans its children. A
  moved-from prediction is a null pointer.\<close>

definition plan_first :: "(lop \<Rightarrow> phys res) \<Rightarrow> bound_predict \<Rightarrow> lop list \<Rightarrow> phys res" where
  "plan_first plan info cs = (case cs of [] \<Rightarrow> Inl no_child | c # _ \<Rightarrow> mapR (PhysicalPredict info) (plan c))"

lemma plan_first_cong [fundef_cong]:
  "cs = ds \<Longrightarrow> info = info' \<Longrightarrow> (\<And>d. d \<in> set ds \<Longrightarrow> f d = g d) \<Longrightarrow> plan_first f info cs = plan_first g info' ds"
  by (auto simp: plan_first_def split: list.splits)

fun create_plan :: "lop \<Rightarrow> phys res" where
  "create_plan (Op (LogicalPredict idx None) es cs) = Inl (Undefined ''null bound_predict'')"
| "create_plan (Op (LogicalPredict idx (Some info)) es cs) =
     (case bp_type info of
        TABULAR \<Rightarrow> plan_first create_plan info cs
      | LM \<Rightarrow> plan_first create_plan info cs
      | LLM \<Rightarrow>
          (if length cs = 0 then Inr (PhysicalPredictScan info)
           else if length cs = 1 then plan_first create_plan info cs
           else Inl (InternalException ''Plan Error: Invalid number of child plans''))
      | EMBED \<Rightarrow> plan_first create_plan info cs
      | GNN \<Rightarrow> Inl (InternalException (''Plan Error: Unknown model type `'' @ model_type_name GNN @ ''`'')))"
| "create_plan (Op k es cs) = mapR (PhysicalOther k es) (traverse create_plan cs)"

text \<open>The predictions that get an operator: with an input, or as the scan of a language model.\<close>

fun plannable :: "op_class \<Rightarrow> nat \<Rightarrow> bool" where
  "plannable (LogicalPredict _ None) n = False"
| "plannable (LogicalPredict _ (Some info)) n = (bp_type info \<noteq> GNN \<and> (n = 1 \<or> n = 0 \<and> bp_type info = LLM))"
| "plannable _ n = True"

fun all_plannable :: "lop \<Rightarrow> bool" where
  "all_plannable (Op k es cs) = (plannable k (length cs) \<and> list_all all_plannable cs)"

text \<open>\<open>PhysicalPredictScan::InitPredictor\<close>: a scan has no LibTorch or ONNX predictor.\<close>

definition init_scan_predictor :: "build \<Rightarrow> model_info \<Rightarrow> string \<Rightarrow> predictor_kind res" where
  "init_scan_predictor b mi api_key =
     (if enable_predict b \<and> (predictor_impl b = 3 \<or> enable_llm_api b) then
        (if \<not> contains_text ''.gguf'' (mi_path mi) then
           (if enable_llm_api b then Inr (ApiKind (mi_prompt mi) (mi_base_api mi) api_key)
            else Inl (InternalException ''Unable to infer LLM API model without `ENABLE_LLM_API` build option.''))
         else if predictor_impl b = 3 then Inr (LlamaKind (mi_prompt mi))
         else Inl (InternalException ''Unable to infer local LLMs without `PREDICTOR_IMPL='llama_cpp'` build option.''))
      else Inr NoKind)"

text \<open>\<open>GetGlobalSourceState\<close>: the secret, the predictor, its configuration.\<close>

definition scan_source_state ::
    "build \<Rightarrow> (string \<rightharpoonup> string) \<Rightarrow> client_config \<Rightarrow> model_info \<Rightarrow> predictor \<Rightarrow> (predictor_kind \<times> predictor) res" where
  "scan_source_state b secrets cfg mi p =
     bindR (resolve_secret secrets mi) (\<lambda>api_key.
     bindR (init_scan_predictor b mi api_key) (\<lambda>kind.
       if kind = NoKind then Inl (Undefined ''null predictor'')
       else mapR (Pair kind) (config cfg (mi_options mi) p)))"

text \<open>\<open>GetDataInternal\<close>: one chunk, after which the source is finished.\<close>

definition scan_get_data ::
    "'d jlib \<Rightarrow> 'd endpoint \<Rightarrow> predictor \<Rightarrow> cols \<Rightarrow> 'd chunk \<Rightarrow> ('d chunk \<times> bool) res" where
  "scan_get_data lib api p cols out = mapR (\<lambda>(ch, _). (ch, True)) (scan_chunk lib api p cols out)"

lemma plan_first_Inr_iff:
  "(\<exists>ph. plan_first f info cs = Inr ph) \<longleftrightarrow> (\<exists>c ds ph. cs = c # ds \<and> f c = Inr ph)"
  by (cases cs) (auto simp: plan_first_def mapR_Inr_iff)

lemma traverse_Inr_ex: "(\<exists>ys. traverse f xs = Inr ys) \<longleftrightarrow> (\<forall>x \<in> set xs. \<exists>y. f x = Inr y)"
  using traverse_Inl_iff [of f xs] by (cases "traverse f xs") (metis Inl_Inr_False obj_sumE)+

lemma create_plan_iff: "wf_plan p \<Longrightarrow> (\<exists>ph. create_plan p = Inr ph) \<longleftrightarrow> all_plannable p"
proof (induction p rule: create_plan.induct)
  case (2 idx info es cs)
  have one: "length cs \<le> 1" using "2.prems" by simp
  have "wf_plan c" if "c \<in> set cs" for c using "2.prems" that by (simp add: list_all_iff)
  with 2 one show ?case
    by (cases cs; cases "bp_type info") (auto simp: plan_first_Inr_iff plan_first_def mapR_Inr_iff)
qed (auto simp: mapR_Inr_iff list_all_iff traverse_Inr_ex)

lemma push_step_plannable: "push_step p = Inr q \<Longrightarrow> all_plannable q = all_plannable p"
proof (induction p rule: push_step.induct)
  case (2 k es k' es' cs' cs)
  show ?case
  proof (cases "can_optimize k k'")
    case True
    then obtain lim off where "k = LogicalLimit lim off"
      by (cases "(k, k')" rule: can_optimize.cases) auto
    then show ?thesis using 2 True by (auto split: list.splits)
  qed (use 2 in auto)
qed (auto split: if_splits)

lemma limit_pushdown_plannable: "limit_pushdown p = Inr q \<Longrightarrow> all_plannable q = all_plannable p"
proof (induction p arbitrary: q rule: limit_pushdown.induct)
  case (1 p)
  obtain m ds where m: "push_step p = Inr m" "traverse limit_pushdown (op_children m) = Inr ds"
      "q = Op (op_class m) (op_exprs m) ds"
    using "1.prems" by (auto simp: limit_pushdown.simps [of p] res_simps simp del: traverse_Inr_iff)
  have ds: "length ds = length (op_children m)" "\<forall>i < length (op_children m). limit_pushdown (op_children m ! i) = Inr (ds ! i)"
    using m(2) by (auto simp: traverse_Inr_iff)
  have "list_all all_plannable ds = list_all all_plannable (op_children m)"
    using "1.IH" [OF m(1) nth_mem] ds by (auto simp: list_all_length)
  then show ?case using push_step_plannable [OF m(1)] m(3) ds(1) by (cases m) simp
qed

text \<open>C27: a plan whose predictions all have the number of inputs their model type needs, and in which
  no LIMIT reaches a scan, goes through both passes: the optimized plan computes the same rows and gets
  a physical plan. If some prediction has no operator for its inputs, planning throws.\<close>
theorem predict_plan_complete:
  assumes "wf_plan p" "\<not> hits_scan p"
  shows "\<exists>q. limit_pushdown p = Inr q \<and> eval_plan S q = eval_plan S p \<and>
    (\<exists>ph. create_plan q = Inr ph) = all_plannable p"
proof -
  obtain q where q: "limit_pushdown p = Inr q" "wf_plan q" "eval_plan S q = eval_plan S p"
    using push_all_correct [OF assms(1), where S = S] limit_pushdown_result [of p] assms(2) by auto
  then show ?thesis using create_plan_iff [of q] limit_pushdown_plannable [OF q(1)] by auto
qed

theorem predict_plan_complete_witness:
  "\<exists>q. limit_pushdown (demo_limit [demo_get 0]) = Inr q \<and> (\<exists>ph. create_plan q = Inr ph) \<and>
     (\<forall>S :: nat plan_semantics. eval_plan S q = eval_plan S (demo_limit [demo_get 0]))"
proof -
  have h: "\<not> hits_scan (demo_limit [demo_get 0])" "all_plannable (demo_limit [demo_get 0])"
    by (simp_all add: demo_limit_def demo_get_def demo_info_def)
  have a: "\<exists>q. limit_pushdown (demo_limit [demo_get 0]) = Inr q \<and>
      eval_plan S q = eval_plan S (demo_limit [demo_get 0]) \<and> (\<exists>ph. create_plan q = Inr ph)"
    for S :: "nat plan_semantics" using predict_plan_complete [OF wf_demo_limit(1) h(1), of S] h(2) by simp
  then obtain q where q: "limit_pushdown (demo_limit [demo_get 0]) = Inr q" "\<exists>ph. create_plan q = Inr ph" by blast
  then have "eval_plan S q = eval_plan S (demo_limit [demo_get 0])" for S :: "nat plan_semantics" using a [of S] by simp
  then show ?thesis using q by blast
qed

text \<open>In a build for language models, a scan and an operator over rows open the same predictor.\<close>

lemma scan_predictor_same:
  "predictor_impl b \<notin> {1, 2} \<Longrightarrow> init_scan_predictor b mi key = init_predictor b mi key"
  by (simp add: init_scan_predictor_def init_predictor_def)

text \<open>With LibTorch or ONNX and the API enabled, the two differ: the operator over rows hands an API
  model to the tabular predictor.\<close>

lemma scan_predictor_differs:
  "enable_predict b \<Longrightarrow> enable_llm_api b \<Longrightarrow> predictor_impl b = 1 \<Longrightarrow> \<not> contains_text ''.gguf'' (mi_path mi) \<Longrightarrow>
   init_predictor b mi key = Inr TorchKind \<and>
   init_scan_predictor b mi key = Inr (ApiKind (mi_prompt mi) (mi_base_api mi) key)"
  by (simp add: init_scan_predictor_def init_predictor_def)

lemma scan_source_state_secret:
  "mi_secret mi \<noteq> [] \<Longrightarrow> secrets (mi_secret mi) = None \<Longrightarrow>
   \<exists>m. scan_source_state b secrets cfg mi p = Inl (CatalogException m)"
  by (simp add: scan_source_state_def resolve_secret_def)

lemma scan_source_state_ok:
  "scan_source_state b secrets cfg mi p = Inr (kind, p') \<Longrightarrow>
   kind \<noteq> NoKind \<and> config cfg (mi_options mi) p = Inr p' \<and> enable_predict b"
  by (auto simp: scan_source_state_def init_scan_predictor_def res_simps split: if_splits)

end
