(* ===== verification/Date.thy ===== *)
theory Date
  imports Binding
begin

section \<open>Dates\<close>

text \<open>
  \<open>src/common/types/date.cpp\<close>: a date is the number of days since 1970-01-01 in a 32-bit integer, with
  the two extreme values as infinities. Conversions go through tables of the days of a 400-year
  cycle. Integers are \<open>int\<close>, and the lemmas on bounds show that no intermediate value leaves 32 bits;
  division of possibly negative numbers truncates (\<open>sdiv\<close>, \<open>smod\<close>). Characters are bytes.
\<close>

subsection \<open>Tables\<close>

definition normal_days :: "int list" where
  "normal_days =
    [0, 31, 28, 31, 30, 31, 30, 31, 31, 30, 31, 30, 31]"

definition cumulative_days :: "int list" where
  "cumulative_days =
    [0, 31, 59, 90, 120, 151, 181, 212, 243, 273, 304, 334, 365]"

definition leap_days :: "int list" where
  "leap_days =
    [0, 31, 29, 31, 30, 31, 30, 31, 31, 30, 31, 30, 31]"

definition cumulative_leap_days :: "int list" where
  "cumulative_leap_days =
    [0, 31, 60, 91, 121, 152, 182, 213, 244, 274, 305, 335, 366]"

definition month_per_day_of_year :: "int list" where
  "month_per_day_of_year =
    [1, 1, 1, 1, 1, 1, 1, 1, 1, 1, 1, 1, 1, 1, 1, 1, 1, 1, 1, 1, 1, 1, 1, 1,
     1, 1, 1, 1, 1, 1, 1, 2, 2, 2, 2, 2, 2, 2, 2, 2, 2, 2, 2, 2, 2, 2, 2, 2,
     2, 2, 2, 2, 2, 2, 2, 2, 2, 2, 2, 3, 3, 3, 3, 3, 3, 3, 3, 3, 3, 3, 3, 3,
     3, 3, 3, 3, 3, 3, 3, 3, 3, 3, 3, 3, 3, 3, 3, 3, 3, 3, 4, 4, 4, 4, 4, 4,
     4, 4, 4, 4, 4, 4, 4, 4, 4, 4, 4, 4, 4, 4, 4, 4, 4, 4, 4, 4, 4, 4, 4, 4,
     5, 5, 5, 5, 5, 5, 5, 5, 5, 5, 5, 5, 5, 5, 5, 5, 5, 5, 5, 5, 5, 5, 5, 5,
     5, 5, 5, 5, 5, 5, 5, 6, 6, 6, 6, 6, 6, 6, 6, 6, 6, 6, 6, 6, 6, 6, 6, 6,
     6, 6, 6, 6, 6, 6, 6, 6, 6, 6, 6, 6, 6, 7, 7, 7, 7, 7, 7, 7, 7, 7, 7, 7,
     7, 7, 7, 7, 7, 7, 7, 7, 7, 7, 7, 7, 7, 7, 7, 7, 7, 7, 7, 7, 8, 8, 8, 8,
     8, 8, 8, 8, 8, 8, 8, 8, 8, 8, 8, 8, 8, 8, 8, 8, 8, 8, 8, 8, 8, 8, 8, 8,
     8, 8, 8, 9, 9, 9, 9, 9, 9, 9, 9, 9, 9, 9, 9, 9, 9, 9, 9, 9, 9, 9, 9, 9,
     9, 9, 9, 9, 9, 9, 9, 9, 9, 10, 10, 10, 10, 10, 10, 10, 10, 10, 10, 10, 10, 10, 10, 10,
     10, 10, 10, 10, 10, 10, 10, 10, 10, 10, 10, 10, 10, 10, 10, 10, 11, 11, 11, 11, 11, 11, 11, 11,
     11, 11, 11, 11, 11, 11, 11, 11, 11, 11, 11, 11, 11, 11, 11, 11, 11, 11, 11, 11, 11, 11, 12, 12,
     12, 12, 12, 12, 12, 12, 12, 12, 12, 12, 12, 12, 12, 12, 12, 12, 12, 12, 12, 12, 12, 12, 12, 12,
     12, 12, 12, 12, 12]"

definition leap_month_per_day_of_year :: "int list" where
  "leap_month_per_day_of_year =
    [1, 1, 1, 1, 1, 1, 1, 1, 1, 1, 1, 1, 1, 1, 1, 1, 1, 1, 1, 1, 1, 1, 1, 1,
     1, 1, 1, 1, 1, 1, 1, 2, 2, 2, 2, 2, 2, 2, 2, 2, 2, 2, 2, 2, 2, 2, 2, 2,
     2, 2, 2, 2, 2, 2, 2, 2, 2, 2, 2, 2, 3, 3, 3, 3, 3, 3, 3, 3, 3, 3, 3, 3,
     3, 3, 3, 3, 3, 3, 3, 3, 3, 3, 3, 3, 3, 3, 3, 3, 3, 3, 3, 4, 4, 4, 4, 4,
     4, 4, 4, 4, 4, 4, 4, 4, 4, 4, 4, 4, 4, 4, 4, 4, 4, 4, 4, 4, 4, 4, 4, 4,
     4, 5, 5, 5, 5, 5, 5, 5, 5, 5, 5, 5, 5, 5, 5, 5, 5, 5, 5, 5, 5, 5, 5, 5,
     5, 5, 5, 5, 5, 5, 5, 5, 6, 6, 6, 6, 6, 6, 6, 6, 6, 6, 6, 6, 6, 6, 6, 6,
     6, 6, 6, 6, 6, 6, 6, 6, 6, 6, 6, 6, 6, 6, 7, 7, 7, 7, 7, 7, 7, 7, 7, 7,
     7, 7, 7, 7, 7, 7, 7, 7, 7, 7, 7, 7, 7, 7, 7, 7, 7, 7, 7, 7, 7, 8, 8, 8,
     8, 8, 8, 8, 8, 8, 8, 8, 8, 8, 8, 8, 8, 8, 8, 8, 8, 8, 8, 8, 8, 8, 8, 8,
     8, 8, 8, 8, 9, 9, 9, 9, 9, 9, 9, 9, 9, 9, 9, 9, 9, 9, 9, 9, 9, 9, 9, 9,
     9, 9, 9, 9, 9, 9, 9, 9, 9, 9, 10, 10, 10, 10, 10, 10, 10, 10, 10, 10, 10, 10, 10, 10,
     10, 10, 10, 10, 10, 10, 10, 10, 10, 10, 10, 10, 10, 10, 10, 10, 10, 11, 11, 11, 11, 11, 11, 11,
     11, 11, 11, 11, 11, 11, 11, 11, 11, 11, 11, 11, 11, 11, 11, 11, 11, 11, 11, 11, 11, 11, 11, 12,
     12, 12, 12, 12, 12, 12, 12, 12, 12, 12, 12, 12, 12, 12, 12, 12, 12, 12, 12, 12, 12, 12, 12, 12,
     12, 12, 12, 12, 12, 12]"

definition cumulative_year_days :: "int list" where
  "cumulative_year_days =
    [0, 365, 730, 1096, 1461, 1826, 2191, 2557, 2922, 3287, 3652, 4018, 4383, 4748, 5113, 5479,
     5844, 6209, 6574, 6940, 7305, 7670, 8035, 8401, 8766, 9131, 9496, 9862, 10227, 10592, 10957, 11323,
     11688, 12053, 12418, 12784, 13149, 13514, 13879, 14245, 14610, 14975, 15340, 15706, 16071, 16436, 16801, 17167,
     17532, 17897, 18262, 18628, 18993, 19358, 19723, 20089, 20454, 20819, 21184, 21550, 21915, 22280, 22645, 23011,
     23376, 23741, 24106, 24472, 24837, 25202, 25567, 25933, 26298, 26663, 27028, 27394, 27759, 28124, 28489, 28855,
     29220, 29585, 29950, 30316, 30681, 31046, 31411, 31777, 32142, 32507, 32872, 33238, 33603, 33968, 34333, 34699,
     35064, 35429, 35794, 36160, 36525, 36890, 37255, 37621, 37986, 38351, 38716, 39082, 39447, 39812, 40177, 40543,
     40908, 41273, 41638, 42004, 42369, 42734, 43099, 43465, 43830, 44195, 44560, 44926, 45291, 45656, 46021, 46387,
     46752, 47117, 47482, 47847, 48212, 48577, 48942, 49308, 49673, 50038, 50403, 50769, 51134, 51499, 51864, 52230,
     52595, 52960, 53325, 53691, 54056, 54421, 54786, 55152, 55517, 55882, 56247, 56613, 56978, 57343, 57708, 58074,
     58439, 58804, 59169, 59535, 59900, 60265, 60630, 60996, 61361, 61726, 62091, 62457, 62822, 63187, 63552, 63918,
     64283, 64648, 65013, 65379, 65744, 66109, 66474, 66840, 67205, 67570, 67935, 68301, 68666, 69031, 69396, 69762,
     70127, 70492, 70857, 71223, 71588, 71953, 72318, 72684, 73049, 73414, 73779, 74145, 74510, 74875, 75240, 75606,
     75971, 76336, 76701, 77067, 77432, 77797, 78162, 78528, 78893, 79258, 79623, 79989, 80354, 80719, 81084, 81450,
     81815, 82180, 82545, 82911, 83276, 83641, 84006, 84371, 84736, 85101, 85466, 85832, 86197, 86562, 86927, 87293,
     87658, 88023, 88388, 88754, 89119, 89484, 89849, 90215, 90580, 90945, 91310, 91676, 92041, 92406, 92771, 93137,
     93502, 93867, 94232, 94598, 94963, 95328, 95693, 96059, 96424, 96789, 97154, 97520, 97885, 98250, 98615, 98981,
     99346, 99711, 100076, 100442, 100807, 101172, 101537, 101903, 102268, 102633, 102998, 103364, 103729, 104094, 104459, 104825,
     105190, 105555, 105920, 106286, 106651, 107016, 107381, 107747, 108112, 108477, 108842, 109208, 109573, 109938, 110303, 110669,
     111034, 111399, 111764, 112130, 112495, 112860, 113225, 113591, 113956, 114321, 114686, 115052, 115417, 115782, 116147, 116513,
     116878, 117243, 117608, 117974, 118339, 118704, 119069, 119435, 119800, 120165, 120530, 120895, 121260, 121625, 121990, 122356,
     122721, 123086, 123451, 123817, 124182, 124547, 124912, 125278, 125643, 126008, 126373, 126739, 127104, 127469, 127834, 128200,
     128565, 128930, 129295, 129661, 130026, 130391, 130756, 131122, 131487, 131852, 132217, 132583, 132948, 133313, 133678, 134044,
     134409, 134774, 135139, 135505, 135870, 136235, 136600, 136966, 137331, 137696, 138061, 138427, 138792, 139157, 139522, 139888,
     140253, 140618, 140983, 141349, 141714, 142079, 142444, 142810, 143175, 143540, 143905, 144271, 144636, 145001, 145366, 145732,
     146097]"


abbreviation date_min_year :: int where "date_min_year \<equiv> - 5877641"
abbreviation date_max_year :: int where "date_max_year \<equiv> 5881580"
abbreviation days_per_interval :: int where "days_per_interval \<equiv> 146097"

definition date_infinity :: int where "date_infinity = 2147483647"
definition date_ninfinity :: int where "date_ninfinity = - 2147483647"

text \<open>Every table index in the code is a 32-bit integer that its context keeps in range.\<close>

definition tab :: "int list \<Rightarrow> int \<Rightarrow> int" where
  "tab t i = t ! nat i"

subsection \<open>Days to calendar dates\<close>

function normalize_up :: "int \<Rightarrow> int \<Rightarrow> int \<times> int" where
  "normalize_up n year = (if n < 0 then normalize_up (n + days_per_interval) (year - 400) else (n, year))"
  by pat_completeness auto
termination by (relation "measure (\<lambda>(n, _). nat (- n))") auto

function normalize_down :: "int \<Rightarrow> int \<Rightarrow> int \<times> int" where
  "normalize_down n year =
     (if days_per_interval \<le> n then normalize_down (n - days_per_interval) (year + 400) else (n, year))"
  by pat_completeness auto
termination by (relation "measure (\<lambda>(n, _). nat n)") auto

declare normalize_up.simps [simp del] normalize_down.simps [simp del]

text \<open>The search for the year: at offset 0 the loop stops, since \<open>n\<close> is not negative.\<close>

fun year_search :: "int \<Rightarrow> nat \<Rightarrow> nat" where
  "year_search n 0 = 0"
| "year_search n (Suc k) = (if n < tab cumulative_year_days (int (Suc k)) then year_search n k else Suc k)"

text \<open>The normalized \<open>n\<close>, the year and its offset in the cycle.\<close>

definition extract_year_offset :: "int \<Rightarrow> int \<times> int \<times> int" where
  "extract_year_offset n =
     (let (n1, y1) = normalize_up n 1970; (n2, y2) = normalize_down n1 y1;
          off = int (year_search n2 (nat (n2 div 365)))
      in (n2, y2 + off, off))"

definition date_convert :: "int \<Rightarrow> int \<times> int \<times> int" where
  "date_convert d =
     (let (n, year, off) = extract_year_offset d;
          day = n - tab cumulative_year_days off;
          is_leap = tab cumulative_year_days (off + 1) - tab cumulative_year_days off = 366
      in if is_leap
         then let month = tab leap_month_per_day_of_year day in (year, month, day - tab cumulative_leap_days (month - 1) + 1)
         else let month = tab month_per_day_of_year day in (year, month, day - tab cumulative_days (month - 1) + 1))"

subsection \<open>Calendar dates to days\<close>

definition is_leap_year :: "int \<Rightarrow> bool" where
  "is_leap_year year \<longleftrightarrow> year smod 4 = 0 \<and> (year smod 100 \<noteq> 0 \<or> year smod 400 = 0)"

definition is_valid_date :: "int \<Rightarrow> int \<Rightarrow> int \<Rightarrow> bool" where
  "is_valid_date year month day =
     (if month < 1 \<or> 12 < month then False
      else if day < 1 then False
      else if year \<le> date_min_year \<and> (year < date_min_year \<or> month < 6 \<or> (month = 6 \<and> day < 25)) then False
      else if date_max_year \<le> year \<and> (date_max_year < year \<or> 7 < month \<or> (month = 7 \<and> 10 < day)) then False
      else if is_leap_year year then day \<le> tab leap_days month else day \<le> tab normal_days month)"

definition month_days :: "int \<Rightarrow> int \<Rightarrow> int" where
  "month_days year month = (if is_leap_year year then tab leap_days month else tab normal_days month)"

definition try_from_date :: "int \<Rightarrow> int \<Rightarrow> int \<Rightarrow> int option" where
  "try_from_date year month day =
     (if \<not> is_valid_date year month day then None
      else let n = (if is_leap_year year then tab cumulative_leap_days (month - 1) else tab cumulative_days (month - 1)) + (day - 1)
        in if year < 1970 then
             let diff = 1970 - year; idx = 400 - diff mod 400; fractions = diff div 400
             in Some (n + tab cumulative_year_days idx - days_per_interval - fractions * days_per_interval)
           else if 2370 \<le> year then
             let diff = year - 2370; idx = diff mod 400; fractions = diff div 400
             in Some (n + tab cumulative_year_days idx + days_per_interval + fractions * days_per_interval)
           else Some (n + tab cumulative_year_days (year - 1970)))"

definition from_date :: "int \<Rightarrow> int \<Rightarrow> int \<Rightarrow> int res" where
  "from_date year month day =
     (case try_from_date year month day of
        None \<Rightarrow> Inl (ConversionException ''Date out of range'') | Some d \<Rightarrow> Inr d)"

subsection \<open>Parts of a date\<close>

definition extract_year :: "int \<Rightarrow> int" where "extract_year d = fst (snd (extract_year_offset d))"
definition extract_month :: "int \<Rightarrow> int" where "extract_month d = fst (snd (date_convert d))"
definition extract_day :: "int \<Rightarrow> int" where "extract_day d = snd (snd (date_convert d))"

definition extract_day_of_the_year :: "int \<Rightarrow> int" where
  "extract_day_of_the_year d = (let (n, _, off) = extract_year_offset d in n - tab cumulative_year_days off + 1)"

definition extract_julian_day :: "int \<Rightarrow> int" where
  "extract_julian_day d = d - (- 2440588)"

definition iso_day_of_week :: "int \<Rightarrow> int" where
  "iso_day_of_week d = (if d < 0 then 7 - ((- d + 3) mod 7) else (d + 3) mod 7 + 1)"

definition python_div_mod :: "int \<Rightarrow> int \<Rightarrow> int \<times> int" where
  "python_div_mod x y =
     (let quo = x sdiv y; r = x - quo * y in if r < 0 then (quo - 1, r + y) else (quo, r))"

definition iso_week_one :: "int \<Rightarrow> int res" where
  "iso_week_one year = bindR (from_date year 1 1) (\<lambda>first_day.
     let first_weekday = iso_day_of_week first_day - 1; monday = first_day - first_weekday
     in Inr (if 3 < first_weekday then monday + 7 else monday))"

text \<open>The ISO year and week of a date.\<close>

definition iso_year_week :: "int \<Rightarrow> (int \<times> int) res" where
  "iso_year_week date =
     (let year = fst (date_convert date) in
      bindR (iso_week_one year) (\<lambda>monday.
        let week = fst (python_div_mod (date - monday) 7) in
        if week < 0 then
          bindR (iso_week_one (year - 1)) (\<lambda>monday'.
            Inr (year - 1, fst (python_div_mod (date - monday') 7) + 1))
        else if 52 \<le> week then
          bindR (iso_week_one (year + 1)) (\<lambda>next.
            if next \<le> date then Inr (year + 1, 0 + 1) else Inr (year, week + 1))
        else Inr (year, week + 1)))"

definition week_number_regular :: "int \<Rightarrow> bool \<Rightarrow> int res" where
  "week_number_regular date monday_first =
     (let (year, month, day) = date_convert date;
          day_of_the_year = (if is_leap_year year then tab cumulative_leap_days (month - 1)
                             else tab cumulative_days (month - 1)) + (day - 1)
      in bindR (from_date year 1 1) (\<lambda>jan1.
        let first = iso_day_of_week jan1;
            start = (if monday_first then (if first = 1 then 0 else 8 - first) else 7 - first)
        in Inr (if day_of_the_year < start then 0 else (day_of_the_year - start) div 7 + 1)))"

definition monday_of_current_week :: "int \<Rightarrow> int" where
  "monday_of_current_week d = d - (iso_day_of_week d - 1)"

subsection \<open>Epochs\<close>

definition secs_per_day :: int where "secs_per_day = 86400"
definition micros_per_day :: int where "micros_per_day = 86400000000"

definition epoch_to_date :: "int \<Rightarrow> int" where
  "epoch_to_date s = to_int32 (s sdiv secs_per_day)"

definition date_epoch :: "int \<Rightarrow> int" where
  "date_epoch d = d * secs_per_day"

text \<open>\<open>TryMultiplyOperator\<close> on 64-bit integers fails when the product does not fit.\<close>

definition checked_mult64 :: "int \<Rightarrow> int \<Rightarrow> int res" where
  "checked_mult64 a b =
     (if in_int64 (a * b) then Inr (a * b) else Inl (ConversionException ''Could not convert DATE''))"

definition epoch_nanoseconds :: "int \<Rightarrow> int res" where
  "epoch_nanoseconds d = checked_mult64 d (micros_per_day * 1000)"
definition epoch_microseconds :: "int \<Rightarrow> int res" where
  "epoch_microseconds d = checked_mult64 d micros_per_day"
definition epoch_milliseconds :: "int \<Rightarrow> int res" where
  "epoch_milliseconds d = checked_mult64 d (micros_per_day div 1000)"

subsection \<open>The tables in closed form\<close>

text \<open>The days from 1970-01-01 to the first day of a year of the Gregorian calendar.\<close>

definition year_start :: "int \<Rightarrow> int" where
  "year_start y = 365 * (y - 1970) + (y - 1969) div 4 - (y - 1901) div 100 + (y - 1601) div 400"

definition leap :: "int \<Rightarrow> bool" where
  "leap y \<longleftrightarrow> 4 dvd y \<and> (\<not> 100 dvd y \<or> 400 dvd y)"

lemma is_leap_year_leap: "is_leap_year y = leap y"
proof -
  have "y smod k = 0 \<longleftrightarrow> k dvd y" if "k > 0" for k :: int
    using that by (simp add: signed_modulo_int_def signed_divide_int_def dvd_eq_mod_eq_0 sgn_if minus_mod_eq_mult_div)
      (smt (verit, ccfv_threshold) dvd_eq_mod_eq_0 dvd_minus_iff minus_mod_eq_mult_div mult.commute)
  then show ?thesis by (simp add: is_leap_year_def leap_def)
qed

lemma upto_nth: "0 \<le> i \<Longrightarrow> i \<le> j \<Longrightarrow> [0..j] ! nat i = i"
  by (subst nth_upto) auto

lemma cumulative_year_days_table: "cumulative_year_days = map (\<lambda>i. year_start (1970 + i)) [0..400]"
  by code_simp

lemma tab_year: "0 \<le> i \<Longrightarrow> i \<le> 400 \<Longrightarrow> tab cumulative_year_days i = year_start (1970 + i)"
  unfolding tab_def cumulative_year_days_table by (subst nth_map) (simp_all add: upto_nth)

lemma leap_months:
  "list_all (\<lambda>(d, m). 1 \<le> m \<and> m \<le> 12 \<and> tab cumulative_leap_days (m - 1) \<le> d \<and> d < tab cumulative_leap_days m)
     (zip [0..365] leap_month_per_day_of_year)"
  by code_simp

lemma normal_months:
  "list_all (\<lambda>(d, m). 1 \<le> m \<and> m \<le> 12 \<and> tab cumulative_days (m - 1) \<le> d \<and> d < tab cumulative_days m)
     (zip [0..364] month_per_day_of_year)"
  by code_simp

lemma length_months: "length leap_month_per_day_of_year = 366" "length month_per_day_of_year = 365"
  by code_simp+

lemma tab_leap_month:
  assumes "0 \<le> d" "d < 366"
  shows "1 \<le> tab leap_month_per_day_of_year d \<and> tab leap_month_per_day_of_year d \<le> 12 \<and>
    tab cumulative_leap_days (tab leap_month_per_day_of_year d - 1) \<le> d \<and>
    d < tab cumulative_leap_days (tab leap_month_per_day_of_year d)"
proof -
  have "zip [0..365] leap_month_per_day_of_year ! nat d = (d, tab leap_month_per_day_of_year d)"
    using assms by (simp add: tab_def length_months upto_nth)
  moreover have "nat d < length (zip [0..365] leap_month_per_day_of_year)" using assms by (simp add: length_months)
  ultimately show ?thesis
    using leap_months [unfolded list_all_length, rule_format, of "nat d"] by simp
qed

lemma tab_normal_month:
  assumes "0 \<le> d" "d < 365"
  shows "1 \<le> tab month_per_day_of_year d \<and> tab month_per_day_of_year d \<le> 12 \<and>
    tab cumulative_days (tab month_per_day_of_year d - 1) \<le> d \<and>
    d < tab cumulative_days (tab month_per_day_of_year d)"
proof -
  have "zip [0..364] month_per_day_of_year ! nat d = (d, tab month_per_day_of_year d)"
    using assms by (simp add: tab_def length_months upto_nth)
  moreover have "nat d < length (zip [0..364] month_per_day_of_year)" using assms by (simp add: length_months)
  ultimately show ?thesis
    using normal_months [unfolded list_all_length, rule_format, of "nat d"] by simp
qed

text \<open>The days before a month.\<close>

definition month_start :: "int \<Rightarrow> int \<Rightarrow> int" where
  "month_start y m = (if leap y then tab cumulative_leap_days (m - 1) else tab cumulative_days (m - 1))"

lemma month_cases: "1 \<le> m \<Longrightarrow> m \<le> (12 :: int) \<Longrightarrow> m \<in> {1, 2, 3, 4, 5, 6, 7, 8, 9, 10, 11, 12}"
  unfolding insert_iff empty_iff by presburger

lemma month_start_step:
  assumes "1 \<le> m" "m \<le> 12"
  shows "month_start y (m + 1) = month_start y m + month_days y m"
  using month_cases [OF assms]
  by (auto simp: month_start_def month_days_def is_leap_year_leap tab_def cumulative_leap_days_def cumulative_days_def
      leap_days_def normal_days_def)

lemma month_start_ends: "month_start y 1 = 0" "month_start y 13 = (if leap y then 366 else 365)"
  by (simp_all add: month_start_def tab_def cumulative_leap_days_def cumulative_days_def)

lemma month_days_pos: "1 \<le> m \<Longrightarrow> m \<le> 12 \<Longrightarrow> 28 \<le> month_days y m \<and> month_days y m \<le> 31"
  by (drule (1) month_cases) (auto simp: month_days_def tab_def leap_days_def normal_days_def)

lemma month_start_mono:
  assumes "1 \<le> m" "m < m'" "m' \<le> 13"
  shows "month_start y m + month_days y m \<le> month_start y m'"
proof -
  have "month_start y (m + 1) \<le> month_start y m'" using assms(2,3)
  proof (induction m' rule: int_gr_induct [of m])
    case (step i)
    then have "month_start y (i + 1) = month_start y i + month_days y i" "0 \<le> month_days y i"
      using assms(1) month_start_step [of i y] month_days_pos [of i y] by auto
    then show ?case using step by simp
  qed (use assms(2) in auto)
  then show ?thesis using month_start_step [of m y] assms by simp
qed

lemma leap_days_of_step:
  fixes t a b c :: int
  assumes "B \<Longrightarrow> A" "C \<Longrightarrow> B"
  shows "365 * (t + 1) + (a + (if A then 1 else 0)) - (b + (if B then 1 else 0)) + (c + (if C then 1 else 0)) =
    365 * t + a - b + c + (if A \<and> (\<not> B \<or> C) then 366 else 365)"
  using assms by (cases A; cases B; cases C) simp_all

lemma year_start_step: "year_start (y + 1) = year_start y + (if leap y then 366 else 365)"
proof -
  have step: "(x + 1) div k = x div k + (if k dvd x + 1 then 1 else 0)" if "k > 0" for x k :: int
  proof -
    define q r where "q = x div k" and "r = x mod k"
    have x: "x = k * q + r" "0 \<le> r" "r < k" using that by (simp_all add: q_def r_def)
    have dvd: "k dvd x + 1 \<longleftrightarrow> r + 1 = k"
    proof
      assume "k dvd x + 1"
      then have "k dvd r + 1" using x(1) by (metis add.assoc dvd_add_right_iff dvd_triv_left)
      then show "r + 1 = k" using x(2,3) zdvd_imp_le [of k "r + 1"] by linarith
    next
      assume "r + 1 = k"
      then have "x + 1 = k * (q + 1)" using x(1) by (simp add: algebra_simps)
      then show "k dvd x + 1" by simp
    qed
    have "(x + 1) div k = q + (if r + 1 = k then 1 else 0)"
    proof (cases "r + 1 = k")
      case True
      then have "x + 1 = k * (q + 1) + 0" using x(1) by (simp add: algebra_simps)
      then show ?thesis using True that by (subst int_div_pos_eq) auto
    next
      case False
      then have "x + 1 = k * q + (r + 1)" "r + 1 < k" using x by auto
      then show ?thesis using False x(2) int_div_pos_eq [of "x + 1" k q "r + 1"] by simp
    qed
    then show ?thesis using dvd by (simp add: q_def)
  qed
  have dvd: "k dvd y - k * j \<longleftrightarrow> k dvd y" for k j :: int
    by (rule dvd_diff_left_iff) simp
  have d: "4 dvd (y - 1969) + 1 \<longleftrightarrow> 4 dvd y" "100 dvd (y - 1901) + 1 \<longleftrightarrow> 100 dvd y" "400 dvd (y - 1601) + 1 \<longleftrightarrow> 400 dvd y"
    using dvd [of 4 492] dvd [of 100 19] dvd [of 400 4] by (simp_all add: algebra_simps)
  have sub: "100 dvd y \<Longrightarrow> 4 dvd y" "400 dvd y \<Longrightarrow> 100 dvd y"
    by (rule dvd_trans [of _ 100], simp_all) (rule dvd_trans [of _ 400], simp_all)
  have shift: "y + 1 - 1970 = y - 1970 + 1" "y + 1 - 1969 = y - 1969 + 1" "y + 1 - 1901 = y - 1901 + 1" "y + 1 - 1601 = y - 1601 + 1" by simp_all
  have pos: "(0 :: int) < 4" "(0 :: int) < 100" "(0 :: int) < 400" by simp_all
  show ?thesis
    unfolding year_start_def shift step [OF pos(1)] step [OF pos(2)] step [OF pos(3)] d leap_def
    by (rule leap_days_of_step) (fact sub)+
qed

lemma year_start_interval: "year_start (y + 400) = year_start y + 146097"
proof -
  have "(y - 1969 + 100 * 4) div 4 = 100 + (y - 1969) div 4" "(y - 1901 + 4 * 100) div 100 = 4 + (y - 1901) div 100"
    "(y - 1601 + 1 * 400) div 400 = 1 + (y - 1601) div 400" by (rule div_mult_self1; simp)+
  then show ?thesis by (simp add: year_start_def algebra_simps)
qed

lemma year_start_mono: "y < z \<Longrightarrow> year_start y + (if leap y then 366 else 365) \<le> year_start z"
proof (induction z rule: int_gr_induct [of y])
  case (step i)
  then show ?case using year_start_step [of i] by (auto split: if_splits)
qed (auto simp: year_start_step)

lemma year_start_lower: "0 \<le> k \<Longrightarrow> year_start y + 365 * k \<le> year_start (y + k)"
proof (induction k rule: int_ge_induct)
  case (step i)
  then show ?case using year_start_step [of "y + i"] by (auto simp: algebra_simps)
qed simp

lemma leap_interval: "leap (y + 400) = leap y"
proof -
  have "k dvd y + 400 \<longleftrightarrow> k dvd y" if "k dvd 400" for k :: int
    using that by (rule dvd_add_left_iff)
  then show ?thesis unfolding leap_def by simp
qed

subsection \<open>The conversion of days\<close>

lemma year_start_shift: "year_start (y + 400 * k) = year_start y + 146097 * k"
proof (induction k rule: int_induct [of _ 0])
  case (step1 i)
  then show ?case using year_start_interval [of "y + 400 * i"] by (simp add: algebra_simps)
next
  case (step2 i)
  then show ?case using year_start_interval [of "y + 400 * (i - 1)"] by (simp add: algebra_simps)
qed simp

lemma leap_shift: "leap (y + 400 * k) = leap y"
proof -
  have "j dvd y + 400 * k \<longleftrightarrow> j dvd y" if "j dvd 400" for j :: int
    using that by (intro dvd_add_left_iff) simp
  then show ?thesis unfolding leap_def by simp
qed

lemma normalize_up_spec:
  "normalize_up n y = (n', y') \<Longrightarrow> \<exists>k. n' = n - 146097 * k \<and> y' = y + 400 * k \<and> 0 \<le> n'"
proof (induction n y rule: normalize_up.induct)
  case (1 n y)
  show ?case
  proof (cases "n < 0")
    case True
    then obtain k where "n' = n + 146097 - 146097 * k" "y' = y - 400 + 400 * k" "0 \<le> n'"
      using 1 by (auto simp: normalize_up.simps [of n y])
    then show ?thesis by (intro exI [of _ "k - 1"]) simp
  next
    case False
    then show ?thesis using 1(2) by (intro exI [of _ 0]) (simp add: normalize_up.simps [of n y])
  qed
qed

lemma normalize_down_spec:
  "normalize_down n y = (n', y') \<Longrightarrow> 0 \<le> n \<Longrightarrow>
     \<exists>k. n' = n - 146097 * k \<and> y' = y + 400 * k \<and> 0 \<le> n' \<and> n' < 146097"
proof (induction n y rule: normalize_down.induct)
  case (1 n y)
  show ?case
  proof (cases "146097 \<le> n")
    case True
    then obtain k where "n' = n - 146097 - 146097 * k" "y' = y + 400 + 400 * k" "0 \<le> n'" "n' < 146097"
      using 1 by (auto simp: normalize_down.simps [of n y])
    then show ?thesis by (intro exI [of _ "k + 1"]) simp
  next
    case False
    then show ?thesis using 1(2,3) by (intro exI [of _ 0]) (simp add: normalize_down.simps [of n y])
  qed
qed

lemma year_search_spec:
  "k < 400 \<Longrightarrow> tab cumulative_year_days 0 \<le> n \<Longrightarrow> n < tab cumulative_year_days (int k + 1) \<Longrightarrow>
     year_search n k \<le> k \<and> tab cumulative_year_days (int (year_search n k)) \<le> n \<and>
     n < tab cumulative_year_days (int (year_search n k) + 1)"
  by (induction k) (auto simp: add.commute)

lemma year_search_at:
  assumes "0 \<le> n" "n < 146097"
  shows "year_search n (nat (n div 365)) < 400 \<and> tab cumulative_year_days (int (year_search n (nat (n div 365)))) \<le> n \<and>
     n < tab cumulative_year_days (int (year_search n (nat (n div 365))) + 1)"
proof -
  have y0: "tab cumulative_year_days 0 = 0" "tab cumulative_year_days 400 = 146097"
    using tab_year [of 0] tab_year [of 400] by (simp_all add: year_start_def)
  have "n div 365 \<le> 400" using assms by simp
  then consider "n div 365 < 400" | "n div 365 = 400" by linarith
  then show ?thesis
  proof cases
    case 1
    have "n < 365 * (n div 365 + 1)" by (simp add: algebra_simps)
    also have "\<dots> \<le> year_start (1970 + (n div 365 + 1))"
      using year_start_lower [of "n div 365 + 1" 1970] assms by (simp add: year_start_def)
    also have "\<dots> = tab cumulative_year_days (n div 365 + 1)" using 1 assms by (subst tab_year) auto
    finally have lt: "n < tab cumulative_year_days (int (nat (n div 365)) + 1)" using assms by (simp add: pos_imp_zdiv_nonneg_iff)
    have "nat (n div 365) < 400" using 1 by linarith
    then show ?thesis using year_search_spec [OF _ _ lt] assms y0 by linarith
  next
    case 2
    have "n < tab cumulative_year_days (int 399 + 1)" using y0 assms by simp
    then have "year_search n 400 = year_search n 399" using y0(2) by (simp add: eval_nat_numeral)
    then show ?thesis using year_search_spec [of 399 n] 2 assms y0 by simp
  qed
qed

lemma extract_year_offset_spec:
  assumes "extract_year_offset d = (n, y, off)"
  shows "0 \<le> off" "off < 400" "tab cumulative_year_days off = year_start (1970 + off)"
    "n - tab cumulative_year_days off = d - year_start y"
    "tab cumulative_year_days (off + 1) - tab cumulative_year_days off = (if leap y then 366 else 365)"
    "year_start y \<le> d" "d < year_start (y + 1)" "0 \<le> n" "n < 146097"
proof -
  obtain n1 y1 n2 y2 where r: "normalize_up d 1970 = (n1, y1)" "normalize_down n1 y1 = (n2, y2)" by fastforce
  obtain i where i: "n1 = d - 146097 * i" "y1 = 1970 + 400 * i" "0 \<le> n1" using normalize_up_spec [OF r(1)] by auto
  obtain j where j: "n2 = n1 - 146097 * j" "y2 = y1 + 400 * j" "0 \<le> n2" "n2 < 146097"
    using normalize_down_spec [OF r(2) i(3)] by auto
  define o' where "o' = int (year_search n2 (nat (n2 div 365)))"
  have e: "n = n2" "y = y2 + o'" "off = o'" using assms r by (auto simp: extract_year_offset_def o'_def Let_def)
  have s: "0 \<le> o'" "o' < 400" "tab cumulative_year_days o' \<le> n2" "n2 < tab cumulative_year_days (o' + 1)"
    using year_search_at [OF j(3,4)] by (simp_all add: o'_def)
  have y: "y = (1970 + o') + 400 * (i + j)" using e i j by simp
  have t: "tab cumulative_year_days o' = year_start (1970 + o')" "tab cumulative_year_days (o' + 1) = year_start (1970 + (o' + 1))"
    using s by (simp_all add: tab_year)
  have ys: "year_start y = tab cumulative_year_days o' + 146097 * (i + j)" unfolding y t(1) by (rule year_start_shift)
  show "0 \<le> off" "off < 400" "0 \<le> n" "n < 146097" using s e j by auto
  show "tab cumulative_year_days off = year_start (1970 + off)" using t e by simp
  show a: "n - tab cumulative_year_days off = d - year_start y" using ys e i j by (simp add: algebra_simps)
  have lp: "leap y = leap (1970 + o')" unfolding y by (rule leap_shift)
  show b: "tab cumulative_year_days (off + 1) - tab cumulative_year_days off = (if leap y then 366 else 365)"
    using year_start_step [of "1970 + o'"] t e lp by (simp add: algebra_simps)
  show "year_start y \<le> d" using a s(3) e by simp
  show "d < year_start (y + 1)" using a b s(4) e year_start_step [of y] by simp
qed

definition calendar :: "int \<Rightarrow> int \<Rightarrow> int \<Rightarrow> bool" where
  "calendar y m d \<longleftrightarrow> 1 \<le> m \<and> m \<le> 12 \<and> 1 \<le> d \<and> d \<le> month_days y m"

definition day_number :: "int \<Rightarrow> int \<Rightarrow> int \<Rightarrow> int" where
  "day_number y m d = year_start y + month_start y m + d - 1"

lemma date_convert_spec:
  assumes "date_convert n = (y, m, d)"
  shows "calendar y m d" "day_number y m d = n"
proof -
  obtain n' y' off where r: "extract_year_offset n = (n', y', off)" by (metis prod_cases3)
  note spec = extract_year_offset_spec [OF r]
  let ?day = "n' - tab cumulative_year_days off"
  have "calendar y m d \<and> day_number y m d = n"
  proof (cases "leap y'")
    case True
    let ?m = "tab leap_month_per_day_of_year ?day"
    have e: "y = y'" "m = ?m" "d = ?day - tab cumulative_leap_days (?m - 1) + 1"
      using assms r spec(5) True by (auto simp: date_convert_def Let_def)
    have "0 \<le> ?day" "?day < 366" using spec(4,6,7) year_start_step [of y'] True by auto
    note t = tab_leap_month [OF this]
    have "tab cumulative_leap_days (?m + 1 - 1) = tab cumulative_leap_days (?m - 1) + month_days y ?m"
      using month_start_step [of ?m y] t True e(1) by (simp add: month_start_def)
    then show ?thesis using e t spec(4) True by (simp add: calendar_def day_number_def month_start_def)
  next
    case False
    let ?m = "tab month_per_day_of_year ?day"
    have e: "y = y'" "m = ?m" "d = ?day - tab cumulative_days (?m - 1) + 1"
      using assms r spec(5) False by (auto simp: date_convert_def Let_def)
    have "0 \<le> ?day" "?day < 365" using spec(4,6,7) year_start_step [of y'] False by auto
    note t = tab_normal_month [OF this]
    have "tab cumulative_days (?m + 1 - 1) = tab cumulative_days (?m - 1) + month_days y ?m"
      using month_start_step [of ?m y] t False e(1) by (simp add: month_start_def)
    then show ?thesis using e t spec(4) False by (simp add: calendar_def day_number_def month_start_def)
  qed
  then show "calendar y m d" "day_number y m d = n" by auto
qed

lemma day_number_in_year:
  assumes "calendar y m d"
  shows "year_start y \<le> day_number y m d" "day_number y m d < year_start (y + 1)"
proof -
  have "month_start y m + month_days y m \<le> month_start y 13"
    using assms month_start_mono [of m 13 y] by (simp add: calendar_def)
  moreover have "0 \<le> month_start y m"
  proof (cases "m = 1")
    case False
    then show ?thesis using assms month_start_mono [of 1 m y] month_days_pos [of 1 y] by (simp add: calendar_def month_start_ends)
  qed (simp add: month_start_ends)
  ultimately show "year_start y \<le> day_number y m d" "day_number y m d < year_start (y + 1)"
    using assms by (auto simp: calendar_def day_number_def month_start_ends year_start_step)
qed

lemma year_start_le: "y \<le> z \<Longrightarrow> year_start y \<le> year_start z"
  using year_start_mono [of y z] by (cases "y = z") (auto split: if_splits)

lemma day_number_less:
  assumes "calendar y m d" "calendar y' m' d'" "y < y' \<or> y = y' \<and> (m < m' \<or> m = m' \<and> d < d')"
  shows "day_number y m d < day_number y' m' d'"
proof -
  consider "y < y'" | "y = y'" "m < m'" | "y = y'" "m = m'" "d < d'" using assms(3) by auto
  then show ?thesis
  proof cases
    case 1
    then have "year_start (y + 1) \<le> year_start y'" by (intro year_start_le) simp
    then show ?thesis using day_number_in_year [OF assms(1)] day_number_in_year [OF assms(2)] by simp
  next
    case 2
    then have "month_start y m + month_days y m \<le> month_start y m'"
      using assms(1,2) by (intro month_start_mono) (auto simp: calendar_def)
    then show ?thesis using assms(1,2) 2 by (auto simp: calendar_def day_number_def)
  qed (simp add: day_number_def)
qed

lemma day_number_inject:
  "calendar y m d \<Longrightarrow> calendar y' m' d' \<Longrightarrow> day_number y m d = day_number y' m' d' \<longleftrightarrow> y = y' \<and> m = m' \<and> d = d'"
  using day_number_less [of y m d y' m' d'] day_number_less [of y' m' d' y m d] by force

lemma date_convert_iff: "date_convert n = (y, m, d) \<longleftrightarrow> calendar y m d \<and> day_number y m d = n"
proof
  assume r: "calendar y m d \<and> day_number y m d = n"
  obtain y' m' d' where c: "date_convert n = (y', m', d')" by (metis prod_cases3)
  then show "date_convert n = (y, m, d)"
    using date_convert_spec [OF c] day_number_inject [of y m d y' m' d'] r by simp
qed (simp add: date_convert_spec)

text \<open>The calendar, day by day.\<close>

fun next_day :: "int \<times> int \<times> int \<Rightarrow> int \<times> int \<times> int" where
  "next_day (y, m, d) =
     (if d < (if m = 2 then (if leap y then 29 else 28) else if m \<in> {4, 6, 9, 11} then 30 else 31) then (y, m, d + 1)
      else if m < 12 then (y, m + 1, 1) else (y + 1, 1, 1))"

lemma month_days_reference:
  "1 \<le> m \<Longrightarrow> m \<le> 12 \<Longrightarrow>
   month_days y m = (if m = 2 then (if leap y then 29 else 28) else if m \<in> {4, 6, 9, 11} then 30 else 31)"
  by (drule (1) month_cases) (auto simp: month_days_def is_leap_year_leap tab_def leap_days_def normal_days_def)

text \<open>C31: the conversion of day numbers is the proleptic Gregorian calendar: day 0 is 1970-01-01, and each
  day number gives the calendar day after that of the number before, for every integer. So the intervals of 400
  years, the division by 365 and the corrections, and the table of months agree with counting days one by one.\<close>
theorem date_convert_calendar:
  "date_convert 0 = (1970, 1, 1) \<and> date_convert (n + 1) = next_day (date_convert n)"
proof
  show "date_convert 0 = (1970, 1, 1)"
    by (simp add: date_convert_iff calendar_def day_number_def year_start_def month_start_ends month_days_reference)
  obtain y m d where c: "date_convert n = (y, m, d)" by (metis prod_cases3)
  note spec = date_convert_spec [OF c]
  then have m: "1 \<le> m" "m \<le> 12" "1 \<le> d" "d \<le> month_days y m" by (auto simp: calendar_def)
  note ref = month_days_reference [OF m(1,2), of y, symmetric]
  consider "d < month_days y m" | "d = month_days y m" "m < 12" | "d = month_days y m" "m = 12" using m by linarith
  then have "\<exists>y' m' d'. next_day (y, m, d) = (y', m', d') \<and> calendar y' m' d' \<and> day_number y' m' d' = n + 1"
  proof cases
    case 1
    then show ?thesis using m spec by (auto simp: ref calendar_def day_number_def)
  next
    case 2
    then show ?thesis using m spec month_start_step [OF m(1,2), of y] month_days_pos [of "m + 1" y]
      by (auto simp: ref calendar_def day_number_def)
  next
    case 3
    then show ?thesis using m spec month_start_step [OF m(1,2), of y] month_days_pos [of 1 "y + 1"] month_days_reference [of 12 y]
      by (auto simp: ref calendar_def day_number_def month_start_ends year_start_step)
  qed
  then obtain y' m' d' where nx: "next_day (y, m, d) = (y', m', d')" "calendar y' m' d'" "day_number y' m' d' = n + 1" by blast
  then have "date_convert (n + 1) = (y', m', d')" by (simp add: date_convert_iff)
  then show "date_convert (n + 1) = next_day (date_convert n)" unfolding c nx(1) .
qed

subsection \<open>The conversion of calendar dates\<close>

lemma date_limits:
  "calendar date_min_year 6 25" "day_number date_min_year 6 25 = - 2147483646"
  "calendar date_max_year 7 10" "day_number date_max_year 7 10 = 2147483646"
  by (simp_all add: calendar_def day_number_def month_days_reference leap_def month_start_def year_start_def tab_def
      cumulative_leap_days_def cumulative_days_def)

lemma is_valid_date_iff:
  "is_valid_date y m d \<longleftrightarrow> calendar y m d \<and> date_ninfinity < day_number y m d \<and> day_number y m d < date_infinity"
proof -
  have valid: "is_valid_date y m d \<longleftrightarrow> calendar y m d \<and>
      \<not> (y < date_min_year \<or> y = date_min_year \<and> (m < 6 \<or> m = 6 \<and> d < 25)) \<and>
      \<not> (date_max_year < y \<or> date_max_year = y \<and> (7 < m \<or> 7 = m \<and> 10 < d))"
    by (auto simp: is_valid_date_def calendar_def month_days_def)
  have lo: "\<not> (y < date_min_year \<or> y = date_min_year \<and> (m < 6 \<or> m = 6 \<and> d < 25)) \<longleftrightarrow> - 2147483646 \<le> day_number y m d"
    if c: "calendar y m d"
    using day_number_less [OF c date_limits(1)] day_number_less [OF date_limits(1) c] date_limits(2) by force
  have hi: "\<not> (date_max_year < y \<or> date_max_year = y \<and> (7 < m \<or> 7 = m \<and> 10 < d)) \<longleftrightarrow> day_number y m d \<le> 2147483646"
    if c: "calendar y m d"
    using day_number_less [OF c date_limits(3)] day_number_less [OF date_limits(3) c] date_limits(4) by force
  show ?thesis using valid lo hi unfolding date_infinity_def date_ninfinity_def by auto
qed

text \<open>The parts of the sum, in the order the code adds them.\<close>

lemma year_before:
  assumes "y < 1970"
  shows "year_start y = tab cumulative_year_days (400 - (1970 - y) mod 400) - 146097 - (1970 - y) div 400 * 146097"
proof -
  let ?q = "(1970 - y) div 400" and ?r = "(1970 - y) mod 400"
  have "y = (1970 + (400 - ?r)) + 400 * (- 1 - ?q)" using div_mult_mod_eq [of "1970 - y" 400] by (simp add: algebra_simps)
  then have "year_start y = year_start (1970 + (400 - ?r)) + 146097 * (- 1 - ?q)" using year_start_shift by metis
  then show ?thesis by (subst tab_year) (simp_all add: algebra_simps)
qed

lemma year_after:
  assumes "2370 \<le> y"
  shows "year_start y = tab cumulative_year_days ((y - 2370) mod 400) + 146097 + (y - 2370) div 400 * 146097"
proof -
  let ?q = "(y - 2370) div 400" and ?r = "(y - 2370) mod 400"
  have "y = (1970 + ?r) + 400 * (1 + ?q)" using div_mult_mod_eq [of "y - 2370" 400] by (simp add: algebra_simps)
  then have "year_start y = year_start (1970 + ?r) + 146097 * (1 + ?q)" using year_start_shift by metis
  then show ?thesis by (subst tab_year) (simp_all add: algebra_simps)
qed

lemma try_from_date_value:
  "try_from_date y m d = (if is_valid_date y m d then Some (day_number y m d) else None)"
  using year_before [of y] year_after [of y] tab_year [of "y - 1970"]
  by (auto simp: try_from_date_def Let_def day_number_def month_start_def is_leap_year_leap)

text \<open>C15: a calendar date converts to a day number exactly when that number converts back to it and is
  neither infinity nor outside 32 bits: in particular the range check at both ends, the test of
  the day against the month, and leap years are exact, and the two conversions invert each other on
  every finite date.\<close>
theorem from_date_iff:
  "try_from_date y m d = Some n \<longleftrightarrow>
     date_convert n = (y, m, d) \<and> date_ninfinity < n \<and> n < date_infinity"
  by (auto simp: try_from_date_value is_valid_date_iff date_convert_iff)

text \<open>No 32-bit computation of the conversion overflows: for a valid date every product and partial
  sum is within 32 bits, in the order in which the code adds them.\<close>
lemma from_date_bounds:
  assumes "is_valid_date y m d"
  shows "let n = month_start y m + (d - 1);
             diff = (if y < 1970 then 1970 - y else y - 2370);
             part = (if y < 1970 then n + tab cumulative_year_days (400 - diff mod 400)
                     else n + tab cumulative_year_days (diff mod 400))
    in in_int32 n \<and> in_int32 (1970 - y) \<and> in_int32 (y - 2370) \<and>
       ((y < 1970 \<or> 2370 \<le> y) \<longrightarrow> in_int32 part \<and> in_int32 (part - 146097) \<and> in_int32 (part + 146097) \<and>
          in_int32 (diff div 400 * 146097) \<and> in_int32 (day_number y m d))"
proof -
  have v: "calendar y m d" "- 2147483647 < day_number y m d" "day_number y m d < 2147483647"
    using assms by (auto simp: is_valid_date_iff date_infinity_def date_ninfinity_def)
  have y: "date_min_year \<le> y" "y \<le> date_max_year" using assms by (auto simp: is_valid_date_def split: if_splits)
  have n: "0 \<le> month_start y m + (d - 1)" "month_start y m + (d - 1) < 366"
    using day_number_in_year [OF v(1)] by (auto simp: day_number_def year_start_step split: if_splits)
  have t: "0 \<le> tab cumulative_year_days i" "tab cumulative_year_days i \<le> 146097" if "0 \<le> i" "i \<le> 400" for i
    using that year_start_lower [of i 1970] year_start_le [of "1970 + i" 2370] by (simp_all add: tab_year) (simp_all add: year_start_def)
  have f: "0 \<le> x div 400 * 146097 \<and> x div 400 * 146097 \<le> 2147483646" if "0 \<le> x" "x \<le> 5879611" for x :: int
  proof -
    have "x div 400 \<le> 14699" using that by simp
    then show ?thesis using that by simp
  qed
  have in32: "- 2147483648 \<le> i \<Longrightarrow> i \<le> 2147483647 \<Longrightarrow> in_int32 i" for i by (simp add: in_int32_def)
  show ?thesis
  proof (cases "y < 1970")
    case True
    let ?i = "400 - (1970 - y) mod 400"
    have "0 \<le> ?i" "?i \<le> 400" by simp_all
    note ti = t [OF this]
    show ?thesis using True y n v ti f [of "1970 - y"] unfolding Let_def by (auto intro!: in32)
  next
    case False
    let ?i = "(y - 2370) mod 400"
    have "0 \<le> ?i" "?i \<le> 400" by (simp_all add: pos_mod_bound [THEN less_imp_le])
    note ti = t [OF this]
    show ?thesis using False y n v ti f [of "y - 2370"] unfolding Let_def by (auto intro!: in32)
  qed
qed

lemma from_date_bounds_witness: "in_int32 (day_number 2400 2 29) \<and> is_valid_date 2400 2 29"
proof -
  have v: "is_valid_date 2400 2 29" by code_simp
  show ?thesis using from_date_bounds [OF v] v by (simp add: Let_def)
qed

subsection \<open>Weeks\<close>

lemma iso_day_of_week_mod: "iso_day_of_week d = (d + 3) mod 7 + 1"
proof -
  have "7 - ((- d + 3) mod 7) = (d + 3) mod 7 + 1" by presburger
  then show ?thesis by (simp add: iso_day_of_week_def)
qed

lemma python_div_mod_floor: "0 < y \<Longrightarrow> python_div_mod x y = (x div y, x mod y)"
proof -
  assume y: "0 < y"
  show ?thesis
  proof (cases "0 \<le> x")
    case True
    then have "x sdiv y = x div y" using y by (simp add: signed_divide_int_def sgn_if)
    moreover have "x - x div y * y = x mod y" "0 \<le> x mod y" using y by (simp_all add: minus_div_mult_eq_mod)
    ultimately show ?thesis unfolding python_div_mod_def Let_def by simp
  next
    case False
    then have q: "x sdiv y = - (- x div y)" using y by (simp add: signed_divide_int_def sgn_if)
    have r: "x - - (- x div y) * y = - (- x mod y)" using minus_div_mult_eq_mod [of "- x" y] by linarith
    show ?thesis
    proof (cases "- x mod y = 0")
      case True
      then have "y dvd - x" by (simp only: dvd_eq_mod_eq_0)
      then have "y dvd x" by simp
      then obtain k where "x = y * k" by (auto simp: dvd_def)
      then have k: "x mod y = 0" "x div y = k" "- x = y * (- k)" using y by simp_all
      have "- x div y = - k" unfolding k(3) by (rule nonzero_mult_div_cancel_left) (use y in simp)
      then have "x mod y = 0" "x div y = - (- x div y)" using k by simp_all
      then show ?thesis unfolding python_div_mod_def Let_def q r using True by simp
    next
      case False
      then have "0 < - x mod y" using y pos_mod_sign [of y "- x"] by linarith
      moreover have "x mod y = y - - x mod y" "x div y = - (- x div y) - 1"
        using False y zmod_zminus1_eq_if [of "- x" y] zdiv_zminus1_eq_if [of y "- x"] by simp_all
      ultimately show ?thesis unfolding python_div_mod_def Let_def q r by simp
    qed
  qed
qed

text \<open>The Monday on or before a day, and the Monday that starts week one of a year: the week of 4 January.\<close>

lemma monday_of_current_week_spec:
  "monday_of_current_week d \<le> d \<and> d < monday_of_current_week d + 7 \<and> iso_day_of_week (monday_of_current_week d) = 1"
proof -
  have "d - (d + 3) mod 7 = 7 * ((d + 3) div 7) - 3" using minus_mod_eq_mult_div [of "d + 3" 7] by simp
  then have "(d - (d + 3) mod 7 + 3) mod 7 = 0" by simp
  then show ?thesis by (simp add: monday_of_current_week_def iso_day_of_week_mod)
qed

text \<open>The year a day lies in.\<close>

definition year_of :: "int \<Rightarrow> int" where
  "year_of d = fst (date_convert d)"

lemma year_of_iff: "year_of d = y \<longleftrightarrow> year_start y \<le> d \<and> d < year_start (y + 1)"
proof -
  obtain z m c where r: "date_convert d = (z, m, c)" by (metis prod_cases3)
  note spec = date_convert_spec [OF r]
  have z: "year_start z \<le> d" "d < year_start (z + 1)" using day_number_in_year [OF spec(1)] spec(2) by auto
  have "z = y" if "year_start y \<le> d" "d < year_start (y + 1)"
    using year_start_le [of "z + 1" y] year_start_le [of "y + 1" z] z that by linarith
  then show ?thesis using z r by (auto simp: year_of_def)
qed

lemma extract_year_year_of: "extract_year d = year_of d"
proof -
  obtain n y off where r: "extract_year_offset d = (n, y, off)" by (metis prod_cases3)
  then have "year_of d = y" using extract_year_offset_spec(6,7) [OF r] by (simp add: year_of_iff)
  then show ?thesis using r by (simp add: extract_year_def)
qed

lemma new_year: "date_min_year < y \<Longrightarrow> y \<le> date_max_year \<Longrightarrow> from_date y 1 1 = Inr (year_start y)"
  by (simp add: from_date_def try_from_date_value is_valid_date_def day_number_def month_start_ends tab_def leap_days_def normal_days_def)

lemma no_new_year: "y \<le> date_min_year \<Longrightarrow> from_date y 1 1 = Inl (ConversionException ''Date out of range'')"
  by (simp add: from_date_def try_from_date_value is_valid_date_def)

lemma iso_week_one_spec:
  assumes "date_min_year < y" "y \<le> date_max_year"
  shows "\<exists>b. iso_week_one y = Inr (7 * b - 3) \<and> year_start y - 3 \<le> 7 * b - 3 \<and> 7 * b - 3 \<le> year_start y + 3"
proof -
  define q r where "q = (year_start y + 3) div 7" and "r = (year_start y + 3) mod 7"
  have s: "year_start y = 7 * q + r - 3" "0 \<le> r" "r < 7" using div_mult_mod_eq [of "year_start y + 3" 7] by (simp_all add: q_def r_def)
  have rm: "(year_start y + 3) mod 7 = r" by (simp add: r_def)
  have "iso_week_one y = Inr (if 3 < r then year_start y - r + 7 else year_start y - r)"
    by (simp add: iso_week_one_def new_year [OF assms] iso_day_of_week_mod rm Let_def)
  then have "iso_week_one y = Inr (7 * (if 3 < r then q + 1 else q) - 3)" using s(1) by auto
  moreover have "year_start y - 3 \<le> 7 * (if 3 < r then q + 1 else q) - 3 \<and> 7 * (if 3 < r then q + 1 else q) - 3 \<le> year_start y + 3"
    using s by auto
  ultimately show ?thesis by blast
qed

lemma no_iso_week_one: "y \<le> date_min_year \<Longrightarrow> iso_week_one y = Inl (ConversionException ''Date out of range'')"
  by (simp add: iso_week_one_def no_new_year)

lemma week_division: "7 * a - 3 \<le> d \<Longrightarrow> d < 7 * a + 4 \<Longrightarrow> fst (python_div_mod (d - (7 * b - 3)) 7) = a - b"
  using int_div_pos_eq [of "d - (7 * b - 3)" 7 "a - b" "d - (7 * a - 3)"] by (simp add: python_div_mod_floor)

lemma finite_year:
  assumes "date_ninfinity < d" "d < date_infinity"
  shows "date_min_year \<le> year_of d" "year_of d \<le> date_max_year" "year_of d = date_max_year \<Longrightarrow> d < year_start date_max_year + 200"
proof -
  obtain y m c where r: "date_convert d = (y, m, c)" by (metis prod_cases3)
  then have "is_valid_date y m c" using date_convert_spec [OF r] assms by (simp add: is_valid_date_iff)
  then show "date_min_year \<le> year_of d" "year_of d \<le> date_max_year"
    using r by (auto simp: year_of_def is_valid_date_def split: if_splits)
  show "d < year_start date_max_year + 200" using assms by (simp add: date_infinity_def year_start_def)
qed

text \<open>The ISO week of a finite date is the one of the Thursday of its week: the year is the Thursday's
  and the week number counts the Thursdays of that year. In the first representable year, and in the
  days of the next one that belong to its last week, the code throws, because it asks for a January
  first before the first date.\<close>
lemma iso_year_week_thursday:
  assumes "date_ninfinity < d" "d < date_infinity"
  shows "let t = monday_of_current_week d + 3 in
    iso_year_week d =
      (if year_of d = date_min_year \<or> year_of t = date_min_year then Inl (ConversionException ''Date out of range'')
       else Inr (year_of t, (t - year_start (year_of t)) div 7 + 1))"
proof -
  define y where "y = year_of d"
  have y: "date_min_year \<le> y" "y \<le> date_max_year" "y = date_max_year \<Longrightarrow> d < year_start y + 200"
    using finite_year [OF assms] by (auto simp: y_def)
  have yd: "year_start y \<le> d" "d < year_start (y + 1)" using year_of_iff [of d y] y_def by simp_all
  define a where "a = (d + 3) div 7"
  have m: "monday_of_current_week d = 7 * a - 3"
    using div_mult_mod_eq [of "d + 3" 7] by (simp add: monday_of_current_week_def iso_day_of_week_mod a_def algebra_simps)
  have a: "7 * a - 3 \<le> d" "d < 7 * a + 4" using monday_of_current_week_spec [of d] m by simp_all
  have steps: "365 \<le> year_start (y + 1) - year_start y" "year_start (y + 1) - year_start y \<le> 366"
      "365 \<le> year_start y - year_start (y - 1)" "365 \<le> year_start (y + 1 + 1) - year_start (y + 1)"
    using year_start_step [of y] year_start_step [of "y - 1"] year_start_step [of "y + 1"]
    by (simp_all add: add.assoc split: if_splits)
  have eq: "iso_year_week d = bindR (iso_week_one y) (\<lambda>monday.
        let week = fst (python_div_mod (d - monday) 7) in
        if week < 0 then
          bindR (iso_week_one (y - 1)) (\<lambda>monday'. Inr (y - 1, fst (python_div_mod (d - monday') 7) + 1))
        else if 52 \<le> week then
          bindR (iso_week_one (y + 1)) (\<lambda>next. if next \<le> d then Inr (y + 1, 0 + 1) else Inr (y, week + 1))
        else Inr (y, week + 1))"
    unfolding iso_year_week_def y_def year_of_def by (simp only: Let_def)
  show ?thesis
  proof (cases "y = date_min_year")
    case True
    then show ?thesis using eq no_iso_week_one [of y] by (simp add: y_def [symmetric])
  next
    case False
    then have lo: "date_min_year < y" using y by simp
    obtain b where b: "iso_week_one y = Inr (7 * b - 3)" "year_start y - 3 \<le> 7 * b - 3" "7 * b - 3 \<le> year_start y + 3"
      using iso_week_one_spec [OF lo y(2)] by auto
    note wk = week_division [OF a]
    consider "7 * a < year_start y" | "year_start y \<le> 7 * a" "7 * a < year_start (y + 1)" | "year_start (y + 1) \<le> 7 * a"
      by linarith
    then show ?thesis
    proof cases
      case 1
      have t: "year_of (7 * a) = y - 1" using 1 a(2) yd(1) steps(3) by (simp add: year_of_iff)
      have neg: "a - b < 0" using 1 b(2) by linarith
      show ?thesis
      proof (cases "y - 1 = date_min_year")
        case True
        then show ?thesis using eq b(1) wk neg t no_iso_week_one [of "y - 1"] by (simp add: m Let_def)
      next
        case False
        then obtain c where c: "iso_week_one (y - 1) = Inr (7 * c - 3)"
            "year_start (y - 1) - 3 \<le> 7 * c - 3" "7 * c - 3 \<le> year_start (y - 1) + 3"
          using iso_week_one_spec [of "y - 1"] lo y(2) by auto
        have "(7 * a - year_start (y - 1)) div 7 = a - c"
          using c(2,3) by (intro int_div_pos_eq [of _ 7 _ "7 * c - year_start (y - 1)"]) auto
        then show ?thesis using eq b(1) c(1) wk neg t lo False by (simp add: m Let_def y_def [symmetric])
      qed
    next
      case 2
      have t: "year_of (7 * a) = y" using 2 by (simp add: year_of_iff)
      have pos: "\<not> a - b < 0" using 2 b(3) by linarith
      have num: "(7 * a - year_start y) div 7 = a - b"
        using b(2,3) by (intro int_div_pos_eq [of _ 7 _ "7 * b - year_start y"]) auto
      have "iso_year_week d = Inr (y, a - b + 1)"
      proof (cases "52 \<le> a - b")
        case True
        then have "y \<noteq> date_max_year" using y(3) a(1) b(2) by linarith
        then obtain c where c: "iso_week_one (y + 1) = Inr (7 * c - 3)"
            "year_start (y + 1) - 3 \<le> 7 * c - 3" "7 * c - 3 \<le> year_start (y + 1) + 3"
          using iso_week_one_spec [of "y + 1"] lo y(2) by auto
        have "\<not> 7 * c - 3 \<le> d" using 2(2) a(2) c(2) by presburger
        then show ?thesis using eq b(1) c(1) wk pos True by (simp add: Let_def)
      next
        case False
        then show ?thesis using eq b(1) wk pos by (simp add: Let_def)
      qed
      then show ?thesis using t num lo by (simp add: m y_def [symmetric])
    next
      case 3
      have t: "year_of (7 * a) = y + 1" using 3 a(1) yd(2) steps(4) by (simp add: year_of_iff)
      have big: "\<not> a - b < 0" "52 \<le> a - b" using 3 b(3) steps(1) by linarith+
      then have "y \<noteq> date_max_year" using y(3) a(1) b(2) by linarith
      then obtain c where c: "iso_week_one (y + 1) = Inr (7 * c - 3)"
          "year_start (y + 1) - 3 \<le> 7 * c - 3" "7 * c - 3 \<le> year_start (y + 1) + 3"
        using iso_week_one_spec [of "y + 1"] lo y(2) by auto
      have "7 * c - 3 \<le> d" using 3 a(1) c(3) by presburger
      then have "iso_year_week d = Inr (y + 1, 1)" using eq b(1) c(1) wk big by (simp add: Let_def)
      moreover have "(7 * a - year_start (y + 1)) div 7 = 0" using 3 a(1) yd(2) by (intro div_pos_pos_trivial) auto
      ultimately show ?thesis using t lo by (simp add: m y_def [symmetric])
    qed
  qed
qed

lemma iso_year_week_thursday_witness:
  "iso_year_week 19723 = Inr (2024, 1) \<and> iso_year_week 19722 = Inr (2023, 52)"
proof -
  have t: "monday_of_current_week 19723 + 3 = 19726" "monday_of_current_week 19722 + 3 = 19719" by code_simp+
  have y: "year_of 19726 = 2024" "year_of 19719 = 2023" "year_of 19723 = 2024" "year_of 19722 = 2023"
    by (simp_all add: year_of_iff year_start_def)
  show ?thesis
    using iso_year_week_thursday [of 19723] iso_year_week_thursday [of 19722]
    unfolding t y Let_def
    by (simp add: date_infinity_def date_ninfinity_def year_start_def)
qed

end
