(* ===== verification/Numbers.thy ===== *)
theory Numbers
  imports Batching
begin

section \<open>Numbers as text\<close>

text \<open>
  \<open>src/common/types/cast_helpers.cpp\<close> and \<open>cast_helpers.hpp\<close>: the length of an unsigned number by
  comparisons, its digits written backwards two at a time, signed numbers and decimals. The buffers
  are allocated with the computed length, so a wrong length would be a write out of bounds: a
  formatter gets the text that already follows its end pointer and returns the longer text, and the
  lemmas show that what it wrote has exactly the computed length. The two-digit table of the
  formatting library is \<open>digit_pair\<close>.
\<close>

definition digit :: "nat \<Rightarrow> char" where
  "digit n = char_of (48 + n)"

definition digit_pair :: "nat \<Rightarrow> string" where
  "digit_pair n = [digit (n div 10), digit (n mod 10)]"

subsection \<open>Lengths\<close>

text \<open>\<open>length += value >= bound\<close>, bound after bound.\<close>

definition count_from :: "nat \<Rightarrow> nat list \<Rightarrow> nat \<Rightarrow> nat" where
  "count_from len bounds v = len + sum_list (map (\<lambda>b. of_bool (b \<le> v)) bounds)"

definition unsigned_length8 :: "nat \<Rightarrow> nat" where
  "unsigned_length8 v = count_from 1 [10, 100] v"

definition unsigned_length16 :: "nat \<Rightarrow> nat" where
  "unsigned_length16 v = count_from 1 [10, 100, 1000, 10000] v"

definition unsigned_length32 :: "nat \<Rightarrow> nat" where
  "unsigned_length32 v =
     (if 10000 \<le> v then count_from 5 [100000, 1000000, 10000000, 100000000, 1000000000] v
      else count_from 1 [10, 100, 1000] v)"

definition unsigned_length64 :: "nat \<Rightarrow> nat" where
  "unsigned_length64 v =
     (if 10000000000 \<le> v then
        (if 1000000000000000 \<le> v then
           count_from 16 [10000000000000000, 100000000000000000, 1000000000000000000, 10000000000000000000] v
         else count_from 11 [100000000000, 1000000000000, 10000000000000, 100000000000000] v)
      else if 100000 \<le> v then count_from 6 [1000000, 10000000, 100000000, 1000000000] v
      else count_from 1 [10, 100, 1000, 10000] v)"

text \<open>A huge integer below \<open>2 ^ 64\<close> is measured as a 64-bit one.\<close>

definition unsigned_length_huge :: "nat \<Rightarrow> nat" where
  "unsigned_length_huge v =
     (if v < 2 ^ 64 then unsigned_length64 v
      else if 10 ^ 27 \<le> v then
        (if 10 ^ 32 \<le> v then
           (if 10 ^ 36 \<le> v then count_from 37 [10 ^ 37, 10 ^ 38] v
            else count_from 33 [10 ^ 33, 10 ^ 34, 10 ^ 35] v)
         else if 10 ^ 30 \<le> v then count_from 31 [10 ^ 31, 10 ^ 32] v
         else count_from 28 [10 ^ 28, 10 ^ 29] v)
      else if 10 ^ 22 \<le> v then
        (if 10 ^ 25 \<le> v then count_from 26 [10 ^ 26] v else count_from 23 [10 ^ 23, 10 ^ 24] v)
      else if 10 ^ 20 \<le> v then count_from 21 [10 ^ 21] v
      else count_from 18 [10 ^ 18, 10 ^ 19] v)"

subsection \<open>Digits\<close>

function format_unsigned :: "nat \<Rightarrow> string \<Rightarrow> string" where
  "format_unsigned v out =
     (if 100 \<le> v then format_unsigned (v div 100) (digit_pair (v mod 100) @ out)
      else if v < 10 then digit v # out
      else digit_pair v @ out)"
  by pat_completeness auto
termination by (relation "measure fst") auto

declare format_unsigned.simps [simp del]

text \<open>Zeros in front of what has been written, up to a width.\<close>

definition pad_zeros :: "nat \<Rightarrow> string \<Rightarrow> string" where
  "pad_zeros n s = replicate (n - length s) (CHR ''0'') @ s"

text \<open>The digits of a huge integer: 17 digits per round while it needs more than 64 bits.\<close>

function format_unsigned_huge :: "nat \<Rightarrow> string \<Rightarrow> string" where
  "format_unsigned_huge v out =
     (if 2 ^ 64 \<le> v
      then format_unsigned_huge (v div 100000000000000000)
             (pad_zeros 17 (format_unsigned (v mod 100000000000000000) []) @ out)
      else format_unsigned v out)"
  by pat_completeness auto
termination by (relation "measure fst") auto

declare format_unsigned_huge.simps [simp del]

text \<open>\<open>FormatSigned\<close> of a 64-bit integer: the magnitude in unsigned arithmetic, then the sign.\<close>

definition format_signed :: "int \<Rightarrow> string" where
  "format_signed v = (if v < 0 then ''-'' else []) @ format_unsigned (nat \<bar>v\<bar>) []"

text \<open>\<open>SignedLength\<close> of a 64-bit integer takes the magnitude in signed arithmetic.\<close>

definition signed_overflow :: exn where
  "signed_overflow = Undefined ''signed integer overflow''"

definition signed_length :: "int \<Rightarrow> nat res" where
  "signed_length v =
     (if v = - (2 ^ 63) then Inl signed_overflow else Inr (unsigned_length64 (nat \<bar>v\<bar>) + of_bool (v < 0)))"

subsection \<open>Decimals\<close>

text \<open>The instances for decimals kept in 64 bits.\<close>

definition decimal_length :: "int \<Rightarrow> nat \<Rightarrow> nat \<Rightarrow> nat res" where
  "decimal_length v width scale =
     (if scale = 0 then signed_length v
      else mapR (\<lambda>len. max (scale + (if scale < width then 2 else 1) + of_bool (v < 0)) (len + 1)) (signed_length v))"

text \<open>\<open>POWERS_OF_TEN\<close> has 19 entries, and the index is not checked.\<close>

definition cached_power :: "nat \<Rightarrow> nat res" where
  "cached_power scale = (if scale < 19 then Inr (10 ^ scale) else Inl (Undefined ''POWERS_OF_TEN past the end''))"

text \<open>\<open>FormatDecimal\<close>: written from the end of the buffer; the sign goes to its first byte.\<close>

definition format_decimal :: "int \<Rightarrow> nat \<Rightarrow> nat \<Rightarrow> string res" where
  "format_decimal v width scale =
     (if v = - (2 ^ 63) then Inl signed_overflow
      else let m = nat \<bar>v\<bar>; sign = (if v < 0 then ''-'' else []) in
        if scale = 0 then Inr (sign @ format_unsigned m [])
        else mapR (\<lambda>p.
          let minor = m mod p; major = m div p;
              fraction = CHR ''.'' # pad_zeros scale (format_unsigned minor [])
          in sign @ (if scale < width then format_unsigned major fraction else fraction)) (cached_power scale))"

subsection \<open>Facts about digits\<close>

lemma length_show_nat_le: "0 < k \<Longrightarrow> length (show_nat n) \<le> k \<longleftrightarrow> n < 10 ^ k"
proof (induction k arbitrary: n)
  case (Suc k)
  show ?case
  proof (cases "n < 10")
    case True
    then have "n < 10 ^ Suc k" using one_le_power [of "10 :: nat" k] by (simp add: less_le_trans)
    then show ?thesis using True by (simp add: show_nat.simps [of n])
  next
    case False
    then have len: "length (show_nat n) = Suc (length (show_nat (n div 10)))" by (simp add: show_nat.simps [of n])
    show ?thesis
    proof (cases "k = 0")
      case True
      have "show_nat (n div 10) \<noteq> []" by (simp add: show_nat.simps [of "n div 10"])
      then show ?thesis using True False len by simp
    next
      case False
      then show ?thesis using Suc.IH [of "n div 10"] len by (simp add: less_mult_imp_div_less div_less_iff_less_mult mult.commute)
    qed
  qed
qed simp

lemma length_show_nat_pos: "0 < length (show_nat n)"
  by (simp add: show_nat.simps [of n])

lemma length_show_nat_eq:
  assumes "n < 10 ^ k" "0 < k" "k = 1 \<or> 10 ^ (k - 1) \<le> n"
  shows "length (show_nat n) = k"
proof -
  have "length (show_nat n) \<le> k" using assms by (simp add: length_show_nat_le)
  moreover have "k \<le> length (show_nat n)"
  proof (cases "k = 1")
    case True
    then show ?thesis using length_show_nat_pos [of n] by (simp add: Suc_le_eq)
  next
    case False
    then have "\<not> length (show_nat n) \<le> k - 1" using assms by (subst length_show_nat_le) auto
    then show ?thesis by simp
  qed
  ultimately show ?thesis by simp
qed

text \<open>The interval of a number between two powers of ten.\<close>

lemma decimal_interval:
  fixes n :: nat
  shows "n < 10 ^ m \<Longrightarrow> 0 < m \<Longrightarrow> \<exists>k. 0 < k \<and> k \<le> m \<and> n < 10 ^ k \<and> (k = 1 \<or> 10 ^ (k - 1) \<le> n)"
proof -
  assume n: "n < 10 ^ m" "0 < m"
  let ?k = "length (show_nat n)"
  have pos: "0 < ?k" by (rule length_show_nat_pos)
  have le: "?k \<le> m" using n by (simp only: length_show_nat_le)
  have up: "n < 10 ^ ?k" using length_show_nat_le [OF pos, of n] by simp
  have "?k = 1 \<or> 10 ^ (?k - 1) \<le> n"
  proof (cases "?k = 1")
    case False
    then have "0 < ?k - 1" using pos by linarith
    then have "\<not> n < 10 ^ (?k - 1)" using length_show_nat_le [of "?k - 1" n] by linarith
    then show ?thesis by simp
  qed simp
  then show ?thesis using pos le up by blast
qed

lemma show_nat_div10: "show_nat n = (if n < 10 then [digit n] else show_nat (n div 10) @ [digit (n mod 10)])"
  by (simp add: show_nat.simps [of n] digit_def)

lemma format_unsigned_show: "format_unsigned v out = show_nat v @ out"
proof (induction v out rule: format_unsigned.induct)
  case (1 v out)
  consider "v < 10" | "10 \<le> v" "v < 100" | "100 \<le> v" by linarith
  then show ?case
  proof cases
    case 1
    then show ?thesis by (simp add: format_unsigned.simps [of v] show_nat_div10 [of v])
  next
    case 2
    then show ?thesis
      by (simp add: format_unsigned.simps [of v] show_nat_div10 [of v] show_nat_div10 [of "v div 10"] digit_pair_def less_mult_imp_div_less)
  next
    case 3
    have ge: "\<not> v div 10 < 10" using 3 by simp
    have "show_nat v = show_nat (v div 100) @ digit_pair (v mod 100)"
      using ge 3 show_nat_div10 [of v] show_nat_div10 [of "v div 10"]
      by (simp add: digit_pair_def div_mult2_eq [symmetric]) (simp add: mod_mult2_eq [of v 10 10, simplified] mult.commute)
    then show ?thesis using 1 3 by (simp add: format_unsigned.simps [of v])
  qed
qed

subsection \<open>Lengths and digits agree\<close>

lemma unsigned_length8_exact: "v < 2 ^ 8 \<Longrightarrow> unsigned_length8 v = length (show_nat v)"
proof -
  assume v: "v < 2 ^ 8"
  then have "v < 10 ^ 3" by simp
  then obtain k where k: "0 < k" "k \<le> 3" "v < 10 ^ k" "k = 1 \<or> 10 ^ (k - 1) \<le> v"
    using decimal_interval [of v 3] by auto
  have len: "length (show_nat v) = k" using k by (intro length_show_nat_eq) auto
  have "k = 1 \<or> k = 2 \<or> k = 3" using k(1,2) by presburger
  then have "unsigned_length8 v = k" using k(3,4) v
    by (elim disjE) (simp_all add: unsigned_length8_def count_from_def)
  then show ?thesis using len by simp
qed

lemma unsigned_length16_exact: "v < 2 ^ 16 \<Longrightarrow> unsigned_length16 v = length (show_nat v)"
proof -
  assume v: "v < 2 ^ 16"
  then have "v < 10 ^ 5" by simp
  then obtain k where k: "0 < k" "k \<le> 5" "v < 10 ^ k" "k = 1 \<or> 10 ^ (k - 1) \<le> v"
    using decimal_interval [of v 5] by auto
  have len: "length (show_nat v) = k" using k by (intro length_show_nat_eq) auto
  have "k = 1 \<or> k = 2 \<or> k = 3 \<or> k = 4 \<or> k = 5" using k(1,2) by presburger
  then have "unsigned_length16 v = k" using k(3,4) v
    by (elim disjE) (simp_all add: unsigned_length16_def count_from_def)
  then show ?thesis using len by simp
qed

lemma unsigned_length32_exact: "v < 2 ^ 32 \<Longrightarrow> unsigned_length32 v = length (show_nat v)"
proof -
  assume v: "v < 2 ^ 32"
  then have "v < 10 ^ 10" by simp
  then obtain k where k: "0 < k" "k \<le> 10" "v < 10 ^ k" "k = 1 \<or> 10 ^ (k - 1) \<le> v"
    using decimal_interval [of v 10] by auto
  have len: "length (show_nat v) = k" using k by (intro length_show_nat_eq) auto
  have "k = 1 \<or> k = 2 \<or> k = 3 \<or> k = 4 \<or> k = 5 \<or> k = 6 \<or> k = 7 \<or> k = 8 \<or> k = 9 \<or> k = 10" using k(1,2) by presburger
  then have "unsigned_length32 v = k" using k(3,4) v
    by (elim disjE) (simp_all add: unsigned_length32_def count_from_def)
  then show ?thesis using len by simp
qed

lemma unsigned_length64_exact: "v < 2 ^ 64 \<Longrightarrow> unsigned_length64 v = length (show_nat v)"
proof -
  assume v: "v < 2 ^ 64"
  then have "v < 10 ^ 20" by simp
  then obtain k where k: "0 < k" "k \<le> 20" "v < 10 ^ k" "k = 1 \<or> 10 ^ (k - 1) \<le> v"
    using decimal_interval [of v 20] by auto
  have len: "length (show_nat v) = k" using k by (intro length_show_nat_eq) auto
  have "k = 1 \<or> k = 2 \<or> k = 3 \<or> k = 4 \<or> k = 5 \<or> k = 6 \<or> k = 7 \<or> k = 8 \<or> k = 9 \<or> k = 10 \<or> k = 11 \<or> k = 12 \<or> k = 13 \<or> k = 14 \<or> k = 15 \<or> k = 16 \<or> k = 17 \<or> k = 18 \<or> k = 19 \<or> k = 20" using k(1,2) by presburger
  then have "unsigned_length64 v = k" using k(3,4) v
    by (elim disjE) (simp_all add: unsigned_length64_def count_from_def)
  then show ?thesis using len by simp
qed

lemma unsigned_length_huge_exact: "v < 2 ^ 127 \<Longrightarrow> unsigned_length_huge v = length (show_nat v)"
proof -
  assume v: "v < 2 ^ 127"
  show ?thesis
  proof (cases "v < 2 ^ 64")
    case True
    then show ?thesis by (simp only: unsigned_length_huge_def if_True unsigned_length64_exact)
  next
    case False
    then have "10 ^ 19 \<le> v" by simp
    from v have "v < 10 ^ 39" by simp
    then obtain k where k: "0 < k" "k \<le> 39" "v < 10 ^ k" "k = 1 \<or> 10 ^ (k - 1) \<le> v"
      using decimal_interval [of v 39] by auto
    have "19 < k"
    proof (rule ccontr)
      assume "\<not> 19 < k"
      then have "10 ^ k \<le> (10 :: nat) ^ 19" by (intro power_increasing) auto
      then show False using k(3) \<open>10 ^ 19 \<le> v\<close> by linarith
    qed
    then have "k = 20 \<or> k = 21 \<or> k = 22 \<or> k = 23 \<or> k = 24 \<or> k = 25 \<or> k = 26 \<or> k = 27 \<or> k = 28 \<or> k = 29 \<or>
        k = 30 \<or> k = 31 \<or> k = 32 \<or> k = 33 \<or> k = 34 \<or> k = 35 \<or> k = 36 \<or> k = 37 \<or> k = 38 \<or> k = 39"
      using k(2) by presburger
    then have "unsigned_length_huge v = k" using k(3,4) False
      by (elim disjE) (simp_all add: unsigned_length_huge_def count_from_def)
    moreover have "length (show_nat v) = k" using k by (intro length_show_nat_eq) auto
    ultimately show ?thesis by simp
  qed
qed

lemma zero_digit: "digit 0 = CHR ''0''"
  by code_simp

lemma show_nat_append: "0 < a \<Longrightarrow> b < 10 ^ k \<Longrightarrow> 0 < k \<Longrightarrow> show_nat (a * 10 ^ k + b) = show_nat a @ pad_zeros k (show_nat b)"
proof (induction k arbitrary: b)
  case (Suc k)
  have split: "(a * 10 ^ Suc k + b) div 10 = a * 10 ^ k + b div 10" "(a * 10 ^ Suc k + b) mod 10 = b mod 10"
    by (simp_all add: mult.assoc [symmetric] mult.commute [of 10])
  have "10 * 1 \<le> 10 * (a * 10 ^ k)" using Suc.prems(1) by (intro mult_le_mono2) (simp add: Suc_le_eq)
  also have "10 * (a * 10 ^ k) = a * 10 ^ Suc k" by simp
  finally have big: "\<not> a * 10 ^ Suc k + b < 10" by linarith
  have b10: "b div 10 < 10 ^ k" using Suc.prems(2) by (simp add: less_mult_imp_div_less mult.commute)
  show ?case
  proof (cases "k = 0")
    case True
    then have "b < 10" using Suc.prems(2) by simp
    then show ?thesis using True big split show_nat_div10 [of "a * 10 ^ Suc k + b"] show_nat_div10 [of b]
      by (simp add: pad_zeros_def)
  next
    case False
    have "show_nat (a * 10 ^ Suc k + b) = show_nat a @ pad_zeros k (show_nat (b div 10)) @ [digit (b mod 10)]"
      using show_nat_div10 [of "a * 10 ^ Suc k + b"] big split Suc.IH [OF Suc.prems(1) b10] False by simp
    moreover have "pad_zeros k (show_nat (b div 10)) @ [digit (b mod 10)] = pad_zeros (Suc k) (show_nat b)"
    proof (cases "b < 10")
      case True
      then have "show_nat (b div 10) = [CHR ''0'']" "show_nat b = [digit b]"
        by (simp_all add: show_nat_div10 [of b] show_nat_div10 [of 0] zero_digit)
      then show ?thesis using True False
        using replicate_app_Cons_same [of "k - 1" "CHR ''0''" "[digit b]"] by (cases k) (simp_all add: pad_zeros_def)
    qed (simp add: pad_zeros_def show_nat_div10 [of b])
    ultimately show ?thesis by simp
  qed
qed simp

lemma format_unsigned_huge_show: "format_unsigned_huge v out = show_nat v @ out"
proof -
  show ?thesis
  proof (induction v out rule: format_unsigned_huge.induct)
    case (1 v out)
    show ?case
    proof (cases "2 ^ 64 \<le> v")
      case True
      let ?m = "100000000000000000 :: nat"
      have "0 < v div ?m" using True by (simp add: div_greater_zero_iff)
      then have "show_nat (v div ?m * 10 ^ 17 + v mod ?m) = show_nat (v div ?m) @ pad_zeros 17 (show_nat (v mod ?m))"
        by (intro show_nat_append) simp_all
      then have "show_nat v = show_nat (v div ?m) @ pad_zeros 17 (show_nat (v mod ?m))" by simp
      then show ?thesis using 1 True by (simp add: format_unsigned_huge.simps [of v] format_unsigned_show)
    next
      case False
      then show ?thesis by (simp add: format_unsigned_huge.simps [of v] format_unsigned_show)
    qed
  qed
qed

subsection \<open>Reading digits back\<close>

lemma digit_code [simp]: "n < 10 \<Longrightarrow> char_code (digit n) = 48 + n"
  by (simp add: char_code_def digit_def)

lemma is_digit_digit [simp]: "n < 10 \<Longrightarrow> is_digit (digit n)"
  by (simp add: is_digit_def)

lemma show_nat_digits: "list_all is_digit (show_nat n)"
proof (induction n rule: less_induct)
  case (less n)
  show ?case
  proof (cases "n < 10")
    case False
    then have "list_all is_digit (show_nat (n div 10))" by (intro less) simp
    then show ?thesis using False by (simp add: show_nat_div10 [of n])
  qed (simp add: show_nat_div10 [of n])
qed

lemma digits_val_snoc: "digits_val (ds @ [c]) = digits_val ds * 10 + (int (char_code c) - 48)"
  by (simp add: digits_val_def)

lemma digits_val_append: "digits_val (ds @ es) = digits_val ds * 10 ^ length es + digits_val es"
proof (induction es rule: rev_induct)
  case (snoc e es)
  then show ?case using digits_val_snoc [of "ds @ es" e] digits_val_snoc [of es e] by (simp add: algebra_simps)
qed (simp add: digits_val_def)

lemma digits_val_zeros: "digits_val (replicate n (CHR ''0'') @ ds) = digits_val ds"
  by (induction n) (simp_all add: digits_val_def char_code_def)

lemma digits_val_show: "digits_val (show_nat n) = int n"
proof (induction n rule: less_induct)
  case (less n)
  show ?case
  proof (cases "n < 10")
    case True
    then show ?thesis by (simp add: show_nat_div10 [of n]) (simp add: digits_val_def)
  next
    case False
    then have "digits_val (show_nat (n div 10)) = int (n div 10)" by (intro less) simp
    then have "digits_val (show_nat n) = int (n div 10) * 10 + int (n mod 10)"
      using False by (simp add: show_nat_div10 [of n] digits_val_snoc)
    also have "\<dots> = int (n div 10 * 10 + n mod 10)" by (simp only: of_nat_add of_nat_mult of_nat_numeral)
    finally show ?thesis by (simp only: div_mult_mod_eq)
  qed
qed

lemma length_pad_zeros: "length s \<le> n \<Longrightarrow> length (pad_zeros n s) = n"
  by (simp add: pad_zeros_def)

lemma pad_zeros_digits: "list_all is_digit s \<Longrightarrow> list_all is_digit (pad_zeros n s)"
  by (auto simp: pad_zeros_def list_all_iff is_digit_def char_code_def)

subsection \<open>Signed numbers and decimals\<close>

text \<open>The length computed for a number is the number of digits the formatter writes, for every
  width, so that no formatter writes outside its buffer and none leaves a byte unwritten; and reading
  the digits gives the number back.\<close>
lemma format_unsigned_fits:
  "(v < 2 ^ 8 \<longrightarrow> unsigned_length8 v = length (format_unsigned v [])) \<and>
   (v < 2 ^ 16 \<longrightarrow> unsigned_length16 v = length (format_unsigned v [])) \<and>
   (v < 2 ^ 32 \<longrightarrow> unsigned_length32 v = length (format_unsigned v [])) \<and>
   (v < 2 ^ 64 \<longrightarrow> unsigned_length64 v = length (format_unsigned v [])) \<and>
   (v < 2 ^ 127 \<longrightarrow> unsigned_length_huge v = length (format_unsigned_huge v [])) \<and>
   format_unsigned_huge v [] = format_unsigned v [] \<and> digits_val (format_unsigned v []) = int v"
  unfolding format_unsigned_show format_unsigned_huge_show
  by (intro conjI impI) (simp_all only: unsigned_length8_exact unsigned_length16_exact unsigned_length32_exact
      unsigned_length64_exact unsigned_length_huge_exact digits_val_show append_Nil2)

lemma format_unsigned_fits_witness:
  "unsigned_length8 205 = 3 \<and> unsigned_length64 18446744073709551615 = length (format_unsigned 18446744073709551615 [])"
  using format_unsigned_fits [of 205] format_unsigned_fits [of 18446744073709551615]
  by (simp add: unsigned_length8_def count_from_def)

lemma magnitude_int64: "in_int64 v \<Longrightarrow> nat \<bar>v\<bar> < 2 ^ 64"
  by (auto simp: in_int64_def nat_less_iff abs_if)

lemma signed_length_exact: "in_int64 v \<Longrightarrow> unsigned_length64 (nat \<bar>v\<bar>) = length (show_nat (nat \<bar>v\<bar>))"
  using unsigned_length64_exact [OF magnitude_int64] .

text \<open>\<open>FormatSigned\<close> computes its length in unsigned arithmetic, so that it is right for every value.\<close>

lemma format_signed_fits: "in_int64 v \<Longrightarrow> length (format_signed v) = unsigned_length64 (nat \<bar>v\<bar>) + of_bool (v < 0)"
  by (simp add: signed_length_exact format_signed_def format_unsigned_show)

lemma signed_length_format: "in_int64 v \<Longrightarrow> v \<noteq> - (2 ^ 63) \<Longrightarrow> signed_length v = Inr (length (format_signed v))"
  by (simp add: signed_length_def format_signed_fits)

text \<open>The digits behind the point, and the number that major part and fraction spell.\<close>

lemma fraction_digits:
  assumes "0 < scale"
  shows "length (pad_zeros scale (show_nat (m mod 10 ^ scale))) = scale" "list_all is_digit (pad_zeros scale (show_nat (m mod 10 ^ scale)))"
    "digits_val (pad_zeros scale (show_nat (m mod 10 ^ scale))) = int (m mod 10 ^ scale)"
proof -
  have "length (show_nat (m mod 10 ^ scale)) \<le> scale" using assms length_show_nat_le [of scale "m mod 10 ^ scale"] by simp
  then show "length (pad_zeros scale (show_nat (m mod 10 ^ scale))) = scale" by (rule length_pad_zeros)
  show "list_all is_digit (pad_zeros scale (show_nat (m mod 10 ^ scale)))" using show_nat_digits by (rule pad_zeros_digits)
  show "digits_val (pad_zeros scale (show_nat (m mod 10 ^ scale))) = int (m mod 10 ^ scale)"
    by (simp add: pad_zeros_def digits_val_zeros digits_val_show)
qed

lemma decimal_digits_val:
  assumes "0 < scale"
  shows "digits_val (show_nat (m div 10 ^ scale) @ pad_zeros scale (show_nat (m mod 10 ^ scale))) = int m"
proof -
  have "digits_val (show_nat (m div 10 ^ scale) @ pad_zeros scale (show_nat (m mod 10 ^ scale))) =
      int (m div 10 ^ scale) * 10 ^ scale + int (m mod 10 ^ scale)"
    unfolding digits_val_append fraction_digits [OF assms] digits_val_show ..
  also have "\<dots> = int (m div 10 ^ scale * 10 ^ scale + m mod 10 ^ scale)" by (simp only: of_nat_add of_nat_mult of_nat_power of_nat_numeral)
  finally show ?thesis unfolding div_mult_mod_eq .
qed

lemma decimal_major_length:
  assumes "0 < scale"
  shows "length (show_nat (m div 10 ^ scale)) + scale = (if m < 10 ^ scale then Suc scale else length (show_nat m))"
proof (cases "m < 10 ^ scale")
  case True
  then show ?thesis by (simp add: show_nat_div10 [of 0])
next
  case False
  then have "0 < m div 10 ^ scale" by (simp add: div_greater_zero_iff)
  from show_nat_append [OF this, of "m mod 10 ^ scale" scale] show ?thesis
    using assms False fraction_digits(1) [OF assms, of m] by (simp add: div_mult_mod_eq)
qed

text \<open>The text, where the magnitude exists and the scale is in the table.\<close>

abbreviation decimal_fits :: "int \<Rightarrow> nat \<Rightarrow> bool" where
  "decimal_fits v scale \<equiv> v \<noteq> - (2 ^ 63) \<and> scale < 19"

lemma format_decimal_text:
  assumes "decimal_fits v scale" "scale < width \<or> nat \<bar>v\<bar> < 10 ^ scale"
  shows "\<exists>major fraction. format_decimal v width scale =
        Inr ((if v < 0 then ''-'' else []) @ major @ (if scale = 0 then [] else CHR ''.'' # fraction)) \<and>
      list_all is_digit (major @ fraction) \<and> length fraction = scale \<and> digits_val (major @ fraction) = \<bar>v\<bar> \<and>
      major = (if scale = 0 \<or> scale < width then show_nat (nat \<bar>v\<bar> div 10 ^ scale) else [])"
proof (cases "scale = 0")
  case True
  let ?t = "show_nat (nat \<bar>v\<bar>)"
  have "format_decimal v width scale = Inr ((if v < 0 then ''-'' else []) @ ?t)"
    using True assms(1) by (simp add: format_decimal_def format_unsigned_show)
  then show ?thesis using True by (intro exI [of _ ?t] exI [of _ "[]"]) (simp add: show_nat_digits digits_val_show)
next
  case False
  then have pos: "0 < scale" by simp
  let ?m = "nat \<bar>v\<bar>"
  let ?t = "show_nat (?m div 10 ^ scale)" and ?f = "pad_zeros scale (show_nat (?m mod 10 ^ scale))"
  note f = fraction_digits [OF pos, of ?m]
  have printed: "format_decimal v width scale =
      Inr ((if v < 0 then ''-'' else []) @ (if scale < width then ?t else []) @ CHR ''.'' # ?f)"
    using False assms(1) by (simp add: format_decimal_def Let_def format_unsigned_show cached_power_def)
  show ?thesis
  proof (cases "scale < width")
    case True
    have "digits_val (?t @ ?f) = \<bar>v\<bar>" unfolding decimal_digits_val [OF pos] by simp
    moreover have "list_all is_digit (?t @ ?f)" using f(2) show_nat_digits by simp
    ultimately show ?thesis using printed f(1) False True
      by (intro exI [of _ ?t] exI [of _ ?f]) (simp only: if_False if_True simp_thms)
  next
    case narrow: False
    then have "?m < 10 ^ scale" using assms by simp
    then show ?thesis using printed f False narrow by (intro exI [of _ "[]"] exI [of _ ?f]) auto
  qed
qed

lemma format_decimal_length:
  assumes v: "in_int64 v" and fits: "decimal_fits v scale" and w: "scale < width \<or> nat \<bar>v\<bar> < 10 ^ scale"
    and printed: "format_decimal v width scale = Inr t"
  shows "decimal_length v width scale = Inr (length t)"
proof -
  let ?m = "nat \<bar>v\<bar>" and ?sign = "of_bool (v < 0) :: nat"
  have sl: "signed_length v = Inr (length (show_nat ?m) + ?sign)"
    using signed_length_exact [OF v] fits by (simp add: signed_length_def)
  obtain major fraction where
    t: "t = (if v < 0 then ''-'' else []) @ major @ (if scale = 0 then [] else CHR ''.'' # fraction)"
      and f: "length fraction = scale" and major: "major = (if scale = 0 \<or> scale < width then show_nat (?m div 10 ^ scale) else [])"
    using format_decimal_text [OF fits w] printed by auto
  show ?thesis
  proof (cases "scale = 0")
    case True
    then show ?thesis unfolding decimal_length_def sl t major by simp
  next
    case False
    then have pos: "0 < scale" by simp
    have short: "length (show_nat ?m) \<le> scale \<longleftrightarrow> ?m < 10 ^ scale" using pos length_show_nat_le by simp
    show ?thesis
    proof (cases "scale < width")
      case True
      have "length t = ?sign + Suc (length (show_nat (?m div 10 ^ scale)) + scale)"
        unfolding t major using False True f by simp
      moreover have "decimal_length v width scale = Inr (?sign + Suc (max (Suc scale) (length (show_nat ?m))))"
        unfolding decimal_length_def sl using False True by simp
      moreover have "length (show_nat (?m div 10 ^ scale)) + scale = max (Suc scale) (length (show_nat ?m))"
        unfolding decimal_major_length [OF pos, of ?m] using short by (simp only: max_def split: if_split) linarith
      ultimately show ?thesis by (simp only:)
    next
      case narrow: False
      then have "?m < 10 ^ scale" using w by simp
      then show ?thesis unfolding decimal_length_def sl t major using f False narrow short by simp
    qed
  qed
qed

text \<open>C35: a decimal kept in 64 bits: for the least value, and for a scale above 18, printing it is undefined (the
  negation overflows, the table of powers of ten is left). Otherwise the text has exactly the length computed for it,
  and, the sign and the point left out, its digits are those of the scaled integer, with \<open>scale\<close> of them after the
  point; the condition on the width is the one the code asserts.\<close>
theorem format_decimal_fits:
  assumes v: "in_int64 v" and w: "scale < width \<or> nat \<bar>v\<bar> < 10 ^ scale"
  shows "if v = - (2 ^ 63) \<or> 18 < scale then \<exists>e. format_decimal v width scale = Inl (Undefined e)
    else \<exists>t. format_decimal v width scale = Inr t \<and> decimal_length v width scale = Inr (length t) \<and>
      (\<exists>major fraction. t = (if v < 0 then ''-'' else []) @ major @ (if scale = 0 then [] else CHR ''.'' # fraction) \<and>
        list_all is_digit (major @ fraction) \<and> length fraction = scale \<and> digits_val (major @ fraction) = \<bar>v\<bar>)"
proof (cases "v = - (2 ^ 63) \<or> 18 < scale")
  case True
  then have "\<exists>e. format_decimal v width scale = Inl (Undefined e)"
    by (auto simp: format_decimal_def signed_overflow_def cached_power_def)
  then show ?thesis using True by (simp only: if_True)
next
  case False
  then have fits: "decimal_fits v scale" by simp
  from format_decimal_text [OF this w] format_decimal_length [OF v fits w] show ?thesis
    unfolding if_not_P [OF False] by blast
qed

theorem format_decimal_fits_witness:
  "(\<exists>t. format_decimal (- 1205) 4 2 = Inr t \<and> length t = 6) \<and> (\<exists>t. format_decimal 7 3 3 = Inr t \<and> length t = 4) \<and>
   (\<exists>e. format_decimal 7 25 20 = Inl (Undefined e)) \<and> (\<exists>e. format_decimal (- (2 ^ 63)) 20 2 = Inl (Undefined e))"
  using format_decimal_fits [of "- 1205" 2 4] format_decimal_fits [of 7 3 3] format_decimal_fits [of 7 20 25]
    format_decimal_fits [of "- (2 ^ 63)" 2 20]
  by (auto simp: in_int64_def decimal_length_def signed_length_def unsigned_length64_def count_from_def)

end
