(* ===== verification/Date_Text.thy ===== *)
theory Date_Text
  imports Date Numbers
begin

section \<open>Dates as text\<close>

text \<open>
  \<open>Date::TryConvertDate\<close>, \<open>FromCString\<close> and \<open>ToString\<close> (\<open>src/common/types/date.cpp\<close>) with
  \<open>DateToStringCast\<close> (\<open>cast_helpers.hpp\<close>). The parser moves a position through the buffer; here it is
  what is left of the text. The printer fills a buffer of a computed length, the year from its end to the
  left: a year with more digits than were counted would be written before the buffer. Every date that is
  printed is read back, and parsing never leaves the range of dates.
\<close>

subsection \<open>Parsing\<close>

definition character_is_space :: "char \<Rightarrow> bool" where
  "character_is_space c \<longleftrightarrow> c = CHR '' '' \<or> char_code c \<in> {9, 10, 11, 12, 13}"

definition digit_value :: "char \<Rightarrow> int" where
  "digit_value c = int (char_code c) - 48"

fun parse_double_digit :: "string \<Rightarrow> (int \<times> string) option" where
  "parse_double_digit [] = None"
| "parse_double_digit (c # s) =
     (if \<not> is_digit c then None
      else case s of
        [] \<Rightarrow> Some (digit_value c, [])
      | d # s' \<Rightarrow> if is_digit d then Some (digit_value d + digit_value c * 10, s') else Some (digit_value c, s))"

text \<open>\<open>DateSpecial\<close>: a word and how short it may be cut. What is left of the text and of the word, and the
  number of characters they share.\<close>

fun match_special :: "string \<Rightarrow> string \<Rightarrow> (string \<times> string \<times> nat) option" where
  "match_special (c # s) (w # ws) =
     (if ascii_lower c \<noteq> w then None else map_option (\<lambda>(s', ws', n). (s', ws', Suc n)) (match_special s ws))"
| "match_special s ws = Some (s, ws, 0)"

definition date_pinf :: "string \<times> nat" where "date_pinf = (''infinity'', 3)"
definition date_epoch_word :: "string \<times> nat" where "date_epoch_word = (''epoch'', 5)"

definition try_convert_date_special :: "string \<Rightarrow> string \<times> nat \<Rightarrow> string option" where
  "try_convert_date_special s = (\<lambda>(str, abbr). case match_special s str of
     None \<Rightarrow> None | Some (s', rest, n) \<Rightarrow> if rest \<noteq> [] \<and> n \<noteq> abbr then None else Some s')"

datatype date_cast_error = ERROR_INCORRECT_FORMAT | ERROR_RANGE

type_synonym date_cast = "date_cast_error + int \<times> bool \<times> string"  \<comment> \<open>the date, whether it is a special one, the rest\<close>

definition convert_special :: "bool \<Rightarrow> string \<Rightarrow> date_cast" where
  "convert_special yearneg s =
     (case (case try_convert_date_special s date_pinf of
         Some r \<Rightarrow> Some (if yearneg then date_ninfinity else date_infinity, r)
       | None \<Rightarrow> map_option (Pair 0) (try_convert_date_special s date_epoch_word)) of
        None \<Rightarrow> Inl ERROR_INCORRECT_FORMAT
      | Some (d, r) \<Rightarrow> if dropWhile character_is_space r = [] then Inr (d, True, []) else Inl ERROR_INCORRECT_FORMAT)"

text \<open>The year and the number of its digits; \<open>None\<close> when it grows too large.\<close>

fun parse_year :: "string \<Rightarrow> int \<Rightarrow> nat \<Rightarrow> (int \<times> nat \<times> string) option" where
  "parse_year [] y n = Some (y, n, [])"
| "parse_year (c # s) y n =
     (if \<not> is_digit c then Some (y, n, c # s)
      else if 100000000 \<le> y then None
      else parse_year s (digit_value c + y * 10) (Suc n))"

definition bc_suffix :: "bool \<Rightarrow> int \<Rightarrow> string \<Rightarrow> date_cast_error + int \<times> string" where
  "bc_suffix yearneg year r =
     (if 5 \<le> length r \<and> character_is_space (r ! 0) \<and> r ! 1 = CHR ''('' \<and> ascii_lower (r ! 2) = CHR ''b'' \<and>
         ascii_lower (r ! 3) = CHR ''c'' \<and> r ! 4 = CHR '')''
      then (if yearneg \<or> year = 0 then Inl ERROR_INCORRECT_FORMAT else Inr (- year + 1, drop 5 r))
      else Inr (year, r))"

definition check_end :: "bool \<Rightarrow> string \<Rightarrow> date_cast_error + string" where
  "check_end strict r =
     (if strict then (if dropWhile character_is_space r = [] then Inr [] else Inl ERROR_INCORRECT_FORMAT)
      else if r \<noteq> [] \<and> is_digit (hd r) then Inl ERROR_INCORRECT_FORMAT else Inr r)"

definition convert_day :: "bool \<Rightarrow> bool \<Rightarrow> int \<Rightarrow> int \<Rightarrow> string \<Rightarrow> date_cast" where
  "convert_day strict yearneg year month r =
     (case parse_double_digit r of
        None \<Rightarrow> Inl ERROR_INCORRECT_FORMAT
      | Some (day, r) \<Rightarrow>
          (case bc_suffix yearneg year r of
             Inl e \<Rightarrow> Inl e
           | Inr (year, r) \<Rightarrow>
               (case check_end strict r of
                  Inl e \<Rightarrow> Inl e
                | Inr r \<Rightarrow> (case try_from_date year month day of None \<Rightarrow> Inl ERROR_RANGE | Some d \<Rightarrow> Inr (d, False, r)))))"

definition convert_numbers :: "bool \<Rightarrow> bool \<Rightarrow> string \<Rightarrow> date_cast" where
  "convert_numbers strict yearneg s =
     (case parse_year s 0 0 of
        None \<Rightarrow> Inl ERROR_RANGE
      | Some (y, n, r) \<Rightarrow>
          if n < 2 \<and> strict then Inl ERROR_INCORRECT_FORMAT
          else (case r of
              [] \<Rightarrow> Inl ERROR_INCORRECT_FORMAT
            | sep # r \<Rightarrow>
                if sep \<notin> {CHR '' '', CHR ''-'', CHR ''/'', CHR 0x5C} then Inl ERROR_INCORRECT_FORMAT
                else (case parse_double_digit r of
                    None \<Rightarrow> Inl ERROR_INCORRECT_FORMAT
                  | Some (month, []) \<Rightarrow> Inl ERROR_INCORRECT_FORMAT
                  | Some (month, c # r) \<Rightarrow>
                      if c \<noteq> sep \<or> r = [] then Inl ERROR_INCORRECT_FORMAT
                      else convert_day strict yearneg (if yearneg then - y else y) month r)))"

definition try_convert_date :: "bool \<Rightarrow> string \<Rightarrow> date_cast" where
  "try_convert_date strict buf =
     (case dropWhile character_is_space buf of
        [] \<Rightarrow> Inl ERROR_INCORRECT_FORMAT
      | c # s \<Rightarrow>
          let yearneg = (c = CHR ''-''); s = (if yearneg then s else c # s)
          in if s = [] then Inl ERROR_INCORRECT_FORMAT
             else if \<not> is_digit (hd s) then convert_special yearneg s
             else convert_numbers strict yearneg s)"

definition format_error :: "string \<Rightarrow> exn" where
  "format_error s = ConversionException (''invalid date field format: '' @ [CHR 0x22] @ s @ [CHR 0x22] @ '', expected format is (YYYY-MM-DD)'')"

definition range_error :: "string \<Rightarrow> exn" where
  "range_error s = ConversionException (''date field value out of range: '' @ [CHR 0x22] @ s @ [CHR 0x22])"

definition date_from_string :: "bool \<Rightarrow> string \<Rightarrow> int res" where
  "date_from_string strict s = (case try_convert_date strict s of
     Inl ERROR_INCORRECT_FORMAT \<Rightarrow> Inl (format_error s)
   | Inl ERROR_RANGE \<Rightarrow> Inl (range_error s)
   | Inr (d, _, _) \<Rightarrow> Inr d)"

subsection \<open>Printing\<close>

text \<open>\<open>DateToStringCast::Length\<close>: the length of the text, the year that is printed, its length, and whether the
  suffix is added.\<close>

definition date_text_length :: "int \<Rightarrow> nat \<times> int \<times> nat \<times> bool" where
  "date_text_length year =
     (let add_bc = year \<le> 0; y = (if add_bc then - year + 1 else year);
          n = 4 + of_bool (10000 \<le> y) + of_bool (100000 \<le> y) + of_bool (1000000 \<le> y) + of_bool (10000000 \<le> y)
      in (6 + (if add_bc then 5 else 0) + n, y, n, add_bc))"

definition format_component :: "int \<Rightarrow> string" where
  "format_component n = CHR ''-'' # (if n < 10 then [CHR ''0'', digit (nat n)] else digit_pair (nat n))"

definition date_format :: "int \<Rightarrow> int \<Rightarrow> int \<Rightarrow> nat \<Rightarrow> bool \<Rightarrow> string res" where
  "date_format year month day year_length add_bc =
     (let digits = format_unsigned (nat year) []
      in if year_length < length digits then Inl (Undefined ''write before the buffer'')
         else Inr (pad_zeros year_length digits @ format_component month @ format_component day @
           (if add_bc then '' (BC)'' else [])))"

definition date_to_string :: "int \<Rightarrow> string res" where
  "date_to_string d =
     (if d = date_infinity then Inr ''infinity''
      else if d = date_ninfinity then Inr ''-infinity''
      else let (year, month, day) = date_convert d; (len, y, n, add_bc) = date_text_length year
           in date_format y month day n add_bc)"

text \<open>\<open>Date::Format\<close>\<close>

definition date_parts_to_string :: "int \<Rightarrow> int \<Rightarrow> int \<Rightarrow> string res" where
  "date_parts_to_string year month day = bindR (from_date year month day) date_to_string"

subsection \<open>Reading digits\<close>

lemma not_digit [simp]: "\<not> is_digit (CHR ''-'')" "\<not> is_digit (CHR '' '')" "\<not> is_digit (CHR ''i'')"
  by (simp_all add: is_digit_def char_code_def)

lemma space_not_digit: "character_is_space c \<Longrightarrow> \<not> is_digit c"
  by (auto simp: character_is_space_def is_digit_def char_code_def)

lemma digit_not_space [simp]: "is_digit c \<Longrightarrow> \<not> character_is_space c" "is_digit c \<Longrightarrow> c \<noteq> CHR ''-''"
  using space_not_digit by auto

lemma digit_value_digit [simp]: "n < 10 \<Longrightarrow> digit_value (digit n) = int n"
  by (simp add: digit_value_def)

lemma digits_val_Cons: "digits_val (c # ds) = digit_value c * 10 ^ length ds + digits_val ds"
  using digits_val_append [of "[c]" ds] by (simp add: digits_val_def digit_value_def)

lemma digit_value_bounds: "is_digit c \<Longrightarrow> 0 \<le> digit_value c \<and> digit_value c \<le> 9"
  by (auto simp: is_digit_def digit_value_def)

lemma parse_year_digits:
  assumes "list_all is_digit ds" "0 \<le> y" "y < 10 ^ a" "a + length ds \<le> 9" "\<not> is_digit c"
  shows "parse_year (ds @ c # r) y n = Some (y * 10 ^ length ds + digits_val ds, n + length ds, c # r)"
  using assms(1-4)
proof (induction ds arbitrary: y n a)
  case Nil
  then show ?case using assms(5) by (simp add: digits_val_def)
next
  case (Cons d ds)
  have d: "is_digit d" "0 \<le> digit_value d" "digit_value d \<le> 9" using Cons.prems(1) digit_value_bounds by auto
  have "(10 :: int) ^ a \<le> 10 ^ 8" using Cons.prems(4) by (intro power_increasing) simp_all
  then have "y < 100000000" using Cons.prems(3) by simp
  moreover have "digit_value d + y * 10 < 10 ^ Suc a" using Cons.prems(3) d(3) by simp
  then have "parse_year (ds @ c # r) (digit_value d + y * 10) (Suc n) =
      Some ((digit_value d + y * 10) * 10 ^ length ds + digits_val ds, Suc n + length ds, c # r)"
    using Cons.prems d(2) by (intro Cons.IH [of _ "Suc a"]) simp_all
  ultimately show ?case using d(1) by (simp add: digits_val_Cons algebra_simps)
qed

lemma zero_character [simp]: "is_digit (CHR ''0'')" "digit_value (CHR ''0'') = 0"
  by (simp_all add: is_digit_def digit_value_def char_code_def)

lemma parse_component:
  assumes "0 \<le> k" "k < 100"
  shows "\<exists>t. format_component k = CHR ''-'' # t \<and> t \<noteq> [] \<and> parse_double_digit (t @ r) = Some (k, r)"
proof (cases "k < 10")
  case True
  then show ?thesis using assms by (simp add: format_component_def)
next
  case False
  have "int (nat k mod 10) + int (nat k div 10) * 10 = k" using assms(1) by (simp add: zdiv_int zmod_int)
  moreover have "nat k div 10 < 10" using assms by linarith
  ultimately show ?thesis using False by (simp add: format_component_def digit_pair_def)
qed

lemma drop_spaces: "list_all character_is_space pre \<Longrightarrow> dropWhile character_is_space (pre @ s) = dropWhile character_is_space s"
  by (induction pre) auto

lemma all_spaces: "list_all character_is_space pre \<Longrightarrow> dropWhile character_is_space pre = []"
  by (simp add: list_all_iff)

subsection \<open>Every printed date is read back\<close>

text \<open>The years that 32 bits of days reach.\<close>

lemma year_bounds:
  assumes "date_convert n = (y, m, d)" "in_int32 n"
  shows "- 9999999 < y" "y < 9999999"
proof -
  have c: "calendar y m d" "day_number y m d = n" using assms(1) by (simp_all add: date_convert_iff)
  have in_year: "year_start y \<le> n" "n < year_start (y + 1)" using day_number_in_year [OF c(1)] c(2) year_start_step [of y] by auto
  have z: "year_start 1970 = 0" by (simp add: year_start_def)
  show "y < 9999999"
  proof (rule ccontr)
    assume "\<not> y < 9999999"
    then have "year_start 1970 + 365 * (y - 1970) \<le> year_start y" using year_start_lower [of "y - 1970" 1970] by simp
    then show False using in_year assms(2) z \<open>\<not> y < 9999999\<close> by (simp add: in_int32_def)
  qed
  show "- 9999999 < y"
  proof (rule ccontr)
    assume "\<not> - 9999999 < y"
    then have "year_start (y + 1) + 365 * (1969 - y) \<le> year_start 1970" using year_start_lower [of "1969 - y" "y + 1"] by simp
    then show False using in_year assms(2) z \<open>\<not> - 9999999 < y\<close> by (simp add: in_int32_def)
  qed
qed

lemma year_digits_fit:
  assumes "0 < y" "y < (10 :: int) ^ 8"
  shows "length (show_nat (nat y)) \<le> 4 + of_bool (10000 \<le> y) + of_bool (100000 \<le> y) + of_bool (1000000 \<le> y) + of_bool (10000000 \<le> y)"
    (is "_ \<le> ?n")
proof -
  have "nat y < 10 ^ ?n" using assms by (auto simp: of_bool_def nat_less_iff)
  then show ?thesis by (subst length_show_nat_le) simp_all
qed

lemma lower_bc [simp]: "ascii_lower (CHR ''B'') = CHR ''b''" "ascii_lower (CHR ''C'') = CHR ''c''"
  by code_simp+

lemma bc_suffix_printed:
  assumes "list_all character_is_space post" "0 < y"
  shows "bc_suffix False y (if b then '' (BC)'' @ post else post) = (if b then Inr (- y + 1, post) else Inr (y, post))"
proof (cases b)
  case True
  then show ?thesis using assms(2) by (simp add: bc_suffix_def character_is_space_def)
next
  case False
  have "character_is_space (post ! 1)" if "5 \<le> length post" using that assms(1) by (simp add: list_all_length)
  then have "\<not> (5 \<le> length post \<and> post ! 1 = CHR ''('')" by (auto simp: character_is_space_def char_code_def)
  then show ?thesis using False by (auto simp: bc_suffix_def)
qed

lemma check_end_spaces: "list_all character_is_space post \<Longrightarrow> \<exists>r. check_end strict post = Inr r"
  using space_not_digit by (cases post) (auto simp: check_end_def all_spaces)

lemma convert_printed:
  assumes "date_convert n = (year, m, d)" "in_int32 n" "date_text_length year = (len, y, k, bc)" "list_all character_is_space post"
  shows "\<exists>s. date_format y m d k bc = Inr s \<and> length s = len \<and> s \<noteq> [] \<and> is_digit (hd s) \<and>
    (case try_from_date year m d of None \<Rightarrow> convert_numbers strict False (s @ post) = Inl ERROR_RANGE
     | Some n \<Rightarrow> \<exists>r. convert_numbers strict False (s @ post) = Inr (n, False, r))"
proof -
  have y: "0 < y" "y < 10 ^ 8" "bc = (year \<le> 0)" "year = (if bc then - y + 1 else y)"
    and k: "k = 4 + of_bool (10000 \<le> y) + of_bool (100000 \<le> y) + of_bool (1000000 \<le> y) + of_bool (10000000 \<le> y)"
    and len: "len = 6 + (if bc then 5 else 0) + k"
    using assms(3) year_bounds [OF assms(1,2)] by (auto simp: date_text_length_def Let_def split: if_splits)
  let ?ys = "pad_zeros k (show_nat (nat y))"
  have fits: "length (show_nat (nat y)) \<le> k" unfolding k by (rule year_digits_fit [OF y(1,2)])
  have "list_all is_digit ?ys" using show_nat_digits [of "nat y"] by (auto simp: pad_zeros_def list_all_iff)
  moreover have "4 \<le> k" "k \<le> 8" by (simp_all add: k)
  ultimately have ys: "list_all is_digit ?ys" "length ?ys = k" "digits_val ?ys = y" "4 \<le> k" "k \<le> 8"
    using fits y(1) by (simp_all add: pad_zeros_def digits_val_zeros digits_val_show)
  have c: "calendar year m d" using assms(1) by (simp add: date_convert_iff)
  then have md: "0 \<le> m" "m < 100" "0 \<le> d" "d < 100" using month_days_pos [of m year] by (simp_all add: calendar_def)
  obtain tm where tm: "format_component m = CHR ''-'' # tm" "\<And>r. parse_double_digit (tm @ r) = Some (m, r)"
    using parse_component [OF md(1,2)] by (metis list.inject)
  obtain td where td: "format_component d = CHR ''-'' # td" "td \<noteq> []" "\<And>r. parse_double_digit (td @ r) = Some (d, r)"
    using parse_component [OF md(3,4)] by (metis list.inject)
  let ?bc = "if bc then '' (BC)'' else []"
  let ?s = "?ys @ format_component m @ format_component d @ ?bc"
  have f: "date_format y m d k bc = Inr ?s" using fits by (simp add: date_format_def format_unsigned_show)
  have comp: "length (format_component i) = 3" for i by (simp add: format_component_def digit_pair_def)
  have hd: "?ys \<noteq> []" "is_digit (hd ?ys)" using ys by (cases ?ys; simp)+
  obtain r where r: "check_end strict post = Inr r" using check_end_spaces [OF assms(4)] by blast
  have "convert_day strict False y m (td @ ?bc @ post) = (case try_from_date year m d of None \<Rightarrow> Inl ERROR_RANGE | Some n \<Rightarrow> Inr (n, False, r))"
    using td(3) [of "?bc @ post"] bc_suffix_printed [OF assms(4) y(1), of bc] r y(4) by (cases bc) (simp_all add: convert_day_def)
  moreover have "parse_year (?ys @ CHR ''-'' # tm @ CHR ''-'' # td @ ?bc @ post) 0 0 = Some (y, k, CHR ''-'' # tm @ CHR ''-'' # td @ ?bc @ post)"
    using parse_year_digits [OF ys(1), of 0 0 "CHR ''-''"] ys by simp
  ultimately have "convert_numbers strict False (?s @ post) = (case try_from_date year m d of None \<Rightarrow> Inl ERROR_RANGE | Some n \<Rightarrow> Inr (n, False, r))"
    using ys(4) tm td(1,2) by (simp add: convert_numbers_def)
  then show ?thesis using f hd len ys(2) comp by (intro exI [of _ ?s]) (auto split: option.split)
qed

lemma try_convert_digits:
  assumes "list_all character_is_space pre" "s \<noteq> []" "is_digit (hd s)"
  shows "try_convert_date strict (pre @ s @ post) = convert_numbers strict False (s @ post)"
proof -
  obtain c t where "s = c # t" "is_digit c" using assms(2,3) by (cases s) simp_all
  then show ?thesis using drop_spaces [OF assms(1), of "s @ post"] by (simp add: try_convert_date_def)
qed

lemma special_words:
  "try_convert_date_special (''infinity'' @ post) date_pinf = Some post"
  by (simp add: try_convert_date_special_def date_pinf_def ascii_lower_def char_code_def)

lemma try_convert_infinite:
  assumes "list_all character_is_space pre" "list_all character_is_space post"
  shows "try_convert_date strict (pre @ ''infinity'' @ post) = Inr (date_infinity, True, [])"
    "try_convert_date strict (pre @ ''-infinity'' @ post) = Inr (date_ninfinity, True, [])"
proof -
  have s: "\<not> character_is_space (CHR ''i'')" "\<not> character_is_space (CHR ''-'')" by (simp_all add: character_is_space_def char_code_def)
  show "try_convert_date strict (pre @ ''infinity'' @ post) = Inr (date_infinity, True, [])"
    "try_convert_date strict (pre @ ''-infinity'' @ post) = Inr (date_ninfinity, True, [])"
    using drop_spaces [OF assms(1), of "''infinity'' @ post"] drop_spaces [OF assms(1), of "''-infinity'' @ post"] s
      special_words [of post] all_spaces [OF assms(2)]
    by (simp_all add: try_convert_date_def convert_special_def)
qed

text \<open>C32: A date is printed in exactly the number of characters that are allocated for it, and every printed date,
  the infinite ones included, is parsed back to itself, strictly or not, with any white space around it. The one
  32-bit value before the first date is printed too, as a date that the parser says is out of range.\<close>
theorem date_text_roundtrip:
  assumes "in_int32 n" "list_all character_is_space pre" "list_all character_is_space post"
  shows "\<exists>s. date_to_string n = Inr s \<and>
    date_from_string strict (pre @ s @ post) = (if date_ninfinity \<le> n then Inr n else Inl (range_error (pre @ s @ post))) \<and>
    (n \<notin> {date_infinity, date_ninfinity} \<longrightarrow> length s = fst (date_text_length (fst (date_convert n))))"
proof (cases "n = date_infinity \<or> n = date_ninfinity")
  case True
  then show ?thesis using try_convert_infinite [OF assms(2,3), of strict]
    by (auto simp: date_to_string_def date_from_string_def date_infinity_def date_ninfinity_def)
next
  case False
  obtain y m d where c: "date_convert n = (y, m, d)" by (metis prod_cases3)
  obtain len y' k bc where l: "date_text_length y = (len, y', k, bc)" by (metis prod_cases4)
  obtain s where s: "date_format y' m d k bc = Inr s" "length s = len" "s \<noteq> []" "is_digit (hd s)"
      "case try_from_date y m d of None \<Rightarrow> convert_numbers strict False (s @ post) = Inl ERROR_RANGE
       | Some n \<Rightarrow> \<exists>r. convert_numbers strict False (s @ post) = Inr (n, False, r)"
    using convert_printed [OF c assms(1) l assms(3)] by blast
  have "date_to_string n = Inr s" using False c l s(1) by (simp add: date_to_string_def)
  moreover have "date_from_string strict (pre @ s @ post) = (if date_ninfinity \<le> n then Inr n else Inl (range_error (pre @ s @ post)))"
  proof (cases "date_ninfinity < n")
    case True
    then have "try_from_date y m d = Some n" using c False assms(1) from_date_iff by (simp add: in_int32_def date_infinity_def)
    then show ?thesis using s(5) True try_convert_digits [OF assms(2) s(3,4)] by (auto simp: date_from_string_def)
  next
    case below: False
    have "try_from_date y m d = None"
    proof (cases "try_from_date y m d")
      case (Some n')
      then have "date_convert n' = (y, m, d)" "date_ninfinity < n'" using from_date_iff by blast+
      then show ?thesis using c below by (simp add: date_convert_iff)
    qed
    then show ?thesis using s(5) False below try_convert_digits [OF assms(2) s(3,4)] by (simp add: date_from_string_def)
  qed
  ultimately show ?thesis using s(2) c l by simp
qed

lemma date_text_roundtrip_witness:
  "in_int32 (- 735000) \<and> (\<exists>s. date_to_string (- 735000) = Inr s \<and> date_from_string True ('' '' @ s @ ''  '') = Inr (- 735000))"
proof -
  have "in_int32 (- 735000)" "list_all character_is_space '' ''" "list_all character_is_space ''  ''"
    by (simp_all add: in_int32_def character_is_space_def)
  from date_text_roundtrip [OF this, of True] show ?thesis by (auto simp: in_int32_def date_ninfinity_def)
qed

text \<open>What is parsed is a date.\<close>

lemma parsed_in_range:
  assumes "date_from_string strict s = Inr n"
  shows "date_ninfinity \<le> n" "n \<le> date_infinity"
proof -
  obtain b r where p: "try_convert_date strict s = Inr (n, b, r)"
    using assms by (auto simp: date_from_string_def split: sum.splits date_cast_error.splits)
  have day: "date_ninfinity < n \<and> n < date_infinity" if "convert_day strict neg y m t = Inr (n, b, r)" for neg y m t
    using that by (auto simp: convert_day_def from_date_iff split: option.splits sum.splits)
  have "n \<in> {0, date_infinity, date_ninfinity} \<or> date_ninfinity < n \<and> n < date_infinity"
    using p day
    by (auto simp: try_convert_date_def convert_special_def convert_numbers_def Let_def split: list.splits option.splits if_splits)
  then show "date_ninfinity \<le> n" "n \<le> date_infinity" by (auto simp: date_infinity_def date_ninfinity_def)
qed

end
