(* ===== verification/Integer_Cast.thy ===== *)
theory Integer_Cast
  imports Date_Text
begin

section \<open>Text to integers\<close>

text \<open>
  \<open>TrySimpleIntegerCast\<close> (\<open>src/include/duckdb/common/operator/integer_cast_operator.hpp\<close>), which casts
  text to every integer type of up to 64 bits: white space, signs, underscores, hexadecimal and binary
  numbers, decimals that are rounded, exponents. The template parameter \<open>OP\<close> is a record of its operations,
  a type is its range; \<open>false\<close> is an error. The position is what is left of the text, with whether it has
  left the start. Signed overflow of a power of ten is \<open>Undefined\<close>, unsigned arithmetic wraps.
\<close>

subsection \<open>Types and operations\<close>

record int_kind =
  k_min :: int
  k_max :: int

definition signed_kind :: "nat \<Rightarrow> int_kind" where
  "signed_kind w = \<lparr>k_min = - (2 ^ (w - 1)), k_max = 2 ^ (w - 1) - 1\<rparr>"

definition unsigned_kind :: "nat \<Rightarrow> int_kind" where
  "unsigned_kind w = \<lparr>k_min = 0, k_max = 2 ^ w - 1\<rparr>"

definition in_kind :: "int_kind \<Rightarrow> int \<Rightarrow> bool" where
  "in_kind k i \<longleftrightarrow> k_min k \<le> i \<and> i \<le> k_max k"

text \<open>\<open>IntegerCastData\<close> and \<open>IntegerDecimalCastData\<close>: the last two fields are only used by the latter; the
  number of digits has 16 bits.\<close>

record cast_state =
  c_result :: int
  c_decimal :: int
  c_digits :: int

definition zero_state :: cast_state where
  "zero_state = \<lparr>c_result = 0, c_decimal = 0, c_digits = 0\<rparr>"

definition cast_failed :: "'a res" where
  "cast_failed = Inl (ConversionException ''Could not convert string'')"

record cast_op =
  op_store :: int_kind
  op_decimal :: "int \<Rightarrow> cast_state \<Rightarrow> cast_state res"
  op_exponent :: "bool \<Rightarrow> int \<Rightarrow> cast_state \<Rightarrow> cast_state res"
  op_finalize :: "bool \<Rightarrow> cast_state \<Rightarrow> cast_state res"

definition handle_digit :: "int_kind \<Rightarrow> bool \<Rightarrow> int \<Rightarrow> cast_state \<Rightarrow> cast_state res" where
  "handle_digit k negative d st =
     (if negative then
        if c_result st < (k_min k + d) sdiv 10 then cast_failed else Inr (st\<lparr>c_result := c_result st * 10 - d\<rparr>)
      else
        if c_result st > (k_max k - d) sdiv 10 then cast_failed else Inr (st\<lparr>c_result := c_result st * 10 + d\<rparr>))"

text \<open>\<open>HandleHexDigit\<close> and \<open>HandleBinaryDigit\<close>\<close>

definition handle_based_digit :: "int_kind \<Rightarrow> int \<Rightarrow> int \<Rightarrow> cast_state \<Rightarrow> cast_state res" where
  "handle_based_digit k base d st =
     (if c_result st > (k_max k - d) sdiv base then cast_failed else Inr (st\<lparr>c_result := c_result st * base + d\<rparr>))"

definition simple_op :: "int_kind \<Rightarrow> cast_op" where
  "simple_op k = \<lparr>op_store = k, op_decimal = (\<lambda>_ _. cast_failed), op_exponent = (\<lambda>_ _ _. cast_failed), op_finalize = (\<lambda>_. Inr)\<rparr>"

subsection \<open>Decimals and exponents\<close>

definition decimal_store :: "int_kind \<Rightarrow> int_kind" where
  "decimal_store k = (if k = unsigned_kind 64 then k else signed_kind 64)"

definition decimal_digit :: "int_kind \<Rightarrow> int \<Rightarrow> cast_state \<Rightarrow> cast_state res" where
  "decimal_digit store d st =
     (if c_decimal st > (k_max store - d) sdiv 10 then Inr st
      else Inr (st\<lparr>c_decimal := c_decimal st * 10 + d, c_digits := (c_digits st + 1) mod 65536\<rparr>))"

function shrink_decimal :: "int \<Rightarrow> int \<Rightarrow> int \<times> int" where
  "shrink_decimal dec n = (if 10 < dec then shrink_decimal (dec div 10) ((n - 1) mod 65536) else (dec, n))"
  by auto
termination by (relation "measure (\<lambda>(dec, _). nat dec)") auto

declare shrink_decimal.simps [simp del]

definition checked :: "int_kind \<Rightarrow> int \<Rightarrow> int res" where
  "checked k i = (if in_kind k i then Inr i else cast_failed)"

definition decimal_finalize :: "int_kind \<Rightarrow> bool \<Rightarrow> cast_state \<Rightarrow> cast_state res" where
  "decimal_finalize k negative st = bindR (checked k (c_result st)) (\<lambda>r.
     let (dec, n) = shrink_decimal (c_decimal st) (c_digits st); st = st\<lparr>c_decimal := dec, c_digits := n\<rparr>
     in if n = 1 \<and> 5 \<le> dec then mapR (\<lambda>r. st\<lparr>c_result := r\<rparr>) (checked k (if negative then r - 1 else r + 1))
        else Inr st)"

fun shift_right :: "nat \<Rightarrow> int \<Rightarrow> int \<Rightarrow> int \<times> int" where
  "shift_right 0 r d = (r, d)"
| "shift_right (Suc e) r d =
     (let d' = r smod 10; r' = r sdiv 10 in if r' = 0 \<and> d' = 0 then (r', d') else shift_right e r' d')"

fun scale_up :: "int_kind \<Rightarrow> nat \<Rightarrow> int \<Rightarrow> int res" where
  "scale_up k 0 r = Inr r"
| "scale_up k (Suc e) r = (if r = 0 then Inr r else bindR (checked k (r * 10)) (scale_up k e))"

fun power_of_ten :: "int_kind \<Rightarrow> nat \<Rightarrow> int \<Rightarrow> int res" where
  "power_of_ten k 0 p = Inr p"
| "power_of_ten k (Suc e) p =
     (if in_kind k (p * 10) then power_of_ten k e (p * 10)
      else if k_min k < 0 then Inl (Undefined ''signed integer overflow'')
      else power_of_ten k e (p * 10 mod (k_max k + 1)))"

definition store_digits :: "int_kind \<Rightarrow> int" where
  "store_digits k = (if k_min k < 0 then 19 else 20)"

definition to_int16 :: "int \<Rightarrow> int" where
  "to_int16 i = signed_take_bit 15 i"

text \<open>The decimals that an exponent does not reach, and those it moves before the point.\<close>

definition split_decimal :: "int_kind \<Rightarrow> int \<Rightarrow> int \<Rightarrow> (int \<times> int) res" where
  "split_decimal store e dec =
     (if e < 0 then
        if - e \<le> store_digits store then mapR (\<lambda>p. (dec smod p, dec sdiv p)) (power_of_ten store (nat (- e)) 1)
        else Inr (0, 0)
      else mapR (Pair 0) (scale_up store (nat e) dec))"

definition decimal_exponent :: "int_kind \<Rightarrow> bool \<Rightarrow> int \<Rightarrow> cast_state \<Rightarrow> cast_state res" where
  "decimal_exponent k negative e st =
     (let store = decimal_store k in
      if e < 0 then
        (let (r, d) = shift_right (nat (- e)) (c_result st) (c_decimal st)
         in decimal_finalize k negative \<lparr>c_result = r, c_decimal = \<bar>d\<bar>, c_digits = 1\<rparr>)
      else bindR (scale_up store (nat e) (c_result st)) (\<lambda>r.
        if c_decimal st = 0 then decimal_finalize k negative (st\<lparr>c_result := r\<rparr>)
        else bindR (split_decimal store (to_int16 (e - c_digits st)) (c_decimal st)) (\<lambda>(rest, dec).
          bindR (checked store (if negative then r - dec else r + dec)) (\<lambda>r.
            decimal_finalize k negative \<lparr>c_result = r, c_decimal = rest, c_digits = (c_digits st - e) mod 65536\<rparr>))))"

definition decimal_op :: "int_kind \<Rightarrow> cast_op" where
  "decimal_op k = \<lparr>op_store = decimal_store k, op_decimal = decimal_digit (decimal_store k),
     op_exponent = decimal_exponent k, op_finalize = decimal_finalize k\<rparr>"

subsection \<open>The loops\<close>

text \<open>What follows a digit: an underscore is skipped, but only before another digit.\<close>

definition skip_underscore :: "(char \<Rightarrow> bool) \<Rightarrow> string \<Rightarrow> string res" where
  "skip_underscore is_dig s = (case s of
     c # s' \<Rightarrow> if c = CHR ''_'' then (if s' = [] \<or> \<not> is_dig (hd s') then cast_failed else Inr s') else Inr s
   | [] \<Rightarrow> Inr [])"

lemma skip_underscore_length: "skip_underscore is_dig s = Inr s' \<Longrightarrow> length s' \<le> length s"
  by (cases s) (auto simp: skip_underscore_def cast_failed_def split: if_splits)

text \<open>The digits behind the point: what is left, whether there was one.\<close>

function cast_decimals :: "cast_op \<Rightarrow> string \<Rightarrow> bool \<Rightarrow> cast_state \<Rightarrow> (string \<times> bool \<times> cast_state) res" where
  "cast_decimals op [] seen st = Inr ([], seen, st)"
| "cast_decimals op (c # s) seen st =
     (if \<not> is_digit c then Inr (c # s, seen, st)
      else case op_decimal op (digit_value c) st of
        Inl e \<Rightarrow> Inl e
      | Inr st' \<Rightarrow> (case skip_underscore is_digit s of Inl e \<Rightarrow> Inl e | Inr s' \<Rightarrow> cast_decimals op s' True st'))"
  by pat_completeness auto
termination by (relation "measure (\<lambda>(_, s, _, _). length s)") (auto dest: skip_underscore_length)

text \<open>What may follow the number: white space, or an exponent.\<close>

definition cast_tail ::
    "cast_op \<Rightarrow> bool \<Rightarrow> bool \<Rightarrow> (string \<Rightarrow> cast_state \<Rightarrow> cast_state res) \<Rightarrow> string \<Rightarrow> bool \<Rightarrow> cast_state \<Rightarrow> cast_state res" where
  "cast_tail op negative strict on_exponent s started st =
     (if character_is_space (hd s) then (if list_all character_is_space s then op_finalize op negative st else cast_failed)
      else if hd s = CHR ''e'' \<or> hd s = CHR ''E'' then
        (if strict \<or> \<not> started \<or> tl s = [] then cast_failed else on_exponent (tl s) st)
      else cast_failed)"

definition cast_point ::
    "cast_op \<Rightarrow> bool \<Rightarrow> bool \<Rightarrow> (string \<Rightarrow> cast_state \<Rightarrow> cast_state res) \<Rightarrow> string \<Rightarrow> bool \<Rightarrow> cast_state \<Rightarrow> cast_state res" where
  "cast_point op negative strict on_exponent s started st =
     (if hd s \<noteq> CHR ''.'' then cast_tail op negative strict on_exponent s started st
      else if strict then cast_failed
      else bindR (cast_decimals op (tl s) False st) (\<lambda>(r, seen, st).
        if \<not> started \<and> \<not> seen then cast_failed
        else if r = [] then op_finalize op negative st
        else cast_tail op negative strict on_exponent r True st))"

function cast_digits ::
    "cast_op \<Rightarrow> bool \<Rightarrow> bool \<Rightarrow> (string \<Rightarrow> cast_state \<Rightarrow> cast_state res) \<Rightarrow> string \<Rightarrow> bool \<Rightarrow> cast_state \<Rightarrow> cast_state res" where
  "cast_digits op negative strict on_exponent [] started st =
     bindR (op_finalize op negative st) (\<lambda>st. if started then Inr st else cast_failed)"
| "cast_digits op negative strict on_exponent (c # s) started st =
     (if \<not> is_digit c then cast_point op negative strict on_exponent (c # s) started st
      else case handle_digit (op_store op) negative (digit_value c) st of
        Inl e \<Rightarrow> Inl e
      | Inr st' \<Rightarrow> (case (if strict then Inr s else skip_underscore is_digit s) of
            Inl e \<Rightarrow> Inl e
          | Inr s' \<Rightarrow> cast_digits op negative strict on_exponent s' True st'))"
  by pat_completeness auto
termination
  by (relation "measure (\<lambda>(_, _, _, _, s, _, _). length s)") (auto dest: skip_underscore_length split: if_splits)

text \<open>\<open>IntegerCastLoop\<close>, with the handler of an exponent; that of an exponent itself has none.\<close>

definition integer_cast_loop ::
    "cast_op \<Rightarrow> bool \<Rightarrow> bool \<Rightarrow> (string \<Rightarrow> cast_state \<Rightarrow> cast_state res) \<Rightarrow> string \<Rightarrow> cast_state \<Rightarrow> cast_state res" where
  "integer_cast_loop op negative strict on_exponent buf st =
     (if negative then cast_digits op True strict on_exponent (tl buf) False st
      else if hd buf = CHR ''+'' then
        (if strict then cast_failed else cast_digits op False strict on_exponent (tl buf) False st)
      else cast_digits op False strict on_exponent buf False st)"

definition exponent_handler :: "cast_op \<Rightarrow> bool \<Rightarrow> bool \<Rightarrow> bool \<Rightarrow> string \<Rightarrow> cast_state \<Rightarrow> cast_state res" where
  "exponent_handler op negative strict allow_exponent s st =
     (if \<not> allow_exponent then cast_failed
      else bindR (integer_cast_loop (simple_op (signed_kind 16)) (hd s = CHR ''-'') strict (\<lambda>_ _. cast_failed) s zero_state)
        (\<lambda>e. op_exponent op negative (c_result e) st))"

definition is_hex :: "char \<Rightarrow> bool" where
  "is_hex c \<longleftrightarrow> is_digit c \<or> 97 \<le> char_code c \<and> char_code c \<le> 102 \<or> 65 \<le> char_code c \<and> char_code c \<le> 70"

definition hex_value :: "char \<Rightarrow> int" where
  "hex_value c = (let c = ascii_lower c in if 97 \<le> char_code c then int (char_code c) - 97 + 10 else digit_value c)"

definition is_bit :: "char \<Rightarrow> bool" where
  "is_bit c \<longleftrightarrow> c = CHR ''0'' \<or> c = CHR ''1''"

text \<open>\<open>IntegerHexCastLoop\<close> and \<open>IntegerBinaryCastLoop\<close>\<close>

function based_cast_loop ::
    "cast_op \<Rightarrow> (char \<Rightarrow> bool) \<Rightarrow> (char \<Rightarrow> int) \<Rightarrow> int \<Rightarrow> string \<Rightarrow> bool \<Rightarrow> cast_state \<Rightarrow> cast_state res" where
  "based_cast_loop op is_dig val base [] started st =
     bindR (op_finalize op False st) (\<lambda>st. if started then Inr st else cast_failed)"
| "based_cast_loop op is_dig val base (c # s) started st =
     (if \<not> is_dig c then cast_failed
      else case skip_underscore is_dig s of
        Inl e \<Rightarrow> Inl e
      | Inr s' \<Rightarrow> (case handle_based_digit (op_store op) base (val c) st of
            Inl e \<Rightarrow> Inl e
          | Inr st' \<Rightarrow> based_cast_loop op is_dig val base s' True st'))"
  by pat_completeness auto
termination by (relation "measure (\<lambda>(_, _, _, _, s, _, _). length s)") (auto dest: skip_underscore_length)

definition try_integer_cast :: "cast_op \<Rightarrow> bool \<Rightarrow> bool \<Rightarrow> bool \<Rightarrow> string \<Rightarrow> cast_state res" where
  "try_integer_cast op is_signed allow_exponent strict text =
     (case dropWhile character_is_space text of
        [] \<Rightarrow> cast_failed
      | c # s \<Rightarrow>
          if c = CHR ''-'' then
            (if \<not> is_signed \<and> \<not> list_all (\<lambda>c. c = CHR ''0'') s then cast_failed
             else integer_cast_loop op True strict (exponent_handler op True strict allow_exponent) (c # s) zero_state)
          else if c = CHR ''0'' \<and> s \<noteq> [] \<and> (hd s = CHR ''x'' \<or> hd s = CHR ''X'') then
            based_cast_loop op is_hex hex_value 16 (tl s) False zero_state
          else if c = CHR ''0'' \<and> s \<noteq> [] \<and> (hd s = CHR ''b'' \<or> hd s = CHR ''B'') then
            based_cast_loop op is_bit digit_value 2 (tl s) False zero_state
          else if c = CHR ''0'' \<and> s \<noteq> [] \<and> strict \<and> is_digit (hd s) then cast_failed
          else integer_cast_loop op False strict (exponent_handler op False strict allow_exponent) (c # s) zero_state)"

definition try_simple_integer_cast :: "int_kind \<Rightarrow> bool \<Rightarrow> bool \<Rightarrow> string \<Rightarrow> int res" where
  "try_simple_integer_cast k is_signed strict text =
     (case try_integer_cast (simple_op k) is_signed False strict text of
        Inr st \<Rightarrow> Inr (c_result st)
      | Inl _ \<Rightarrow> mapR c_result (try_integer_cast (decimal_op k) is_signed True strict text))"

subsection \<open>What a cast returns\<close>

definition with_sign :: "bool \<Rightarrow> int \<Rightarrow> int" where
  "with_sign negative m = (if negative then - m else m)"

abbreviation machine_width :: "nat \<Rightarrow> bool" where
  "machine_width w \<equiv> w \<in> {8, 16, 32, 64}"

lemma mapR_failed [simp]: "mapR f cast_failed = cast_failed"
  by (simp add: cast_failed_def)

lemma bindR_failed [simp]: "bindR cast_failed f = cast_failed"
  by (simp add: cast_failed_def)

lemma failed_not_Inr [simp]: "cast_failed \<noteq> Inr x" "Inr x \<noteq> cast_failed"
  by (simp_all add: cast_failed_def)

lemma case_failed [simp]: "(case cast_failed of Inl e \<Rightarrow> Inl e | Inr x \<Rightarrow> f x) = cast_failed"
  by (simp add: cast_failed_def)

lemma case_failed_retry [simp]: "(case cast_failed of Inr x \<Rightarrow> f x | Inl e \<Rightarrow> y) = y"
  by (simp add: cast_failed_def)

lemma int_kind_simps [simp]: "k_min (signed_kind w) = - (2 ^ (w - 1))" "k_max (signed_kind w) = 2 ^ (w - 1) - 1"
  by (simp_all add: signed_kind_def)

lemma machine_width_bound: "machine_width w \<Longrightarrow> 128 \<le> (2 :: int) ^ (w - 1)"
  by auto

lemma in_kind_with_sign_mono:
  "in_kind (signed_kind w) (with_sign negative b) \<Longrightarrow> 0 \<le> a \<Longrightarrow> a \<le> b \<Longrightarrow> in_kind (signed_kind w) (with_sign negative a)"
  by (auto simp: in_kind_def with_sign_def split: if_splits)

lemma in_kind_wider: "machine_width w \<Longrightarrow> in_kind (signed_kind w) i \<Longrightarrow> in_kind (signed_kind 64) i"
  by (auto simp: in_kind_def)

lemma sdiv_pos_less: "0 \<le> (a :: int) \<Longrightarrow> a sdiv 10 < x \<longleftrightarrow> a < x * 10"
  by (auto simp: signed_divide_int_def sgn_if)

lemma sdiv_neg_less: "(a :: int) \<le> 0 \<Longrightarrow> x < a sdiv 10 \<longleftrightarrow> x * 10 < a"
  by (auto simp: signed_divide_int_def sgn_if)

text \<open>The test before a digit is taken is exact: it refuses the digits that leave the range.\<close>

lemma handle_digit_exact:
  assumes "machine_width w" "0 \<le> d" "d \<le> 9" "c_result st = with_sign negative m" "0 \<le> m"
  shows "handle_digit (signed_kind w) negative d st =
    (if in_kind (signed_kind w) (with_sign negative (m * 10 + d)) then Inr (st\<lparr>c_result := with_sign negative (m * 10 + d)\<rparr>)
     else cast_failed)"
proof -
  have b: "128 \<le> (2 :: int) ^ (w - 1)" by (rule machine_width_bound [OF assms(1)])
  have "(- (2 ^ (w - 1)) + d) sdiv 10 > - m \<longleftrightarrow> - m * 10 < - (2 ^ (w - 1)) + d"
    by (rule sdiv_neg_less) (use b assms(3) in linarith)
  moreover have "((2 ^ (w - 1) - 1) - d) sdiv 10 < m \<longleftrightarrow> (2 ^ (w - 1) - 1) - d < m * 10"
    by (rule sdiv_pos_less) (use b assms(3) in linarith)
  ultimately show ?thesis using assms b by (auto simp: handle_digit_def in_kind_def with_sign_def)
qed

text \<open>What ends a run of digits.\<close>

abbreviation stops :: "string \<Rightarrow> bool" where
  "stops s \<equiv> s = [] \<or> \<not> is_digit (hd s) \<and> hd s \<noteq> CHR ''_''"

lemma skip_underscore_digits:
  assumes "list_all is_digit ds" "stops rest"
  shows "skip_underscore is_digit (ds @ rest) = Inr (ds @ rest)"
proof -
  have "\<not> is_digit (CHR ''_'')" by (simp add: is_digit_def char_code_def)
  then have "ds @ rest = [] \<or> hd (ds @ rest) \<noteq> CHR ''_''" using assms by (cases ds) auto
  then show ?thesis by (cases "ds @ rest") (auto simp: skip_underscore_def)
qed

lemma digits_val_nonneg: "list_all is_digit ds \<Longrightarrow> 0 \<le> digits_val ds"
  by (induction ds rule: rev_induct) (auto simp: digits_val_snoc digits_val_def is_digit_def char_code_def)

lemma cast_digits_exact:
  assumes "machine_width w" "op_store op = signed_kind w" "list_all is_digit ds"
    "stops rest" "c_result st = with_sign negative m" "0 \<le> m"
  shows "in_kind (signed_kind w) (with_sign negative m) \<Longrightarrow> cast_digits op negative False h (ds @ rest) started st =
    (let r = with_sign negative (m * 10 ^ length ds + digits_val ds)
     in if in_kind (signed_kind w) r then cast_digits op negative False h rest (started \<or> ds \<noteq> []) (st\<lparr>c_result := r\<rparr>)
        else cast_failed)"
  using assms(3,5,6)
proof (induction ds arbitrary: m st started)
  case Nil
  then have same: "st\<lparr>c_result := with_sign negative m\<rparr> = st" by (cases st) simp
  show ?case using Nil(1) by (simp add: digits_val_def same)
next
  case (Cons d ds)
  have d: "is_digit d" "0 \<le> digit_value d" "digit_value d \<le> 9" using Cons.prems(2) digit_value_bounds by auto
  let ?m = "m * 10 + digit_value d" and ?n = "m * 10 ^ length (d # ds) + digits_val (d # ds)"
  have n: "?n = ?m * 10 ^ length ds + digits_val ds" by (simp add: digits_val_Cons algebra_simps)
  have pos: "0 \<le> ?m" using d Cons.prems(4) by simp
  have skip: "skip_underscore is_digit (ds @ rest) = Inr (ds @ rest)"
    using Cons.prems(2) assms(4) by (simp add: skip_underscore_digits)
  note step = handle_digit_exact [OF assms(1) d(2,3) Cons.prems(3,4)]
  show ?case
  proof (cases "in_kind (signed_kind w) (with_sign negative ?m)")
    case True
    then show ?thesis
      using Cons.IH [of ?m "st\<lparr>c_result := with_sign negative ?m\<rparr>" True] Cons.prems(2) d pos
      by (simp add: assms(2) step skip n [simplified] Let_def)
  next
    case False
    have "0 \<le> digits_val ds" using Cons.prems(2) by (simp add: digits_val_nonneg)
    then have "?m \<le> ?n" using pos n mult_left_mono [of 1 "10 ^ length ds" ?m] by simp
    then have "\<not> in_kind (signed_kind w) (with_sign negative ?n)" using False pos in_kind_with_sign_mono by blast
    then show ?thesis using False d by (simp add: assms(2) step Let_def)
  qed
qed

subsection \<open>Decimals\<close>

definition decimal_step :: "int_kind \<Rightarrow> int \<Rightarrow> cast_state \<Rightarrow> cast_state" where
  "decimal_step store d st = (if c_decimal st > (k_max store - d) sdiv 10 then st
     else st\<lparr>c_decimal := c_decimal st * 10 + d, c_digits := (c_digits st + 1) mod 65536\<rparr>)"

lemma cast_decimals_fold:
  assumes "list_all is_digit fs" "stops rest"
  shows "cast_decimals (decimal_op k) (fs @ rest) seen st =
    Inr (rest, seen \<or> fs \<noteq> [], fold (\<lambda>c. decimal_step (decimal_store k) (digit_value c)) fs st)"
  using assms(1)
proof (induction fs arbitrary: seen st)
  case Nil
  then show ?case using assms(2) by (cases rest) auto
next
  case (Cons c fs)
  have "skip_underscore is_digit (fs @ rest) = Inr (fs @ rest)"
    using Cons.prems assms(2) by (simp add: skip_underscore_digits)
  moreover have "op_decimal (decimal_op k) d st = Inr (decimal_step (decimal_store k) d st)" for d
    by (simp add: decimal_op_def decimal_digit_def decimal_step_def)
  ultimately show ?case using Cons by simp
qed

text \<open>Behind the point at most the last digits are dropped: the first one is where the number of digits says.\<close>

lemma decimal_first_digit:
  assumes "list_all is_digit fs" "fs \<noteq> []" "length fs < 65536" "c_decimal st = 0" "c_digits st = 0"
  shows "\<exists>n dec. 1 \<le> n \<and> n \<le> length fs \<and> 0 \<le> dec \<and> dec div 10 ^ (n - 1) = digit_value (hd fs) \<and>
    fold (\<lambda>c. decimal_step (signed_kind 64) (digit_value c)) fs st = st\<lparr>c_decimal := dec, c_digits := int n\<rparr>"
  using assms(1-3)
proof (induction fs rule: rev_induct)
  case (snoc d fs)
  have d: "0 \<le> digit_value d" "digit_value d \<le> 9" using snoc.prems(1) digit_value_bounds by auto
  show ?case
  proof (cases "fs = []")
    case True
    then show ?thesis using d assms(4,5)
      by (intro exI [of _ 1] exI [of _ "digit_value d"])
        (simp add: decimal_step_def signed_divide_int_def sgn_if not_less)
  next
    case False
    then obtain n dec where IH: "1 \<le> n" "n \<le> length fs" "0 \<le> dec" "dec div 10 ^ (n - 1) = digit_value (hd fs)"
        "fold (\<lambda>c. decimal_step (signed_kind 64) (digit_value c)) fs st = st\<lparr>c_decimal := dec, c_digits := int n\<rparr>"
      using snoc.IH snoc.prems by auto
    have "10 ^ n = 10 * (10 :: int) ^ (n - 1)" using IH(1) by (cases n) simp_all
    then have "(dec * 10 + digit_value d) div 10 ^ n = dec div 10 ^ (n - 1)" using d
      by (simp add: zdiv_zmult2_eq)
    then have grow: "1 \<le> Suc n \<and> Suc n \<le> length (fs @ [d]) \<and> 0 \<le> dec * 10 + digit_value d \<and>
        (dec * 10 + digit_value d) div 10 ^ (Suc n - 1) = digit_value (hd (fs @ [d]))"
      using IH d False by simp
    have "(int n + 1) mod 65536 = int (Suc n)" using IH(2) snoc.prems(3) by simp
    show ?thesis
    proof (cases "dec > (k_max (signed_kind 64) - digit_value d) sdiv 10")
      case True
      then show ?thesis using IH(1-4) False
        by (intro exI [of _ n] exI [of _ dec])
          (simp add: IH(5) decimal_step_def [of _ "digit_value d"] del: int_kind_simps)
    next
      case less: False
      then show ?thesis using grow \<open>(int n + 1) mod 65536 = int (Suc n)\<close>
        by (intro exI [of _ "Suc n"] exI [of _ "dec * 10 + digit_value d"])
          (simp add: IH(5) decimal_step_def [of _ "digit_value d"] del: int_kind_simps)
    qed
  qed
qed simp

lemma div_less_bound:
  fixes a b k :: int
  assumes "a < k * b" "0 < b"
  shows "a div b < k"
proof (rule ccontr)
  assume "\<not> a div b < k"
  then have "k * b \<le> a div b * b" using assms(2) by (intro mult_right_mono) simp_all
  moreover have "0 \<le> a mod b" using assms(2) by simp
  ultimately show False using assms(1) div_mult_mod_eq [of a b] by linarith
qed

text \<open>Dividing the decimals until one digit is left finds it, and if there are others it does not round.\<close>

lemma shrink_decimal_first:
  assumes "0 \<le> dec" "1 \<le> n" "n < 65536" "dec div 10 ^ (n - 1) = c" "c \<le> 9"
  shows "case shrink_decimal dec (int n) of (d, n') \<Rightarrow> n' = 1 \<and> 5 \<le> d \<longleftrightarrow> 5 \<le> c"
  using assms
proof (induction "nat dec" arbitrary: dec n rule: less_induct)
  case less
  show ?case
  proof (cases "10 < dec")
    case True
    then have n: "2 \<le> n" using less.prems by (cases "n = 1") auto
    then have p: "10 ^ (n - 1) = 10 * (10 :: int) ^ (n - 2)" by (cases n; cases "n - 1") simp_all
    have "dec div 10 div 10 ^ (n - 2) = c" using less.prems(4) unfolding p by (simp add: zdiv_zmult2_eq)
    then have "case shrink_decimal (dec div 10) (int (n - 1)) of (d, n') \<Rightarrow> n' = 1 \<and> 5 \<le> d \<longleftrightarrow> 5 \<le> c"
      using less.hyps [of "dec div 10" "n - 1"] less.prems n True by (simp add: numeral_2_eq_2)
    moreover have "(int n - 1) mod 65536 = int (n - 1)" using n less.prems(3) by simp
    ultimately show ?thesis using True by (subst shrink_decimal.simps) simp
  next
    case False
    have "c < 5" if "n \<noteq> 1"
    proof -
      have "(10 :: int) ^ 1 \<le> 10 ^ (n - 1)" using that less.prems(2) by (intro power_increasing) auto
      then have "dec < 5 * 10 ^ (n - 1)" using False by simp
      then have "dec div 10 ^ (n - 1) < 5" by (rule div_less_bound) simp
      then show ?thesis using less.prems(4) by simp
    qed
    then show ?thesis using False less.prems by (subst shrink_decimal.simps) (cases "n = 1"; auto)
  qed
qed

definition up :: "string \<Rightarrow> int" where
  "up fs = (if fs \<noteq> [] \<and> 5 \<le> digit_value (hd fs) then 1 else 0)"

lemma decimal_finalize_rounds:
  assumes "c_result st = with_sign negative m" "0 \<le> m"
    and shrunk: "case shrink_decimal (c_decimal st) (c_digits st) of (d, n) \<Rightarrow> n = 1 \<and> 5 \<le> d \<longleftrightarrow> u = 1" and "u = 0 \<or> u = 1"
  shows "mapR c_result (decimal_finalize (signed_kind w) negative st) =
    checked (signed_kind w) (with_sign negative (m + u))"
proof (cases "in_kind (signed_kind w) (with_sign negative m)")
  case True
  then show ?thesis using assms
    by (auto simp: decimal_finalize_def checked_def with_sign_def split: prod.splits)
next
  case False
  then have "\<not> in_kind (signed_kind w) (with_sign negative (m + u))"
    using assms(2,4) in_kind_with_sign_mono [of w negative "m + u" m] by auto
  then show ?thesis using False assms(1) by (simp add: decimal_finalize_def checked_def)
qed

lemma cast_decimals_round:
  assumes "list_all is_digit fs" "length fs < 65536" "c_decimal st = 0" "c_digits st = 0" "c_result st = with_sign negative m" "0 \<le> m"
  shows "mapR c_result (decimal_finalize (signed_kind w) negative
      (fold (\<lambda>c. decimal_step (signed_kind 64) (digit_value c)) fs st)) = checked (signed_kind w) (with_sign negative (m + up fs))"
proof (cases "fs = []")
  case True
  have "shrink_decimal 0 0 = (0, 0)" by (subst shrink_decimal.simps) simp
  then show ?thesis using True assms decimal_finalize_rounds [of st negative m 0 w] by (simp add: up_def)
next
  case False
  then obtain n dec where f: "1 \<le> n" "n \<le> length fs" "0 \<le> dec" "dec div 10 ^ (n - 1) = digit_value (hd fs)"
      "fold (\<lambda>c. decimal_step (signed_kind 64) (digit_value c)) fs st = st\<lparr>c_decimal := dec, c_digits := int n\<rparr>"
    using decimal_first_digit [OF assms(1) _ assms(2-4)] by blast
  have "digit_value (hd fs) \<le> 9" using False assms(1) digit_value_bounds by (cases fs) auto
  then have "case shrink_decimal dec (int n) of (d, n') \<Rightarrow> n' = 1 \<and> 5 \<le> d \<longleftrightarrow> 5 \<le> digit_value (hd fs)"
    using shrink_decimal_first [of dec n "digit_value (hd fs)"] f assms(2) by simp
  then show ?thesis unfolding f(5) using assms(5,6) False
    by (intro decimal_finalize_rounds) (auto simp: up_def)
qed

subsection \<open>The whole text\<close>

text \<open>The text of a number, and the integer nearest to it: \<open>\<lfloor>x + 1/2\<rfloor>\<close> of its absolute value.\<close>

definition number_text :: "string \<Rightarrow> string \<Rightarrow> bool \<Rightarrow> string \<Rightarrow> string" where
  "number_text sign ds point fs = sign @ ds @ (if point then CHR ''.'' # fs else [])"

abbreviation optional_sign :: "string \<Rightarrow> bool" where
  "optional_sign sign \<equiv> sign \<in> {[], ''-'', ''+''}"

definition nearest :: "bool \<Rightarrow> string \<Rightarrow> string \<Rightarrow> int" where
  "nearest negative ds fs = with_sign negative ((2 * digits_val (ds @ fs) + 10 ^ length fs) div (2 * 10 ^ length fs))"

lemma digits_val_less: "list_all is_digit ds \<Longrightarrow> digits_val ds < 10 ^ length ds"
proof (induction ds)
  case (Cons d ds)
  then have "digit_value d * 10 ^ length ds \<le> 9 * 10 ^ length ds"
    using digit_value_bounds by (intro mult_right_mono) auto
  moreover have "digits_val ds < 10 ^ length ds" using Cons by simp
  ultimately have "digit_value d * 10 ^ length ds + digits_val ds < 10 * 10 ^ length ds" by linarith
  then show ?case by (simp add: digits_val_Cons)
qed (simp add: digits_val_def)

lemma double_le: "5 * q \<le> x \<Longrightarrow> 0 \<le> r \<Longrightarrow> 10 * q \<le> 2 * (x + r)" for q x r :: int
  by presburger

lemma double_less: "x \<le> 4 * q \<Longrightarrow> r < q \<Longrightarrow> 2 * (x + r) < 10 * q" for q x r :: int
  by presburger

lemma nearest_up:
  assumes "list_all is_digit fs"
  shows "nearest negative ds fs = with_sign negative (digits_val ds + up fs)"
proof -
  let ?P = "10 ^ length fs :: int"
  have F: "0 \<le> digits_val fs" "digits_val fs < ?P" using assms by (simp_all add: digits_val_nonneg digits_val_less)
  have "(2 * digits_val (ds @ fs) + ?P) div (2 * ?P) = (2 * digits_val fs + ?P + digits_val ds * (2 * ?P)) div (2 * ?P)"
    by (simp add: digits_val_append algebra_simps)
  also have "\<dots> = digits_val ds + (2 * digits_val fs + ?P) div (2 * ?P)" by simp
  also have "(2 * digits_val fs + ?P) div (2 * ?P) = (if ?P \<le> 2 * digits_val fs then 1 else 0)"
    using F by (auto intro!: div_pos_pos_trivial int_div_pos_eq [of _ _ _ "2 * digits_val fs - ?P"])
  also have "?P \<le> 2 * digits_val fs \<longleftrightarrow> fs \<noteq> [] \<and> 5 \<le> digit_value (hd fs)"
  proof (cases fs)
    case (Cons c cs)
    let ?Q = "10 ^ length cs :: int"
    have G: "0 \<le> digits_val cs" "digits_val cs < ?Q" using assms Cons by (simp_all add: digits_val_nonneg digits_val_less)
    show ?thesis
    proof (cases "5 \<le> digit_value c")
      case True
      then have "5 * ?Q \<le> digit_value c * ?Q" by (intro mult_right_mono) simp_all
      then have "10 * ?Q \<le> 2 * (digit_value c * ?Q + digits_val cs)" using G(1) by (rule double_le)
      then show ?thesis using True Cons by (simp add: digits_val_Cons)
    next
      case False
      then have "digit_value c * ?Q \<le> 4 * ?Q" by (intro mult_right_mono) simp_all
      then have "2 * (digit_value c * ?Q + digits_val cs) < 10 * ?Q" using G(2) by (rule double_less)
      then show ?thesis using False Cons by (simp add: digits_val_Cons)
    qed
  qed (simp add: digits_val_def)
  finally show ?thesis by (simp add: nearest_def up_def)
qed

text \<open>From the text to the loop over the digits.\<close>

definition behind_digits :: "bool \<Rightarrow> string \<Rightarrow> string \<Rightarrow> string" where
  "behind_digits point fs post = (if point then CHR ''.'' # fs else []) @ post"

lemma other_characters [simp]:
  "\<not> is_digit (CHR ''.'')" "\<not> is_digit (CHR ''x'')" "\<not> is_digit (CHR ''X'')" "\<not> is_digit (CHR ''b'')"
  "\<not> is_digit (CHR ''B'')" "\<not> is_digit (CHR ''+'')" "\<not> is_digit (CHR ''_'')"
  "\<not> character_is_space (CHR ''.'')" "\<not> character_is_space (CHR ''-'')" "\<not> character_is_space (CHR ''x'')"
  "\<not> character_is_space (CHR ''X'')" "\<not> character_is_space (CHR ''b'')" "\<not> character_is_space (CHR ''B'')"
  "\<not> character_is_space (CHR ''_'')" "\<not> character_is_space (CHR ''+'')"
  by (simp_all add: is_digit_def character_is_space_def char_code_def)

lemma digit_not_other [simp]:
  "is_digit c \<Longrightarrow> c \<noteq> CHR ''.''" "is_digit c \<Longrightarrow> c \<noteq> CHR ''+''" "is_digit c \<Longrightarrow> c \<noteq> CHR ''x''"
  "is_digit c \<Longrightarrow> c \<noteq> CHR ''X''" "is_digit c \<Longrightarrow> c \<noteq> CHR ''b''" "is_digit c \<Longrightarrow> c \<noteq> CHR ''B''"
  using other_characters(1-6) by metis+

lemma spaces_stop: "list_all character_is_space post \<Longrightarrow> stops post"
  by (cases post) (auto simp: space_not_digit)

lemma behind_stops: "list_all character_is_space post \<Longrightarrow> stops (behind_digits point fs post)"
  using spaces_stop [of post] by (auto simp: behind_digits_def)

lemma behind_head:
  "list_all character_is_space post \<Longrightarrow> ds @ behind_digits point fs post \<noteq> [] \<Longrightarrow> list_all is_digit ds \<Longrightarrow>
   hd (ds @ behind_digits point fs post) \<notin> {CHR ''x'', CHR ''X'', CHR ''b'', CHR ''B'', CHR ''-'', CHR ''+''}"
  by (cases ds; cases post; cases point) (auto simp: behind_digits_def)

lemma cast_loop_digits:
  assumes "list_all is_digit ds" "list_all character_is_space pre" "list_all character_is_space post" "ds \<noteq> [] \<or> point"
    "optional_sign sign"
  shows "try_integer_cast op True allow False (pre @ number_text sign ds point fs @ post) =
    cast_digits op (sign = ''-'') False (exponent_handler op (sign = ''-'') False allow) (ds @ behind_digits point fs post) False zero_state"
proof -
  let ?t = "ds @ behind_digits point fs post"
  have t: "number_text sign ds point fs @ post = sign @ ?t"
    by (simp add: number_text_def behind_digits_def)
  have ne: "?t \<noteq> []" using assms(4) by (auto simp: behind_digits_def)
  obtain c s where cs: "?t = c # s" using ne by (cases ?t) auto
  have c: "is_digit c \<or> c = CHR ''.''" using assms(1,4) cs by (cases ds) (auto simp: behind_digits_def)
  have s: "hd s \<notin> {CHR ''x'', CHR ''X'', CHR ''b'', CHR ''B''}" if filled: "s \<noteq> []" and zero: "c = CHR ''0''"
  proof -
    obtain ds' where "ds = c # ds'" "s = ds' @ behind_digits point fs post"
      using cs zero assms(4) by (cases ds) (auto simp: behind_digits_def)
    then show ?thesis using behind_head [of post ds' point fs] assms(1,3) filled by simp
  qed
  have "\<not> character_is_space c" "c \<noteq> CHR ''-''" "c \<noteq> CHR ''+''" using c by auto
  then show ?thesis using assms(2,5) s unfolding t cs
    by (cases "s = []"; cases "c = CHR ''0''")
      (auto simp: try_integer_cast_def drop_spaces integer_cast_loop_def simp del: cast_digits.simps)
qed

lemma cast_tail_spaces:
  "list_all character_is_space post \<Longrightarrow> post \<noteq> [] \<Longrightarrow> cast_tail op negative False h post started st = op_finalize op negative st"
  by (cases post) (simp_all add: cast_tail_def)

lemma op_stores [simp]: "op_store (simple_op k) = k" "op_store (decimal_op k) = decimal_store k"
  by (simp_all add: simple_op_def decimal_op_def)

text \<open>Behind the digits: the simple cast takes no decimals, the other one rounds.\<close>

lemma decimal_store_signed: "machine_width w \<Longrightarrow> decimal_store (signed_kind w) = signed_kind 64"
  by (auto simp: decimal_store_def signed_kind_def unsigned_kind_def)

lemma behind_simple:
  assumes "list_all is_digit fs" "list_all character_is_space post" "point \<or> fs = []" "ds @ fs \<noteq> []"
  shows "cast_digits (simple_op k) negative False h (behind_digits point fs post) (ds \<noteq> []) st =
    (if fs = [] then Inr st else cast_failed)"
proof (cases point)
  case False
  then show ?thesis using assms
    by (cases post) (auto simp: behind_digits_def simple_op_def cast_point_def cast_tail_def space_not_digit)
next
  case True
  show ?thesis
  proof (cases fs)
    case Nil
    have "cast_decimals (simple_op k) post False st = Inr (post, False, st)"
      using assms(2) by (cases post) (auto simp: space_not_digit)
    then show ?thesis using True Nil assms(2,4)
      by (cases "post = []") (simp_all add: behind_digits_def cast_point_def cast_tail_spaces, simp_all add: simple_op_def)
  next
    case (Cons c cs)
    then show ?thesis using True assms(1) by (simp add: behind_digits_def cast_point_def simple_op_def)
  qed
qed

lemma behind_decimal:
  assumes "machine_width w" "list_all is_digit fs" "list_all character_is_space post" "point \<or> fs = []" "ds @ fs \<noteq> []"
    "length fs < 65536" "c_decimal st = 0" "c_digits st = 0" "c_result st = with_sign negative m" "0 \<le> m"
  shows "mapR c_result (cast_digits (decimal_op (signed_kind w)) negative False h (behind_digits point fs post) (ds \<noteq> []) st) =
    checked (signed_kind w) (with_sign negative (m + up fs))"
proof -
  let ?op = "decimal_op (signed_kind w)" and ?st = "fold (\<lambda>c. decimal_step (signed_kind 64) (digit_value c)) fs st"
  have final: "op_finalize ?op = decimal_finalize (signed_kind w)" by (simp add: decimal_op_def)
  have round: "mapR c_result (decimal_finalize (signed_kind w) negative ?st) = checked (signed_kind w) (with_sign negative (m + up fs))"
    using assms(2,6-10) by (rule cast_decimals_round)
  show ?thesis
  proof (cases point)
    case False
    then have fs: "fs = []" "ds \<noteq> []" using assms(4,5) by auto
    show ?thesis
    proof (cases post)
      case Nil
      have "bindR r Inr = r" for r :: "cast_state res" by (cases r) simp_all
      then show ?thesis using Nil False fs round by (simp add: behind_digits_def final)
    next
      case (Cons c cs)
      then have "\<not> is_digit c" "c \<noteq> CHR ''.''" using assms(3) by (auto simp: space_not_digit)
      then show ?thesis using Cons False fs round assms(3) cast_tail_spaces [of post ?op negative h]
        by (simp add: behind_digits_def cast_point_def final)
    qed
  next
    case True
    have "cast_decimals ?op (fs @ post) False st = Inr (post, fs \<noteq> [], ?st)"
      using cast_decimals_fold [of fs post "signed_kind w"] assms(1-3) spaces_stop [of post] by (simp add: decimal_store_signed)
    then show ?thesis using True round assms(3,5) cast_tail_spaces [of post ?op negative h]
      by (cases "post = []") (auto simp: behind_digits_def cast_point_def final)
  qed
qed

lemma number_text_cast:
  assumes "w \<in> {8, 16, 32, 64}" "list_all is_digit ds" "list_all is_digit fs" "ds @ fs \<noteq> []" "point \<or> fs = []"
    "length fs < 65536" "list_all character_is_space pre" "list_all character_is_space post" "optional_sign sign"
  shows "try_simple_integer_cast (signed_kind w) True False (pre @ number_text sign ds point fs @ post) =
    (if in_kind (signed_kind w) (nearest (sign = ''-'') ds fs) then Inr (nearest (sign = ''-'') ds fs) else cast_failed)"
proof -
  define negative where neg: "negative = (sign = ''-'')"
  let ?k = "signed_kind w" and ?text = "pre @ number_text sign ds point fs @ post"
  let ?v = "with_sign negative (digits_val ds)" and ?st = "zero_state\<lparr>c_result := with_sign negative (digits_val ds)\<rparr>"
  have pos: "0 \<le> digits_val ds" using assms(2) by (rule digits_val_nonneg)
  have zero: "c_result zero_state = with_sign negative 0" "in_kind (signed_kind v) (with_sign negative 0)" for v
    by (simp_all add: zero_state_def with_sign_def in_kind_def)
  have loop: "try_integer_cast op True allow False ?text =
      (if in_kind (signed_kind v) ?v
       then cast_digits op negative False (exponent_handler op negative False allow) (behind_digits point fs post) (ds \<noteq> []) ?st
       else cast_failed)" if "machine_width v" "op_store op = signed_kind v" for op v allow
    using cast_loop_digits [of ds pre post point sign op allow fs] assms(2,4,5,7,8,9)
      cast_digits_exact [OF that assms(2) behind_stops [OF assms(8)] zero(1) order_refl zero(2)]
    by (auto simp: Let_def neg)
  have simple: "try_integer_cast (simple_op ?k) True False False ?text = (if in_kind ?k ?v \<and> fs = [] then Inr ?st else cast_failed)"
    unfolding loop [OF assms(1) op_stores(1)] behind_simple [OF assms(3,8,5,4)] by simp
  have rounded: "mapR c_result (try_integer_cast (decimal_op ?k) True True False ?text) =
      (if in_kind (signed_kind 64) ?v then checked ?k (nearest negative ds fs) else cast_failed)"
    using loop [of 64 "decimal_op ?k" True] behind_decimal [OF assms(1,3,8,5,4,6), of ?st negative "digits_val ds"] pos
      nearest_up [OF assms(3), of negative ds]
    by (simp add: decimal_store_signed [OF assms(1)] zero_state_def)
  have wide: "in_kind (signed_kind 64) ?v" if "in_kind ?k (nearest negative ds fs)"
    using that in_kind_with_sign_mono [of w negative "digits_val ds + up fs" "digits_val ds"] in_kind_wider [OF assms(1)] pos
    by (simp add: nearest_up [OF assms(3)] up_def split: if_splits)
  show ?thesis
    using rounded wide nearest_up [OF assms(3), of negative ds]
    unfolding neg [symmetric] by (auto simp: try_simple_integer_cast_def simple checked_def up_def zero_state_def)
qed

text \<open>C33: a cast of text to a signed integer of 8, 16, 32 or 64 bits, not strict: for white space, an optional
  minus or plus sign, digits, optionally a point with fewer than 65536 digits, and white space, it returns the integer
  nearest to the number (halves away from zero) exactly when that is in the range of the type, and fails otherwise,
  however many digits there are. (A comment in the loop says that decimals are truncated; they are rounded.)\<close>
theorem integer_cast_rounds:
  assumes "w \<in> {8, 16, 32, 64}" "list_all is_digit ds" "list_all is_digit fs" "ds @ fs \<noteq> []" "point \<or> fs = []"
    "length fs < 65536" "list_all character_is_space pre" "list_all character_is_space post" "sign \<in> {[], ''-'', ''+''}"
  shows "try_simple_integer_cast (signed_kind w) True False (pre @ number_text sign ds point fs @ post) =
    (if in_kind (signed_kind w) (nearest (sign = ''-'') ds fs) then Inr (nearest (sign = ''-'') ds fs) else cast_failed)"
  using assms by (rule number_text_cast)

theorem integer_cast_rounds_witness:
  "try_simple_integer_cast (signed_kind 8) True False ''  -127.5 '' = Inr (- 128) \<and>
   try_simple_integer_cast (signed_kind 8) True False '' 127.5'' = cast_failed \<and>
   try_simple_integer_cast (signed_kind 8) True False ''+12.4'' = Inr 12"
  using integer_cast_rounds [of 8 "''127''" "''5''" True "''  ''" "'' ''" "''-''"]
    integer_cast_rounds [of 8 "''127''" "''5''" True "'' ''" "[]" "[]"]
    integer_cast_rounds [of 8 "''12''" "''4''" True "[]" "[]" "''+''"]
  by (simp add: number_text_def nearest_def with_sign_def in_kind_def is_digit_def char_code_def character_is_space_def digits_val_def)

text \<open>C34: a decimal of 64 bits that is printed and cast to an integer gives the integer nearest to it,
  \<open>v / 10 ^ scale\<close>, halves away from zero, or the failure when that is out of range; with scale 0 it gives the value
  back. (Here too the comment in the loop says that the decimals are truncated.)\<close>
theorem decimal_to_integer:
  assumes "w \<in> {8, 16, 32, 64}" "scale < width \<or> nat \<bar>v\<bar> < 10 ^ scale" "in_int64 v"
    "list_all character_is_space pre" "list_all character_is_space post" "format_decimal v width scale = Inr t"
  shows "try_simple_integer_cast (signed_kind w) True False (pre @ t @ post) =
    checked (signed_kind w) (with_sign (v < 0) ((2 * \<bar>v\<bar> + 10 ^ scale) div (2 * 10 ^ scale)))"
proof -
  have fits: "decimal_fits v scale"
    using assms(6) by (auto simp: format_decimal_def cached_power_def Let_def split: if_splits)
  let ?sign = "if v < 0 then ''-'' else []"
  obtain major fraction where t: "t = ?sign @ major @ (if scale = 0 then [] else CHR ''.'' # fraction)"
      and digits: "list_all is_digit (major @ fraction)" "length fraction = scale" "digits_val (major @ fraction) = \<bar>v\<bar>"
      and major: "major = (if scale = 0 \<or> scale < width then show_nat (nat \<bar>v\<bar> div 10 ^ scale) else [])"
    using format_decimal_text [OF fits assms(2)] assms(6) by auto
  have "t = number_text ?sign major (0 < scale) fraction" using digits by (simp add: t number_text_def)
  moreover have "major @ fraction \<noteq> []"
    using major digits(2) length_show_nat_pos [of "nat \<bar>v\<bar> div 10 ^ scale"] by (cases "scale = 0") auto
  ultimately show ?thesis
    using number_text_cast [of w major fraction "0 < scale" pre post ?sign] digits assms(1,4,5) fits
    by (auto simp: nearest_def checked_def)
qed

theorem decimal_to_integer_witness:
  "(\<exists>t. format_decimal (- 1250) 4 2 = Inr t \<and> try_simple_integer_cast (signed_kind 8) True False t = Inr (- 13)) \<and>
   (\<exists>t. format_decimal 12750 5 2 = Inr t \<and> try_simple_integer_cast (signed_kind 8) True False t = cast_failed)"
proof -
  obtain s t where "format_decimal (- 1250) 4 2 = Inr s" "format_decimal 12750 5 2 = Inr t"
    by (simp add: format_decimal_def cached_power_def Let_def)
  then show ?thesis
    using decimal_to_integer [of 8 2 4 "- 1250" "[]" "[]" s] decimal_to_integer [of 8 2 5 12750 "[]" "[]" t]
    by (simp add: checked_def in_kind_def with_sign_def in_int64_def)
qed

text \<open>The text of an integer in range casts back to it.\<close>
lemma integer_text_roundtrip:
  assumes "machine_width w" "in_kind (signed_kind w) v" "list_all character_is_space pre" "list_all character_is_space post"
  shows "try_simple_integer_cast (signed_kind w) True False (pre @ format_signed v @ post) = Inr v"
proof -
  let ?t = "show_nat (nat \<bar>v\<bar>)"
  have "format_signed v = number_text (if v < 0 then ''-'' else []) ?t False []" by (simp add: format_signed_def number_text_def format_unsigned_show)
  moreover have "nearest (v < 0) ?t [] = v" by (simp add: nearest_def digits_val_show with_sign_def)
  moreover have "?t \<noteq> []" using length_show_nat_pos [of "nat \<bar>v\<bar>"] by simp
  ultimately show ?thesis using number_text_cast [of w ?t "[]" False pre post "if v < 0 then ''-'' else []"] assms
    by (cases "v < 0") (simp_all add: show_nat_digits)
qed

text \<open>The bound on the digits is needed: their number has 16 bits, and with 65536 zeros behind the point the next
  digit counts as the first.\<close>
lemma zeros_wrap:
  "c_decimal st = 0 \<Longrightarrow> fold (\<lambda>c. decimal_step (signed_kind 64) (digit_value c)) (replicate n (CHR ''0'')) st =
     st\<lparr>c_digits := (if n = 0 then c_digits st else (c_digits st + int n) mod 65536)\<rparr>"
proof (induction n arbitrary: st)
  case (Suc n)
  have "decimal_step (signed_kind 64) 0 st = st\<lparr>c_digits := (c_digits st + 1) mod 65536\<rparr>"
    using Suc.prems by (cases st) (simp add: decimal_step_def signed_divide_int_def)
  then show ?case using Suc.IH [of "st\<lparr>c_digits := (c_digits st + 1) mod 65536\<rparr>"] Suc.prems
    by (simp add: mod_simps algebra_simps)
qed simp

lemma tiny_number_rounds_up:
  assumes "zs = replicate 65536 (CHR ''0'')"
  shows "try_simple_integer_cast (signed_kind 64) True False (''0.'' @ zs @ ''5'') = Inr 1"
proof -
  let ?fs = "zs @ ''5''" and ?k = "signed_kind 64"
  have digits: "list_all is_digit ?fs" unfolding assms by (simp add: list_all_iff is_digit_def char_code_def)
  have store: "decimal_store ?k = ?k" by (simp add: decimal_store_signed)
  let ?st = "zero_state\<lparr>c_decimal := 5, c_digits := 1\<rparr>"
  have "fold (\<lambda>c. decimal_step ?k (digit_value c)) zs zero_state = zero_state"
    using zeros_wrap [of zero_state 65536] by (simp add: assms zero_state_def)
  then have "fold (\<lambda>c. decimal_step ?k (digit_value c)) ?fs zero_state = ?st"
    by (simp add: zero_state_def decimal_step_def digit_value_def char_code_def signed_divide_int_def)
  then have seen: "cast_decimals (decimal_op ?k) ?fs False zero_state = Inr ([], True, ?st)"
    using cast_decimals_fold [OF digits, of "[]" ?k False zero_state] by (simp add: store)
  have final: "mapR c_result (decimal_finalize ?k False ?st) = Inr 1" by code_simp
  have loop: "try_integer_cast op True allow False (CHR ''0'' # CHR ''.'' # ?fs) =
      cast_digits op False False (exponent_handler op False False allow) (CHR ''.'' # ?fs) True zero_state"
    if "op_store op = ?k" for op allow
    using cast_loop_digits [of "''0''" "[]" "[]" True "[]" op allow ?fs] that
    by (simp add: number_text_def behind_digits_def skip_underscore_def handle_digit_def zero_state_def signed_divide_int_def)
  have "cast_digits (simple_op ?k) False False h (CHR ''.'' # ?fs) True zero_state = cast_failed" for h
    using behind_simple [OF digits, of "[]" True "''0''" ?k False h zero_state] by (simp add: behind_digits_def)
  moreover have "mapR c_result (cast_digits (decimal_op ?k) False False h (CHR ''.'' # ?fs) True zero_state) = Inr 1" for h
    using seen final by (simp add: cast_point_def) (simp add: decimal_op_def)
  ultimately show ?thesis by (simp add: try_simple_integer_cast_def loop store)
qed

text \<open>A sign alone is no number, but a sign and white space is 0.\<close>
lemma lone_sign: "try_simple_integer_cast (signed_kind 32) True strict ''- '' = Inr 0"
  "try_simple_integer_cast (signed_kind 32) True strict ''-'' = cast_failed"
  by (cases strict; code_simp)+

end
