(* ===== verification/Catalog_Set.thy ===== *)
theory Catalog_Set
  imports Prompt
begin

section \<open>Catalog sets: versions, transactions and snapshots\<close>

text \<open>
  Every catalog entry, models and embeddings among them, lives in a \<open>CatalogSet\<close>
  (\<open>src/catalog/catalog_set.cpp\<close>): a map from case-insensitive names to chains of versions, newest
  first. A transaction sees the versions of its snapshot; the undo buffer
  (\<open>src/transaction/undo_buffer.cpp\<close> with \<open>commit_state.cpp\<close>, \<open>rollback_state.cpp\<close>,
  \<open>cleanup_state.cpp\<close>) stamps, removes or frees them; \<open>DuckTransactionManager\<close>
  (\<open>src/transaction/duck_transaction_manager.cpp\<close>) hands out identifiers and decides when old
  versions may go. The child and parent pointers of a version are its neighbours in the list, and the
  undo buffer's pointers are addresses of versions. The dependency manager, default entries (the sets
  of models and embeddings have none), locks and checkpoints are not modelled.
\<close>

datatype catalog_type =
    INVALID | TABLE_ENTRY | SCHEMA_ENTRY | VIEW_ENTRY | INDEX_ENTRY | PREPARED_STATEMENT | SEQUENCE_ENTRY
  | COLLATION_ENTRY | TYPE_ENTRY | DATABASE_ENTRY | COORDINATE_SYSTEM_ENTRY | MODEL_ENTRY | EMBEDDING_ENTRY
  | TABLE_FUNCTION_ENTRY | SCALAR_FUNCTION_ENTRY | AGGREGATE_FUNCTION_ENTRY | PRAGMA_FUNCTION_ENTRY
  | COPY_FUNCTION_ENTRY | MACRO_ENTRY | TABLE_MACRO_ENTRY | DELETED_ENTRY | RENAMED_ENTRY
  | SECRET_ENTRY | SECRET_TYPE_ENTRY | SECRET_FUNCTION_ENTRY | DEPENDENCY_ENTRY

text \<open>\<open>GetCatalogSet\<close> of a schema.\<close>

datatype catset =
    Tables | Indexes | TableFunctions | CopyFunctions | PragmaFunctions | Functions | Sequences | Models
  | Embeddings | Collations | CoordinateSystems | Types

fun get_catalog_set :: "catalog_type \<Rightarrow> catset res" where
  "get_catalog_set VIEW_ENTRY = Inr Tables"
| "get_catalog_set TABLE_ENTRY = Inr Tables"
| "get_catalog_set INDEX_ENTRY = Inr Indexes"
| "get_catalog_set TABLE_FUNCTION_ENTRY = Inr TableFunctions"
| "get_catalog_set TABLE_MACRO_ENTRY = Inr TableFunctions"
| "get_catalog_set COPY_FUNCTION_ENTRY = Inr CopyFunctions"
| "get_catalog_set PRAGMA_FUNCTION_ENTRY = Inr PragmaFunctions"
| "get_catalog_set AGGREGATE_FUNCTION_ENTRY = Inr Functions"
| "get_catalog_set SCALAR_FUNCTION_ENTRY = Inr Functions"
| "get_catalog_set MACRO_ENTRY = Inr Functions"
| "get_catalog_set SEQUENCE_ENTRY = Inr Sequences"
| "get_catalog_set MODEL_ENTRY = Inr Models"
| "get_catalog_set EMBEDDING_ENTRY = Inr Embeddings"
| "get_catalog_set COLLATION_ENTRY = Inr Collations"
| "get_catalog_set COORDINATE_SYSTEM_ENTRY = Inr CoordinateSystems"
| "get_catalog_set TYPE_ENTRY = Inr Types"
| "get_catalog_set _ = Inl (InternalException ''Unsupported catalog type in schema'')"

subsection \<open>Versions\<close>

record 'd entry =
  e_addr :: nat
  e_type :: catalog_type
  e_name :: string
  e_ts :: nat
  e_deleted :: bool
  e_temporary :: bool
  e_internal :: bool
  e_data :: "'d option"

text \<open>The key of an entry: its set and its name up to case.\<close>

type_synonym key = "catset \<times> string"

definition key_of :: "catset \<Rightarrow> string \<Rightarrow> key" where
  "key_of cs name = (cs, map ascii_lower name)"

definition transaction_id_start :: nat where
  "transaction_id_start = 4611686018427388000"

definition max_transaction_id :: nat where
  "max_transaction_id = 18446744073709551615"

text \<open>\<open>CreatedByOtherActiveTransaction\<close>, \<open>CommittedAfterStarting\<close>, \<open>HasConflict\<close>, \<open>UseTimestamp\<close>, for a
  transaction given by its identifier and start time.\<close>

definition created_by_other :: "nat \<Rightarrow> nat \<Rightarrow> bool" where
  "created_by_other tid ts \<longleftrightarrow> transaction_id_start \<le> ts \<and> ts \<noteq> tid"

definition committed_after_starting :: "nat \<Rightarrow> nat \<Rightarrow> bool" where
  "committed_after_starting start ts \<longleftrightarrow> ts < transaction_id_start \<and> start < ts"

definition has_conflict :: "nat \<Rightarrow> nat \<Rightarrow> nat \<Rightarrow> bool" where
  "has_conflict tid start ts \<longleftrightarrow> created_by_other tid ts \<or> committed_after_starting start ts"

definition use_timestamp :: "nat \<Rightarrow> nat \<Rightarrow> nat \<Rightarrow> bool" where
  "use_timestamp tid start ts \<longleftrightarrow> ts = tid \<or> ts < start"

text \<open>\<open>GetEntryForTransaction\<close> and \<open>GetCommittedEntry\<close> walk a chain down; the last version is returned
  whatever its timestamp.\<close>

fun entry_for_transaction :: "nat \<Rightarrow> nat \<Rightarrow> 'd entry list \<Rightarrow> ('d entry \<times> bool) option" where
  "entry_for_transaction tid start [] = None"
| "entry_for_transaction tid start [e] = Some (e, False)"
| "entry_for_transaction tid start (e # es) =
     (if use_timestamp tid start (e_ts e) then Some (e, True) else entry_for_transaction tid start es)"

fun committed_entry :: "'d entry list \<Rightarrow> 'd entry option" where
  "committed_entry [] = None"
| "committed_entry [e] = Some e"
| "committed_entry (e # es) = (if e_ts e < transaction_id_start then Some e else committed_entry es)"

definition undeleted :: "'d entry option \<Rightarrow> 'd entry option" where
  "undeleted r = (case r of None \<Rightarrow> None | Some e \<Rightarrow> if e_deleted e then None else Some e)"

subsection \<open>Transactions and the database\<close>

text \<open>An undo entry is the address of the version a change has put another one above, with its key.\<close>

record txn =
  t_id :: nat
  t_start :: nat
  t_commit :: nat
  t_version :: nat
  t_awaiting_cleanup :: bool
  t_undo :: "(key \<times> nat) list"

record 'd db =
  chains :: "key \<rightharpoonup> 'd entry list"
  next_addr :: nat
  current_start_timestamp :: nat
  current_transaction_id :: nat
  lowest_active_id :: nat
  lowest_active_start :: nat
  last_commit :: nat
  last_committed_version :: nat
  last_uncommitted_version :: nat
  active :: "txn list"
  recently_committed :: "txn list"
  cleanup_queue :: "txn list list"

definition new_db :: "'d db" where
  "new_db = \<lparr>chains = Map.empty, next_addr = 0, current_start_timestamp = 2,
     current_transaction_id = transaction_id_start, lowest_active_id = transaction_id_start,
     lowest_active_start = max_transaction_id, last_commit = 0, last_committed_version = 0,
     last_uncommitted_version = transaction_id_start, active = [], recently_committed = [], cleanup_queue = []\<rparr>"

definition chain_of :: "'d db \<Rightarrow> key \<Rightarrow> 'd entry list" where
  "chain_of db k = (case chains db k of None \<Rightarrow> [] | Some c \<Rightarrow> c)"

definition find_txn :: "'d db \<Rightarrow> nat \<Rightarrow> txn option" where
  "find_txn db tid = find (\<lambda>t. t_id t = tid) (active db)"

text \<open>\<open>GetEntryDetailed\<close>\<close>

datatype lookup_result = Success | Deleted | NotPresent | Invisible

definition get_entry_detailed :: "'d db \<Rightarrow> txn \<Rightarrow> key \<Rightarrow> 'd entry option \<times> lookup_result" where
  "get_entry_detailed db t k =
     (case chains db k of
        None \<Rightarrow> (None, NotPresent)
      | Some c \<Rightarrow>
          (case entry_for_transaction (t_id t) (t_start t) c of
             None \<Rightarrow> (None, NotPresent)
           | Some (e, vis) \<Rightarrow> if e_deleted e then (None, if vis then Deleted else Invisible) else (Some e, Success)))"

definition get_entry :: "'d db \<Rightarrow> txn \<Rightarrow> key \<Rightarrow> 'd entry option" where
  "get_entry db t k = fst (get_entry_detailed db t k)"

text \<open>\<open>Scan\<close> over the committed versions.\<close>

definition scan_committed :: "'d db \<Rightarrow> key \<Rightarrow> 'd entry option" where
  "scan_committed db k = undeleted (committed_entry (chain_of db k))"

subsection \<open>Writing\<close>

text \<open>\<open>PushCatalogEntry\<close>: the old version goes to the undo buffer of the transaction.\<close>

definition push_catalog_entry :: "nat \<Rightarrow> key \<Rightarrow> nat \<Rightarrow> 'd db \<Rightarrow> 'd db" where
  "push_catalog_entry tid k a db =
     db\<lparr>last_uncommitted_version := Suc (last_uncommitted_version db),
        active := map (\<lambda>t. if t_id t = tid
            then t\<lparr>t_version := Suc (last_uncommitted_version db), t_undo := t_undo t @ [(k, a)]\<rparr> else t) (active db)\<rparr>"

text \<open>\<open>UpdateEntry\<close>: the new version becomes the head. Its address is new.\<close>

definition put_version :: "nat \<Rightarrow> key \<Rightarrow> 'd entry \<Rightarrow> 'd db \<Rightarrow> 'd db" where
  "put_version tid k e db =
     (case chains db k of
        None \<Rightarrow> db
      | Some c \<Rightarrow>
          push_catalog_entry tid k (e_addr (hd c))
            (db\<lparr>chains := (chains db)(k \<mapsto> e\<lparr>e_addr := next_addr db, e_ts := tid\<rparr> # c), next_addr := Suc (next_addr db)\<rparr>))"

text \<open>\<open>StartChain\<close>: a deleted dummy that every transaction sees. Its name is the one it is called with, which every
  caller takes from the entry it creates (\<open>create_entry_internal\<close>).\<close>

definition start_chain :: "key \<Rightarrow> string \<Rightarrow> 'd db \<Rightarrow> 'd db" where
  "start_chain k name db =
     db\<lparr>chains := (chains db)(k \<mapsto> [\<lparr>e_addr = next_addr db, e_type = INVALID, e_name = name, e_ts = 0,
          e_deleted = True, e_temporary = False, e_internal = False, e_data = None\<rparr>]),
        next_addr := Suc (next_addr db)\<rparr>"

definition create_entry_internal :: "txn \<Rightarrow> key \<Rightarrow> 'd entry \<Rightarrow> bool \<Rightarrow> 'd db \<Rightarrow> (bool \<times> 'd db) res" where
  "create_entry_internal t k e should_be_empty db =
     (case chains db k of
        None \<Rightarrow> Inr (True, put_version (t_id t) k e (start_chain k (e_name e) db))
      | Some c \<Rightarrow>
          (if should_be_empty \<and> has_conflict (t_id t) (t_start t) (e_ts (hd c))
           then Inl (TransactionException (''Catalog write-write conflict on create with '' @ e_name (hd c)))
           else if should_be_empty \<and> \<not> e_deleted (hd c) then Inr (False, db)
           else Inr (True, put_version (t_id t) k e db)))"

text \<open>\<open>CheckCatalogEntryInvariants\<close>\<close>

record catalog_kind =
  is_system :: bool
  is_temporary :: bool

definition check_entry_invariants :: "catalog_kind \<Rightarrow> string \<Rightarrow> 'd entry \<Rightarrow> unit res" where
  "check_entry_invariants ck name e =
     (if e_internal e \<and> \<not> is_system ck \<and> name \<noteq> ''main''
      then Inl (InternalException (''Attempting to create internal entry '' @ name @ '' in non-system catalog''))
      else if \<not> e_internal e \<and> \<not> e_temporary e \<and> is_system ck \<and> e_type e \<noteq> DEPENDENCY_ENTRY
      then Inl (InternalException (''Attempting to create non-internal entry '' @ name @ '' in system catalog''))
      else if \<not> e_internal e \<and> e_temporary e \<and> \<not> is_temporary ck
      then Inl (InternalException (''Attempting to create temporary entry '' @ name @ '' in non-temporary catalog''))
      else if \<not> e_internal e \<and> \<not> e_temporary e \<and> is_temporary ck \<and> name \<noteq> ''main''
      then Inl (InvalidInputException (''Cannot create non-temporary entry '' @ name @ '' in temporary catalog''))
      else Inr ())"

definition create_entry :: "catalog_kind \<Rightarrow> txn \<Rightarrow> catset \<Rightarrow> string \<Rightarrow> 'd entry \<Rightarrow> 'd db \<Rightarrow> (bool \<times> 'd db) res" where
  "create_entry ck t cs name e db =
     bindR (check_entry_invariants ck name e) (\<lambda>_. create_entry_internal t (key_of cs name) e True db)"

text \<open>\<open>GetEntryInternal\<close>, for a new version of an entry.\<close>

definition get_entry_internal :: "txn \<Rightarrow> key \<Rightarrow> 'd db \<Rightarrow> 'd entry option res" where
  "get_entry_internal t k db =
     (case chains db k of
        None \<Rightarrow> Inr None
      | Some c \<Rightarrow>
          (if has_conflict (t_id t) (t_start t) (e_ts (hd c))
           then Inl (TransactionException (''Catalog write-write conflict on alter with '' @ e_name (hd c)))
           else Inr (if e_deleted (hd c) then None else Some (hd c))))"

definition tombstone :: "string \<Rightarrow> 'd entry" where
  "tombstone name = \<lparr>e_addr = 0, e_type = DELETED_ENTRY, e_name = name, e_ts = 0, e_deleted = True,
     e_temporary = False, e_internal = False, e_data = None\<rparr>"

definition drop_entry_internal :: "txn \<Rightarrow> key \<Rightarrow> bool \<Rightarrow> 'd db \<Rightarrow> (bool \<times> 'd db) res" where
  "drop_entry_internal t k allow_internal db =
     bindR (get_entry_internal t k db) (\<lambda>r. case r of
        None \<Rightarrow> Inr (False, db)
      | Some e \<Rightarrow>
          (if e_internal e \<and> \<not> allow_internal
           then Inl (CatalogException (''Cannot drop entry '' @ e_name e @ '' because it is an internal system entry''))
           else Inr (True, put_version (t_id t) k (tombstone (e_name e)) db)))"

text \<open>\<open>DropEntry\<close>, with \<open>DropDependencies\<close> for an entry without dependents.\<close>

definition drop_entry :: "txn \<Rightarrow> catset \<Rightarrow> string \<Rightarrow> bool \<Rightarrow> 'd db \<Rightarrow> (bool \<times> 'd db) res" where
  "drop_entry t cs name allow_internal db =
     (case get_entry db t (key_of cs name) of
        None \<Rightarrow> Inr (False, db)
      | Some e \<Rightarrow>
          (if e_internal e \<and> \<not> allow_internal
           then Inl (CatalogException (''Cannot drop entry '' @ e_name e @ '' because it is an internal system entry''))
           else drop_entry_internal t (key_of cs name) allow_internal db))"

text \<open>\<open>AlterEntry\<close> without a change of name: \<open>alter\<close> computes the new version or throws.\<close>

definition alter_entry ::
    "('d entry \<Rightarrow> 'd entry option res) \<Rightarrow> txn \<Rightarrow> catset \<Rightarrow> string \<Rightarrow> bool \<Rightarrow> 'd db \<Rightarrow> (bool \<times> 'd db) res" where
  "alter_entry alter t cs name allow_internal db =
     (let k = key_of cs name in
      case get_entry db t k of
        None \<Rightarrow> Inr (False, db)
      | Some e \<Rightarrow>
          (if e_internal e \<and> \<not> allow_internal
           then Inl (CatalogException (''Cannot alter entry '' @ e_name e @ '' because it is an internal system entry''))
           else bindR (alter e) (\<lambda>v. case v of
               None \<Rightarrow> Inr (True, db)
             | Some e' \<Rightarrow>
                 bindR (get_entry_internal t k db) (\<lambda>r. case r of
                     None \<Rightarrow> Inl (Undefined ''null catalog entry'')
                   | Some _ \<Rightarrow> Inr (True, put_version (t_id t) k e' db)))))"

subsection \<open>Commit, rollback and cleanup of a version\<close>

text \<open>
  On a chain, for the undo entry that points to the version at address \<open>a\<close>: \<open>UpdateTimestamp\<close> of its
  parent, \<open>Undo\<close>, \<open>CleanupEntry\<close>. \<open>None\<close> is a parent that is not there.
\<close>

fun stamp_parent :: "nat \<Rightarrow> nat \<Rightarrow> 'd entry list \<Rightarrow> 'd entry list option" where
  "stamp_parent ts a (p # c # es) =
     (if e_addr c = a then Some (p\<lparr>e_ts := ts\<rparr> # c # es) else map_option (Cons p) (stamp_parent ts a (c # es)))"
| "stamp_parent ts a _ = None"

fun undo_version :: "nat \<Rightarrow> 'd entry list \<Rightarrow> 'd entry list option" where
  "undo_version a (p # c # es) =
     (if e_addr c = a then Some (if e_type c = INVALID then es else c # es)
      else map_option (Cons p) (undo_version a (c # es)))"
| "undo_version a _ = None"

fun remove_below :: "nat \<Rightarrow> 'd entry list \<Rightarrow> ('d entry \<times> 'd entry list) option" where
  "remove_below a (p # c # es) =
     (if e_addr c = a then Some (p, p # es)
      else map_option (\<lambda>(q, es'). (q, p # es')) (remove_below a (c # es)))"
| "remove_below a _ = None"

definition cleanup_version :: "nat \<Rightarrow> 'd entry list \<Rightarrow> 'd entry list option" where
  "cleanup_version a c =
     (case remove_below a c of
        None \<Rightarrow> None
      | Some (p, c') \<Rightarrow> Some (if e_deleted p \<and> length c' = 1 then [] else c'))"

text \<open>An operation on the chain of an undo entry; an empty chain leaves the map.\<close>

definition on_chain :: "key \<Rightarrow> ('d entry list \<Rightarrow> 'd entry list option) \<Rightarrow> 'd db \<Rightarrow> 'd db res" where
  "on_chain k f db =
     (case f (chain_of db k) of
        None \<Rightarrow> Inl (Undefined ''catalog entry without a parent'')
      | Some c \<Rightarrow> Inr (db\<lparr>chains := (chains db)(k := if c = [] then None else Some c)\<rparr>))"

definition undo_all :: "(nat \<Rightarrow> 'd entry list \<Rightarrow> 'd entry list option) \<Rightarrow> (key \<times> nat) list \<Rightarrow> 'd db \<Rightarrow> 'd db res" where
  "undo_all f us db = foldR (\<lambda>(k, a). on_chain k (f a)) us db"

subsection \<open>The transaction manager\<close>

text \<open>\<open>StartTransaction\<close>\<close>

definition start_transaction :: "'d db \<Rightarrow> 'd db res" where
  "start_transaction db =
     (if transaction_id_start \<le> current_start_timestamp db
      then Inl (InternalException ''Cannot start more transactions, ran out of transaction identifiers!'')
      else
        let st = current_start_timestamp db; tid = current_transaction_id db;
            db = (if active db = [] then db\<lparr>lowest_active_start := st, lowest_active_id := tid\<rparr> else db)
        in Inr (db\<lparr>current_start_timestamp := Suc st, current_transaction_id := Suc tid,
             active := active db @ [\<lparr>t_id = tid, t_start = st, t_commit = 0, t_version = last_committed_version db,
               t_awaiting_cleanup = False, t_undo = []\<rparr>]\<rparr>))"

text \<open>\<open>RemoveTransaction\<close>: what may be cleaned up is put on the queue.\<close>

definition lowest :: "nat \<Rightarrow> nat list \<Rightarrow> nat" where
  "lowest m xs = fold min xs m"

definition remove_transaction :: "txn \<Rightarrow> bool \<Rightarrow> 'd db \<Rightarrow> 'd db" where
  "remove_transaction t store db =
     (let others = filter (\<lambda>u. t_id u \<noteq> t_id t) (active db);
          low = lowest transaction_id_start (map t_start others);
          low_id = lowest max_transaction_id (map t_id others);
          kept = recently_committed db @ (if store \<and> t_commit t \<noteq> 0 then [t] else []);
          now = (if store \<and> t_commit t = 0 then [t]
                 else if \<not> store \<and> t_undo t \<noteq> [] then [t\<lparr>t_awaiting_cleanup := True\<rparr>] else []);
          old = takeWhile (\<lambda>u. t_commit u < low) kept;
          info = now @ map (\<lambda>u. u\<lparr>t_awaiting_cleanup := True\<rparr>) old
      in db\<lparr>active := others, lowest_active_start := low, lowest_active_id := low_id,
           recently_committed := drop (length old) kept,
           cleanup_queue := cleanup_queue db @ (if info = [] then [] else [info])\<rparr>)"

text \<open>\<open>RollbackTransaction\<close>: the undo buffer in reverse.\<close>

definition rollback_transaction :: "txn \<Rightarrow> 'd db \<Rightarrow> 'd db res" where
  "rollback_transaction t db =
     mapR (remove_transaction t (t_undo t \<noteq> [])) (undo_all undo_version (rev (t_undo t)) db)"

text \<open>
  \<open>CommitTransaction\<close>: a commit identifier, then the undo buffer in order; \<open>wal_error\<close> is a failure to
  write the log, after which the transaction is rolled back.
\<close>

definition commit_transaction :: "bool \<Rightarrow> txn \<Rightarrow> 'd db \<Rightarrow> 'd db res" where
  "commit_transaction wal_error t db =
     (let cid = current_start_timestamp db;
          db = db\<lparr>current_start_timestamp := Suc cid\<rparr>
      in if wal_error
         then mapR (remove_transaction (t\<lparr>t_commit := 0\<rparr>) True) (undo_all undo_version (rev (t_undo t)) db)
         else mapR (\<lambda>db.
             let db = db\<lparr>last_commit := cid\<rparr>;
                 bump = transaction_id_start \<le> t_version t;
                 db = (if bump then db\<lparr>last_committed_version := Suc (last_committed_version db)\<rparr> else db);
                 t = t\<lparr>t_commit := cid, t_version := if bump then last_committed_version db else t_version t\<rparr>
             in remove_transaction t (t_undo t \<noteq> []) db)
           (undo_all (stamp_parent cid) (t_undo t) db))"

text \<open>One round of \<open>CleanupTransactions\<close>.\<close>

definition cleanup_transactions :: "'d db \<Rightarrow> 'd db res" where
  "cleanup_transactions db =
     (case cleanup_queue db of
        [] \<Rightarrow> Inr db
      | info # rest \<Rightarrow>
          foldR (\<lambda>t. undo_all cleanup_version (t_undo t)) (filter t_awaiting_cleanup info) (db\<lparr>cleanup_queue := rest\<rparr>))"

end
