(* ===== verification/Catalog_Invariant.thy ===== *)
theory Catalog_Invariant
  imports Catalog_Set
begin

section \<open>The invariant of catalog sets\<close>

text \<open>
  The invariant that ties every version chain of \<open>Catalog_Set\<close> to the undo buffers of the transactions
  that have not been cleaned up, its preservation by every operation, and what commit, rollback and
  clean-up compute on each chain.
\<close>

declare split_paired_All [simp del] split_paired_Ex [simp del]

subsection \<open>Operations of an undo buffer on one chain\<close>

fun foldO :: "('a \<Rightarrow> 'b \<Rightarrow> 'b option) \<Rightarrow> 'a list \<Rightarrow> 'b \<Rightarrow> 'b option" where
  "foldO f [] c = Some c"
| "foldO f (a # as) c = Option.bind (f a c) (foldO f as)"

lemma stamp_parent_at:
  "distinct (map e_addr (xs @ p # c # es)) \<Longrightarrow>
   stamp_parent ts (e_addr c) (xs @ p # c # es) = Some (xs @ p\<lparr>e_ts := ts\<rparr> # c # es)"
proof (induction xs)
  case (Cons x xs)
  then show ?case by (cases xs) auto
qed simp

lemma foldO_stamp:
  assumes "distinct (map e_addr (us @ cs))" "cs \<noteq> []" "rev as = map e_addr (tl (us @ [hd cs]))"
  shows "foldO (stamp_parent ts) as (us @ cs) = Some (map (\<lambda>e. e\<lparr>e_ts := ts\<rparr>) us @ cs)"
  using assms
proof (induction us arbitrary: cs as rule: rev_induct)
  case (snoc p vs)
  have "rev as = map e_addr (tl (vs @ [p])) @ [e_addr (hd cs)]" using snoc.prems(3) by (cases vs) simp_all
  then obtain as' where as: "as = e_addr (hd cs) # as'" "rev as' = map e_addr (tl (vs @ [p]))"
    by (metis rev.simps(2) rev_rev_ident rev_append rev_singleton_conv append_Cons append_Nil)
  obtain d ds where cs: "cs = d # ds" using snoc.prems(2) by (cases cs) simp_all
  let ?p = "p\<lparr>e_ts := ts\<rparr>"
  have s: "stamp_parent ts (e_addr d) (vs @ p # d # ds) = Some (vs @ ?p # d # ds)"
    using stamp_parent_at [of vs p d ds ts] snoc.prems(1) cs by simp
  have "foldO (stamp_parent ts) as' (vs @ ?p # cs) = Some (map (\<lambda>e. e\<lparr>e_ts := ts\<rparr>) vs @ ?p # cs)"
    using snoc.IH [of "?p # cs" as'] snoc.prems(1) as(2) by (cases vs) simp_all
  then show ?case using s cs as(1) by simp
qed simp

lemma foldO_undo:
  assumes "distinct (map e_addr (us @ cs))" "cs \<noteq> []" "as = map e_addr (tl (us @ [hd cs]))"
    and "\<forall>e \<in> set (tl us). e_type e \<noteq> INVALID"
  shows "foldO undo_version as (us @ cs) = Some (if us \<noteq> [] \<and> e_type (hd cs) = INVALID then tl cs else cs)"
  using assms
proof (induction us arbitrary: as)
  case (Cons p vs)
  obtain d ds where cs: "cs = d # ds" using Cons.prems(2) by (cases cs) simp_all
  show ?case
  proof (cases vs)
    case Nil
    then show ?thesis using Cons.prems cs by simp
  next
    case (Cons q ws)
    have IH: "foldO undo_version (map e_addr (ws @ [hd cs])) (q # ws @ cs) =
        Some (if e_type (hd cs) = INVALID then tl cs else cs)"
      using Cons.IH [of "map e_addr (ws @ [hd cs])"] Cons.prems Cons by simp
    then show ?thesis using Cons.prems Cons cs by simp
  qed
qed simp

lemma remove_below_at:
  "distinct (map e_addr (xs @ [p, b])) \<Longrightarrow> remove_below (e_addr b) (xs @ [p, b]) = Some (p, xs @ [p])"
proof (induction xs)
  case (Cons x xs)
  then show ?case by (cases xs) auto
qed simp

lemma foldO_cleanup:
  assumes "distinct (map e_addr (ks @ bs))" "ks \<noteq> []" "as = rev (map e_addr bs)"
  shows "foldO cleanup_version as (ks @ bs) =
    Some (if bs \<noteq> [] \<and> length ks = 1 \<and> e_deleted (hd ks) then [] else ks)"
  using assms
proof (induction bs arbitrary: as rule: rev_induct)
  case (snoc b bs)
  let ?l = "ks @ bs"
  obtain xs p where l: "?l = xs @ [p]" using snoc.prems(2) by (metis append_is_Nil_conv rev_exhaust)
  have r: "remove_below (e_addr b) (xs @ [p, b]) = Some (p, xs @ [p])"
    using remove_below_at [of xs p b] snoc.prems(1) l by (metis append.assoc append_Cons append_Nil)
  have c: "ks @ bs @ [b] = xs @ [p, b]" using l by (metis append.assoc append_Cons append_Nil)
  have v: "cleanup_version (e_addr b) (ks @ bs @ [b]) = Some (if e_deleted p \<and> xs = [] then [] else ?l)"
    unfolding c cleanup_version_def r using l by (cases xs) simp_all
  show ?case
  proof (cases "e_deleted p \<and> xs = []")
    case True
    then have "ks = [p]" "bs = []" using l snoc.prems(2) by (cases ks; simp)+
    then show ?thesis using snoc.prems(3) v True by simp
  next
    case False
    have "\<not> (bs = [] \<and> length ks = 1 \<and> e_deleted (hd ks))"
      using False l by (auto simp: length_Suc_conv)
    then have "foldO cleanup_version (rev (map e_addr bs)) ?l =
        Some (if length ks = 1 \<and> e_deleted (hd ks) then [] else ks)"
      using snoc.IH [of "rev (map e_addr bs)"] snoc.prems(1,2) by auto
    then show ?thesis using snoc.prems(3) v False by simp
  qed
qed simp

text \<open>Over all chains: each undo entry touches the chain of its key only.\<close>

definition undo_of :: "key \<Rightarrow> (key \<times> nat) list \<Rightarrow> nat list" where
  "undo_of k us = map snd (filter (\<lambda>u. fst u = k) us)"

definition set_chains :: "(key \<Rightarrow> 'd entry list) \<Rightarrow> 'd db \<Rightarrow> 'd db" where
  "set_chains c db = db\<lparr>chains := \<lambda>k. if c k = [] then None else Some (c k)\<rparr>"

definition no_empty :: "'d db \<Rightarrow> bool" where
  "no_empty db \<longleftrightarrow> (\<forall>k. chains db k \<noteq> Some [])"

lemma undo_of_simps [simp]:
  "undo_of k [] = []" "undo_of k ((k', a) # us) = (if k' = k then a # undo_of k us else undo_of k us)"
  "undo_of k (us @ vs) = undo_of k us @ undo_of k vs" "undo_of k (rev us) = rev (undo_of k us)"
  by (simp_all add: undo_of_def rev_map rev_filter)

lemma chain_of_set_chains [simp]: "chain_of (set_chains c db) k = c k"
  by (simp add: chain_of_def set_chains_def)

lemma no_empty_set_chains [simp]: "no_empty (set_chains c db)"
  by (simp add: no_empty_def set_chains_def)

lemma set_chains_same: "no_empty db \<Longrightarrow> set_chains (chain_of db) db = db"
proof -
  assume ne: "no_empty db"
  have "(\<lambda>k. if chain_of db k = [] then None else Some (chain_of db k)) = chains db"
  proof
    fix k
    show "(if chain_of db k = [] then None else Some (chain_of db k)) = chains db k"
      using ne by (cases "chains db k") (auto simp: chain_of_def no_empty_def)
  qed
  then show ?thesis by (simp add: set_chains_def)
qed

lemma set_chains_twice [simp]: "set_chains c (set_chains d db) = set_chains c db"
  by (simp add: set_chains_def)

lemma on_chain_set:
  "no_empty db \<Longrightarrow> f (chain_of db k) = Some c \<Longrightarrow> on_chain k f db = Inr (set_chains ((chain_of db)(k := c)) db)"
proof -
  assume a: "no_empty db" "f (chain_of db k) = Some c"
  have "(chains db)(k := if c = [] then None else Some c) =
      (\<lambda>k'. if ((chain_of db)(k := c)) k' = [] then None else Some (((chain_of db)(k := c)) k'))"
  proof
    fix k'
    show "((chains db)(k := if c = [] then None else Some c)) k' =
        (if ((chain_of db)(k := c)) k' = [] then None else Some (((chain_of db)(k := c)) k'))"
      using a(1) by (cases "chains db k'") (auto simp: chain_of_def no_empty_def)
  qed
  then show ?thesis using a(2) by (simp add: on_chain_def set_chains_def)
qed

lemma undo_all_chains:
  assumes "no_empty db" "\<And>k. foldO f (undo_of k us) (chain_of db k) = Some (c k)"
  shows "undo_all f us db = Inr (set_chains c db)"
  using assms
proof (induction us arbitrary: db)
  case Nil
  then have "c = chain_of db" by auto
  then show ?case using set_chains_same [OF Nil.prems(1)] by (simp add: undo_all_def)
next
  case (Cons u us)
  obtain k a where u: "u = (k, a)" by (cases u)
  obtain d where d: "f a (chain_of db k) = Some d" "foldO f (undo_of k us) d = Some (c k)"
    using Cons.prems(2) [of k] u by (auto split: bind_splits)
  let ?db = "set_chains ((chain_of db)(k := d)) db"
  have "foldO f (undo_of k' us) (chain_of ?db k') = Some (c k')" for k'
    using Cons.prems(2) [of k'] d(2) u by (cases "k' = k") auto
  then have "undo_all f us ?db = Inr (set_chains c ?db)"
    by (intro Cons.IH) simp_all
  then show ?case using on_chain_set [of db "f a" k d, OF Cons.prems(1) d(1)] u by (simp add: undo_all_def)
qed

subsection \<open>The invariant\<close>

text \<open>The links of a chain, oldest first: the address of a version and the timestamp of the one above it.
  They are the undo entries of the transactions that have not been cleaned up, in the order of their
  commits, the writer that is still active last.\<close>

definition links :: "'d entry list \<Rightarrow> (nat \<times> nat) list" where
  "links c = rev (zip (map e_addr (tl c)) (map e_ts c))"

definition stamp_of :: "txn \<Rightarrow> nat" where
  "stamp_of t = (if t_commit t = 0 then t_id t else t_commit t)"

definition txn_links :: "key \<Rightarrow> txn \<Rightarrow> (nat \<times> nat) list" where
  "txn_links k t = map (\<lambda>a. (a, stamp_of t)) (undo_of k (t_undo t))"

definition waiting :: "'d db \<Rightarrow> txn list" where
  "waiting db = filter t_awaiting_cleanup (concat (cleanup_queue db))"

definition log_of :: "key \<Rightarrow> txn list \<Rightarrow> (nat \<times> nat) list" where
  "log_of k ts = concat (map (txn_links k) ts)"

text \<open>For the clock, the address counter, the committed transactions that are not cleaned up and the
  active ones: a chain of a key, and the transactions themselves.\<close>

definition chain_inv :: "nat \<Rightarrow> nat \<Rightarrow> txn list \<Rightarrow> txn list \<Rightarrow> key \<Rightarrow> 'd entry list \<Rightarrow> bool" where
  "chain_inv clock fresh don acts k c \<longleftrightarrow>
     distinct (map e_addr c) \<and> (\<forall>e \<in> set c. e_addr e < fresh) \<and> links c = log_of k (don @ acts) \<and>
     (c \<noteq> [] \<longrightarrow> e_ts (last c) < clock \<and> (\<forall>t \<in> set acts. e_ts (last c) < t_start t)) \<and>
     (\<forall>e \<in> set (butlast c). e_type e \<noteq> INVALID) \<and> (\<forall>e \<in> set c. e_type e = INVALID \<longrightarrow> e_deleted e) \<and>
     (\<forall>t \<in> set acts. undo_of k (t_undo t) \<noteq> [] \<longrightarrow> (\<forall>e \<in> set c. \<not> committed_after_starting (t_start t) (e_ts e)))"

definition active_inv :: "nat \<Rightarrow> nat \<Rightarrow> txn list \<Rightarrow> bool" where
  "active_inv clock next_id acts \<longleftrightarrow>
     2 \<le> clock \<and> clock \<le> transaction_id_start \<and> transaction_id_start \<le> next_id \<and> distinct (map t_id acts) \<and>
     (\<forall>t \<in> set acts. t_commit t = 0 \<and> \<not> t_awaiting_cleanup t \<and> 2 \<le> t_start t \<and> t_start t < clock \<and>
        transaction_id_start \<le> t_id t \<and> t_id t < next_id) \<and>
     (\<forall>t \<in> set acts. \<forall>u \<in> set acts. \<forall>k.
        t_id t \<noteq> t_id u \<longrightarrow> undo_of k (t_undo t) = [] \<or> undo_of k (t_undo u) = [])"

definition done_inv :: "nat \<Rightarrow> txn list \<Rightarrow> txn list \<Rightarrow> txn list \<Rightarrow> bool" where
  "done_inv clock wait recent acts \<longleftrightarrow>
     sorted_wrt (<) (map t_commit (wait @ recent)) \<and>
     (\<forall>t \<in> set (wait @ recent). 2 \<le> t_commit t \<and> t_commit t < clock \<and> (\<forall>u \<in> set acts. t_commit t \<noteq> t_start u)) \<and>
     (\<forall>t \<in> set wait. \<forall>u \<in> set acts. t_commit t < t_start u)"

definition db_ok :: "'d db \<Rightarrow> bool" where
  "db_ok db \<longleftrightarrow> no_empty db \<and> (active db = [] \<longrightarrow> recently_committed db = []) \<and>
     active_inv (current_start_timestamp db) (current_transaction_id db) (active db) \<and>
     done_inv (current_start_timestamp db) (waiting db) (recently_committed db) (active db) \<and>
     (\<forall>k. chain_inv (current_start_timestamp db) (next_addr db) (waiting db @ recently_committed db) (active db) k
        (chain_of db k))"

lemma db_ok_new: "db_ok new_db"
  by (simp add: db_ok_def no_empty_def active_inv_def done_inv_def chain_inv_def new_db_def chain_of_def links_def
      log_of_def waiting_def transaction_id_start_def)

subsection \<open>Reading the invariant\<close>

lemma links_simps [simp]: "links [] = []" "links [e] = []"
  "links (p # c # es) = links (c # es) @ [(e_addr c, e_ts p)]"
  by (simp_all add: links_def)

lemma links_Cons: "c \<noteq> [] \<Longrightarrow> links (p # c) = links c @ [(e_addr (hd c), e_ts p)]"
  by (cases c) simp_all

lemma length_links: "length (links c) = length c - 1"
  by (cases c) (simp_all add: links_def)

lemma log_of_append [simp]: "log_of k (ts @ us) = log_of k ts @ log_of k us"
  by (simp add: log_of_def)

lemma log_of_simps [simp]: "log_of k [] = []" "log_of k (t # ts) = txn_links k t @ log_of k ts"
  by (simp_all add: log_of_def)

lemma links_top:
  assumes "links c = L @ map (\<lambda>a. (a, s)) as" "c \<noteq> []"
  shows "\<exists>us cs. c = us @ cs \<and> cs \<noteq> [] \<and> length us = length as \<and> rev as = map e_addr (tl (us @ [hd cs])) \<and>
    (\<forall>e \<in> set us. e_ts e = s) \<and> links cs = L"
  using assms
proof (induction as arbitrary: c rule: rev_induct)
  case Nil
  then show ?case by (intro exI [of _ "[]"] exI [of _ c]) simp
next
  case (snoc a as)
  then obtain p d es where c: "c = p # d # es" by (cases c; cases "tl c") (auto simp: links_def)
  then have e: "a = e_addr d" "s = e_ts p" "links (d # es) = L @ map (\<lambda>a. (a, s)) as"
    using snoc.prems(1) by simp_all
  obtain us cs where i: "d # es = us @ cs" "cs \<noteq> []" "length us = length as" "rev as = map e_addr (tl (us @ [hd cs]))"
      "\<forall>e \<in> set us. e_ts e = s" "links cs = L"
    using snoc.IH [OF e(3)] by auto
  have "rev (as @ [a]) = map e_addr (us @ [hd cs])"
    using i(1,2,4) e(1) by (cases us) auto
  then show ?case using i c e by (intro exI [of _ "p # us"] exI [of _ cs]) simp
qed

lemma fst_links: "map fst (links c) = rev (map e_addr (tl c))"
  by (cases c) (simp_all add: links_def rev_map [symmetric] map_fst_zip_take)

lemma snd_links: "map snd (links c) = rev (map e_ts (butlast c))"
proof (induction c)
  case (Cons e c)
  then show ?case by (cases c) simp_all
qed simp

lemma links_bottom:
  assumes "links c = map (\<lambda>a. (a, s)) as @ L" "c \<noteq> []"
  shows "\<exists>ks bs. c = ks @ bs \<and> ks \<noteq> [] \<and> as = rev (map e_addr bs) \<and> links ks = L \<and>
    (bs \<noteq> [] \<longrightarrow> e_ts (last ks) = s) \<and> (\<forall>e \<in> set (butlast bs). e_ts e = s)"
  using assms
proof (induction L arbitrary: c rule: rev_induct)
  case Nil
  have as: "as = rev (map e_addr (tl c))"
    using fst_links [of c] Nil.prems(1) by (simp add: comp_def)
  have "map (\<lambda>a. s) as = rev (map e_ts (butlast c))"
    using snd_links [of c] Nil.prems(1) by (simp add: comp_def)
  then have "set (map e_ts (butlast c)) \<subseteq> {s}" by (metis empty_subsetI image_constant_conv set_map set_rev subset_insertI2 order_refl)
  then have "tl c \<noteq> [] \<longrightarrow> e_ts (hd c) = s" "\<forall>e \<in> set (butlast (tl c)). e_ts e = s"
    using Nil.prems(2) by (cases c; cases "tl c"; auto)+
  then show ?case using Nil.prems(2) using as by (intro exI [of _ "[hd c]"] exI [of _ "tl c"]) auto
next
  case (snoc l L)
  then obtain p d es where c: "c = p # d # es" by (cases c; cases "tl c") (auto simp: links_def)
  then have e: "l = (e_addr d, e_ts p)" "links (d # es) = map (\<lambda>a. (a, s)) as @ L"
    using snoc.prems(1) by simp_all
  obtain ks bs where i: "d # es = ks @ bs" "ks \<noteq> []" "as = rev (map e_addr bs)" "links ks = L"
      "bs \<noteq> [] \<longrightarrow> e_ts (last ks) = s" "\<forall>e \<in> set (butlast bs). e_ts e = s"
    using snoc.IH [OF e(2)] by auto
  have "links (p # ks) = L @ [l]" using i(1,2,4) e(1) by (cases ks) auto
  then show ?case using i c by (intro exI [of _ "p # ks"] exI [of _ bs]) simp
qed

lemma txn_links_empty: "undo_of k (t_undo t) = [] \<longleftrightarrow> txn_links k t = []"
  by (simp add: txn_links_def)

lemma log_of_empty: "log_of k ts = [] \<longleftrightarrow> (\<forall>t \<in> set ts. undo_of k (t_undo t) = [])"
  by (simp add: log_of_def txn_links_empty)

lemma log_of_snd: "l \<in> set (log_of k ts) \<Longrightarrow> \<exists>t \<in> set ts. snd l = stamp_of t \<and> undo_of k (t_undo t) \<noteq> []"
  by (fastforce simp: log_of_def txn_links_def)

text \<open>The active writer of a chain comes last.\<close>

lemma log_active:
  assumes "active_inv clock n acts" "t \<in> set acts"
  shows "log_of k acts = log_of k (filter (\<lambda>u. t_id u \<noteq> t_id t) acts) @ txn_links k t"
    and "undo_of k (t_undo t) \<noteq> [] \<Longrightarrow> log_of k (filter (\<lambda>u. t_id u \<noteq> t_id t) acts) = []"
proof -
  have d: "distinct (map t_id acts)" using assms(1) by (simp add: active_inv_def)
  show e: "log_of k (filter (\<lambda>u. t_id u \<noteq> t_id t) acts) = []" if "undo_of k (t_undo t) \<noteq> []"
    using that assms by (auto simp: log_of_empty active_inv_def)
  obtain A B where a: "acts = A @ t # B" using assms(2) by (auto simp: in_set_conv_decomp)
  then have f: "filter (\<lambda>u. t_id u \<noteq> t_id t) acts = A @ B"
  proof -
    have "filter (\<lambda>u. t_id u \<noteq> t_id t) A = A" "filter (\<lambda>u. t_id u \<noteq> t_id t) B = B"
      using d a by (auto simp: filter_id_conv rev_image_eqI)
    then show ?thesis using a by simp
  qed
  show "log_of k acts = log_of k (filter (\<lambda>u. t_id u \<noteq> t_id t) acts) @ txn_links k t"
  proof (cases "undo_of k (t_undo t) = []")
    case True
    then show ?thesis using a f by (simp add: txn_links_empty)
  next
    case False
    then have "log_of k (A @ B) = []" using e f by simp
    then show ?thesis unfolding f by (simp add: a)
  qed
qed

text \<open>Its versions are on top.\<close>

lemma writer_on_top:
  assumes "active_inv clock n acts" "t \<in> set acts" "chain_inv clock fresh don acts k c" "c \<noteq> []"
  obtains us cs where "c = us @ cs" "cs \<noteq> []" "length us = length (undo_of k (t_undo t))"
    "rev (undo_of k (t_undo t)) = map e_addr (tl (us @ [hd cs]))" "\<forall>e \<in> set us. e_ts e = t_id t"
    "links cs = log_of k (don @ filter (\<lambda>u. t_id u \<noteq> t_id t) acts)"
proof -
  have "t_commit t = 0" using assms(1,2) by (simp add: active_inv_def)
  then have "links c = log_of k (don @ filter (\<lambda>u. t_id u \<noteq> t_id t) acts) @ map (\<lambda>a. (a, t_id t)) (undo_of k (t_undo t))"
    using assms(3) log_active(1) [OF assms(1,2), of k] by (simp add: chain_inv_def txn_links_def stamp_of_def)
  then show ?thesis using links_top [of c] assms(4) that by blast
qed

lemma empty_chain_log: "chain_inv clock fresh don acts k [] \<Longrightarrow> t \<in> set (don @ acts) \<Longrightarrow> undo_of k (t_undo t) = []"
  unfolding chain_inv_def links_simps by (metis log_of_empty)

text \<open>Timestamps of a chain: of a committed transaction or of an active one; committed ones decrease.\<close>

lemma chain_timestamps:
  assumes "active_inv clock n acts" "done_inv clock wait recent acts" "chain_inv clock fresh (wait @ recent) acts k c" "e \<in> set c"
  shows "e_ts e < clock \<and> (\<forall>u \<in> set acts. e_ts e \<noteq> t_start u) \<or> (\<exists>t \<in> set acts. e_ts e = t_id t \<and> undo_of k (t_undo t) \<noteq> [])"
proof (cases "e = last c")
  case True
  then show ?thesis using assms(3,4) by (auto simp: chain_inv_def)
next
  case False
  then have "e \<in> set (butlast c)" using assms(4) by (metis append_butlast_last_id empty_iff in_set_conv_decomp insert_iff list.set(1) set_ConsD Un_iff set_append)
  then have "e_ts e \<in> snd ` set (links c)" using snd_links [of c] by (metis image_eqI image_set set_rev)
  then obtain l where l: "l \<in> set (log_of k ((wait @ recent) @ acts))" "e_ts e = snd l"
    using assms(3) by (auto simp: chain_inv_def)
  obtain t where t: "t \<in> set ((wait @ recent) @ acts)" "e_ts e = stamp_of t" "undo_of k (t_undo t) \<noteq> []"
    using log_of_snd [OF l(1)] l(2) by auto
  show ?thesis
  proof (cases "t \<in> set acts")
    case True
    then show ?thesis using t assms(1) by (auto simp: stamp_of_def active_inv_def)
  next
    case False
    then have "2 \<le> t_commit t \<and> t_commit t < clock \<and> (\<forall>u \<in> set acts. t_commit t \<noteq> t_start u)"
      using t(1) assms(2) by (simp add: done_inv_def)
    then show ?thesis using t(2) by (simp add: stamp_of_def)
  qed
qed

subsection \<open>Views\<close>

definition visible :: "nat \<Rightarrow> nat \<Rightarrow> 'd entry list \<Rightarrow> 'd entry option" where
  "visible tid start c = undeleted (map_option fst (entry_for_transaction tid start c))"

lemma undeleted_simps [simp]: "undeleted None = None" "undeleted (Some e) = (if e_deleted e then None else Some e)"
  by (simp_all add: undeleted_def)

lemma visible_Nil [simp]: "visible tid start [] = None" "visible tid start [e] = undeleted (Some e)"
  by (simp_all add: visible_def)

lemma visible_skip: "c \<noteq> [] \<Longrightarrow> \<not> use_timestamp tid start (e_ts e) \<Longrightarrow> visible tid start (e # c) = visible tid start c"
  by (cases c) (simp_all add: visible_def)

lemma visible_skips:
  "c \<noteq> [] \<Longrightarrow> \<forall>e \<in> set us. \<not> use_timestamp tid start (e_ts e) \<Longrightarrow> visible tid start (us @ c) = visible tid start c"
  by (induction us) (simp_all add: visible_skip)

lemma visible_hit: "use_timestamp tid start (e_ts e) \<Longrightarrow> visible tid start (e # c) = undeleted (Some e)"
  by (cases c) (simp_all add: visible_def)

lemma visible_bottom:
  "ks \<noteq> [] \<Longrightarrow> use_timestamp tid start (e_ts (last ks)) \<Longrightarrow> visible tid start (ks @ bs) = visible tid start ks"
proof (induction ks)
  case (Cons e ks)
  show ?case
  proof (cases "use_timestamp tid start (e_ts e)")
    case True
    then show ?thesis by (simp add: visible_hit)
  next
    case False
    then have "ks \<noteq> []" using Cons.prems(2) by auto
    then show ?thesis using Cons False by (simp add: visible_skip)
  qed
qed simp

text \<open>A committed version is one that a transaction starting now would use.\<close>

lemma committed_visible:
  assumes "\<forall>e \<in> set c. use_timestamp tid start (e_ts e) \<longleftrightarrow> e_ts e < transaction_id_start"
  shows "undeleted (committed_entry c) = visible tid start c"
  using assms
proof (induction c rule: committed_entry.induct)
  case (3 e d es)
  then show ?case by (simp add: visible_def)
qed simp_all

lemma entry_for_transaction_Some: "c \<noteq> [] \<Longrightarrow> entry_for_transaction tid start c \<noteq> None"
  by (induction tid start c rule: entry_for_transaction.induct) simp_all

lemma get_entry_visible: "no_empty db \<Longrightarrow> get_entry db t k = visible (t_id t) (t_start t) (chain_of db k)"
proof -
  assume ne: "no_empty db"
  show ?thesis
  proof (cases "chains db k")
    case (Some c)
    then have "c \<noteq> []" using ne by (auto simp: no_empty_def)
    then obtain e v where "entry_for_transaction (t_id t) (t_start t) c = Some (e, v)"
      using entry_for_transaction_Some by (metis not_None_eq prod.exhaust)
    then show ?thesis using Some by (simp add: get_entry_def get_entry_detailed_def chain_of_def visible_def)
  qed (simp add: get_entry_def get_entry_detailed_def chain_of_def)
qed

subsection \<open>Writing a version\<close>

text \<open>What a conflict-free create, drop or alter does to the database.\<close>

definition write_version :: "txn \<Rightarrow> key \<Rightarrow> 'd entry \<Rightarrow> 'd db \<Rightarrow> 'd db" where
  "write_version t k e db =
     put_version (t_id t) k e (if chains db k = None then start_chain k (e_name e) db else db)"

definition free_for :: "'d db \<Rightarrow> txn \<Rightarrow> key \<Rightarrow> bool" where
  "free_for db t k \<longleftrightarrow> (chain_of db k \<noteq> [] \<longrightarrow> \<not> has_conflict (t_id t) (t_start t) (e_ts (hd (chain_of db k))))"

definition push_undo :: "nat \<Rightarrow> nat \<Rightarrow> key \<Rightarrow> nat \<Rightarrow> txn \<Rightarrow> txn" where
  "push_undo tid version k a u = (if t_id u = tid then u\<lparr>t_version := version, t_undo := t_undo u @ [(k, a)]\<rparr> else u)"

text \<open>The chain below the new version: the old one, or a dummy.\<close>

definition below :: "'d db \<Rightarrow> key \<Rightarrow> string \<Rightarrow> 'd entry list" where
  "below db k name = (case chains db k of Some c \<Rightarrow> c | None \<Rightarrow>
     [\<lparr>e_addr = next_addr db, e_type = INVALID, e_name = name, e_ts = 0, e_deleted = True,
       e_temporary = False, e_internal = False, e_data = None\<rparr>])"

definition new_addr :: "'d db \<Rightarrow> key \<Rightarrow> nat" where
  "new_addr db k = (if chains db k = None then Suc (next_addr db) else next_addr db)"

lemma write_version_fields:
  assumes "no_empty db"
  shows "write_version t k e db = db\<lparr>
    chains := (chains db)(k \<mapsto> e\<lparr>e_addr := new_addr db k, e_ts := t_id t\<rparr> # below db k (e_name e)),
    next_addr := Suc (new_addr db k),
    last_uncommitted_version := Suc (last_uncommitted_version db),
    active := map (push_undo (t_id t) (Suc (last_uncommitted_version db)) k (e_addr (hd (below db k (e_name e))))) (active db)\<rparr>"
  using assms
  by (cases "chains db k")
     (auto simp: write_version_def put_version_def start_chain_def push_catalog_entry_def below_def new_addr_def push_undo_def)

lemma push_undo_simps [simp]:
  "t_id (push_undo tid v k a u) = t_id u" "t_start (push_undo tid v k a u) = t_start u"
  "t_commit (push_undo tid v k a u) = t_commit u" "t_awaiting_cleanup (push_undo tid v k a u) = t_awaiting_cleanup u"
  "undo_of k' (t_undo (push_undo tid v k a u)) = undo_of k' (t_undo u) @ (if t_id u = tid \<and> k' = k then [a] else [])"
  by (simp_all add: push_undo_def)

lemma log_push_other: "k' \<noteq> k \<Longrightarrow> log_of k' (map (push_undo tid v k a) ts) = log_of k' ts"
  by (induction ts) (simp_all add: txn_links_def stamp_of_def)

lemma log_push_none: "tid \<notin> t_id ` set ts \<Longrightarrow> log_of k' (map (push_undo tid v k a) ts) = log_of k' ts"
  by (induction ts) (simp_all add: txn_links_def stamp_of_def)

lemma log_push:
  assumes "active_inv clock n acts" "t \<in> set acts" "\<forall>u \<in> set acts. t_id u \<noteq> t_id t \<longrightarrow> undo_of k (t_undo u) = []"
  shows "log_of k (map (push_undo (t_id t) v k a) acts) = log_of k acts @ [(a, t_id t)]"
proof -
  obtain A B where a: "acts = A @ t # B" using assms(2) by (auto simp: in_set_conv_decomp)
  have d: "t_id t \<notin> t_id ` set A" "t_id t \<notin> t_id ` set B" "t_commit t = 0"
    using assms(1,2) a by (auto simp: active_inv_def)
  then have "t_id u \<noteq> t_id t" if "u \<in> set A \<union> set B" for u using that by (metis Un_iff imageI)
  then have "log_of k A = []" "log_of k B = []" using assms(3) a by (simp_all add: log_of_empty)
  then show ?thesis using a d by (simp add: log_push_none txn_links_def stamp_of_def)
qed

text \<open>A chain without a conflict has no other active writer, and nothing newer than the snapshot.\<close>

lemma free_for_writers:
  assumes "active_inv clock n acts" "t \<in> set acts" "chain_inv clock fresh don acts k c"
    "c \<noteq> [] \<longrightarrow> \<not> has_conflict (t_id t) (t_start t) (e_ts (hd c))" "u \<in> set acts" "t_id u \<noteq> t_id t"
  shows "undo_of k (t_undo u) = []"
proof (rule ccontr)
  assume w: "undo_of k (t_undo u) \<noteq> []"
  then have c: "c \<noteq> []" using assms(3,5) empty_chain_log by fastforce
  obtain us cs where "c = us @ cs" "length us = length (undo_of k (t_undo u))" "\<forall>e \<in> set us. e_ts e = t_id u"
    using writer_on_top [OF assms(1) assms(5) assms(3) c] by metis
  then have "e_ts (hd c) = t_id u" using w by (cases us) auto
  moreover have "transaction_id_start \<le> t_id u" using assms(1,5) by (simp add: active_inv_def)
  ultimately show False using assms(4,6) c by (simp add: has_conflict_def created_by_other_def)
qed

lemma sorted_log:
  "sorted_wrt (<) (map t_commit ts) \<Longrightarrow> \<forall>t \<in> set ts. 2 \<le> t_commit t \<Longrightarrow> sorted_wrt (\<le>) (map snd (log_of k ts))"
proof (induction ts)
  case (Cons t ts)
  have "\<forall>l \<in> set (log_of k ts). t_commit t \<le> snd l"
    using Cons.prems log_of_snd [of _ k ts] by (fastforce simp: stamp_of_def)
  moreover have "sorted_wrt (\<le>) (map snd (txn_links k t))" "snd ` set (txn_links k t) \<subseteq> {t_commit t}"
    using Cons.prems by (auto simp: txn_links_def stamp_of_def sorted_wrt_map comp_def)
  ultimately show ?case using Cons by (simp add: sorted_wrt_append) (metis image_subset_iff singletonD)
qed simp

lemma same_txn: "active_inv clock n acts \<Longrightarrow> t \<in> set acts \<Longrightarrow> u \<in> set acts \<Longrightarrow> t_id u = t_id t \<Longrightarrow> u = t"
  by (auto simp: active_inv_def distinct_map dest: inj_onD)

lemma free_for_newer:
  assumes "active_inv clock n acts" "done_inv clock wait recent acts" "t \<in> set acts"
    "chain_inv clock fresh (wait @ recent) acts k c"
    "c \<noteq> [] \<longrightarrow> \<not> has_conflict (t_id t) (t_start t) (e_ts (hd c))" "e \<in> set c"
  shows "\<not> committed_after_starting (t_start t) (e_ts e)"
proof (cases "undo_of k (t_undo t) = []")
  case False
  then show ?thesis using assms(3,4,6) by (auto simp: chain_inv_def)
next
  case True
  have acts: "log_of k acts = []"
    unfolding log_of_empty
  proof
    fix u assume "u \<in> set acts"
    then show "undo_of k (t_undo u) = []"
      using free_for_writers [OF assms(1,3,4,5), of u] True same_txn [OF assms(1,3), of u] by (cases "t_id u = t_id t") auto
  qed
  have l: "links c = log_of k (wait @ recent)" using assms(4) acts by (simp add: chain_inv_def)
  have "sorted_wrt (\<le>) (map snd (links c))"
    unfolding l using assms(2) by (intro sorted_log) (auto simp: done_inv_def)
  then have "sorted_wrt (\<ge>) (map e_ts (butlast c))"
    unfolding snd_links sorted_wrt_rev .
  then have le: "\<forall>d \<in> set (butlast c). e_ts d \<le> e_ts (hd c)"
    by (cases c; cases "tl c") auto
  show ?thesis
  proof (cases "e \<in> set (butlast c)")
    case True
    then have "e_ts e \<le> e_ts (hd c)" "hd c \<in> set c" using le assms(6) by (auto intro: hd_in_set)
    then show ?thesis
      using assms(5,6) chain_timestamps [OF assms(1,2,4), of "hd c"] acts assms(1)
      by (auto simp: has_conflict_def committed_after_starting_def log_of_empty active_inv_def)
  next
    case False
    then have "e = last c" using assms(6) by (metis append_butlast_last_id empty_iff in_set_conv_decomp insert_iff list.set(1) set_ConsD Un_iff set_append)
    then have "e_ts e < t_start t" using assms(3,4,6) by (auto simp: chain_inv_def)
    then show ?thesis by (simp add: committed_after_starting_def)
  qed
qed

lemma active_inv_push:
  assumes "active_inv clock n acts" "t \<in> set acts" "\<forall>u \<in> set acts. t_id u \<noteq> t_id t \<longrightarrow> undo_of k (t_undo u) = []"
  shows "active_inv clock n (map (push_undo (t_id t) v k a) acts)"
  using assms unfolding active_inv_def by (simp add: comp_def)

lemma below_ok:
  assumes "chain_inv clock (next_addr db) don acts k (chain_of db k)" "active_inv clock n acts" "no_empty db"
  shows "chain_inv clock (new_addr db k) don acts k (below db k nm) \<and> below db k nm \<noteq> [] \<and> next_addr db \<le> new_addr db k"
proof (cases "chains db k")
  case None
  then show ?thesis
    using assms by (auto simp: chain_inv_def active_inv_def below_def new_addr_def chain_of_def committed_after_starting_def)
next
  case (Some c)
  then show ?thesis using assms by (auto simp: below_def new_addr_def chain_of_def no_empty_def)
qed

text \<open>The write keeps the invariant.\<close>

lemma db_ok_write:
  assumes ok: "db_ok db" and t: "t \<in> set (active db)" and free: "free_for db t k" and ty: "e_type e \<noteq> INVALID"
  shows "db_ok (write_version t k e db)"
proof -
  let ?clock = "current_start_timestamp db" and ?acts = "active db" and ?don = "waiting db @ recently_committed db"
  let ?b = "below db k (e_name e)" and ?v = "Suc (last_uncommitted_version db)"
  let ?acts' = "map (push_undo (t_id t) ?v k (e_addr (hd ?b))) ?acts"
  let ?e = "e\<lparr>e_addr := new_addr db k, e_ts := t_id t\<rparr>"
  let ?db = "write_version t k e db"
  have ne: "no_empty db" and ai: "active_inv ?clock (current_transaction_id db) ?acts"
    and di: "done_inv ?clock (waiting db) (recently_committed db) ?acts"
    and ci: "\<And>k. chain_inv ?clock (next_addr db) ?don ?acts k (chain_of db k)"
    using ok by (simp_all add: db_ok_def)
  note f = write_version_fields [OF ne, of t k e]
  have others: "\<forall>u \<in> set ?acts. t_id u \<noteq> t_id t \<longrightarrow> undo_of k (t_undo u) = []"
    using free_for_writers [OF ai t ci] free by (simp add: free_for_def)
  have b: "chain_inv ?clock (new_addr db k) ?don ?acts k ?b" "?b \<noteq> []" "next_addr db \<le> new_addr db k"
    using below_ok [OF ci ai ne] by auto
  have w: "waiting ?db = waiting db" "chain_of ?db = (chain_of db)(k := ?e # ?b)" "no_empty ?db"
    using ne by (auto simp: f waiting_def chain_of_def no_empty_def fun_eq_iff split: if_splits)
  have start: "\<not> committed_after_starting (t_start u) (t_id t)" for u
    using ai t by (auto simp: committed_after_starting_def active_inv_def)
  have newer: "\<forall>d \<in> set ?b. \<not> committed_after_starting (t_start t) (e_ts d)"
  proof (cases "chains db k")
    case (Some c)
    then show ?thesis
      using free_for_newer [OF ai di t ci [of k]] free by (auto simp: free_for_def below_def chain_of_def)
  qed (auto simp: below_def committed_after_starting_def)
  have "chain_inv ?clock (Suc (new_addr db k)) ?don ?acts' k (?e # ?b)"
    unfolding chain_inv_def
  proof (intro conjI)
    show "links (?e # ?b) = log_of k (?don @ ?acts')"
      using b(1,2) log_push [OF ai t others] by (cases ?b) (simp_all add: chain_inv_def)
    show "\<forall>u \<in> set ?acts'. undo_of k (t_undo u) \<noteq> [] \<longrightarrow> (\<forall>d \<in> set (?e # ?b). \<not> committed_after_starting (t_start u) (e_ts d))"
      using newer start others same_txn [OF ai t] by auto
  qed (use b ty in \<open>auto simp: chain_inv_def less_Suc_eq\<close>)
  moreover have "chain_inv ?clock (Suc (new_addr db k)) ?don ?acts' k' (chain_of db k')" if "k' \<noteq> k" for k'
    using ci [of k'] that b(3) by (auto simp: chain_inv_def log_push_other intro: less_SucI order_less_le_trans)
  moreover have "done_inv ?clock (waiting db) (recently_committed db) ?acts'" using di by (simp add: done_inv_def)
  ultimately show ?thesis
    using active_inv_push [OF ai t others] w t by (auto simp: db_ok_def f)
qed

subsection \<open>Removing a transaction\<close>

lemma lowest_le: "lowest m xs \<le> m \<and> (\<forall>x \<in> set xs. lowest m xs \<le> x)"
  unfolding lowest_def
proof (induction xs arbitrary: m)
  case (Cons x xs)
  then show ?case using Cons.IH [of "min x m"] by auto
qed simp

abbreviation other_txns :: "txn \<Rightarrow> txn list \<Rightarrow> txn list" where
  "other_txns t acts \<equiv> filter (\<lambda>u. t_id u \<noteq> t_id t) acts"

lemma log_of_awaiting [simp]: "log_of k (map (\<lambda>u. u\<lparr>t_awaiting_cleanup := True\<rparr>) ts) = log_of k ts"
  by (induction ts) (simp_all add: txn_links_def stamp_of_def)

lemma done_inv_alt: "done_inv clock wait recent acts \<longleftrightarrow>
    sorted_wrt (<) (map t_commit (wait @ recent)) \<and> (\<forall>c \<in> set (map t_commit (wait @ recent)). 2 \<le> c \<and> c < clock \<and> (\<forall>u \<in> set acts. c \<noteq> t_start u)) \<and>
    (\<forall>c \<in> set (map t_commit wait). \<forall>u \<in> set acts. c < t_start u)"
  by (simp add: done_inv_def ball_Un)

text \<open>What is left to show when a transaction goes: the finished one is kept at the end, unless it has
  nothing to clean up.\<close>

lemma db_ok_remove:
  assumes ne: "no_empty db" and ai: "active_inv clock (current_transaction_id db) (active db)"
    and clock: "current_start_timestamp db = clock"
    and undone: "t_commit t = 0 \<Longrightarrow> \<not> t_awaiting_cleanup t" and store: "store \<or> t_undo t = []"
    and di: "done_inv clock (waiting db) (recently_committed db @ (if store \<and> t_commit t \<noteq> 0 then [t] else [])) (other_txns t (active db))"
    and ci: "\<And>k. chain_inv clock (next_addr db)
      (waiting db @ recently_committed db @ (if store \<and> t_commit t \<noteq> 0 then [t] else [])) (other_txns t (active db)) k (chain_of db k)"
  shows "db_ok (remove_transaction t store db)"
proof -
  let ?others = "other_txns t (active db)"
  let ?low = "lowest transaction_id_start (map t_start ?others)"
  let ?kept = "recently_committed db @ (if store \<and> t_commit t \<noteq> 0 then [t] else [])"
  let ?old = "takeWhile (\<lambda>u. t_commit u < ?low) ?kept"
  let ?old' = "map (\<lambda>u. u\<lparr>t_awaiting_cleanup := True\<rparr>) ?old"
  let ?rest = "drop (length ?old) ?kept"
  let ?db = "remove_transaction t store db"
  have split: "?old @ ?rest = ?kept" by (metis dropWhile_eq_drop takeWhile_dropWhile_id)
  have w: "waiting ?db = waiting db @ ?old'"
    using undone store by (auto simp: remove_transaction_def Let_def waiting_def filter_id_conv)
  have f: "recently_committed ?db = ?rest" "active ?db = ?others" "chain_of ?db = chain_of db" "no_empty ?db"
      "current_start_timestamp ?db = clock" "current_transaction_id ?db = current_transaction_id db" "next_addr ?db = next_addr db"
    using ne clock by (simp_all add: remove_transaction_def Let_def chain_of_def no_empty_def fun_eq_iff)
  have low: "t_commit u < t_start v" if "u \<in> set ?old" "v \<in> set ?others" for u v
    using that lowest_le [of transaction_id_start "map t_start ?others"] by (fastforce dest: set_takeWhileD)
  have old: "map t_commit ?old' = map t_commit ?old" by simp
  have "map t_commit (waiting ?db @ ?rest) = map t_commit (waiting db @ ?kept)"
    unfolding w map_append old using split by (metis append.assoc map_append)
  moreover have "\<forall>c \<in> set (map t_commit (waiting ?db)). \<forall>v \<in> set ?others. c < t_start v"
    unfolding w map_append old using di low by (auto simp: done_inv_alt)
  ultimately have "done_inv clock (waiting ?db) ?rest ?others"
    using di unfolding done_inv_alt by simp
  moreover have "active_inv clock (current_transaction_id db) ?others"
    using ai by (auto simp: active_inv_def distinct_map_filter)
  moreover have "chain_inv clock (next_addr db) (waiting ?db @ ?rest) ?others k (chain_of db k)" for k
  proof -
    have "log_of k ((waiting ?db @ ?rest) @ ?others) = log_of k ((waiting db @ ?kept) @ ?others)"
      unfolding w using split by (metis append.assoc log_of_append log_of_awaiting)
    then show ?thesis using ci [of k] by (simp add: chain_inv_def)
  qed
  moreover have "?rest = []" if "?others = []"
  proof -
    have "t_commit u < clock" if "u \<in> set ?kept" for u using di that unfolding done_inv_def by auto
    moreover have "clock \<le> ?low" using ai that by (simp add: lowest_def active_inv_def)
    ultimately have "\<forall>u \<in> set ?kept. t_commit u < ?low" by (meson order_less_le_trans)
    then have "?old = ?kept" by (simp only: takeWhile_eq_all_conv)
    then show ?thesis by (metis append_Nil2 append_eq_conv_conj)
  qed
  ultimately show ?thesis using f by (simp add: db_ok_def)
qed

text \<open>The chain of a key, split at the versions of an active transaction.\<close>

definition writes :: "key \<Rightarrow> txn \<Rightarrow> nat" where
  "writes k t = length (undo_of k (t_undo t))"

definition stamped :: "nat \<Rightarrow> nat \<Rightarrow> 'd entry list \<Rightarrow> 'd entry list" where
  "stamped cid n c = map (\<lambda>e. e\<lparr>e_ts := cid\<rparr>) (take n c) @ drop n c"

definition unwound :: "nat \<Rightarrow> 'd entry list \<Rightarrow> 'd entry list" where
  "unwound n c = (if n \<noteq> 0 \<and> e_type (hd (drop n c)) = INVALID then [] else drop n c)"

lemma split_writer:
  assumes "active_inv clock n acts" "t \<in> set acts" "chain_inv clock fresh don acts k c"
  obtains us cs where "c = us @ cs" "cs = [] \<longrightarrow> us = []" "length us = writes k t"
    "rev (undo_of k (t_undo t)) = map e_addr (tl (us @ [hd cs]))" "\<forall>e \<in> set us. e_ts e = t_id t"
    "links cs = log_of k (don @ other_txns t acts)"
proof (cases "c = []")
  case True
  then have "undo_of k (t_undo t) = []" using empty_chain_log [of clock fresh don acts k t] assms by simp
  moreover have "links [] = log_of k (don @ other_txns t acts)"
    using assms(3) True log_active(1) [OF assms(1,2), of k] by (simp add: chain_inv_def)
  ultimately show ?thesis using that [of "[]" "[]"] True by (simp add: writes_def)
next
  case False
  then show ?thesis using writer_on_top [OF assms False] that unfolding writes_def by metis
qed

lemma invalid_last: "chain_inv clock fresh don acts k (us @ d # ds) \<Longrightarrow> e_type d = INVALID \<Longrightarrow> ds = []"
  by (cases ds rule: rev_cases) (auto simp: chain_inv_def butlast_append)

lemma undo_all_commit:
  assumes ok: "db_ok db" and t: "t \<in> set (active db)" and "chains db' = chains db"
  shows "undo_all (stamp_parent cid) (t_undo t) db' = Inr (set_chains (\<lambda>k. stamped cid (writes k t) (chain_of db k)) db')"
proof (rule undo_all_chains)
  show "no_empty db'" using ok assms(3) by (simp add: db_ok_def no_empty_def)
  fix k
  have same: "chain_of db' k = chain_of db k" using assms(3) by (simp add: chain_of_def)
  from ok have a: "active_inv (current_start_timestamp db) (current_transaction_id db) (active db)"
    and c: "chain_inv (current_start_timestamp db) (next_addr db) (waiting db @ recently_committed db) (active db) k (chain_of db k)"
    by (simp_all add: db_ok_def)
  obtain us cs where s: "chain_of db k = us @ cs" "cs = [] \<longrightarrow> us = []" "length us = writes k t"
    "rev (undo_of k (t_undo t)) = map e_addr (tl (us @ [hd cs]))"
    by (rule split_writer [OF a t c])
  have st: "stamped cid (writes k t) (us @ cs) = map (\<lambda>e. e\<lparr>e_ts := cid\<rparr>) us @ cs" using s(3) by (simp add: stamped_def)
  show "foldO (stamp_parent cid) (undo_of k (t_undo t)) (chain_of db' k) = Some (stamped cid (writes k t) (chain_of db k))"
  proof (cases "cs = []")
    case True
    then show ?thesis using s same by (simp add: stamped_def writes_def)
  next
    case False
    then show ?thesis using foldO_stamp [of us cs "undo_of k (t_undo t)" cid] s c same st by (simp add: chain_inv_def)
  qed
qed

lemma undo_all_rollback:
  assumes ok: "db_ok db" and t: "t \<in> set (active db)" and "chains db' = chains db"
  shows "undo_all undo_version (rev (t_undo t)) db' = Inr (set_chains (\<lambda>k. unwound (writes k t) (chain_of db k)) db')"
proof (rule undo_all_chains)
  show "no_empty db'" using ok assms(3) by (simp add: db_ok_def no_empty_def)
  fix k
  have same: "chain_of db' k = chain_of db k" using assms(3) by (simp add: chain_of_def)
  from ok have a: "active_inv (current_start_timestamp db) (current_transaction_id db) (active db)"
    and c: "chain_inv (current_start_timestamp db) (next_addr db) (waiting db @ recently_committed db) (active db) k (chain_of db k)"
    by (simp_all add: db_ok_def)
  obtain us cs where s: "chain_of db k = us @ cs" "cs = [] \<longrightarrow> us = []" "length us = writes k t"
    "rev (undo_of k (t_undo t)) = map e_addr (tl (us @ [hd cs]))"
    by (rule split_writer [OF a t c])
  show "foldO undo_version (undo_of k (rev (t_undo t))) (chain_of db' k) = Some (unwound (writes k t) (chain_of db k))"
  proof (cases cs)
    case Nil
    then show ?thesis using s same by (simp add: unwound_def writes_def)
  next
    case (Cons d ds)
    have "\<forall>e \<in> set (tl us). e_type e \<noteq> INVALID"
      using c s(1) Cons by (cases us) (auto simp: chain_inv_def butlast_append)
    then have "foldO undo_version (rev (undo_of k (t_undo t))) (us @ cs) =
        Some (if us \<noteq> [] \<and> e_type d = INVALID then ds else cs)"
      using foldO_undo [of us cs "rev (undo_of k (t_undo t))"] s c Cons by (simp add: chain_inv_def)
    moreover have "e_type d = INVALID \<Longrightarrow> ds = []" using invalid_last c s(1) Cons by metis
    moreover have "us \<noteq> [] \<longleftrightarrow> writes k t \<noteq> 0" using s(3) by (metis length_0_conv)
    ultimately show ?thesis using s(1,3) same Cons by (auto simp: unwound_def)
  qed
qed

subsection \<open>Commit, rollback, cleanup and start keep the invariant\<close>

lemma links_stamped:
  assumes "cs \<noteq> []" "rev as = map e_addr (tl (us @ [hd cs]))" "length us = length as"
  shows "links (map (\<lambda>e. e\<lparr>e_ts := cid\<rparr>) us @ cs) = links cs @ map (\<lambda>a. (a, cid)) as"
  using assms
proof (induction us arbitrary: as)
  case (Cons p vs)
  then obtain a as' where as: "as = as' @ [a]" by (metis length_0_conv list.distinct(1) rev_exhaust)
  then have "rev as' = map e_addr (tl (vs @ [hd cs]))" "a = e_addr (hd (vs @ cs))"
    using Cons.prems(1,2) by (cases vs; simp)+
  then have "links (map (\<lambda>e. e\<lparr>e_ts := cid\<rparr>) vs @ cs) = links cs @ map (\<lambda>a. (a, cid)) as'"
    using Cons as by simp
  moreover have "map (\<lambda>e. e\<lparr>e_ts := cid\<rparr>) vs @ cs \<noteq> []" using Cons.prems(1) by simp
  moreover have "e_addr (hd (map (\<lambda>e. e\<lparr>e_ts := cid\<rparr>) vs @ cs)) = a"
    using \<open>a = _\<close> by (cases vs) simp_all
  ultimately show ?case using as by (simp add: links_Cons)
qed simp

text \<open>A chain without the active transaction \<open>t\<close>.\<close>

lemma chain_inv_committed:
  assumes "active_inv clock n acts" "t \<in> set acts" "chain_inv clock fresh don acts k c" "clock < transaction_id_start"
    and t': "t_undo t' = t_undo t" "t_commit t' = clock"
  shows "chain_inv (Suc clock) fresh (don @ (if t_undo t \<noteq> [] then [t'] else [])) (other_txns t acts) k (stamped clock (writes k t) c)"
proof -
  obtain us cs where s: "c = us @ cs" "cs = [] \<longrightarrow> us = []" "length us = writes k t"
    "rev (undo_of k (t_undo t)) = map e_addr (tl (us @ [hd cs]))" "\<forall>e \<in> set us. e_ts e = t_id t"
    "links cs = log_of k (don @ other_txns t acts)"
    by (rule split_writer [OF assms(1-3)])
  have st: "stamped clock (writes k t) c = map (\<lambda>e. e\<lparr>e_ts := clock\<rparr>) us @ cs" using s(1,3) by (simp add: stamped_def)
  have tl: "txn_links k t' = map (\<lambda>a. (a, clock)) (undo_of k (t_undo t))"
    using t' assms(1) by (simp add: txn_links_def stamp_of_def active_inv_def)
  have logs: "log_of k ((don @ (if t_undo t \<noteq> [] then [t'] else [])) @ other_txns t acts) =
      log_of k (don @ other_txns t acts) @ txn_links k t'"
    using log_active(2) [OF assms(1,2), of k] tl by (cases "undo_of k (t_undo t) = []") auto
  have "links (map (\<lambda>e. e\<lparr>e_ts := clock\<rparr>) us @ cs) = log_of k (don @ other_txns t acts) @ txn_links k t'"
    using links_stamped [of cs "undo_of k (t_undo t)" us clock] s tl by (cases "cs = []") (auto simp: writes_def)
  moreover have "e_type e = INVALID \<longrightarrow> e_deleted e" if "e \<in> set us \<union> set cs" for e
    using that assms(3) s(1) by (auto simp: chain_inv_def)
  moreover have "\<forall>e \<in> set (butlast (map (\<lambda>e. e\<lparr>e_ts := clock\<rparr>) us @ cs)). e_type e \<noteq> INVALID"
    using assms(3) s(1,2) by (cases "cs = []") (auto simp: chain_inv_def butlast_append)
  moreover have "\<not> committed_after_starting (t_start u) (e_ts e)"
    if "u \<in> set acts" "t_id u \<noteq> t_id t" "undo_of k (t_undo u) \<noteq> []" "e \<in> set (map (\<lambda>e. e\<lparr>e_ts := clock\<rparr>) us @ cs)" for u e
  proof -
    have "undo_of k (t_undo t) = []" using assms(1,2) that(1-3) by (auto simp: active_inv_def)
    then have "us = []" using s(3) by (simp add: writes_def)
    then show ?thesis using that assms(3) s(1) by (auto simp: chain_inv_def)
  qed
  ultimately show ?thesis
    using assms(3) s(1,2) logs unfolding st
    by (cases "cs = []") (auto simp: chain_inv_def comp_def intro: less_SucI)
qed

lemma chain_inv_rolled_back:
  assumes "active_inv clock n acts" "t \<in> set acts" "chain_inv clock fresh don acts k c" "clock \<le> clock'"
  shows "chain_inv clock' fresh don (other_txns t acts) k (unwound (writes k t) c)"
proof -
  obtain us cs where s: "c = us @ cs" "cs = [] \<longrightarrow> us = []" "length us = writes k t"
    "links cs = log_of k (don @ other_txns t acts)"
    by (rule split_writer [OF assms(1-3)]) simp
  have d: "drop (writes k t) c = cs" using s(1,3) by simp
  have cs: "chain_inv clock' fresh don (other_txns t acts) k cs"
    using assms(3,4) s(1,2,4) by (cases "cs = []") (auto simp: chain_inv_def butlast_append)
  have "links cs = [] \<and> cs \<noteq> []" if "e_type (hd cs) = INVALID" "writes k t \<noteq> 0"
  proof -
    have "cs \<noteq> []" using s(2,3) that(2) by auto
    then obtain d ds where "cs = d # ds" by (cases cs) auto
    then show ?thesis using invalid_last [of clock fresh don acts k us d ds] assms(3) s(1) that(1) by auto
  qed
  then show ?thesis using cs d by (auto simp: unwound_def chain_inv_def)
qed

lemma db_ok_parts:
  assumes "db_ok db"
  shows "no_empty db" "active_inv (current_start_timestamp db) (current_transaction_id db) (active db)"
    "done_inv (current_start_timestamp db) (waiting db) (recently_committed db) (active db)"
    "chain_inv (current_start_timestamp db) (next_addr db) (waiting db @ recently_committed db) (active db) k (chain_of db k)"
  using assms by (simp_all add: db_ok_def)

lemma commit_result:
  assumes ok: "db_ok db" and t: "t \<in> set (active db)" and clock: "current_start_timestamp db < transaction_id_start"
  shows "\<exists>db'. commit_transaction False t db = Inr db' \<and> db_ok db' \<and> active db' = other_txns t (active db) \<and>
    chain_of db' = (\<lambda>k. stamped (current_start_timestamp db) (writes k t) (chain_of db k))"
proof -
  let ?clock = "current_start_timestamp db"
  let ?c = "\<lambda>k. stamped ?clock (writes k t) (chain_of db k)"
  note parts = db_ok_parts [OF ok]
  have t0: "t_commit t = 0" using parts(2) t by (simp add: active_inv_def)
  define bump where "bump = (transaction_id_start \<le> t_version t)"
  define version where "version = (if bump then Suc (last_committed_version db) else last_committed_version db)"
  define t' where "t' = t\<lparr>t_commit := ?clock, t_version := if bump then version else t_version t\<rparr>"
  define mid where "mid = set_chains ?c (db\<lparr>current_start_timestamp := Suc ?clock, last_commit := ?clock, last_committed_version := version\<rparr>)"
  let ?db2 = "(set_chains ?c (db\<lparr>current_start_timestamp := Suc ?clock\<rparr>))\<lparr>last_commit := ?clock\<rparr>"
  have e: "(if bump then ?db2\<lparr>last_committed_version := Suc (last_committed_version ?db2)\<rparr> else ?db2) = mid"
    by (rule db.equality) (simp_all add: mid_def version_def set_chains_def)
  have e2: "bump \<Longrightarrow> Suc (last_committed_version (set_chains ?c (db\<lparr>current_start_timestamp := Suc ?clock\<rparr>))) = version"
    by (simp add: version_def set_chains_def)
  have r: "commit_transaction False t db = Inr (remove_transaction t' (t_undo t \<noteq> []) mid)"
    using undo_all_commit [OF ok t, of "db\<lparr>current_start_timestamp := Suc ?clock\<rparr>" ?clock]
    unfolding commit_transaction_def Let_def bump_def [symmetric] by (simp add: e e2 t'_def)
  have m: "no_empty mid" "active mid = active db" "waiting mid = waiting db" "recently_committed mid = recently_committed db"
      "current_start_timestamp mid = Suc ?clock" "current_transaction_id mid = current_transaction_id db" "next_addr mid = next_addr db"
      "chain_of mid k = ?c k" for k
    unfolding mid_def chain_of_set_chains by (simp_all add: set_chains_def waiting_def)  (simp add: no_empty_def)
  have t': "t_id t' = t_id t" "t_undo t' = t_undo t" "t_commit t' = ?clock" by (simp_all add: t'_def)
  have pos: "?clock \<noteq> 0" using parts(2) by (simp add: active_inv_def)
  have "db_ok (remove_transaction t' (t_undo t \<noteq> []) mid)"
  proof (rule db_ok_remove [of _ "Suc ?clock"])
    show "active_inv (Suc ?clock) (current_transaction_id mid) (active mid)"
      using parts(2) clock by (auto simp: m active_inv_def intro: less_SucI)
    show "done_inv (Suc ?clock) (waiting mid)
        (recently_committed mid @ (if t_undo t \<noteq> [] \<and> t_commit t' \<noteq> 0 then [t'] else [])) (other_txns t' (active mid))"
      using parts(2,3) pos by (auto simp: m t' done_inv_def active_inv_def sorted_wrt_append intro: less_SucI)
    fix k
    show "chain_inv (Suc ?clock) (next_addr mid)
        (waiting mid @ recently_committed mid @ (if t_undo t \<noteq> [] \<and> t_commit t' \<noteq> 0 then [t'] else []))
        (other_txns t' (active mid)) k (chain_of mid k)"
      using chain_inv_committed [OF parts(2) t parts(4) clock t'(2,3), of k] pos by (simp add: m t')
  qed (use m pos t' in auto)
  moreover have "chain_of (remove_transaction t' (t_undo t \<noteq> []) mid) = ?c"
    using m(8) by (simp add: remove_transaction_def Let_def chain_of_def fun_eq_iff)
  moreover have "active (remove_transaction t' (t_undo t \<noteq> []) mid) = other_txns t (active db)"
    by (simp add: remove_transaction_def Let_def m t')
  ultimately show ?thesis using r by blast
qed

lemma rollback_result:
  assumes ok: "db_ok db" and t: "t \<in> set (active db)"
    and db': "db' = db \<or> db' = db\<lparr>current_start_timestamp := Suc (current_start_timestamp db)\<rparr> \<and> current_start_timestamp db < transaction_id_start"
    and store: "store \<or> t_undo t = []" and t': "t' = t \<or> t' = t\<lparr>t_commit := 0\<rparr>"
  shows "\<exists>db2. mapR (remove_transaction t' store) (undo_all undo_version (rev (t_undo t)) db') = Inr db2 \<and> db_ok db2 \<and>
    active db2 = other_txns t (active db) \<and> chain_of db2 = (\<lambda>k. unwound (writes k t) (chain_of db k))"
proof -
  let ?clock = "current_start_timestamp db'"
  let ?c = "\<lambda>k. unwound (writes k t) (chain_of db k)"
  note parts = db_ok_parts [OF ok]
  have t0: "t_commit t = 0" "\<not> t_awaiting_cleanup t" using parts(2) t by (simp_all add: active_inv_def)
  have tt: "t' = t" using t' t0 by auto
  define mid where "mid = set_chains ?c db'"
  have r: "undo_all undo_version (rev (t_undo t)) db' = Inr mid"
    using undo_all_rollback [OF ok t, of db'] db' by (auto simp: mid_def)
  have m: "no_empty mid" "active mid = active db" "waiting mid = waiting db" "recently_committed mid = recently_committed db"
      "current_start_timestamp mid = ?clock" "current_transaction_id mid = current_transaction_id db" "next_addr mid = next_addr db"
      "chain_of mid k = ?c k" for k
    unfolding mid_def chain_of_set_chains using db' by (auto simp: set_chains_def waiting_def no_empty_def)
  have le: "current_start_timestamp db \<le> ?clock" "?clock \<le> transaction_id_start" using db' parts(2) by (auto simp: active_inv_def)
  have "db_ok (remove_transaction t store mid)"
  proof (rule db_ok_remove [of _ ?clock])
    show "active_inv ?clock (current_transaction_id mid) (active mid)"
      using parts(2) le by (fastforce simp: m active_inv_def)
    show "done_inv ?clock (waiting mid) (recently_committed mid @ (if store \<and> t_commit t \<noteq> 0 then [t] else [])) (other_txns t (active mid))"
      using parts(3) le t0 by (auto simp: m done_inv_def intro: order_less_le_trans)
    fix k
    show "chain_inv ?clock (next_addr mid)
        (waiting mid @ recently_committed mid @ (if store \<and> t_commit t \<noteq> 0 then [t] else [])) (other_txns t (active mid)) k (chain_of mid k)"
      using chain_inv_rolled_back [OF parts(2) t parts(4) le(1), of k] t0 by (simp add: m)
  qed (use m store t0 in auto)
  moreover have "chain_of (remove_transaction t store mid) = ?c"
    using m(8) by (simp add: remove_transaction_def Let_def chain_of_def fun_eq_iff)
  moreover have "active (remove_transaction t store mid) = other_txns t (active db)"
    by (simp add: remove_transaction_def Let_def m)
  ultimately show ?thesis using r tt by simp
qed

text \<open>The chain of a key when the oldest finished transaction is cleaned up.\<close>

definition cleaned :: "nat \<Rightarrow> 'd entry list \<Rightarrow> 'd entry list" where
  "cleaned n c = (let ks = take (length c - n) c in if n \<noteq> 0 \<and> length ks = 1 \<and> e_deleted (hd ks) then [] else ks)"

lemma split_oldest:
  assumes "chain_inv clock fresh (t # don) acts k c" "2 \<le> t_commit t"
  obtains ks bs where "c = ks @ bs" "length bs = writes k t" "c \<noteq> [] \<longrightarrow> ks \<noteq> []"
    "undo_of k (t_undo t) = rev (map e_addr bs)" "links ks = log_of k (don @ acts)"
    "bs \<noteq> [] \<longrightarrow> e_ts (last ks) = t_commit t" "\<forall>e \<in> set (butlast bs). e_ts e = t_commit t"
proof (cases "c = []")
  case True
  then have "undo_of k (t_undo t) = []" using empty_chain_log [of clock fresh "t # don" acts k t] assms(1) by simp
  moreover have "links [] = log_of k (don @ acts)"
    using assms(1) True by (simp add: chain_inv_def)
  ultimately show ?thesis using that [of "[]" "[]"] True by (simp add: writes_def)
next
  case False
  have "links c = map (\<lambda>a. (a, t_commit t)) (undo_of k (t_undo t)) @ log_of k (don @ acts)"
    using assms by (simp add: chain_inv_def txn_links_def stamp_of_def)
  from links_bottom [OF this False]
  obtain ks bs where s: "c = ks @ bs" "ks \<noteq> []" "undo_of k (t_undo t) = rev (map e_addr bs)"
      "links ks = log_of k (don @ acts)" "bs \<noteq> [] \<longrightarrow> e_ts (last ks) = t_commit t"
      "\<forall>e \<in> set (butlast bs). e_ts e = t_commit t"
    by blast
  then have "length bs = writes k t" by (simp add: writes_def)
  with s show ?thesis by (intro that [of ks bs]) blast+
qed

lemma undo_all_cleanup:
  assumes "no_empty db" "\<And>k. chain_inv clock fresh (t # don) acts k (chain_of db k)" "2 \<le> t_commit t"
  shows "undo_all cleanup_version (t_undo t) db = Inr (set_chains (\<lambda>k. cleaned (writes k t) (chain_of db k)) db)"
proof (rule undo_all_chains [OF assms(1)])
  fix k
  obtain ks bs where s: "chain_of db k = ks @ bs" "length bs = writes k t" "chain_of db k \<noteq> [] \<longrightarrow> ks \<noteq> []"
    "undo_of k (t_undo t) = rev (map e_addr bs)"
    by (rule split_oldest [OF assms(2,3)])
  have w: "writes k t \<noteq> 0 \<longleftrightarrow> bs \<noteq> []" using s(2) by (metis length_0_conv)
  show "foldO cleanup_version (undo_of k (t_undo t)) (chain_of db k) = Some (cleaned (writes k t) (chain_of db k))"
  proof (cases "chain_of db k = []")
    case True
    then have "bs = []" using s(1) by simp
    then have "writes k t = 0" "undo_of k (t_undo t) = []" using s(2,4) by simp_all
    then show ?thesis using True by (simp add: cleaned_def)
  next
    case False
    have d: "distinct (map e_addr (ks @ bs))" using assms(2) [of k] unfolding s(1) [symmetric] by (simp add: chain_inv_def)
    have ks: "ks \<noteq> []" "take (length (chain_of db k) - writes k t) (chain_of db k) = ks" using s(1-3) False by simp_all
    show ?thesis
      using foldO_cleanup [OF d ks(1) s(4)] unfolding cleaned_def Let_def ks(2) w by (simp only: s(1))
  qed
qed

lemma chain_inv_cleaned:
  assumes "chain_inv clock fresh (t # don) acts k c" "2 \<le> t_commit t" "t_commit t < clock"
    "\<forall>u \<in> set acts. t_commit t < t_start u"
  shows "chain_inv clock fresh don acts k (cleaned (writes k t) c)"
proof -
  obtain ks bs where s: "c = ks @ bs" "length bs = writes k t" "c \<noteq> [] \<longrightarrow> ks \<noteq> []"
    "links ks = log_of k (don @ acts)" "bs \<noteq> [] \<longrightarrow> e_ts (last ks) = t_commit t"
    by (rule split_oldest [OF assms(1,2)])
  have ks: "take (length c - writes k t) c = ks" using s(1,2) by simp
  have "chain_inv clock fresh don acts k ks"
    using assms s by (cases "bs = []") (auto simp: chain_inv_def butlast_append dest: in_set_butlastD split: if_splits)
  moreover have "chain_inv clock fresh don acts k []" if "length ks = Suc 0"
    using s(4) that by (auto simp: chain_inv_def length_Suc_conv)
  ultimately show ?thesis unfolding cleaned_def Let_def ks by auto
qed

lemma committed_bottom:
  "ks \<noteq> [] \<Longrightarrow> e_ts (last ks) < transaction_id_start \<Longrightarrow> committed_entry (ks @ bs) = committed_entry ks \<or> bs = []"
proof (induction ks)
  case (Cons e ks)
  show ?case
  proof (cases "ks = []")
    case True
    then show ?thesis using Cons.prems by (cases bs) simp_all
  next
    case False
    then obtain d ds where "ks = d # ds" by (cases ks) auto
    then show ?thesis using Cons by auto
  qed
qed simp

text \<open>Two chains that no transaction can tell apart.\<close>

definition same_views :: "txn list \<Rightarrow> 'd entry list \<Rightarrow> 'd entry list \<Rightarrow> bool" where
  "same_views acts c d \<longleftrightarrow> undeleted (committed_entry c) = undeleted (committed_entry d) \<and>
     (\<forall>u \<in> set acts. visible (t_id u) (t_start u) c = visible (t_id u) (t_start u) d \<and>
        ((\<exists>e \<in> set c. committed_after_starting (t_start u) (e_ts e)) \<longleftrightarrow>
         (\<exists>e \<in> set d. committed_after_starting (t_start u) (e_ts e))))"

lemma same_views_refl: "same_views acts c c"
  by (simp add: same_views_def)

lemma same_views_trans: "same_views acts c d \<Longrightarrow> same_views acts d e \<Longrightarrow> same_views acts c e"
  by (simp add: same_views_def)

lemma same_views_cleaned:
  assumes "chain_inv clock fresh (t # don) acts k c" "2 \<le> t_commit t" "t_commit t < transaction_id_start"
    "\<forall>u \<in> set acts. t_commit t < t_start u"
  shows "same_views acts c (cleaned (writes k t) c)"
proof -
  obtain ks bs where s: "c = ks @ bs" "length bs = writes k t" "c \<noteq> [] \<longrightarrow> ks \<noteq> []"
    "bs \<noteq> [] \<longrightarrow> e_ts (last ks) = t_commit t" "\<forall>e \<in> set (butlast bs). e_ts e = t_commit t"
    by (rule split_oldest [OF assms(1,2)])
  have ks: "take (length c - writes k t) c = ks" using s(1,2) by simp
  show ?thesis
  proof (cases "bs = []")
    case True
    then have "writes k t = 0" using s(2) by simp
    then have "cleaned (writes k t) c = c" by (simp add: cleaned_def)
    then show ?thesis by (simp add: same_views_refl)
  next
    case False
    then have n: "ks \<noteq> []" "e_ts (last ks) = t_commit t" using s by simp_all
    have old: "\<not> committed_after_starting (t_start u) (e_ts e)" if "u \<in> set acts" "e \<in> set bs" for u e
    proof -
      have "e_ts e = t_commit t \<or> e = last c" using that(2) s(1,5) False by (cases bs rule: rev_cases) auto
      then have "e_ts e < t_start u" using that(1) assms(1,4) n(1) s(1) by (auto simp: chain_inv_def)
      then show ?thesis by (simp add: committed_after_starting_def)
    qed
    have "same_views acts c ks"
      using visible_bottom [OF n(1), of _ _ bs] committed_bottom [OF n(1), of bs] n(2) assms(3,4) old False s(1)
      by (auto simp: same_views_def use_timestamp_def)
    moreover have "same_views acts ks []" if "length ks = Suc 0" "e_deleted (hd ks)"
      using that n(2) assms(4) by (auto simp: same_views_def length_Suc_conv committed_after_starting_def)
    ultimately show ?thesis
      using same_views_trans [of acts c ks "[]"] unfolding cleaned_def Let_def ks by auto
  qed
qed

lemma whole_prefix: "\<exists>m. c = take m c"
  by (rule exI [of _ "length c"]) simp

lemma cleaned_prefix: "\<exists>m. cleaned n c = take m c"
  by (cases "n \<noteq> 0 \<and> length (take (length c - n) c) = 1 \<and> e_deleted (hd (take (length c - n) c))")
     (auto simp: cleaned_def Let_def intro: exI [of _ 0])

lemma cleanup_list:
  assumes "no_empty db" "\<And>k. chain_inv clock fresh (ts @ don) acts k (chain_of db k)"
    "\<forall>t \<in> set ts. 2 \<le> t_commit t \<and> t_commit t < clock \<and> (\<forall>u \<in> set acts. t_commit t < t_start u)" "clock \<le> transaction_id_start"
  shows "\<exists>c. foldR (\<lambda>t. undo_all cleanup_version (t_undo t)) ts db = Inr (set_chains c db) \<and>
    (\<forall>k. chain_inv clock fresh don acts k (c k) \<and> same_views acts (chain_of db k) (c k) \<and> (\<exists>m. c k = take m (chain_of db k)))"
  using assms
proof (induction ts arbitrary: db)
  case Nil
  then show ?case using set_chains_same [OF Nil.prems(1)] by (intro exI [of _ "chain_of db"]) (simp add: same_views_refl whole_prefix)
next
  case (Cons t ts)
  have t: "2 \<le> t_commit t" "t_commit t < clock" "\<forall>u \<in> set acts. t_commit t < t_start u" "t_commit t < transaction_id_start"
    using Cons.prems(3,4) by auto
  have ci: "chain_inv clock fresh (t # (ts @ don)) acts k (chain_of db k)" for k using Cons.prems(2) [of k] by simp
  let ?c = "\<lambda>k. cleaned (writes k t) (chain_of db k)"
  have r: "undo_all cleanup_version (t_undo t) db = Inr (set_chains ?c db)"
    using undo_all_cleanup [OF Cons.prems(1) ci t(1)] .
  obtain d where d: "foldR (\<lambda>t. undo_all cleanup_version (t_undo t)) ts (set_chains ?c db) = Inr (set_chains d (set_chains ?c db))"
      "\<forall>k. chain_inv clock fresh don acts k (d k) \<and> same_views acts (?c k) (d k) \<and> (\<exists>m. d k = take m (?c k))"
    using Cons.IH [of "set_chains ?c db"] chain_inv_cleaned [OF ci t(1-3)] Cons.prems(3,4) by auto
  have "same_views acts (chain_of db k) (d k)" for k
    using same_views_trans same_views_cleaned [OF ci t(1,4,3), of k] d(2) by blast
  moreover have "\<exists>m. d k = take m (chain_of db k)" for k
    using d(2) cleaned_prefix [of "writes k t" "chain_of db k"] by (metis take_take)
  ultimately show ?case using r d by (intro exI [of _ d]) simp
qed

lemma cleanup_result:
  assumes ok: "db_ok db"
  shows "\<exists>db'. cleanup_transactions db = Inr db' \<and> db_ok db' \<and> active db' = active db \<and>
    (\<forall>k. same_views (active db) (chain_of db k) (chain_of db' k) \<and> (\<exists>m. chain_of db' k = take m (chain_of db k)))"
proof (cases "cleanup_queue db")
  case Nil
  then show ?thesis using ok
    by (simp add: cleanup_transactions_def same_views_refl whole_prefix)
next
  case (Cons info rest)
  note parts = db_ok_parts [OF ok]
  let ?db = "db\<lparr>cleanup_queue := rest\<rparr>" and ?ts = "filter t_awaiting_cleanup info"
  have w: "waiting db = ?ts @ waiting ?db" using Cons by (simp add: waiting_def)
  have ch: "chain_of ?db = chain_of db" by (simp add: chain_of_def fun_eq_iff)
  have ts: "\<forall>t \<in> set ?ts. 2 \<le> t_commit t \<and> t_commit t < current_start_timestamp db \<and> (\<forall>u \<in> set (active db). t_commit t < t_start u)"
    using parts(3) unfolding w by (auto simp: done_inv_def)
  have "no_empty ?db" using parts(1) by (simp add: no_empty_def)
  then obtain c where c: "foldR (\<lambda>t. undo_all cleanup_version (t_undo t)) ?ts ?db = Inr (set_chains c ?db)"
      "\<forall>k. chain_inv (current_start_timestamp db) (next_addr db) (waiting ?db @ recently_committed db) (active db) k (c k) \<and>
        same_views (active db) (chain_of db k) (c k) \<and> (\<exists>m. c k = take m (chain_of db k))"
    using cleanup_list [of ?db "current_start_timestamp db" "next_addr db" ?ts "waiting ?db @ recently_committed db" "active db"]
      parts(2,4) ts unfolding ch w by (auto simp: active_inv_def)
  have "done_inv (current_start_timestamp db) (waiting ?db) (recently_committed db) (active db)"
    using parts(3) unfolding w by (auto simp: done_inv_def sorted_wrt_append)
  moreover have "active db = [] \<longrightarrow> recently_committed db = []" using ok by (simp add: db_ok_def)
  ultimately have "db_ok (set_chains c ?db)"
    using parts(2) c(2) by (simp add: db_ok_def) (simp add: set_chains_def waiting_def)
  then show ?thesis using c Cons by (simp add: cleanup_transactions_def) (simp add: set_chains_def)
qed

lemma start_result:
  assumes ok: "db_ok db" and r: "start_transaction db = Inr db'"
  shows "db_ok db' \<and> chain_of db' = chain_of db \<and> (\<exists>t. active db' = active db @ [t] \<and> t_id t = current_transaction_id db \<and>
    t_start t = current_start_timestamp db \<and> t_undo t = [])"
proof -
  note parts = db_ok_parts [OF ok]
  define t where "t = \<lparr>t_id = current_transaction_id db, t_start = current_start_timestamp db, t_commit = 0,
      t_version = last_committed_version db, t_awaiting_cleanup = False, t_undo = []\<rparr>"
  have f: "active db' = active db @ [t]" "chains db' = chains db" "next_addr db' = next_addr db" "cleanup_queue db' = cleanup_queue db"
      "recently_committed db' = recently_committed db" "current_start_timestamp db' = Suc (current_start_timestamp db)"
      "current_transaction_id db' = Suc (current_transaction_id db)" "current_start_timestamp db < transaction_id_start"
    using r by (auto simp: start_transaction_def Let_def t_def split: if_splits)
  have ch: "chain_of db' = chain_of db" by (simp add: chain_of_def fun_eq_iff f)
  have w: "waiting db' = waiting db" by (simp add: waiting_def f)
  have t: "txn_links k t = []" "undo_of k (t_undo t) = []" for k by (simp_all add: t_def txn_links_def)
  have "active_inv (current_start_timestamp db') (current_transaction_id db') (active db')"
    using parts(2) f(8) t unfolding f by (auto simp: active_inv_def t_def)
  moreover have "done_inv (current_start_timestamp db') (waiting db') (recently_committed db') (active db')"
  proof -
    have "\<forall>u \<in> set (waiting db @ recently_committed db). t_commit u \<noteq> current_start_timestamp db"
      using parts(3) unfolding done_inv_def by (metis less_irrefl)
    then show ?thesis using parts(3) unfolding f w by (auto simp: done_inv_def t_def intro: less_SucI)
  qed
  moreover have "chain_inv (current_start_timestamp db') (next_addr db') (waiting db' @ recently_committed db') (active db') k (chain_of db' k)" for k
    using parts(4) [of k] t unfolding f ch w by (auto simp: chain_inv_def t_def intro: less_SucI)
  ultimately have "db_ok db'" using parts(1) f(1,2) by (simp add: db_ok_def no_empty_def)
  then show ?thesis using f ch by (auto simp: t_def)
qed

subsection \<open>Steps\<close>

text \<open>The operations of one transaction, and those of the manager. What is created is an entry; an alter
  computes one.\<close>

definition is_entry :: "'d entry \<Rightarrow> bool" where
  "is_entry e \<longleftrightarrow> e_type e \<noteq> INVALID \<and> \<not> e_deleted e"

inductive db_step :: "'d db \<Rightarrow> 'd db \<Rightarrow> bool" where
  begin_step: "start_transaction db = Inr db' \<Longrightarrow> db_step db db'"
| create_step: "t \<in> set (active db) \<Longrightarrow> is_entry e \<Longrightarrow> create_entry ck t cs name e db = Inr (b, db') \<Longrightarrow> db_step db db'"
| drop_step: "t \<in> set (active db) \<Longrightarrow> drop_entry t cs name allow db = Inr (b, db') \<Longrightarrow> db_step db db'"
| alter_step: "t \<in> set (active db) \<Longrightarrow> \<forall>e e'. alter e = Inr (Some e') \<longrightarrow> is_entry e' \<Longrightarrow>
    alter_entry alter t cs name allow db = Inr (b, db') \<Longrightarrow> db_step db db'"
| commit_step: "t \<in> set (active db) \<Longrightarrow> current_start_timestamp db < transaction_id_start \<Longrightarrow>
    commit_transaction wal_error t db = Inr db' \<Longrightarrow> db_step db db'"
| rollback_step: "t \<in> set (active db) \<Longrightarrow> rollback_transaction t db = Inr db' \<Longrightarrow> db_step db db'"
| cleanup_step: "cleanup_transactions db = Inr db' \<Longrightarrow> db_step db db'"

inductive reachable_db :: "'d db \<Rightarrow> bool" where
  initial: "reachable_db new_db"
| step: "reachable_db db \<Longrightarrow> db_step db db' \<Longrightarrow> reachable_db db'"

subsection \<open>Outcomes of the operations\<close>

lemma write_version_simps:
  "chains db k = None \<Longrightarrow> put_version (t_id t) k e (start_chain k (e_name e) db) = write_version t k e db"
  "chains db k = Some c \<Longrightarrow> put_version (t_id t) k e db = write_version t k e db"
  by (simp_all add: write_version_def)

lemma free_for_Some: "chains db k = Some c \<Longrightarrow> c \<noteq> [] \<Longrightarrow> free_for db t k \<longleftrightarrow> \<not> has_conflict (t_id t) (t_start t) (e_ts (hd c))"
  by (simp add: free_for_def chain_of_def)

text \<open>A create succeeds, finds an entry of that name, or conflicts.\<close>

lemma create_entry_cases:
  assumes "no_empty db" "check_entry_invariants ck name e = Inr ()" and k: "k = key_of cs name"
  shows "create_entry ck t cs name e db =
    (if \<not> free_for db t k then Inl (TransactionException (''Catalog write-write conflict on create with '' @ e_name (hd (chain_of db k))))
     else if chain_of db k \<noteq> [] \<and> \<not> e_deleted (hd (chain_of db k)) then Inr (False, db)
     else Inr (True, write_version t k e db))"
  using assms
  by (cases "chains db k")
     (auto simp: create_entry_def create_entry_internal_def write_version_simps free_for_def chain_of_def no_empty_def)

lemma get_entry_internal_Some:
  assumes "no_empty db" "get_entry_internal t k db = Inr (Some e)"
  shows "free_for db t k \<and> chains db k \<noteq> None"
  using assms by (auto simp: get_entry_internal_def free_for_def chain_of_def split: option.splits if_splits)

lemma drop_entry_cases:
  assumes "no_empty db" "drop_entry t cs name allow db = Inr (b, db')" and k: "k = key_of cs name"
  shows "\<not> b \<and> db' = db \<or> b \<and> free_for db t k \<and> (\<exists>nm. db' = write_version t k (tombstone nm) db)"
proof -
  have "\<not> b \<and> db' = db \<or> (\<exists>e. get_entry_internal t k db = Inr (Some e) \<and> b \<and>
      db' = put_version (t_id t) k (tombstone (e_name e)) db)"
    using assms(2) k by (auto simp: drop_entry_def drop_entry_internal_def res_simps split: option.splits if_splits)
  then show ?thesis
    using get_entry_internal_Some [OF assms(1)] write_version_simps(2) by (metis not_None_eq)
qed

lemma alter_entry_cases:
  assumes "no_empty db" "alter_entry alter t cs name allow db = Inr (b, db')" and k: "k = key_of cs name"
    and "\<forall>e e'. alter e = Inr (Some e') \<longrightarrow> is_entry e'"
  shows "db' = db \<or> free_for db t k \<and> (\<exists>e. is_entry e \<and> db' = write_version t k e db)"
proof -
  have "db' = db \<or> (\<exists>e e' d. get_entry_internal t k db = Inr (Some d) \<and> alter e = Inr (Some e') \<and>
      db' = put_version (t_id t) k e' db)"
    using assms(2) k by (auto simp: alter_entry_def Let_def res_simps split: option.splits if_splits)
  then show ?thesis
    using get_entry_internal_Some [OF assms(1)] write_version_simps(2) assms(4) by (metis not_None_eq)
qed

lemma db_ok_step: "db_step db db' \<Longrightarrow> db_ok db \<Longrightarrow> db_ok db'"
proof (induction rule: db_step.induct)
  case (begin_step db db')
  then show ?case using start_result by blast
next
  case (create_step t db e ck cs name b db')
  then have "check_entry_invariants ck name e = Inr ()" by (auto simp: create_entry_def res_simps)
  then show ?case
    using create_step create_entry_cases [OF db_ok_parts(1) _ refl, of db ck name e t cs]
      db_ok_write [OF create_step(4,1), of "key_of cs name" e]
    by (auto simp: is_entry_def split: if_splits)
next
  case (drop_step t db cs name allow b db')
  then show ?case
    using drop_entry_cases [OF db_ok_parts(1) drop_step(2) refl] db_ok_write [OF drop_step(3,1), of "key_of cs name"] by (auto simp: tombstone_def)
next
  case (alter_step t db alter cs name allow b db')
  then show ?case
    using alter_entry_cases [OF db_ok_parts(1) alter_step(3) refl alter_step(2)] db_ok_write [OF alter_step(4,1), of "key_of cs name"]
    by (auto simp: is_entry_def)
next
  case (commit_step t db wal_error db')
  show ?case
  proof (cases wal_error)
    case True
    then show ?thesis
      using rollback_result [OF commit_step(4,1) _ _, of "db\<lparr>current_start_timestamp := Suc (current_start_timestamp db)\<rparr>" True "t\<lparr>t_commit := 0\<rparr>"]
        commit_step(2,3) by (auto simp: commit_transaction_def Let_def)
  next
    case False
    then show ?thesis using commit_result [OF commit_step(4,1,2)] commit_step(3) by auto
  qed
next
  case (rollback_step t db db')
  then show ?case
    using rollback_result [OF rollback_step(3,1), of db "t_undo t \<noteq> []" t] by (auto simp: rollback_transaction_def)
next
  case (cleanup_step db db')
  then show ?case using cleanup_result by fastforce
qed

lemma reachable_ok: "reachable_db db \<Longrightarrow> db_ok db"
  by (induction rule: reachable_db.induct) (auto intro: db_ok_new db_ok_step)

end
