(* ===== verification/Snapshots.thy ===== *)
theory Snapshots
  imports Catalog_Invariant
begin

section \<open>Snapshot isolation of catalog sets\<close>

text \<open>
  What the version chains of \<open>Catalog_Set\<close> promise: the refinement of an abstract catalog in which a
  transaction works on a private copy of the committed entries, the outcomes of its operations, and
  runs of several transactions.
\<close>

subsection \<open>The abstract catalog\<close>

text \<open>
  What a user is told: every transaction works on its own copy of the entries that were committed when
  it started; it may write a name that nobody else has written meanwhile; its writes become visible to
  later transactions, all at once, when it commits.
\<close>

type_synonym 'd content = "nat \<times> catalog_type \<times> string \<times> bool \<times> 'd option"

definition content :: "'d entry \<Rightarrow> 'd content" where
  "content e = (e_addr e, e_type e, e_name e, e_internal e, e_data e)"

record 'd session =
  s_view :: "key \<Rightarrow> 'd content option"
  s_written :: "key set"
  s_newer :: "key set"

record 'd spec =
  committed :: "key \<Rightarrow> 'd content option"
  sessions :: "nat \<Rightarrow> 'd session option"

text \<open>A step is labelled with what the user did: a transaction begins, writes a value (\<open>None\<close> deletes) for a
  name, commits, ends without effect, or nothing happens that anyone can see.\<close>

datatype 'd label =
    Begins nat
  | Writes nat key "'d entry option"
  | Commits nat
  | Aborts nat
  | Internal

inductive spec_step :: "'d label \<Rightarrow> 'd spec \<Rightarrow> 'd spec \<Rightarrow> bool" where
  spec_begin: "sessions a i = None \<Longrightarrow>
    spec_step (Begins i) a (a\<lparr>sessions := (sessions a)(i \<mapsto> \<lparr>s_view = committed a, s_written = {}, s_newer = {}\<rparr>)\<rparr>)"
| spec_write: "sessions a i = Some s \<Longrightarrow> k \<notin> s_newer s \<Longrightarrow>
    \<forall>j s'. j \<noteq> i \<longrightarrow> sessions a j = Some s' \<longrightarrow> k \<notin> s_written s' \<Longrightarrow>
    spec_step (Writes i k v) a (a\<lparr>sessions := (sessions a)(i \<mapsto>
      s\<lparr>s_view := (s_view s)(k := map_option (\<lambda>e. content (e\<lparr>e_addr := addr\<rparr>)) v), s_written := insert k (s_written s)\<rparr>)\<rparr>)"
| spec_commit: "sessions a i = Some s \<Longrightarrow>
    spec_step (Commits i) a \<lparr>committed = \<lambda>k. if k \<in> s_written s then s_view s k else committed a k,
      sessions = \<lambda>j. if j = i then None else map_option (\<lambda>s'. s'\<lparr>s_newer := s_newer s' \<union> s_written s\<rparr>) (sessions a j)\<rparr>"
| spec_abort: "sessions a i = Some s \<Longrightarrow> spec_step (Aborts i) a (a\<lparr>sessions := (sessions a)(i := None)\<rparr>)"
| spec_internal: "spec_step Internal a a"

text \<open>The abstraction: what lookups and scans return.\<close>

definition session_of :: "'d db \<Rightarrow> txn \<Rightarrow> 'd session" where
  "session_of db t = \<lparr>s_view = \<lambda>k. map_option content (get_entry db t k),
     s_written = {k. undo_of k (t_undo t) \<noteq> []},
     s_newer = {k. \<exists>e \<in> set (chain_of db k). committed_after_starting (t_start t) (e_ts e)}\<rparr>"

definition abs_db :: "'d db \<Rightarrow> 'd spec" where
  "abs_db db = \<lparr>committed = \<lambda>k. map_option content (scan_committed db k),
     sessions = \<lambda>i. map_option (session_of db) (find_txn db i)\<rparr>"

lemma session_alt: "no_empty db \<Longrightarrow> session_of db t =
    \<lparr>s_view = \<lambda>k. map_option content (visible (t_id t) (t_start t) (chain_of db k)),
     s_written = {k. undo_of k (t_undo t) \<noteq> []},
     s_newer = {k. \<exists>e \<in> set (chain_of db k). committed_after_starting (t_start t) (e_ts e)}\<rparr>"
  by (simp add: session_of_def get_entry_visible)

lemma find_txn_Some:
  assumes "active_inv clock n (active db)"
  shows "find_txn db i = Some t \<longleftrightarrow> t \<in> set (active db) \<and> t_id t = i"
proof
  assume "find_txn db i = Some t"
  then show "t \<in> set (active db) \<and> t_id t = i" by (auto simp: find_txn_def find_Some_iff)
next
  assume t: "t \<in> set (active db) \<and> t_id t = i"
  then obtain u where u: "find_txn db i = Some u" by (cases "find_txn db i") (auto simp: find_txn_def find_None_iff)
  then have "u \<in> set (active db)" "t_id u = i" by (auto simp: find_txn_def find_Some_iff)
  then have "u = t" using same_txn [OF assms, of t u] t by simp
  then show "find_txn db i = Some t" using u by simp
qed

lemma find_txn_None: "find_txn db i = None \<longleftrightarrow> i \<notin> t_id ` set (active db)"
  by (auto simp: find_txn_def find_None_iff)

text \<open>The sessions after a step: the one of \<open>i\<close>, and every other one through \<open>f\<close>.\<close>

lemma abs_sessions:
  assumes a: "active_inv clock n (active db)" and a': "active_inv clock' n' (active db')"
    and ids: "t_id ` set (active db') - {i} = t_id ` set (active db) - {i}"
    and other: "\<And>u u'. u \<in> set (active db) \<Longrightarrow> u' \<in> set (active db') \<Longrightarrow> t_id u = t_id u' \<Longrightarrow> t_id u \<noteq> i \<Longrightarrow>
       session_of db' u' = f (session_of db u)"
  shows "sessions (abs_db db') = (\<lambda>j. if j = i then map_option (session_of db') (find_txn db' i) else map_option f (sessions (abs_db db) j))"
proof
  fix j
  show "sessions (abs_db db') j = (if j = i then map_option (session_of db') (find_txn db' i) else map_option f (sessions (abs_db db) j))"
  proof (cases "j = i")
    case False
    show ?thesis
    proof (cases "find_txn db j")
      case None
      then have "find_txn db' j = None" using ids False unfolding find_txn_None by blast
      then show ?thesis using None False by (simp add: abs_db_def)
    next
      case (Some u)
      then have u: "u \<in> set (active db)" "t_id u = j" using find_txn_Some [OF a, of j u] by simp_all
      then have "j \<in> t_id ` set (active db) - {i}" using False by auto
      then have "j \<in> t_id ` set (active db')" unfolding ids [symmetric] by simp
      then obtain u' where u': "u' \<in> set (active db')" "t_id u' = j" by auto
      then have "find_txn db' j = Some u'" using find_txn_Some [OF a', of j u'] by simp
      then show ?thesis using Some u u' other [of u u'] False by (simp add: abs_db_def)
    qed
  qed (simp add: abs_db_def)
qed

subsection \<open>Simulation\<close>

text \<open>A timestamp at or above the first identifier is only used by its own transaction.\<close>

lemma not_used: "active_inv clock n acts \<Longrightarrow> u \<in> set acts \<Longrightarrow> transaction_id_start \<le> ts \<Longrightarrow> ts \<noteq> t_id u \<Longrightarrow>
  \<not> use_timestamp (t_id u) (t_start u) ts"
  by (auto simp: active_inv_def use_timestamp_def)

lemma committed_skips:
  "c \<noteq> [] \<Longrightarrow> \<forall>e \<in> set us. transaction_id_start \<le> e_ts e \<Longrightarrow> committed_entry (us @ c) = committed_entry c"
proof (induction us)
  case (Cons e us)
  then obtain d ds where "us @ c = d # ds" by (cases "us @ c") auto
  then show ?case using Cons by auto
qed simp

lemma committed_hit: "e_ts e < transaction_id_start \<Longrightarrow> committed_entry (e # c) = Some e"
  by (cases c) simp_all

lemma sim_write:
  assumes ok: "db_ok db" and t: "t \<in> set (active db)" and free: "free_for db t k" and ty: "e_type e \<noteq> INVALID"
  shows "spec_step (Writes (t_id t) k (if e_deleted e then None else Some e)) (abs_db db) (abs_db (write_version t k e db))"
proof -
  let ?db = "write_version t k e db"
  let ?b = "below db k (e_name e)" and ?e = "e\<lparr>e_addr := new_addr db k, e_ts := t_id t\<rparr>"
  have ok': "db_ok ?db" using db_ok_write [OF ok t free ty] .
  note p = db_ok_parts [OF ok] and p' = db_ok_parts [OF ok']
  note f = write_version_fields [OF p(1), of t k e]
  have ch: "chain_of ?db = (chain_of db)(k := ?e # ?b)" by (auto simp: f chain_of_def fun_eq_iff)
  let ?upd = "push_undo (t_id t) (Suc (last_uncommitted_version db)) k (e_addr (hd ?b))"
  have acts: "active ?db = map ?upd (active db)" by (simp add: f)
  have tid: "transaction_id_start \<le> t_id t" using p(2) t by (simp add: active_inv_def)
  have b: "?b \<noteq> []" using below_ok [OF p(4,2,1), of k "e_name e"] by simp
  have vb: "visible i st ?b = visible i st (chain_of db k)" "undeleted (committed_entry ?b) = undeleted (committed_entry (chain_of db k))"
    "(\<exists>d \<in> set ?b. committed_after_starting st (e_ts d)) \<longleftrightarrow> (\<exists>d \<in> set (chain_of db k). committed_after_starting st (e_ts d))" for i st
    by (cases "chains db k"; simp add: below_def chain_of_def committed_after_starting_def)+
  have newer: "(\<exists>d \<in> set (?e # ?b). committed_after_starting st (e_ts d)) \<longleftrightarrow>
      (\<exists>d \<in> set (chain_of db k). committed_after_starting st (e_ts d))" for st
    using vb(3) [of st] tid by (simp add: committed_after_starting_def)
  have sess: "sessions (abs_db db) (t_id t) = Some (session_of db t)"
    using find_txn_Some [OF p(2), of "t_id t" t] t by (simp add: abs_db_def)
  have t': "find_txn ?db (t_id t) = Some (?upd t)"
    using find_txn_Some [OF p'(2), of "t_id t" "?upd t"] t by (simp add: acts)
  let ?s = "session_of db t" and ?v = "if e_deleted e then None else Some (content ?e)"
  have own: "session_of ?db (?upd t) = ?s\<lparr>s_view := (s_view ?s)(k := ?v), s_written := insert k (s_written ?s)\<rparr>"
    using newer by (auto simp: session_alt p(1) p'(1) ch visible_hit use_timestamp_def fun_eq_iff)
  have other: "session_of ?db u' = session_of db u"
    if u: "u \<in> set (active db)" "u' \<in> set (active ?db)" "t_id u = t_id u'" "t_id u \<noteq> t_id t" for u u'
  proof -
    obtain w where w: "w \<in> set (active db)" "u' = ?upd w" using u(2) acts by auto
    then have "w = u" using same_txn [OF p(2) u(1), of w] u(3) by simp
    moreover have "visible (t_id u) (t_start u) (?e # ?b) = visible (t_id u) (t_start u) (chain_of db k)"
      using visible_skip [OF b, of "t_id u" "t_start u" ?e] not_used [OF p(2) u(1) tid] u(4) vb(1) by simp
    ultimately show ?thesis
      using w u(4) newer by (auto simp: session_alt p(1) p'(1) ch fun_eq_iff)
  qed
  have com: "committed (abs_db ?db) = committed (abs_db db)"
    using committed_skips [OF b, of "[?e]"] tid vb(2) by (auto simp: abs_db_def scan_committed_def ch fun_eq_iff)
  have "sessions (abs_db ?db) = (\<lambda>j. if j = t_id t then map_option (session_of ?db) (find_txn ?db (t_id t)) else map_option id (sessions (abs_db db) j))"
    by (rule abs_sessions [OF p(2) p'(2)]) (use other in \<open>auto simp: acts image_image\<close>)
  then have "sessions (abs_db ?db) = (sessions (abs_db db))(t_id t \<mapsto> ?s\<lparr>s_view := (s_view ?s)(k := ?v), s_written := insert k (s_written ?s)\<rparr>)"
    using own t' by (auto simp: fun_eq_iff option.map_id)
  then have eq: "abs_db ?db = (abs_db db)\<lparr>sessions := (sessions (abs_db db))(t_id t \<mapsto> ?s\<lparr>s_view := (s_view ?s)(k := ?v), s_written := insert k (s_written ?s)\<rparr>)\<rparr>"
    using com by (simp add: spec.equality)
  have "k \<notin> s_newer ?s"
    using free_for_newer [OF p(2,3) t p(4) [of k]] free by (auto simp: session_of_def free_for_def)
  moreover have "k \<notin> s_written s'" if s': "j \<noteq> t_id t" "sessions (abs_db db) j = Some s'" for j s'
  proof -
    obtain u where "find_txn db j = Some u" "s' = session_of db u" using s'(2) by (auto simp: abs_db_def)
    then show ?thesis
      using find_txn_Some [OF p(2), of j u] s'(1) free_for_writers [OF p(2) t p(4) [of k], of u] free by (auto simp: session_of_def free_for_def)
  qed
  ultimately have "spec_step (Writes (t_id t) k (if e_deleted e then None else Some e)) (abs_db db)
      ((abs_db db)\<lparr>sessions := (sessions (abs_db db))(t_id t \<mapsto> ?s\<lparr>s_view := (s_view ?s)(k :=
         map_option (\<lambda>e. content (e\<lparr>e_addr := new_addr db k\<rparr>)) (if e_deleted e then None else Some e)),
         s_written := insert k (s_written ?s)\<rparr>)\<rparr>)"
    by (intro spec_write [OF sess]) auto
  moreover have "map_option (\<lambda>e. content (e\<lparr>e_addr := new_addr db k\<rparr>)) (if e_deleted e then None else Some e) = ?v"
    by (simp add: content_def)
  ultimately show ?thesis unfolding eq by simp
qed

text \<open>The chain of a key as an active transaction sees it from outside and from inside.\<close>

lemma split_views:
  assumes ok: "db_ok db" and t: "t \<in> set (active db)"
  obtains us cs where "chain_of db k = us @ cs" "cs = [] \<longrightarrow> us = []" "length us = writes k t"
    "\<forall>e \<in> set us. e_ts e = t_id t" "us \<noteq> [] \<longleftrightarrow> undo_of k (t_undo t) \<noteq> []"
    "\<forall>u \<in> set (active db). t_id u \<noteq> t_id t \<longrightarrow> visible (t_id u) (t_start u) (us @ cs) = visible (t_id u) (t_start u) cs"
    "us \<noteq> [] \<longrightarrow> visible (t_id t) (t_start t) (us @ cs) = undeleted (Some (hd us))"
    "committed_entry (us @ cs) = committed_entry cs"
    "\<forall>st. \<forall>e \<in> set us. \<not> committed_after_starting st (e_ts e)"
proof -
  note p = db_ok_parts [OF ok]
  obtain us cs where s: "chain_of db k = us @ cs" "cs = [] \<longrightarrow> us = []" "length us = writes k t" "\<forall>e \<in> set us. e_ts e = t_id t"
    by (rule split_writer [OF p(2) t p(4) [of k]])
  have tid: "transaction_id_start \<le> t_id t" using p(2) t by (simp add: active_inv_def)
  have "visible (t_id u) (t_start u) (us @ cs) = visible (t_id u) (t_start u) cs" if "u \<in> set (active db)" "t_id u \<noteq> t_id t" for u
    using s(2,4) visible_skips [of cs us "t_id u" "t_start u"] not_used [OF p(2) that(1) tid] that(2) by (cases "cs = []") auto
  moreover have "visible (t_id t) (t_start t) (us @ cs) = undeleted (Some (hd us))" if "us \<noteq> []"
    using that s(4) visible_hit [of "t_id t" "t_start t" "hd us" "tl us @ cs"] by (cases us) (simp_all add: use_timestamp_def)
  moreover have "committed_entry (us @ cs) = committed_entry cs"
    using s(2,4) tid committed_skips [of cs us] by (cases "cs = []") auto
  moreover have "\<forall>st. \<forall>e \<in> set us. \<not> committed_after_starting st (e_ts e)" using s(4) tid by (simp add: committed_after_starting_def)
  moreover have "us \<noteq> [] \<longleftrightarrow> undo_of k (t_undo t) \<noteq> []" using s(3) by (auto simp: writes_def)
  ultimately show ?thesis using s by (intro that [of us cs]) blast+
qed

lemma find_other: "find (\<lambda>u. t_id u = t_id t) (other_txns t acts) = None"
  by (auto simp: find_None_iff)

text \<open>What a commit changes: the committed entry of what was written, and what is newer for the others.\<close>

lemma commit_views:
  assumes ok: "db_ok db" and t: "t \<in> set (active db)" and clock: "current_start_timestamp db < transaction_id_start"
    and ok': "db_ok db'" and ch': "chain_of db' k = stamped (current_start_timestamp db) (writes k t) (chain_of db k)"
  shows "map_option content (scan_committed db' k) = (if k \<in> s_written (session_of db t) then s_view (session_of db t) k else map_option content (scan_committed db k)) \<and>
      (\<forall>u \<in> set (active db). t_id u \<noteq> t_id t \<longrightarrow>
        visible (t_id u) (t_start u) (chain_of db' k) = visible (t_id u) (t_start u) (chain_of db k) \<and>
        ((\<exists>e \<in> set (chain_of db' k). committed_after_starting (t_start u) (e_ts e)) \<longleftrightarrow>
         (\<exists>e \<in> set (chain_of db k). committed_after_starting (t_start u) (e_ts e)) \<or> k \<in> s_written (session_of db t)))"
proof -
  let ?clock = "current_start_timestamp db" and ?s = "session_of db t"
  note p = db_ok_parts [OF ok]
  obtain us cs where s: "chain_of db k = us @ cs" "cs = [] \<longrightarrow> us = []" "length us = writes k t"
    "us \<noteq> [] \<longleftrightarrow> undo_of k (t_undo t) \<noteq> []"
    "\<forall>u \<in> set (active db). t_id u \<noteq> t_id t \<longrightarrow> visible (t_id u) (t_start u) (us @ cs) = visible (t_id u) (t_start u) cs"
    "us \<noteq> [] \<longrightarrow> visible (t_id t) (t_start t) (us @ cs) = undeleted (Some (hd us))"
    "committed_entry (us @ cs) = committed_entry cs" "\<forall>st. \<forall>e \<in> set us. \<not> committed_after_starting st (e_ts e)"
  by (rule split_views [OF ok t, of k])
  let ?us = "map (\<lambda>e. e\<lparr>e_ts := ?clock\<rparr>) us"
  have ch: "chain_of db' k = ?us @ cs" using ch' s(1,3) by (simp add: stamped_def)
  have w: "k \<in> s_written ?s \<longleftrightarrow> us \<noteq> []" using s(4) by (simp add: session_of_def)
  have view: "us \<noteq> [] \<Longrightarrow> s_view ?s k = map_option content (undeleted (Some (hd us)))"
    using s(1,6) by (simp add: session_alt p(1))
  have hdc: "us \<noteq> [] \<Longrightarrow> undeleted (committed_entry (?us @ cs)) = undeleted (Some ((hd us)\<lparr>e_ts := ?clock\<rparr>))"
    using clock committed_hit [of "(hd us)\<lparr>e_ts := ?clock\<rparr>"] by (cases us) auto
  have "map_option content (scan_committed db' k) = (if k \<in> s_written ?s then s_view ?s k else map_option content (scan_committed db k))"
  proof (cases "us = []")
    case True
    then show ?thesis using w ch s(1) by (simp add: scan_committed_def)
  next
    case False
    then show ?thesis using w view hdc ch by (simp add: scan_committed_def content_def)
  qed
  moreover have "visible (t_id u) (t_start u) (?us @ cs) = visible (t_id u) (t_start u) cs"
    if u: "u \<in> set (active db)" "t_id u \<noteq> t_id t" for u
  proof (cases "cs = []")
    case False
    have "\<not> use_timestamp (t_id u) (t_start u) ?clock" using p(2) u(1) clock by (auto simp: use_timestamp_def active_inv_def)
    then show ?thesis using visible_skips [OF False, of ?us] by simp
  qed (use s(2) in simp)
  moreover have "(\<exists>e \<in> set (?us @ cs). committed_after_starting (t_start u) (e_ts e)) \<longleftrightarrow>
      (\<exists>e \<in> set (us @ cs). committed_after_starting (t_start u) (e_ts e)) \<or> us \<noteq> []" if u: "u \<in> set (active db)" for u
  proof -
    have "committed_after_starting (t_start u) ?clock"
      using p(2) u clock by (auto simp: committed_after_starting_def active_inv_def)
    then show ?thesis using s(8) by (cases us) auto
  qed
  ultimately show ?thesis using s(1,5) ch w by simp
qed

lemma sim_commit:
  assumes ok: "db_ok db" and t: "t \<in> set (active db)" and clock: "current_start_timestamp db < transaction_id_start"
    and r: "commit_transaction False t db = Inr db'"
  shows "spec_step (Commits (t_id t)) (abs_db db) (abs_db db')"
proof -
  let ?clock = "current_start_timestamp db"
  have r': "db_ok db'" "active db' = other_txns t (active db)" "chain_of db' k = stamped ?clock (writes k t) (chain_of db k)" for k
    using commit_result [OF ok t clock] r by auto
  note p = db_ok_parts [OF ok] and p' = db_ok_parts [OF r'(1)]
  let ?s = "session_of db t"
  have sess: "sessions (abs_db db) (t_id t) = Some ?s"
    using find_txn_Some [OF p(2), of "t_id t" t] t by (simp add: abs_db_def)
  note key = commit_views [OF ok t clock r'(1,3)]
  let ?f = "\<lambda>s'. s'\<lparr>s_newer := s_newer s' \<union> s_written ?s\<rparr>"
  have "sessions (abs_db db') = (\<lambda>j. if j = t_id t then map_option (session_of db') (find_txn db' (t_id t)) else map_option ?f (sessions (abs_db db) j))"
  proof (rule abs_sessions [OF p(2) p'(2)])
    fix u u' assume u: "u \<in> set (active db)" "u' \<in> set (active db')" "t_id u = t_id u'" "t_id u \<noteq> t_id t"
    then have "u' = u" using same_txn [OF p(2) u(1), of u'] r'(2) by auto
    then show "session_of db' u' = ?f (session_of db u)"
      using key u(1,4) by (auto simp: session_alt p(1) p'(1) fun_eq_iff)
  qed (auto simp: r'(2))
  then have "sessions (abs_db db') = (\<lambda>j. if j = t_id t then None else map_option ?f (sessions (abs_db db) j))"
    by (auto simp: fun_eq_iff find_txn_def r'(2) find_other)
  then have "abs_db db' = \<lparr>committed = \<lambda>k. if k \<in> s_written ?s then s_view ?s k else committed (abs_db db) k,
      sessions = \<lambda>j. if j = t_id t then None else map_option ?f (sessions (abs_db db) j)\<rparr>"
    using key by (intro spec.equality) (auto simp: abs_db_def fun_eq_iff)
  then show ?thesis using spec_commit [OF sess] by simp
qed

lemma same_views_unwound:
  assumes ok: "db_ok db" and t: "t \<in> set (active db)"
  shows "same_views (other_txns t (active db)) (chain_of db k) (unwound (writes k t) (chain_of db k))"
proof -
  obtain us cs where s: "chain_of db k = us @ cs" "cs = [] \<longrightarrow> us = []" "length us = writes k t"
    "\<forall>u \<in> set (active db). t_id u \<noteq> t_id t \<longrightarrow> visible (t_id u) (t_start u) (us @ cs) = visible (t_id u) (t_start u) cs"
    "committed_entry (us @ cs) = committed_entry cs" "\<forall>st. \<forall>e \<in> set us. \<not> committed_after_starting st (e_ts e)"
    by (rule split_views [OF ok t, of k])
  have d: "drop (writes k t) (chain_of db k) = cs" using s(1,3) by simp
  have cs: "same_views (other_txns t (active db)) (chain_of db k) cs"
    using s(1,4,5,6) by (auto simp: same_views_def)
  have inv: "cs = [hd cs] \<and> e_deleted (hd cs) \<and> e_ts (hd cs) < current_start_timestamp db \<and>
      (\<forall>u \<in> set (active db). e_ts (hd cs) < t_start u)" if "e_type (hd cs) = INVALID" "writes k t \<noteq> 0"
  proof -
    have "cs \<noteq> []" using s(2,3) that(2) by auto
    then obtain x xs where x: "cs = x # xs" by (cases cs) auto
    then have "xs = []" using invalid_last db_ok_parts(4) [OF ok, of k] s(1) that(1) by (metis list.sel(1))
    then show ?thesis using x s(1) that(1) db_ok_parts(4) [OF ok, of k] by (auto simp: chain_inv_def)
  qed
  have "same_views (other_txns t (active db)) cs []" if i: "e_type (hd cs) = INVALID" "writes k t \<noteq> 0"
  proof -
    obtain x where x: "cs = [x]" "e_deleted x" "\<forall>u \<in> set (active db). e_ts x < t_start u" using inv [OF i] by metis
    then show ?thesis by (auto simp: same_views_def committed_after_starting_def)
  qed
  then show ?thesis
    using cs same_views_trans [OF cs, of "[]"] by (auto simp: unwound_def d)
qed

text \<open>Sessions of transactions whose views stay.\<close>

lemma session_same:
  assumes "no_empty db" "no_empty db'" "u \<in> set acts" "\<And>k. same_views acts (chain_of db k) (chain_of db' k)"
  shows "session_of db' u = session_of db u"
  using assms by (simp add: session_alt same_views_def fun_eq_iff)

lemma committed_same:
  "(\<And>k. same_views acts (chain_of db k) (chain_of db' k)) \<Longrightarrow> committed (abs_db db') = committed (abs_db db)"
  by (simp add: abs_db_def scan_committed_def same_views_def fun_eq_iff)

lemma sim_abort:
  assumes ok: "db_ok db" and t: "t \<in> set (active db)" and ok': "db_ok db'"
    and a: "active db' = other_txns t (active db)" and ch: "chain_of db' = (\<lambda>k. unwound (writes k t) (chain_of db k))"
  shows "spec_step (Aborts (t_id t)) (abs_db db) (abs_db db')"
proof -
  note p = db_ok_parts [OF ok] and p' = db_ok_parts [OF ok']
  have v: "same_views (other_txns t (active db)) (chain_of db k) (chain_of db' k)" for k
    using same_views_unwound [OF ok t, of k] by (simp add: ch)
  have sess: "sessions (abs_db db) (t_id t) = Some (session_of db t)"
    using find_txn_Some [OF p(2), of "t_id t" t] t by (simp add: abs_db_def)
  have "sessions (abs_db db') = (\<lambda>j. if j = t_id t then map_option (session_of db') (find_txn db' (t_id t)) else map_option id (sessions (abs_db db) j))"
  proof (rule abs_sessions [OF p(2) p'(2)])
    fix u u' assume u: "u \<in> set (active db)" "u' \<in> set (active db')" "t_id u = t_id u'" "t_id u \<noteq> t_id t"
    then have "u' = u" using same_txn [OF p(2) u(1), of u'] a by auto
    then show "session_of db' u' = id (session_of db u)"
      using session_same [OF p(1) p'(1) _ v, of u] u(1,4) by simp
  qed (auto simp: a)
  then have "sessions (abs_db db') = (sessions (abs_db db))(t_id t := None)"
    by (auto simp: fun_eq_iff find_txn_def a find_other option.map_id)
  then have "abs_db db' = (abs_db db)\<lparr>sessions := (sessions (abs_db db))(t_id t := None)\<rparr>"
    using committed_same [OF v] by (intro spec.equality) auto
  then show ?thesis using spec_abort [OF sess] by simp
qed

lemma sim_begin:
  assumes ok: "db_ok db" and r: "start_transaction db = Inr db'"
  shows "spec_step (Begins (current_transaction_id db)) (abs_db db) (abs_db db')"
proof -
  obtain t where t: "active db' = active db @ [t]" "t_id t = current_transaction_id db" "t_start t = current_start_timestamp db"
      "t_undo t = []" and ok': "db_ok db'" and ch: "chain_of db' = chain_of db"
    using start_result [OF ok r] by auto
  note p = db_ok_parts [OF ok] and p' = db_ok_parts [OF ok']
  have fresh: "\<forall>u \<in> set (active db). t_id u \<noteq> t_id t" using p(2) t(2) by (auto simp: active_inv_def)
  then have none: "sessions (abs_db db) (t_id t) = None" using find_txn_None [of db "t_id t"] by (auto simp: abs_db_def)
  have use: "use_timestamp (t_id t) (t_start t) (e_ts e) \<longleftrightarrow> e_ts e < transaction_id_start"
    "\<not> committed_after_starting (t_start t) (e_ts e)" if "e \<in> set (chain_of db k)" for e k
  proof -
    have "e_ts e < current_start_timestamp db \<or> transaction_id_start \<le> e_ts e \<and> e_ts e < current_transaction_id db"
      using chain_timestamps [OF p(2,3,4) that] p(2) by (auto simp: active_inv_def)
    then show "use_timestamp (t_id t) (t_start t) (e_ts e) \<longleftrightarrow> e_ts e < transaction_id_start"
      "\<not> committed_after_starting (t_start t) (e_ts e)"
      using p(2) t(2,3) by (auto simp: use_timestamp_def committed_after_starting_def active_inv_def)
  qed
  have new: "session_of db' t = \<lparr>s_view = committed (abs_db db), s_written = {}, s_newer = {}\<rparr>"
    using use committed_visible [of "chain_of db _" "t_id t" "t_start t"]
    by (auto simp: session_alt p'(1) ch t(4) abs_db_def scan_committed_def fun_eq_iff)
  have "sessions (abs_db db') = (\<lambda>j. if j = t_id t then map_option (session_of db') (find_txn db' (t_id t)) else map_option id (sessions (abs_db db) j))"
  proof (rule abs_sessions [OF p(2) p'(2)])
    fix u u' assume u: "u \<in> set (active db)" "u' \<in> set (active db')" "t_id u = t_id u'" "t_id u \<noteq> t_id t"
    then have "u' = u" using same_txn [OF p(2) u(1), of u'] t(1) by auto
    then show "session_of db' u' = id (session_of db u)" by (simp add: session_alt p(1) p'(1) ch)
  qed (use fresh in \<open>auto simp: t(1)\<close>)
  moreover have "find_txn db' (t_id t) = Some t" using find_txn_Some [OF p'(2), of "t_id t" t] t(1) by simp
  ultimately have "sessions (abs_db db') = (sessions (abs_db db))(t_id t \<mapsto> \<lparr>s_view = committed (abs_db db), s_written = {}, s_newer = {}\<rparr>)"
    using new by (auto simp: fun_eq_iff option.map_id)
  moreover have "committed (abs_db db') = committed (abs_db db)" by (simp add: abs_db_def scan_committed_def ch)
  ultimately have "abs_db db' = (abs_db db)\<lparr>sessions := (sessions (abs_db db))(t_id t \<mapsto> \<lparr>s_view = committed (abs_db db), s_written = {}, s_newer = {}\<rparr>)\<rparr>"
    by (intro spec.equality) auto
  then show ?thesis using spec_begin [OF none] t(2) by simp
qed

lemma sim_cleanup:
  assumes ok: "db_ok db" and r: "cleanup_transactions db = Inr db'"
  shows "abs_db db' = abs_db db"
proof -
  have a: "active db' = active db" "db_ok db'" and v: "\<And>k. same_views (active db) (chain_of db k) (chain_of db' k)"
    using cleanup_result [OF ok] r by auto
  note p = db_ok_parts [OF ok] and p' = db_ok_parts [OF a(2)]
  have "map_option (session_of db') (find_txn db' i) = map_option (session_of db) (find_txn db i)" for i
  proof (cases "find_txn db i")
    case (Some u)
    then have "u \<in> set (active db)" using find_txn_Some [OF p(2)] by blast
    then show ?thesis using Some session_same [OF p(1) p'(1) _ v, of u] a(1) by (simp add: find_txn_def)
  qed (simp add: find_txn_def a(1))
  then show ?thesis using committed_same [OF v] by (simp add: abs_db_def)
qed

lemma rollback_step_result:
  assumes "db_ok db" "t \<in> set (active db)"
  shows "\<exists>db'. rollback_transaction t db = Inr db' \<and> db_ok db' \<and> active db' = other_txns t (active db) \<and>
    chain_of db' = (\<lambda>k. unwound (writes k t) (chain_of db k))"
  using rollback_result [OF assms, of db "t_undo t \<noteq> []" t] by (auto simp: rollback_transaction_def)

lemma failed_commit_result:
  assumes "db_ok db" "t \<in> set (active db)" "current_start_timestamp db < transaction_id_start"
  shows "\<exists>db'. commit_transaction True t db = Inr db' \<and> db_ok db' \<and> active db' = other_txns t (active db) \<and>
    chain_of db' = (\<lambda>k. unwound (writes k t) (chain_of db k))"
  using rollback_result [OF assms(1,2) _ _, of "db\<lparr>current_start_timestamp := Suc (current_start_timestamp db)\<rparr>" True "t\<lparr>t_commit := 0\<rparr>"]
    assms(3) by (auto simp: commit_transaction_def Let_def)

text \<open>The operations of a transaction: what a create, a drop and an alter write, if they write.\<close>

lemma sim_create:
  assumes ok: "db_ok db" and t: "t \<in> set (active db)" and e: "is_entry e" and r: "create_entry ck t cs name e db = Inr (b, db')"
  shows "spec_step (if b then Writes (t_id t) (key_of cs name) (Some e) else Internal) (abs_db db) (abs_db db')"
proof -
  have "check_entry_invariants ck name e = Inr ()" using r by (auto simp: create_entry_def res_simps)
  then show ?thesis
    using r e create_entry_cases [OF db_ok_parts(1) [OF ok] _ refl, of ck name e t cs] sim_write [OF ok t, of "key_of cs name" e]
    by (auto simp: is_entry_def spec_internal split: if_splits)
qed

lemma sim_drop:
  assumes ok: "db_ok db" and t: "t \<in> set (active db)" and r: "drop_entry t cs name allow db = Inr (b, db')"
  shows "spec_step (if b then Writes (t_id t) (key_of cs name) None else Internal) (abs_db db) (abs_db db')"
  using drop_entry_cases [OF db_ok_parts(1) [OF ok] r refl] sim_write [OF ok t, of "key_of cs name" "tombstone _"]
  by (auto simp: tombstone_def spec_internal)

definition altered :: "('d entry \<Rightarrow> 'd entry option res) \<Rightarrow> 'd entry option \<Rightarrow> 'd entry option" where
  "altered alter r = (case r of None \<Rightarrow> None | Some e \<Rightarrow> (case alter e of Inr v \<Rightarrow> v | Inl _ \<Rightarrow> None))"

lemma sim_alter:
  assumes ok: "db_ok db" and t: "t \<in> set (active db)" and a: "\<forall>e e'. alter e = Inr (Some e') \<longrightarrow> is_entry e'"
    and r: "alter_entry alter t cs name allow db = Inr (b, db')"
  shows "spec_step (case altered alter (get_entry db t (key_of cs name)) of
      Some e' \<Rightarrow> Writes (t_id t) (key_of cs name) (Some e') | None \<Rightarrow> Internal) (abs_db db) (abs_db db')"
proof -
  let ?k = "key_of cs name"
  have "altered alter (get_entry db t ?k) = None \<and> db' = db \<or>
      (\<exists>e' d. altered alter (get_entry db t ?k) = Some e' \<and> is_entry e' \<and> get_entry_internal t ?k db = Inr (Some d) \<and>
        db' = put_version (t_id t) ?k e' db)"
  proof (cases "altered alter (get_entry db t ?k)")
    case None
    then show ?thesis using r by (auto simp: alter_entry_def altered_def Let_def res_simps split: option.splits if_splits)
  next
    case (Some e')
    then obtain e where e: "get_entry db t ?k = Some e" "alter e = Inr (Some e')"
      by (auto simp: altered_def split: option.splits sum.splits)
    then have "bindR (get_entry_internal t ?k db) (\<lambda>r. case r of
        None \<Rightarrow> Inl (Undefined ''null catalog entry'') | Some _ \<Rightarrow> Inr (True, put_version (t_id t) ?k e' db)) = Inr (b, db')"
      using r by (simp add: alter_entry_def Let_def split: if_splits)
    then show ?thesis using Some e(2) a by (auto simp: res_simps split: option.splits)
  qed
  then show ?thesis
  proof (elim disjE exE conjE)
    fix e' d
    assume e': "altered alter (get_entry db t ?k) = Some e'" "is_entry e'" "get_entry_internal t ?k db = Inr (Some d)"
      "db' = put_version (t_id t) ?k e' db"
    then have "free_for db t ?k" "db' = write_version t ?k e' db"
      using get_entry_internal_Some [OF db_ok_parts(1) [OF ok] e'(3)] write_version_simps(2) by (metis not_None_eq)+
    then show ?thesis using e'(1,2) sim_write [OF ok t, of ?k e'] by (simp add: is_entry_def)
  qed (simp add: spec_internal)
qed

text \<open>C5: every operation on catalog sets, in any interleaving of transactions, is the step of the abstract catalog
  that it stands for, where what lookups and scans return is what private copies of snapshots would return. Starting a
  transaction takes the snapshot. A create that reports success writes its entry for its transaction, a drop deletes,
  an alter writes the entry computed from the visible one, and only where no other transaction has written the name
  since the snapshot; otherwise nothing changes. A commit publishes all writes at once; a commit whose log write fails
  and a rollback discard them; clean-up cannot be observed.\<close>
theorem catalog_snapshot_isolation:
  assumes "reachable_db db"
  shows "(start_transaction db = Inr db' \<longrightarrow> spec_step (Begins (current_transaction_id db)) (abs_db db) (abs_db db')) \<and>
    (t \<in> set (active db) \<longrightarrow>
      (is_entry e \<and> create_entry ck t cs name e db = Inr (b, db') \<longrightarrow>
        spec_step (if b then Writes (t_id t) (key_of cs name) (Some e) else Internal) (abs_db db) (abs_db db')) \<and>
      (drop_entry t cs name allow db = Inr (b, db') \<longrightarrow>
        spec_step (if b then Writes (t_id t) (key_of cs name) None else Internal) (abs_db db) (abs_db db')) \<and>
      ((\<forall>e e'. alter e = Inr (Some e') \<longrightarrow> is_entry e') \<and> alter_entry alter t cs name allow db = Inr (b, db') \<longrightarrow>
        spec_step (case altered alter (get_entry db t (key_of cs name)) of
          Some e' \<Rightarrow> Writes (t_id t) (key_of cs name) (Some e') | None \<Rightarrow> Internal) (abs_db db) (abs_db db')) \<and>
      (current_start_timestamp db < transaction_id_start \<and> commit_transaction wal_error t db = Inr db' \<longrightarrow>
        spec_step (if wal_error then Aborts (t_id t) else Commits (t_id t)) (abs_db db) (abs_db db')) \<and>
      (rollback_transaction t db = Inr db' \<longrightarrow> spec_step (Aborts (t_id t)) (abs_db db) (abs_db db'))) \<and>
    (cleanup_transactions db = Inr db' \<longrightarrow> abs_db db' = abs_db db)"
proof -
  have ok: "db_ok db" using reachable_ok assms by blast
  have commit: "spec_step (if wal_error then Aborts (t_id t) else Commits (t_id t)) (abs_db db) (abs_db db')"
    if "t \<in> set (active db)" "current_start_timestamp db < transaction_id_start" "commit_transaction wal_error t db = Inr db'"
    using that sim_commit [OF ok that(1,2)] sim_abort [OF ok that(1)] failed_commit_result [OF ok that(1,2)]
    by (cases wal_error) auto
  have rollback: "spec_step (Aborts (t_id t)) (abs_db db) (abs_db db')"
    if "t \<in> set (active db)" "rollback_transaction t db = Inr db'"
    using that sim_abort [OF ok that(1)] rollback_step_result [OF ok that(1)] by auto
  show ?thesis
    by (intro conjI impI; (elim conjE)?)
      (rule sim_begin [OF ok] sim_create [OF ok] sim_drop [OF ok] sim_alter [OF ok] commit rollback sim_cleanup [OF ok]; assumption)+
qed

text \<open>C7: commit, rollback, a commit whose log write fails and clean-up never follow an undo entry to a
  version without a parent, and leave no trace of the transaction among the active ones.\<close>
theorem undo_entries_safe:
  assumes "reachable_db db" "t \<in> set (active db)" "current_start_timestamp db < transaction_id_start"
  shows "(\<exists>db'. commit_transaction wal_error t db = Inr db' \<and> active db' = other_txns t (active db)) \<and>
    (\<exists>db'. rollback_transaction t db = Inr db' \<and> active db' = other_txns t (active db)) \<and>
    (\<exists>db'. cleanup_transactions db = Inr db' \<and> active db' = active db)"
proof -
  have ok: "db_ok db" using reachable_ok assms(1) by blast
  have "\<exists>db'. commit_transaction wal_error t db = Inr db' \<and> active db' = other_txns t (active db)"
    using commit_result [OF ok assms(2,3)] failed_commit_result [OF ok assms(2,3)] by (cases wal_error) auto
  then show ?thesis using rollback_step_result [OF ok assms(2)] cleanup_result [OF ok] by blast
qed

lemma free_for_iff:
  assumes "db_ok db" "t \<in> set (active db)"
  shows "free_for db t k \<longleftrightarrow> k \<notin> s_newer (session_of db t) \<and>
    (\<forall>u \<in> set (active db). t_id u \<noteq> t_id t \<longrightarrow> k \<notin> s_written (session_of db u))"
proof
  note p = db_ok_parts [OF assms(1)]
  assume "free_for db t k"
  then have f: "chain_of db k \<noteq> [] \<longrightarrow> \<not> has_conflict (t_id t) (t_start t) (e_ts (hd (chain_of db k)))"
    by (simp add: free_for_def)
  then show "k \<notin> s_newer (session_of db t) \<and> (\<forall>u \<in> set (active db). t_id u \<noteq> t_id t \<longrightarrow> k \<notin> s_written (session_of db u))"
    using free_for_newer [OF p(2,3) assms(2) p(4) [of k] f] free_for_writers [OF p(2) assms(2) p(4) [of k] f]
    by (auto simp: session_of_def)
next
  note p = db_ok_parts [OF assms(1)]
  assume a: "k \<notin> s_newer (session_of db t) \<and> (\<forall>u \<in> set (active db). t_id u \<noteq> t_id t \<longrightarrow> k \<notin> s_written (session_of db u))"
  show "free_for db t k"
  proof (cases "chain_of db k = []")
    case False
    then have h: "hd (chain_of db k) \<in> set (chain_of db k)" by simp
    then show ?thesis
      using a chain_timestamps [OF p(2,3,4) h] p(2)
      by (auto simp: free_for_def has_conflict_def created_by_other_def session_of_def active_inv_def)
  qed (simp add: free_for_def)
qed

text \<open>A free chain shows its head.\<close>

lemma free_head:
  assumes ok: "db_ok db" and t: "t \<in> set (active db)" and free: "free_for db t k" and c: "chain_of db k \<noteq> []"
  shows "get_entry db t k = undeleted (Some (hd (chain_of db k)))"
proof -
  note p = db_ok_parts [OF ok]
  obtain h es where h: "chain_of db k = h # es" using c by (cases "chain_of db k") auto
  have nc: "\<not> has_conflict (t_id t) (t_start t) (e_ts h)" using free h by (simp add: free_for_def)
  have "use_timestamp (t_id t) (t_start t) (e_ts h)"
    using chain_timestamps [OF p(2,3,4), of h k] nc p(2) t h
    by (auto simp: use_timestamp_def has_conflict_def created_by_other_def committed_after_starting_def active_inv_def)
  then show ?thesis using h by (simp add: get_entry_visible p(1) visible_hit)
qed

lemma get_entry_write:
  assumes ok: "db_ok db" and t: "t \<in> set (active db)" and free: "free_for db t k" and e: "is_entry e"
  shows "\<exists>t' a. find_txn (write_version t k e db) (t_id t) = Some t' \<and>
    get_entry (write_version t k e db) t' k = Some (e\<lparr>e_addr := a, e_ts := t_id t\<rparr>)"
proof -
  let ?db = "write_version t k e db"
  have ok': "db_ok ?db" using db_ok_write [OF ok t free] e by (simp add: is_entry_def)
  note p = db_ok_parts [OF ok] and p' = db_ok_parts [OF ok']
  note f = write_version_fields [OF p(1), of t k e]
  let ?t = "push_undo (t_id t) (Suc (last_uncommitted_version db)) k (e_addr (hd (below db k (e_name e)))) t"
  have "find_txn ?db (t_id t) = Some ?t" using find_txn_Some [OF p'(2), of "t_id t" ?t] t by (simp add: f)
  moreover have "get_entry ?db ?t k = Some (e\<lparr>e_addr := new_addr db k, e_ts := t_id t\<rparr>)"
    using e by (simp add: get_entry_visible p'(1)) (simp add: f chain_of_def visible_hit use_timestamp_def is_entry_def)
  ultimately show ?thesis by blast
qed

text \<open>C26: a create throws a write-write conflict exactly when another transaction has written the name
  since the snapshot; it reports an existing entry exactly when the transaction sees one; otherwise the
  transaction sees its new entry.\<close>
theorem create_entry_outcome:
  assumes "reachable_db db" "t \<in> set (active db)" "check_entry_invariants ck name e = Inr ()" "is_entry e"
  shows "if key_of cs name \<in> s_newer (session_of db t) \<or>
      (\<exists>u \<in> set (active db). t_id u \<noteq> t_id t \<and> key_of cs name \<in> s_written (session_of db u))
    then \<exists>m. create_entry ck t cs name e db = Inl (TransactionException m)
    else if get_entry db t (key_of cs name) \<noteq> None then create_entry ck t cs name e db = Inr (False, db)
    else \<exists>db' t' a. create_entry ck t cs name e db = Inr (True, db') \<and> find_txn db' (t_id t) = Some t' \<and>
      get_entry db' t' (key_of cs name) = Some (e\<lparr>e_addr := a, e_ts := t_id t\<rparr>)"
proof -
  have ok: "db_ok db" using reachable_ok assms(1) by blast
  note p = db_ok_parts [OF ok]
  let ?k = "key_of cs name"
  note r = create_entry_cases [OF p(1) assms(3) refl, of t cs]
  show ?thesis
  proof (cases "free_for db t ?k")
    case False
    then show ?thesis using r free_for_iff [OF ok assms(2), of ?k] by auto
  next
    case True
    have "get_entry db t ?k \<noteq> None \<longleftrightarrow> chain_of db ?k \<noteq> [] \<and> \<not> e_deleted (hd (chain_of db ?k))"
      using free_head [OF ok assms(2) True] get_entry_visible [OF p(1), of t ?k] by (cases "chain_of db ?k = []") auto
    then show ?thesis
      using r True free_for_iff [OF ok assms(2), of ?k] get_entry_write [OF ok assms(2) True assms(4)] by auto
  qed
qed

subsection \<open>What stays behind\<close>

text \<open>C28: when no transaction is active and the clean-up queue is empty, every name has one version left
  and nothing points to old ones.\<close>
theorem catalog_quiescent:
  assumes "reachable_db db" "active db = []" "cleanup_queue db = []"
  shows "recently_committed db = [] \<and> length (chain_of db k) \<le> 1"
proof -
  have ok: "db_ok db" using reachable_ok assms(1) by blast
  then have r: "recently_committed db = []" using assms(2) by (simp add: db_ok_def)
  moreover have "links (chain_of db k) = []"
    using db_ok_parts(4) [OF ok, of k] assms(2,3) r by (simp add: chain_inv_def waiting_def)
  ultimately show ?thesis using length_links [of "chain_of db k"] by (cases "chain_of db k") simp_all
qed

subsection \<open>Runs\<close>

text \<open>Sequences of operations, by the number of the transaction.\<close>

datatype 'd action =
    Begin | Create nat catset string "'d entry" | Drop nat catset string | Commit nat bool | Rollback nat | Cleanup

definition with_txn :: "'d db \<Rightarrow> nat \<Rightarrow> (txn \<Rightarrow> 'a res) \<Rightarrow> 'a res" where
  "with_txn db n f = (case find_txn db (transaction_id_start + n) of
     None \<Rightarrow> Inl (TransactionException ''no transaction active'') | Some t \<Rightarrow> f t)"

fun perform :: "catalog_kind \<Rightarrow> 'd action \<Rightarrow> 'd db \<Rightarrow> 'd db res" where
  "perform ck Begin db = start_transaction db"
| "perform ck (Create n cs name e) db = with_txn db n (\<lambda>t.
     if is_entry e then mapR snd (create_entry ck t cs name e db) else Inl (Undefined ''not an entry''))"
| "perform ck (Drop n cs name) db = with_txn db n (\<lambda>t. mapR snd (drop_entry t cs name False db))"
| "perform ck (Commit n wal_error) db = with_txn db n (\<lambda>t.
     if current_start_timestamp db < transaction_id_start then commit_transaction wal_error t db
     else Inl (InternalException ''ran out of transaction identifiers''))"
| "perform ck (Rollback n) db = with_txn db n (\<lambda>t. rollback_transaction t db)"
| "perform ck Cleanup db = cleanup_transactions db"

lemma with_txn_Inr: "with_txn db n f = Inr x \<Longrightarrow> \<exists>t. t \<in> set (active db) \<and> f t = Inr x"
proof -
  assume a: "with_txn db n f = Inr x"
  then obtain t where t: "find_txn db (transaction_id_start + n) = Some t" by (auto simp: with_txn_def split: option.splits)
  then have "t \<in> set (active db)" by (auto simp: find_txn_def find_Some_iff)
  then show ?thesis using a t by (auto simp: with_txn_def)
qed

lemma perform_step: "perform ck a db = Inr db' \<Longrightarrow> db_step db db'"
proof (cases a)
  case (Create n cs name e)
  then show "perform ck a db = Inr db' \<Longrightarrow> db_step db db'"
    using db_step.create_step by (fastforce dest!: with_txn_Inr simp: mapR_Inr_iff split: if_splits)
next
  case (Drop n cs name)
  then show "perform ck a db = Inr db' \<Longrightarrow> db_step db db'"
    using db_step.drop_step by (fastforce dest!: with_txn_Inr simp: mapR_Inr_iff)
qed (auto dest!: with_txn_Inr simp: mapR_Inr_iff split: if_splits intro: db_step.intros)

lemma perform_reachable: "foldR (perform ck) as db = Inr db' \<Longrightarrow> reachable_db db \<Longrightarrow> reachable_db db'"
  using foldR_invariant [of "perform ck" as db db' reachable_db] perform_step reachable_db.step by blast

definition user_catalog :: catalog_kind where
  "user_catalog = \<lparr>is_system = False, is_temporary = False\<rparr>"

definition demo_entry :: "string \<Rightarrow> nat \<Rightarrow> nat entry" where
  "demo_entry name v = \<lparr>e_addr = 0, e_type = MODEL_ENTRY, e_name = name, e_ts = 0, e_deleted = False,
     e_temporary = False, e_internal = False, e_data = Some v\<rparr>"

text \<open>Two transactions, the first of which has created a model.\<close>

definition demo_run :: "nat action list" where
  "demo_run = [Begin, Begin, Create 0 Models ''m'' (demo_entry ''m'' 1)]"

definition demo_db :: "nat db" where
  "demo_db = projr (foldR (perform user_catalog) demo_run new_db)"

lemmas run_defs = with_txn_def find_txn_def start_transaction_def new_db_def create_entry_def create_entry_internal_def
  check_entry_invariants_def user_catalog_def demo_entry_def is_entry_def key_of_def put_version_def start_chain_def
  push_catalog_entry_def has_conflict_def created_by_other_def committed_after_starting_def transaction_id_start_def
  max_transaction_id_def drop_entry_def drop_entry_internal_def get_entry_def get_entry_detailed_def get_entry_internal_def
  use_timestamp_def tombstone_def commit_transaction_def rollback_transaction_def cleanup_transactions_def undo_all_def
  on_chain_def chain_of_def cleanup_version_def remove_transaction_def lowest_def Let_def

lemma demo_db_run: "foldR (perform user_catalog) demo_run new_db = Inr demo_db"
proof -
  have "\<not> isl (foldR (perform user_catalog) demo_run new_db)"
    by (simp add: demo_run_def run_defs)
  then show ?thesis by (simp add: demo_db_def)
qed

lemma reachable_demo: "reachable_db demo_db"
  using perform_reachable [OF demo_db_run] reachable_db.initial by blast

definition demo_txn :: "nat \<Rightarrow> nat \<Rightarrow> (key \<times> nat) list \<Rightarrow> txn" where
  "demo_txn n version undo = \<lparr>t_id = transaction_id_start + n, t_start = 2 + n, t_commit = 0, t_version = version,
     t_awaiting_cleanup = False, t_undo = undo\<rparr>"

lemma demo_db_fields:
  "active demo_db = [demo_txn 0 (Suc transaction_id_start) [(key_of Models ''m'', 0)], demo_txn 1 0 []]"
  "current_start_timestamp demo_db = 4"
  by (simp_all add: demo_db_def demo_run_def demo_txn_def run_defs)

theorem catalog_snapshot_isolation_witness:
  "(\<exists>db'. commit_transaction False (demo_txn 0 (Suc transaction_id_start) [(key_of Models ''m'', 0)]) demo_db = Inr db' \<and>
     spec_step (Commits transaction_id_start) (abs_db demo_db) (abs_db db')) \<and>
   (\<exists>db'. commit_transaction True (demo_txn 0 (Suc transaction_id_start) [(key_of Models ''m'', 0)]) demo_db = Inr db' \<and>
     spec_step (Aborts transaction_id_start) (abs_db demo_db) (abs_db db'))"
proof -
  let ?t = "demo_txn 0 (Suc transaction_id_start) [(key_of Models ''m'', 0)]"
  have t: "?t \<in> set (active demo_db)" "current_start_timestamp demo_db < transaction_id_start" "t_id ?t = transaction_id_start"
    by (simp_all add: demo_db_fields transaction_id_start_def demo_txn_def)
  obtain db1 db2 where "commit_transaction False ?t demo_db = Inr db1" "commit_transaction True ?t demo_db = Inr db2"
    using commit_result [OF reachable_ok [OF reachable_demo] t(1,2)] failed_commit_result [OF reachable_ok [OF reachable_demo] t(1,2)]
    by blast
  then show ?thesis
    using catalog_snapshot_isolation [OF reachable_demo, of _ ?t _ _ _ _ _ _ _ False]
      catalog_snapshot_isolation [OF reachable_demo, of _ ?t _ _ _ _ _ _ _ True] t by auto
qed

theorem undo_entries_safe_witness:
  "(\<exists>db'. rollback_transaction (demo_txn 0 (Suc transaction_id_start) [(key_of Models ''m'', 0)]) demo_db = Inr db' \<and>
     active db' = [demo_txn 1 0 []])"
proof -
  let ?t = "demo_txn 0 (Suc transaction_id_start) [(key_of Models ''m'', 0)]"
  have "?t \<in> set (active demo_db)" "current_start_timestamp demo_db < transaction_id_start"
    by (simp_all add: demo_db_fields transaction_id_start_def)
  then show ?thesis using undo_entries_safe [OF reachable_demo, of ?t False] by (auto simp: demo_db_fields demo_txn_def)
qed

text \<open>The second transaction cannot create the model, under no spelling of its name.\<close>

theorem create_entry_outcome_witness:
  "\<exists>m. create_entry user_catalog (demo_txn 1 0 []) Models ''M'' (demo_entry ''M'' 2) demo_db = Inl (TransactionException m)"
proof -
  have k: "key_of Models ''M'' = key_of Models ''m''" by code_simp
  have "demo_txn 1 0 [] \<in> set (active demo_db)" by (simp add: demo_db_fields)
  moreover have "check_entry_invariants user_catalog ''M'' (demo_entry ''M'' 2) = Inr ()" "is_entry (demo_entry ''M'' 2)"
    by (simp_all add: run_defs)
  moreover have "\<exists>u \<in> set (active demo_db). t_id u \<noteq> t_id (demo_txn 1 0 []) \<and> key_of Models ''M'' \<in> s_written (session_of demo_db u)"
    by (simp add: demo_db_fields demo_txn_def session_of_def k)
  ultimately show ?thesis
    using create_entry_outcome [OF reachable_demo, of "demo_txn 1 0 []" user_catalog "''M''" "demo_entry ''M'' 2" Models] by simp
qed

text \<open>A create and its drop are committed while an older transaction reads, a new entry is created above the
  tombstone, the drop is cleaned up, and the creation is rolled back: the tombstone stays in the map for
  good.\<close>

definition tombstone_run :: "nat action list" where
  "tombstone_run = [Begin, Begin, Create 0 Models ''m'' (demo_entry ''m'' 1), Drop 0 Models ''m'', Commit 0 False,
     Begin, Create 2 Models ''m'' (demo_entry ''m'' 2), Rollback 1, Cleanup, Rollback 2, Cleanup]"

lemma tombstone_stays:
  "\<exists>db :: nat db. reachable_db db \<and> active db = [] \<and> cleanup_queue db = [] \<and>
     map e_type (chain_of db (key_of Models ''m'')) = [DELETED_ENTRY]"
proof -
  have "\<exists>db. foldR (perform user_catalog) tombstone_run new_db = Inr db \<and> active db = [] \<and> cleanup_queue db = [] \<and>
      map e_type (chain_of db (key_of Models ''m'')) = [DELETED_ENTRY]"
    by (simp add: tombstone_run_def run_defs)
  then obtain db where db: "foldR (perform user_catalog) tombstone_run new_db = Inr db" "active db = []" "cleanup_queue db = []"
      "map e_type (chain_of db (key_of Models ''m'')) = [DELETED_ENTRY]"
    by (elim exE conjE)
  show ?thesis
    by (intro exI [of _ db] conjI) (use perform_reachable [OF db(1) reachable_db.initial] db(2-4) in simp_all)
qed

theorem catalog_quiescent_witness:
  "\<exists>db :: nat db. reachable_db db \<and> active db = [] \<and> cleanup_queue db = [] \<and> length (chain_of db (key_of Models ''m'')) \<le> 1"
proof -
  obtain db :: "nat db" where db: "reachable_db db" "active db = []" "cleanup_queue db = []" using tombstone_stays by (elim exE conjE)
  show ?thesis
    by (intro exI [of _ db] conjI) (use catalog_quiescent [OF db, of "key_of Models ''m''"] db in simp_all)
qed

end
