(* ===== verification/Create_Info.thy ===== *)
theory Create_Info
  imports Catalog Catalog_Set
begin

section \<open>Catalog statements on disk\<close>

text \<open>
  \<open>CreateInfo::Serialize\<close> and \<open>Deserialize\<close>
  (\<open>src/storage/serialization/serialize_create_info.cpp\<close>) for models and embeddings: the common
  properties, then those of the type, the form in which the write-ahead log and the checkpoints hold an
  entry. What a model or an embedding never fills, its comment, tags and dependencies, is written by
  parameters, like the types and options of a model; \<open>wire_ok\<close> says that their readers invert them.
\<close>

record embedding_data =
  em_table :: string
  em_column :: string
  em_model_catalog :: string
  em_model_schema :: string
  em_model_name :: string
  em_size :: int

record create_base =
  cb_type :: catalog_type
  cb_catalog :: string
  cb_schema :: string
  cb_temporary :: bool
  cb_internal :: bool
  cb_conflict :: on_conflict
  cb_sql :: string
  cb_comment :: "string option"
  cb_tags :: "(string \<times> string) list"
  cb_dependencies :: "string list"

datatype create_info =
    ModelInfo create_base string model_data
  | EmbeddingInfo create_base string embedding_data

record wire =
  w_type :: "ltype \<Rightarrow> byte list res"
  r_type :: "byte list \<Rightarrow> (ltype \<times> byte list) res"
  w_options :: "options \<Rightarrow> byte list res"
  r_options :: "byte list \<Rightarrow> (options \<times> byte list) res"
  w_comment :: "string option \<Rightarrow> byte list res"
  r_comment :: "byte list \<Rightarrow> (string option \<times> byte list) res"
  w_tags :: "(string \<times> string) list \<Rightarrow> byte list res"
  r_tags :: "byte list \<Rightarrow> ((string \<times> string) list \<times> byte list) res"
  w_dependencies :: "string list \<Rightarrow> byte list res"
  r_dependencies :: "byte list \<Rightarrow> (string list \<times> byte list) res"
  with_dependencies :: bool    \<comment> \<open>\<open>ShouldSerialize(2)\<close>\<close>

definition wire_ok :: "wire \<Rightarrow> bool" where
  "wire_ok w \<longleftrightarrow> types_codec (w_type w) (r_type w) \<and> options_codec (w_options w) (r_options w) \<and>
     codec (\<lambda>x. projr (w_comment w x)) (r_comment w) (\<lambda>x. \<exists>bs. w_comment w x = Inr bs) \<and>
     codec (\<lambda>x. projr (w_tags w x)) (r_tags w) (\<lambda>x. \<exists>bs. w_tags w x = Inr bs) \<and>
     codec (\<lambda>x. projr (w_dependencies w x)) (r_dependencies w) (\<lambda>x. \<exists>bs. w_dependencies w x = Inr bs)"

subsection \<open>Enumerations\<close>

definition read_enum :: "('a \<Rightarrow> byte) \<Rightarrow> 'a list \<Rightarrow> byte list \<Rightarrow> ('a \<times> byte list) res" where
  "read_enum code xs s = bindR (read_varint s) (\<lambda>(b :: 8 word, r).
     case find (\<lambda>x. code x = b) xs of None \<Rightarrow> Inl (Undefined ''enum value'') | Some x \<Rightarrow> Inr (x, r))"

lemma find_code: "inj_on code (set xs) \<Longrightarrow> x \<in> set xs \<Longrightarrow> find (\<lambda>y. code y = code x) xs = Some x"
  by (induction xs) (auto simp: inj_on_def)

lemma enum_codec: "inj_on code (set xs) \<Longrightarrow> codec (\<lambda>x. encode_unsigned (code x)) (read_enum code xs) (\<lambda>x. x \<in> set xs)"
  by unfold_locales (simp add: read_enum_def u8.read_write find_code)

fun catalog_type_code :: "catalog_type \<Rightarrow> byte" where
  "catalog_type_code INVALID = 0"
| "catalog_type_code TABLE_ENTRY = 1"
| "catalog_type_code SCHEMA_ENTRY = 2"
| "catalog_type_code VIEW_ENTRY = 3"
| "catalog_type_code INDEX_ENTRY = 4"
| "catalog_type_code PREPARED_STATEMENT = 5"
| "catalog_type_code SEQUENCE_ENTRY = 6"
| "catalog_type_code COLLATION_ENTRY = 7"
| "catalog_type_code TYPE_ENTRY = 8"
| "catalog_type_code DATABASE_ENTRY = 9"
| "catalog_type_code COORDINATE_SYSTEM_ENTRY = 10"
| "catalog_type_code MODEL_ENTRY = 20"
| "catalog_type_code EMBEDDING_ENTRY = 21"
| "catalog_type_code TABLE_FUNCTION_ENTRY = 25"
| "catalog_type_code SCALAR_FUNCTION_ENTRY = 26"
| "catalog_type_code AGGREGATE_FUNCTION_ENTRY = 27"
| "catalog_type_code PRAGMA_FUNCTION_ENTRY = 28"
| "catalog_type_code COPY_FUNCTION_ENTRY = 29"
| "catalog_type_code MACRO_ENTRY = 30"
| "catalog_type_code TABLE_MACRO_ENTRY = 31"
| "catalog_type_code DELETED_ENTRY = 51"
| "catalog_type_code RENAMED_ENTRY = 52"
| "catalog_type_code SECRET_ENTRY = 71"
| "catalog_type_code SECRET_TYPE_ENTRY = 72"
| "catalog_type_code SECRET_FUNCTION_ENTRY = 73"
| "catalog_type_code DEPENDENCY_ENTRY = 100"

definition catalog_types :: "catalog_type list" where
  "catalog_types = [INVALID, TABLE_ENTRY, SCHEMA_ENTRY, VIEW_ENTRY, INDEX_ENTRY, PREPARED_STATEMENT, SEQUENCE_ENTRY,
     COLLATION_ENTRY, TYPE_ENTRY, DATABASE_ENTRY, COORDINATE_SYSTEM_ENTRY, MODEL_ENTRY, EMBEDDING_ENTRY,
     TABLE_FUNCTION_ENTRY, SCALAR_FUNCTION_ENTRY, AGGREGATE_FUNCTION_ENTRY, PRAGMA_FUNCTION_ENTRY,
     COPY_FUNCTION_ENTRY, MACRO_ENTRY, TABLE_MACRO_ENTRY, DELETED_ENTRY, RENAMED_ENTRY,
     SECRET_ENTRY, SECRET_TYPE_ENTRY, SECRET_FUNCTION_ENTRY, DEPENDENCY_ENTRY]"

definition read_catalog_type :: "byte list \<Rightarrow> (catalog_type \<times> byte list) res" where
  "read_catalog_type = read_enum catalog_type_code catalog_types"

fun conflict_code :: "on_conflict \<Rightarrow> byte" where
  "conflict_code ErrorOnConflict = 0"
| "conflict_code IgnoreOnConflict = 1"
| "conflict_code ReplaceOnConflict = 2"
| "conflict_code AlterOnConflict = 3"

definition read_conflict :: "byte list \<Rightarrow> (on_conflict \<times> byte list) res" where
  "read_conflict = read_enum conflict_code [ErrorOnConflict, IgnoreOnConflict, ReplaceOnConflict, AlterOnConflict]"

interpretation catalog_type: codec "\<lambda>t. encode_unsigned (catalog_type_code t)" read_catalog_type "\<lambda>t. t \<in> set catalog_types"
  unfolding read_catalog_type_def by (rule enum_codec) (simp add: catalog_types_def)

interpretation conflict: codec "\<lambda>t. encode_unsigned (conflict_code t)" read_conflict "\<lambda>_. True"
proof
  fix x s
  have "x \<in> set [ErrorOnConflict, IgnoreOnConflict, ReplaceOnConflict, AlterOnConflict]" by (cases x) simp_all
  then show "read_conflict (encode_unsigned (conflict_code x) @ s) = Inr (x, s)" unfolding read_conflict_def
    by (intro codec.read_write [OF enum_codec]) simp_all
qed

subsection \<open>The properties\<close>

definition write_base :: "wire \<Rightarrow> create_base \<Rightarrow> byte list res list" where
  "write_base w b =
     [write_property 100 (Inr (encode_unsigned (catalog_type_code (cb_type b)))),
      write_with_default 101 (cb_catalog b = []) (write_string (cb_catalog b)),
      write_with_default 102 (cb_schema b = []) (write_string (cb_schema b)),
      write_with_default 103 (cb_temporary b = False) (Inr (write_bool (cb_temporary b))),
      write_with_default 104 (cb_internal b = False) (Inr (write_bool (cb_internal b))),
      write_property 105 (Inr (encode_unsigned (conflict_code (cb_conflict b)))),
      write_with_default 106 (cb_sql b = []) (write_string (cb_sql b)),
      write_with_default 107 (cb_comment b = None) (w_comment w (cb_comment b)),
      write_with_default 108 (cb_tags b = []) (w_tags w (cb_tags b)),
      if with_dependencies w then write_with_default 109 (cb_dependencies b = []) (w_dependencies w (cb_dependencies b))
      else Inr []]"

definition read_base :: "wire \<Rightarrow> deserializer \<Rightarrow> (create_base \<times> deserializer) res" where
  "read_base w s =
     bindR (read_property 100 read_catalog_type s) (\<lambda>(ty, s).
     bindR (read_with_default 101 [] read_string s) (\<lambda>(cat, s).
     bindR (read_with_default 102 [] read_string s) (\<lambda>(sch, s).
     bindR (read_with_default 103 False read_bool s) (\<lambda>(tmp, s).
     bindR (read_with_default 104 False read_bool s) (\<lambda>(int, s).
     bindR (read_property 105 read_conflict s) (\<lambda>(conf, s).
     bindR (read_with_default 106 [] read_string s) (\<lambda>(sql, s).
     bindR (read_with_default 107 None (r_comment w) s) (\<lambda>(comment, s).
     bindR (read_with_default 108 [] (r_tags w) s) (\<lambda>(tags, s).
     mapR (\<lambda>(deps, s). (\<lparr>cb_type = ty, cb_catalog = cat, cb_schema = sch, cb_temporary = tmp, cb_internal = int,
         cb_conflict = conf, cb_sql = sql, cb_comment = comment, cb_tags = tags, cb_dependencies = deps\<rparr>, s))
       (read_with_default 109 [] (r_dependencies w) s))))))))))"

definition write_embedding :: "string \<Rightarrow> embedding_data \<Rightarrow> byte list res list" where
  "write_embedding name e =
     [write_with_default 200 (name = []) (write_string name),
      write_with_default 201 (em_table e = []) (write_string (em_table e)),
      write_with_default 202 (em_column e = []) (write_string (em_column e)),
      write_with_default 203 (em_model_catalog e = []) (write_string (em_model_catalog e)),
      write_with_default 204 (em_model_schema e = []) (write_string (em_model_schema e)),
      write_with_default 205 (em_model_name e = []) (write_string (em_model_name e)),
      write_with_default 206 (em_size e = 0) (Inr (encode_signed (em_size e)))]"

definition read_embedding :: "deserializer \<Rightarrow> ((string \<times> embedding_data) \<times> deserializer) res" where
  "read_embedding s =
     bindR (read_with_default 200 [] read_string s) (\<lambda>(name, s).
     bindR (read_with_default 201 [] read_string s) (\<lambda>(tab, s).
     bindR (read_with_default 202 [] read_string s) (\<lambda>(col, s).
     bindR (read_with_default 203 [] read_string s) (\<lambda>(mcat, s).
     bindR (read_with_default 204 [] read_string s) (\<lambda>(msch, s).
     bindR (read_with_default 205 [] read_string s) (\<lambda>(mname, s).
     mapR (\<lambda>(sz, s). ((name, \<lparr>em_table = tab, em_column = col, em_model_catalog = mcat, em_model_schema = msch,
         em_model_name = mname, em_size = sz\<rparr>), s))
       (read_with_default 206 0 read_signed32 s)))))))"

fun write_create_info :: "wire \<Rightarrow> create_info \<Rightarrow> byte list res list" where
  "write_create_info w (ModelInfo b n d) = write_base w b @ write_model (w_type w) (w_options w) n d"
| "write_create_info w (EmbeddingInfo b n e) = write_base w b @ write_embedding n e"

text \<open>\<open>CreateInfo::Deserialize\<close> dispatches on the type; the statements of the other types are not modelled.\<close>

definition read_create_info :: "wire \<Rightarrow> deserializer \<Rightarrow> (create_info \<times> deserializer) res" where
  "read_create_info w s = bindR (read_base w s) (\<lambda>(b, s).
     case cb_type b of
       MODEL_ENTRY \<Rightarrow> mapR (\<lambda>((n, d), s). (ModelInfo b n d, s)) (read_model (r_type w) (r_options w) s)
     | EMBEDDING_ENTRY \<Rightarrow> mapR (\<lambda>((n, e), s). (EmbeddingInfo b n e, s)) (read_embedding s)
     | t \<Rightarrow> if t \<in> {INDEX_ENTRY, MACRO_ENTRY, SCHEMA_ENTRY, SEQUENCE_ENTRY, TABLE_ENTRY, TABLE_MACRO_ENTRY, TYPE_ENTRY, VIEW_ENTRY}
         then Inl (Undefined ''statement of another type'')
         else Inl (SerializationException ''Unsupported type for deserialization of CreateInfo!''))"

text \<open>A pointer: a byte that says whether an object follows.\<close>

definition write_pointer :: "('a \<Rightarrow> byte list res) \<Rightarrow> 'a option \<Rightarrow> byte list res" where
  "write_pointer wr p = (case p of None \<Rightarrow> Inr (write_bool False) | Some x \<Rightarrow> mapR (\<lambda>bs. write_bool True @ bs) (wr x))"

definition read_object :: "(deserializer \<Rightarrow> ('a \<times> deserializer) res) \<Rightarrow> byte list \<Rightarrow> ('a \<times> byte list) res" where
  "read_object rd s = bindR (rd \<lparr>stream = s, buffered = None\<rparr>) (\<lambda>(x, st). mapR (\<lambda>st'. (x, stream st')) (object_end st))"

definition read_pointer :: "(byte list \<Rightarrow> ('a \<times> byte list) res) \<Rightarrow> byte list \<Rightarrow> ('a option \<times> byte list) res" where
  "read_pointer rd s = bindR (read_bool s) (\<lambda>(present, r).
     if present then mapR (\<lambda>(x, r'). (Some x, r')) (rd r) else Inr (None, r))"

subsection \<open>Reading back\<close>

lemma enum_property:
  assumes "codec (\<lambda>x. encode_unsigned (code x :: byte)) rd valid" "valid x"
    and "write_property f (Inr (encode_unsigned (code x))) = Inr bs" "wf_deserializer d" "pending d = bs @ s" "f < 65536"
  shows "yields (read_property f rd d) x s"
  using assms(2-) by (intro codec.read_property_yields [OF assms(1)]) (auto simp: write_property_def)

lemma default_property:
  assumes "codec (\<lambda>x. projr (wr x)) rd (\<lambda>x. \<exists>bs. wr x = Inr bs)"
    and "write_with_default f (x = dflt) (wr x) = Inr bs" "wf_deserializer d" "pending d = bs @ s" "f < 65536" "starts_above f s"
  shows "yields (read_with_default f dflt rd d) x s"
  using write_with_default_bytes [OF assms(2)] assms(3-)
  by (intro codec.read_with_default_yields [OF assms(1)]) auto

lemma size_property:
  assumes "write_with_default f (x = 0) (Inr (encode_signed x)) = Inr bs" "wf_deserializer d" "pending d = bs @ s"
    "f < 65536" "starts_above f s" "in_int32 x"
  shows "yields (read_with_default f 0 read_signed32 d) x s"
  using write_with_default_bytes [OF assms(1)] assms(2-)
  by (intro i32.read_with_default_yields) auto

definition base_ok :: "wire \<Rightarrow> create_base \<Rightarrow> bool" where
  "base_ok w b \<longleftrightarrow> cb_type b \<in> set catalog_types \<and> (\<not> with_dependencies w \<longrightarrow> cb_dependencies b = [])"

lemma read_base_yields:
  assumes w: "wire_ok w" "base_ok w b" and wr: "traverse (\<lambda>p. p) (write_base w b) = Inr bss"
    and st: "wf_deserializer st" "pending st = concat bss @ s" "starts_above 109 s"
  shows "yields (read_base w st) b s"
proof -
  obtain b0 b1 b2 b3 b4 b5 b6 b7 b8 b9 where bss: "bss = [b0, b1, b2, b3, b4, b5, b6, b7, b8, b9]"
    and b: "write_property 100 (Inr (encode_unsigned (catalog_type_code (cb_type b)))) = Inr b0"
      "write_with_default 101 (cb_catalog b = []) (write_string (cb_catalog b)) = Inr b1"
      "write_with_default 102 (cb_schema b = []) (write_string (cb_schema b)) = Inr b2"
      "write_with_default 103 (cb_temporary b = False) (Inr (write_bool (cb_temporary b))) = Inr b3"
      "write_with_default 104 (cb_internal b = False) (Inr (write_bool (cb_internal b))) = Inr b4"
      "write_property 105 (Inr (encode_unsigned (conflict_code (cb_conflict b)))) = Inr b5"
      "write_with_default 106 (cb_sql b = []) (write_string (cb_sql b)) = Inr b6"
      "write_with_default 107 (cb_comment b = None) (w_comment w (cb_comment b)) = Inr b7"
      "write_with_default 108 (cb_tags b = []) (w_tags w (cb_tags b)) = Inr b8"
      "write_with_default 109 (cb_dependencies b = []) (w_dependencies w (cb_dependencies b)) = Inr b9"
    using wr w(2) unfolding write_base_def base_ok_def traverse_id_Cons traverse.simps(1)
    by (cases "with_dependencies w") (auto simp: write_with_default_def)
  have a8: "starts_above 108 (b9 @ s)" by (rule default_starts_above [OF b(10) _ _ st(3)]) simp_all
  have a7: "starts_above 107 (b8 @ b9 @ s)" by (rule default_starts_above [OF b(9) _ _ a8]) simp_all
  have a6: "starts_above 106 (b7 @ b8 @ b9 @ s)" by (rule default_starts_above [OF b(8) _ _ a7]) simp_all
  have a4: "starts_above 104 (b5 @ b6 @ b7 @ b8 @ b9 @ s)" by (rule property_starts_above [OF b(6)]) simp_all
  have a3: "starts_above 103 (b4 @ b5 @ b6 @ b7 @ b8 @ b9 @ s)" by (rule default_starts_above [OF b(5) _ _ a4]) simp_all
  have a2: "starts_above 102 (b3 @ b4 @ b5 @ b6 @ b7 @ b8 @ b9 @ s)" by (rule default_starts_above [OF b(4) _ _ a3]) simp_all
  have a1: "starts_above 101 (b2 @ b3 @ b4 @ b5 @ b6 @ b7 @ b8 @ b9 @ s)" by (rule default_starts_above [OF b(3) _ _ a2]) simp_all
  have ty: "cb_type b \<in> set catalog_types" using w(2) by (simp add: base_ok_def)
  note c = w(1) [unfolded wire_ok_def]
  note props = enum_property [OF catalog_type.codec_axioms ty b(1)]
    string_property [OF b(2) _ _ _ a1] string_property [OF b(3) _ _ _ a2]
    bool_property [OF b(4) _ _ _ a3] bool_property [OF b(5) _ _ _ a4]
    enum_property [OF conflict.codec_axioms TrueI b(6)]
    string_property [OF b(7) _ _ _ a6]
    default_property [OF c [THEN conjunct2, THEN conjunct2, THEN conjunct1] b(8) _ _ _ a7]
    default_property [OF c [THEN conjunct2, THEN conjunct2, THEN conjunct2, THEN conjunct1] b(9) _ _ _ a8]
    default_property [OF c [THEN conjunct2, THEN conjunct2, THEN conjunct2, THEN conjunct2] b(10) _ _ _ st(3)]
  have st': "pending st = b0 @ b1 @ b2 @ b3 @ b4 @ b5 @ b6 @ b7 @ b8 @ b9 @ s" using st(2) unfolding bss by simp
  show ?thesis unfolding read_base_def
    by (insert st(1) st', (rule yields_bind, rule props, assumption, assumption, simp, unfold prod.case)+,
      rule yields_map, rule props, assumption, assumption, simp, simp)
qed

lemma read_embedding_yields:
  assumes sz: "in_int32 (em_size e)" and wr: "traverse (\<lambda>p. p) (write_embedding n e) = Inr bss"
    and st: "wf_deserializer st" "pending st = concat bss @ write_field terminator @ s"
  shows "yields (read_embedding st) (n, e) (write_field terminator @ s)"
proof -
  obtain b0 b1 b2 b3 b4 b5 b6 where bss: "bss = [b0, b1, b2, b3, b4, b5, b6]"
    and b: "write_with_default 200 (n = []) (write_string n) = Inr b0"
      "write_with_default 201 (em_table e = []) (write_string (em_table e)) = Inr b1"
      "write_with_default 202 (em_column e = []) (write_string (em_column e)) = Inr b2"
      "write_with_default 203 (em_model_catalog e = []) (write_string (em_model_catalog e)) = Inr b3"
      "write_with_default 204 (em_model_schema e = []) (write_string (em_model_schema e)) = Inr b4"
      "write_with_default 205 (em_model_name e = []) (write_string (em_model_name e)) = Inr b5"
      "write_with_default 206 (em_size e = 0) (Inr (encode_signed (em_size e))) = Inr b6"
    using wr unfolding write_embedding_def traverse_id_Cons traverse.simps(1) by blast
  let ?t = "write_field terminator @ s"
  have a6: "starts_above 206 ?t" by (rule starts_above_terminator) simp
  have a5: "starts_above 205 (b6 @ ?t)" by (rule default_starts_above [OF b(7) _ _ a6]) simp_all
  have a4: "starts_above 204 (b5 @ b6 @ ?t)" by (rule default_starts_above [OF b(6) _ _ a5]) simp_all
  have a3: "starts_above 203 (b4 @ b5 @ b6 @ ?t)" by (rule default_starts_above [OF b(5) _ _ a4]) simp_all
  have a2: "starts_above 202 (b3 @ b4 @ b5 @ b6 @ ?t)" by (rule default_starts_above [OF b(4) _ _ a3]) simp_all
  have a1: "starts_above 201 (b2 @ b3 @ b4 @ b5 @ b6 @ ?t)" by (rule default_starts_above [OF b(3) _ _ a2]) simp_all
  have a0: "starts_above 200 (b1 @ b2 @ b3 @ b4 @ b5 @ b6 @ ?t)" by (rule default_starts_above [OF b(2) _ _ a1]) simp_all
  note props = string_property [OF b(1) _ _ _ a0] string_property [OF b(2) _ _ _ a1] string_property [OF b(3) _ _ _ a2]
    string_property [OF b(4) _ _ _ a3] string_property [OF b(5) _ _ _ a4] string_property [OF b(6) _ _ _ a5]
    size_property [OF b(7) _ _ _ a6 sz]
  have st': "pending st = b0 @ b1 @ b2 @ b3 @ b4 @ b5 @ b6 @ ?t" using st(2) unfolding bss by simp
  show ?thesis unfolding read_embedding_def
    by (insert st(1) st', (rule yields_bind, rule props, assumption, assumption, simp, unfold prod.case)+,
      rule yields_map, rule props, assumption, assumption, simp, simp)
qed

definition fields_above :: "nat \<Rightarrow> byte list res \<Rightarrow> bool" where
  "fields_above f p \<longleftrightarrow> (\<forall>b. p = Inr b \<longrightarrow> b = [] \<or> (\<exists>g r. b = write_field g @ r \<and> f < g \<and> g < 65536))"

lemma fields_above_property: "f < g \<Longrightarrow> g < 65536 \<Longrightarrow> fields_above f (write_property g v)"
  by (auto simp: fields_above_def write_property_def mapR_Inr_iff)

lemma fields_above_default: "f < g \<Longrightarrow> g < 65536 \<Longrightarrow> fields_above f (write_with_default g c v)"
  using fields_above_property [of f g v] by (simp add: write_with_default_def fields_above_def)

lemma starts_above_traverse:
  "traverse (\<lambda>p. p) ps = Inr bss \<Longrightarrow> list_all (fields_above f) ps \<Longrightarrow> starts_above f t \<Longrightarrow> starts_above f (concat bss @ t)"
proof (induction ps arbitrary: bss)
  case (Cons p ps)
  then obtain b bs where b: "p = Inr b" "traverse (\<lambda>p. p) ps = Inr bs" "bss = b # bs" unfolding traverse_id_Cons by blast
  then have rest: "starts_above f (concat bs @ t)" using Cons by simp
  have "b = [] \<or> (\<exists>g r. b = write_field g @ r \<and> f < g \<and> g < 65536)" using Cons.prems(2) b(1) by (simp add: fields_above_def)
  then show ?case
  proof (elim disjE exE conjE)
    fix g r assume "b = write_field g @ r" "f < g" "g < 65536"
    then show ?thesis unfolding b(3) starts_above_def by (intro exI [of _ g] exI [of _ "r @ concat bs @ t"]) simp
  qed (simp add: rest b(3))
qed simp

lemma model_starts_above:
  "traverse (\<lambda>p. p) (write_model wt wo n d) = Inr bss \<Longrightarrow> starts_above 109 t \<Longrightarrow> starts_above 109 (concat bss @ t)"
  by (erule starts_above_traverse) (simp_all add: write_model_def fields_above_default fields_above_property)

lemma embedding_starts_above:
  "traverse (\<lambda>p. p) (write_embedding n e) = Inr bss \<Longrightarrow> starts_above 109 t \<Longrightarrow> starts_above 109 (concat bss @ t)"
  by (erule starts_above_traverse) (simp_all add: write_embedding_def fields_above_default)

fun info_ok :: "wire \<Rightarrow> create_info \<Rightarrow> bool" where
  "info_ok w (ModelInfo b n d) \<longleftrightarrow> base_ok w b \<and> cb_type b = MODEL_ENTRY \<and> fits d"
| "info_ok w (EmbeddingInfo b n e) \<longleftrightarrow> base_ok w b \<and> cb_type b = EMBEDDING_ENTRY \<and> in_int32 (em_size e)"

lemma read_create_info_yields:
  assumes w: "wire_ok w" "info_ok w i" and wr: "traverse (\<lambda>p. p) (write_create_info w i) = Inr bss"
    and st: "wf_deserializer st" "pending st = concat bss @ write_field terminator @ s"
  shows "yields (read_create_info w st) i (write_field terminator @ s)"
proof (cases i)
  case (ModelInfo b n d)
  then have ok: "base_ok w b" "cb_type b = MODEL_ENTRY" "fits d" using w(2) by simp_all
  obtain bs ms where p: "traverse (\<lambda>p. p) (write_base w b) = Inr bs"
      "traverse (\<lambda>p. p) (write_model (w_type w) (w_options w) n d) = Inr ms" "bss = bs @ ms"
    using wr ModelInfo by (auto simp: traverse_append bindR_Inr_iff mapR_Inr_iff)
  have "yields (read_base w st) b (concat ms @ write_field terminator @ s)"
    using st p(3) by (intro read_base_yields [OF w(1) ok(1) p(1)] model_starts_above [OF p(2)] starts_above_terminator) simp_all
  then show ?thesis unfolding read_create_info_def
  proof (rule yields_bind)
    fix d' assume d': "wf_deserializer d'" "pending d' = concat ms @ write_field terminator @ s"
    have "yields (read_model (r_type w) (r_options w) d') (n, d) (write_field terminator @ s)"
      using w(1) d' unfolding wire_ok_def by (intro read_model_yields [OF _ _ ok(3) p(2)]) simp_all
    from yields_map [OF this, where f = "\<lambda>(n, d). ModelInfo b n d", OF refl]
    show "yields (case (b, d') of (b, s) \<Rightarrow> case cb_type b of
           MODEL_ENTRY \<Rightarrow> mapR (\<lambda>((n, d), s). (ModelInfo b n d, s)) (read_model (r_type w) (r_options w) s)
         | EMBEDDING_ENTRY \<Rightarrow> mapR (\<lambda>((n, e), s). (EmbeddingInfo b n e, s)) (read_embedding s)
         | t \<Rightarrow> if t \<in> {INDEX_ENTRY, MACRO_ENTRY, SCHEMA_ENTRY, SEQUENCE_ENTRY, TABLE_ENTRY, TABLE_MACRO_ENTRY, TYPE_ENTRY, VIEW_ENTRY}
             then Inl (Undefined ''statement of another type'')
             else Inl (SerializationException ''Unsupported type for deserialization of CreateInfo!'')) i (write_field terminator @ s)"
      by (simp add: ok(2) ModelInfo case_prod_unfold)
  qed
next
  case (EmbeddingInfo b n e)
  then have ok: "base_ok w b" "cb_type b = EMBEDDING_ENTRY" "in_int32 (em_size e)" using w(2) by simp_all
  obtain bs es where p: "traverse (\<lambda>p. p) (write_base w b) = Inr bs"
      "traverse (\<lambda>p. p) (write_embedding n e) = Inr es" "bss = bs @ es"
    using wr EmbeddingInfo by (auto simp: traverse_append bindR_Inr_iff mapR_Inr_iff)
  have "yields (read_base w st) b (concat es @ write_field terminator @ s)"
    using st p(3) by (intro read_base_yields [OF w(1) ok(1) p(1)] embedding_starts_above [OF p(2)] starts_above_terminator) simp_all
  then show ?thesis unfolding read_create_info_def
  proof (rule yields_bind)
    fix d' assume d': "wf_deserializer d'" "pending d' = concat es @ write_field terminator @ s"
    have "yields (read_embedding d') (n, e) (write_field terminator @ s)" by (rule read_embedding_yields [OF ok(3) p(2) d'])
    from yields_map [OF this, where f = "\<lambda>(n, e). EmbeddingInfo b n e", OF refl]
    show "yields (case (b, d') of (b, s) \<Rightarrow> case cb_type b of
           MODEL_ENTRY \<Rightarrow> mapR (\<lambda>((n, d), s). (ModelInfo b n d, s)) (read_model (r_type w) (r_options w) s)
         | EMBEDDING_ENTRY \<Rightarrow> mapR (\<lambda>((n, e), s). (EmbeddingInfo b n e, s)) (read_embedding s)
         | t \<Rightarrow> if t \<in> {INDEX_ENTRY, MACRO_ENTRY, SCHEMA_ENTRY, SEQUENCE_ENTRY, TABLE_ENTRY, TABLE_MACRO_ENTRY, TYPE_ENTRY, VIEW_ENTRY}
             then Inl (Undefined ''statement of another type'')
             else Inl (SerializationException ''Unsupported type for deserialization of CreateInfo!'')) i (write_field terminator @ s)"
      by (simp add: ok(2) EmbeddingInfo case_prod_unfold)
  qed
qed

lemma object_codec:
  assumes "\<And>x bss st s. valid x \<Longrightarrow> traverse (\<lambda>p. p) (wr x) = Inr bss \<Longrightarrow> wf_deserializer st \<Longrightarrow>
      pending st = concat bss @ write_field terminator @ s \<Longrightarrow> yields (rd st) x (write_field terminator @ s)"
  shows "codec (\<lambda>x. projr (write_object (wr x))) (read_object rd) (\<lambda>x. valid x \<and> (\<exists>bs. write_object (wr x) = Inr bs))"
proof
  fix x s
  assume x: "valid x \<and> (\<exists>bs. write_object (wr x) = Inr bs)"
  then obtain bss where b: "traverse (\<lambda>p. p) (wr x) = Inr bss" unfolding write_object_def mapR_Inr_iff by blast
  have "yields (rd \<lparr>stream = projr (write_object (wr x)) @ s, buffered = None\<rparr>) x (write_field terminator @ s)"
    using x by (intro assms b) (simp_all add: wf_deserializer_def pending_def write_object_def b)
  then obtain st where st: "rd \<lparr>stream = projr (write_object (wr x)) @ s, buffered = None\<rparr> = Inr (x, st)"
    "wf_deserializer st" "pending st = write_field terminator @ s" unfolding yields_def by blast
  then show "read_object rd (projr (write_object (wr x)) @ s) = Inr (x, s)"
    using object_end_pending [OF st(2,3)] by (simp add: read_object_def)
qed

lemma pointer_codec:
  assumes "codec (\<lambda>x. projr (wr x)) rd valid" "\<And>x. valid x \<Longrightarrow> \<exists>bs. wr x = Inr bs"
  shows "codec (\<lambda>p. projr (write_pointer wr p)) (read_pointer rd) (\<lambda>p. \<forall>x. p = Some x \<longrightarrow> valid x)"
proof
  fix p s
  assume p: "\<forall>x. p = Some x \<longrightarrow> valid x"
  show "read_pointer rd (projr (write_pointer wr p) @ s) = Inr (p, s)"
  proof (cases p)
    case (Some x)
    then obtain bs where "wr x = Inr bs" using assms(2) p by blast
    then show ?thesis using codec.read_write [OF assms(1), of x s] p Some
      by (simp add: write_pointer_def read_pointer_def bool.read_write)
  qed (simp add: write_pointer_def read_pointer_def bool.read_write)
qed

text \<open>C16: what \<open>CreateModelInfo::Serialize\<close> and \<open>CreateEmbeddingInfo::Serialize\<close> write, the common properties of
  the statement and then their own, byte for byte, is read back by \<open>CreateInfo::Deserialize\<close> as the same
  statement, and the bytes after the object are left: for every model and embedding whose serialization succeeds
  (no string of 2^32 bytes or more), given writers of types, options, comments, tags and dependencies that their
  readers invert. (Dependencies are only written for a version of the storage that has them.)\<close>
theorem model_serialization_roundtrip:
  assumes "wire_ok w" "info_ok w i" "write_object (write_create_info w i) = Inr bytes"
  shows "read_object (read_create_info w) (bytes @ s) = Inr (i, s)"
proof -
  have "codec (\<lambda>i. projr (write_object (write_create_info w i))) (read_object (read_create_info w))
      (\<lambda>i. info_ok w i \<and> (\<exists>bs. write_object (write_create_info w i) = Inr bs))"
    by (rule object_codec) (rule read_create_info_yields [OF assms(1)])
  from codec.read_write [OF this, of i s] show ?thesis using assms(2,3) by simp
qed

definition demo_wire :: wire where
  "demo_wire = \<lparr>w_type = demo_wt, r_type = demo_rt, w_options = demo_wo, r_options = demo_ro,
     w_comment = (\<lambda>c. if c = None then Inr [] else Inl (SerializationException ''comment'')), r_comment = (\<lambda>s. Inr (None, s)),
     w_tags = (\<lambda>ts. if ts = [] then Inr [] else Inl (SerializationException ''tags'')), r_tags = (\<lambda>s. Inr ([], s)),
     w_dependencies = (\<lambda>ds. if ds = [] then Inr [] else Inl (SerializationException ''dependencies'')), r_dependencies = (\<lambda>s. Inr ([], s)), with_dependencies = False\<rparr>"

lemma demo_wire_ok: "wire_ok demo_wire"
  unfolding wire_ok_def demo_wire_def wire.simps
  using demo_codecs by (auto simp: codec_def split: if_splits)

definition demo_base :: create_base where
  "demo_base = \<lparr>cb_type = MODEL_ENTRY, cb_catalog = ''db'', cb_schema = ''main'', cb_temporary = True, cb_internal = False,
     cb_conflict = ReplaceOnConflict, cb_sql = [], cb_comment = None, cb_tags = [], cb_dependencies = []\<rparr>"

lemma demo_info_written: "\<exists>bytes. write_object (write_create_info demo_wire (ModelInfo demo_base ''m'' demo_model)) = Inr bytes"
  by (simp add: write_object_def write_base_def write_model_def write_with_default_def write_property_def demo_model_def
      demo_base_def new_model_data_def write_string_def write_list_def demo_wt_def demo_wire_def)

theorem model_serialization_roundtrip_witness:
  "\<exists>bytes. write_object (write_create_info demo_wire (ModelInfo demo_base ''m'' demo_model)) = Inr bytes \<and>
    read_object (read_create_info demo_wire) (bytes @ [1, 2, 3]) = Inr (ModelInfo demo_base ''m'' demo_model, [1, 2, 3])"
proof -
  obtain bytes where "write_object (write_create_info demo_wire (ModelInfo demo_base ''m'' demo_model)) = Inr bytes"
    using demo_info_written by blast
  moreover have "info_ok demo_wire (ModelInfo demo_base ''m'' demo_model)"
    by (simp add: base_ok_def demo_base_def catalog_types_def fits_def demo_model_def new_model_data_def)
  ultimately show ?thesis using model_serialization_roundtrip [OF demo_wire_ok, of _ bytes "[1, 2, 3]"] by blast
qed

end
