(* ===== verification/Wal_Format.thy ===== *)
theory Wal_Format
  imports Create_Info
begin

section \<open>The records of the write-ahead log\<close>

text \<open>
  \<open>src/storage/write_ahead_log.cpp\<close> writes a record as an object whose first property is its type,
  wrapped in a frame: the size and a checksum (\<open>src/common/checksum.cpp\<close>), then the bytes. The file
  starts with an unframed record with the version and the identity of the database file.
  \<open>src/storage/wal_replay.cpp\<close> reads them back. The records modelled are those of models and embeddings
  with the version and the flush record; an encrypted log is not modelled.
\<close>

subsection \<open>Checksums and frames\<close>

definition load64 :: "byte list \<Rightarrow> 64 word" where
  "load64 bs = word_rcat (rev bs)"

definition block64 :: "byte list \<Rightarrow> nat \<Rightarrow> 64 word" where
  "block64 bs i = load64 (take 8 (drop (8 * i) bs))"

definition checksum_word :: "64 word \<Rightarrow> 64 word" where
  "checksum_word x = x * 0xbf58476d1ce4e5b9"

definition hash_m :: "64 word" where
  "hash_m = 0xc6a4a7935bd1e995"

definition hash_mix :: "64 word \<Rightarrow> 64 word" where
  "hash_mix h = h XOR drop_bit 47 h"

definition checksum_remainder :: "byte list \<Rightarrow> 64 word" where
  "checksum_remainder bs =
     (let len = length bs; n_blocks = len div 8;
          h = 0xe17a1465 XOR (word_of_nat len * hash_m);
          h = fold (\<lambda>i h. (h XOR (hash_mix (block64 bs i * hash_m) * hash_m)) * hash_m) [0..<n_blocks] h;
          tail = drop (8 * n_blocks) bs;
          h = fold (\<lambda>i h. h XOR push_bit (8 * i) (ucast (tail ! i))) (rev [0..<length tail]) h;
          h = (if tail = [] then h else h * hash_m)
      in hash_mix (hash_mix h * hash_m))"

definition checksum :: "byte list \<Rightarrow> 64 word" where
  "checksum bs =
     (let n = length bs div 8; r = fold (\<lambda>i r. r XOR checksum_word (block64 bs i)) [0..<n] 5381
      in if n * 8 < length bs then r XOR checksum_remainder (drop (8 * n) bs) else r)"

definition write_u64 :: "64 word \<Rightarrow> byte list" where
  "write_u64 w = map (\<lambda>i. ucast (drop_bit (8 * i) w)) [0..<8]"

definition read_u64 :: "byte list \<Rightarrow> (64 word \<times> byte list) res" where
  "read_u64 s = mapR (\<lambda>(bs, r). (load64 bs, r)) (read_data 8 s)"

definition frame :: "byte list \<Rightarrow> byte list" where
  "frame payload = write_u64 (word_of_nat (length payload)) @ write_u64 (checksum payload) @ payload"

text \<open>\<open>GetEntryDeserializer\<close> for version 2, with the size of the file. The sum of offset and size wraps; a
  size beyond the file that passes the test is an allocation that fails.\<close>

definition read_frame :: "nat \<Rightarrow> byte list \<Rightarrow> (byte list \<times> byte list) res" where
  "read_frame file_size s = bindR (read_u64 s) (\<lambda>(size, r). bindR (read_u64 r) (\<lambda>(stored, r).
     if word_of_nat file_size < word_of_nat (file_size - length r) + size
     then Inl (SerializationException ''Corrupt WAL file: entry size exceeded remaining data in file'')
     else if length r < unat size then Inl BadAlloc
     else bindR (read_data (unat size) r) (\<lambda>(payload, r).
       if stored \<noteq> checksum payload then Inl (IOException ''Corrupt WAL file: computed checksum does not match stored checksum'')
       else Inr (payload, r))))"

lemma length_write_u64 [simp]: "length (write_u64 w) = 8"
  by (simp add: write_u64_def)

lemma load_write_u64: "load64 (write_u64 w) = w"
proof (rule bit_word_eqI)
  fix n
  assume "n < LENGTH(64)"
  then have n: "n < 64" by simp
  then have d: "n div 8 < 8" "8 * (n div 8) + n mod 8 = n" by simp_all
  have h: "bit (horner_sum uint (2 ^ LENGTH(8)) (write_u64 w)) n \<longleftrightarrow>
      n div LENGTH(8) < length (write_u64 w) \<and> bit (write_u64 w ! (n div LENGTH(8))) (n mod LENGTH(8))"
    by (rule bit_horner_sum_uint_exp_iff)
  have "bit (load64 (write_u64 w)) n \<longleftrightarrow> bit (write_u64 w ! (n div 8)) (n mod 8)"
    using n d(1) h by (simp add: load64_def word_rcat_def bit_word_of_int_iff)
  also have "\<dots> \<longleftrightarrow> bit w n"
    using d by (simp add: write_u64_def bit_ucast_iff bit_drop_bit_eq del: upt_Suc)
  finally show "bit (load64 (write_u64 w)) n = bit w n" .
qed

interpretation raw64: codec write_u64 read_u64 "\<lambda>_. True"
proof
  fix w s
  have "read_data 8 (write_u64 w @ s) = Inr (write_u64 w, s)" using read_data_append [of "write_u64 w" s] by simp
  then show "read_u64 (write_u64 w @ s) = Inr (w, s)"
    by (simp add: read_u64_def load_write_u64)
qed

lemma length_frame: "length (frame payload) = 16 + length payload"
  by (simp add: frame_def)

lemma word64_le: "a \<le> b \<Longrightarrow> b < 2 ^ 64 \<Longrightarrow> (word_of_nat a :: 64 word) \<le> word_of_nat b"
  by (simp add: word_le_nat_alt unat_word_of_nat)

lemma word64_less: "a < b \<Longrightarrow> b < 2 ^ 64 \<Longrightarrow> (word_of_nat a :: 64 word) < word_of_nat b"
  by (simp add: word_less_nat_alt unat_word_of_nat)

lemma read_frame_frame:
  assumes "length (frame payload) + length s \<le> file_size" "file_size < 2 ^ 64"
  shows "read_frame file_size (frame payload @ s) = Inr (payload, s)"
proof -
  let ?off = "file_size - (length payload + length s)"
  have size: "unat (word_of_nat (length payload) :: 64 word) = length payload"
    using assms by (intro unat_word_of_nat) (simp add: length_frame)
  have "(word_of_nat ?off + word_of_nat (length payload) :: 64 word) = word_of_nat (?off + length payload)" by simp
  moreover have "?off + length payload = file_size - length s" using assms by (simp add: length_frame)
  moreover have "(word_of_nat (file_size - length s) :: 64 word) \<le> word_of_nat file_size"
    using assms(2) by (intro word64_le) simp_all
  ultimately have "\<not> (word_of_nat file_size :: 64 word) < word_of_nat ?off + word_of_nat (length payload)" by (metis not_less)
  then show ?thesis by (simp add: read_frame_def frame_def raw64.read_write size)
qed

definition is_serialization :: "exn \<Rightarrow> bool" where
  "is_serialization e \<longleftrightarrow> (case e of SerializationException _ \<Rightarrow> True | _ \<Rightarrow> False)"

lemma read_data_short: "length s < n \<Longrightarrow> \<exists>e. read_data n s = Inl e \<and> is_serialization e"
  by (simp add: read_data_def end_of_stream_def is_serialization_def)

text \<open>A frame that was cut off anywhere reads as a torn log.\<close>

lemma read_frame_torn:
  assumes "n < length (frame payload)" "n \<le> file_size" "file_size + length payload < 2 ^ 64"
  shows "\<exists>e. read_frame file_size (take n (frame payload)) = Inl e \<and> is_serialization e"
proof -
  let ?size = "write_u64 (word_of_nat (length payload))" and ?sum = "write_u64 (checksum payload)"
  consider "n < 8" | "8 \<le> n" "n < 16" | "16 \<le> n" by linarith
  then show ?thesis
  proof cases
    case 1
    then have "length (take n (frame payload)) < 8" by simp
    from read_data_short [OF this] show ?thesis by (auto simp: read_frame_def read_u64_def)
  next
    case 2
    then have t: "take n (frame payload) = ?size @ take (n - 8) ?sum" by (simp add: frame_def)
    have "\<exists>e. read_data 8 (take (n - 8) ?sum) = Inl e \<and> is_serialization e" by (rule read_data_short) (use 2 in simp)
    then show ?thesis unfolding t by (auto simp: read_frame_def raw64.read_write read_u64_def [of "take (n - 8) ?sum"])
  next
    case 3
    let ?r = "take (n - 16) payload"
    have t: "take n (frame payload) = ?size @ ?sum @ ?r" using 3 by (simp add: frame_def)
    have "length ?r < length payload" "length ?r \<le> file_size" using assms 3 by (simp_all add: length_frame)
    then have "file_size < file_size - length ?r + length payload" by linarith
    moreover have "file_size - length ?r + length payload < 2 ^ 64" using assms(3) by simp
    ultimately have "(word_of_nat file_size :: 64 word) < word_of_nat (file_size - length ?r + length payload)"
      by (rule word64_less)
    then show ?thesis unfolding t by (simp add: read_frame_def raw64.read_write is_serialization_def)
  qed
qed

subsection \<open>Records\<close>

datatype wal_type =
    INVALID_WAL | CREATE_TABLE | DROP_TABLE | CREATE_SCHEMA | DROP_SCHEMA | CREATE_VIEW | DROP_VIEW
  | CREATE_SEQUENCE | DROP_SEQUENCE | SEQUENCE_VALUE | CREATE_MACRO | DROP_MACRO | CREATE_TYPE 
  | DROP_TYPE | ALTER_INFO | CREATE_TABLE_MACRO | DROP_TABLE_MACRO | CREATE_INDEX | DROP_INDEX 
  | USE_TABLE | INSERT_TUPLE | DELETE_TUPLE | UPDATE_TUPLE | ROW_GROUP_DATA | CREATE_MODEL 
  | DROP_MODEL | CREATE_EMBEDDING | DROP_EMBEDDING | WAL_VERSION | CHECKPOINT | WAL_FLUSH

fun wal_type_code :: "wal_type \<Rightarrow> byte" where
  "wal_type_code INVALID_WAL = 0"
| "wal_type_code CREATE_TABLE = 1"
| "wal_type_code DROP_TABLE = 2"
| "wal_type_code CREATE_SCHEMA = 3"
| "wal_type_code DROP_SCHEMA = 4"
| "wal_type_code CREATE_VIEW = 5"
| "wal_type_code DROP_VIEW = 6"
| "wal_type_code CREATE_SEQUENCE = 8"
| "wal_type_code DROP_SEQUENCE = 9"
| "wal_type_code SEQUENCE_VALUE = 10"
| "wal_type_code CREATE_MACRO = 11"
| "wal_type_code DROP_MACRO = 12"
| "wal_type_code CREATE_TYPE = 13"
| "wal_type_code DROP_TYPE = 14"
| "wal_type_code ALTER_INFO = 20"
| "wal_type_code CREATE_TABLE_MACRO = 21"
| "wal_type_code DROP_TABLE_MACRO = 22"
| "wal_type_code CREATE_INDEX = 23"
| "wal_type_code DROP_INDEX = 24"
| "wal_type_code USE_TABLE = 25"
| "wal_type_code INSERT_TUPLE = 26"
| "wal_type_code DELETE_TUPLE = 27"
| "wal_type_code UPDATE_TUPLE = 28"
| "wal_type_code ROW_GROUP_DATA = 29"
| "wal_type_code CREATE_MODEL = 30"
| "wal_type_code DROP_MODEL = 31"
| "wal_type_code CREATE_EMBEDDING = 32"
| "wal_type_code DROP_EMBEDDING = 33"
| "wal_type_code WAL_VERSION = 98"
| "wal_type_code CHECKPOINT = 99"
| "wal_type_code WAL_FLUSH = 100"

definition wal_types :: "wal_type list" where
  "wal_types = [INVALID_WAL, CREATE_TABLE, DROP_TABLE, CREATE_SCHEMA, DROP_SCHEMA, CREATE_VIEW,
     DROP_VIEW, CREATE_SEQUENCE, DROP_SEQUENCE, SEQUENCE_VALUE, CREATE_MACRO, DROP_MACRO,
     CREATE_TYPE, DROP_TYPE, ALTER_INFO, CREATE_TABLE_MACRO, DROP_TABLE_MACRO, CREATE_INDEX,
     DROP_INDEX, USE_TABLE, INSERT_TUPLE, DELETE_TUPLE, UPDATE_TUPLE, ROW_GROUP_DATA, CREATE_MODEL,
     DROP_MODEL, CREATE_EMBEDDING, DROP_EMBEDDING, WAL_VERSION, CHECKPOINT, WAL_FLUSH]"

text \<open>A version record has the version, the identity of the database file and its checkpoint iteration.\<close>

datatype wal_record =
    VersionRecord "64 word" "byte list" "64 word option"
  | CreateModelRecord "create_info option"
  | DropModelRecord string string
  | CreateEmbeddingRecord "create_info option"
  | DropEmbeddingRecord string string

definition write_type :: "wal_type \<Rightarrow> byte list res" where
  "write_type t = write_property 100 (Inr (encode_unsigned (wal_type_code t)))"

definition write_info :: "wire \<Rightarrow> create_info option \<Rightarrow> byte list res" where
  "write_info w = write_pointer (\<lambda>i. write_object (write_create_info w i))"

definition write_version_record :: "64 word \<Rightarrow> byte list \<Rightarrow> 64 word option \<Rightarrow> byte list res" where
  "write_version_record v identity iter = write_object
     ([write_type WAL_VERSION, write_property 101 (Inr (encode_unsigned v))] @
      (case iter of None \<Rightarrow> [] | Some n \<Rightarrow>
        [write_property 102 (write_list (\<lambda>b :: byte. Inr (encode_unsigned b)) identity),
         write_property 103 (Inr (encode_unsigned n))]))"

fun write_record :: "wire \<Rightarrow> wal_record \<Rightarrow> byte list res" where
  "write_record w (VersionRecord v identity iter) = write_version_record v identity iter"
| "write_record w (CreateModelRecord i) = write_object [write_type CREATE_MODEL, write_property 101 (write_info w i)]"
| "write_record w (DropModelRecord sch n) =
     write_object [write_type DROP_MODEL, write_property 101 (write_string sch), write_property 102 (write_string n)]"
| "write_record w (CreateEmbeddingRecord i) = write_object [write_type CREATE_EMBEDDING, write_property 101 (write_info w i)]"
| "write_record w (DropEmbeddingRecord sch n) =
     write_object [write_type DROP_EMBEDDING, write_property 101 (write_string sch), write_property 102 (write_string n)]"

definition flush_record :: "byte list res" where
  "flush_record = write_object [write_type WAL_FLUSH]"

definition read_type :: "deserializer \<Rightarrow> (byte \<times> deserializer) res" where
  "read_type d = read_property 100 read_varint d"

definition read_info :: "wire \<Rightarrow> byte list \<Rightarrow> (create_info option \<times> byte list) res" where
  "read_info w = read_pointer (read_object (read_create_info w))"

definition read_names :: "(string \<Rightarrow> string \<Rightarrow> wal_record) \<Rightarrow> deserializer \<Rightarrow> (wal_record \<times> deserializer) res" where
  "read_names mk d =
     bindR (read_property 101 read_string d) (\<lambda>(sch, d).
     mapR (\<lambda>(n, d). (mk sch n, d)) (read_property 102 read_string d))"

text \<open>The identity is read into 16 bytes; an index that is the invalid one counts as absent.\<close>

definition read_version :: "deserializer \<Rightarrow> (wal_record \<times> deserializer) res" where
  "read_version d =
     bindR (read_property 101 read_varint d) (\<lambda>(v, d).
     bindR (read_with_default 102 [] (read_list read_varint) d) (\<lambda>(identity, d).
       if 16 < length identity then Inl (Undefined ''write past db_identifier'')
       else mapR (\<lambda>(n, d). (VersionRecord v identity (if n = - 1 then None else Some n), d))
         (read_with_default 103 (- 1) read_varint d)))"

definition read_body :: "wire \<Rightarrow> byte \<Rightarrow> deserializer \<Rightarrow> (wal_record \<times> deserializer) res" where
  "read_body w code d =
     (case find (\<lambda>t. wal_type_code t = code) wal_types of
        None \<Rightarrow> Inl (InternalException ''Invalid WAL entry type!'')
      | Some t \<Rightarrow> (case t of
          WAL_VERSION \<Rightarrow> read_version d
        | CREATE_MODEL \<Rightarrow> mapR (\<lambda>(i, d). (CreateModelRecord i, d)) (read_property 101 (read_info w) d)
        | DROP_MODEL \<Rightarrow> read_names DropModelRecord d
        | CREATE_EMBEDDING \<Rightarrow> mapR (\<lambda>(i, d). (CreateEmbeddingRecord i, d)) (read_property 101 (read_info w) d)
        | DROP_EMBEDDING \<Rightarrow> read_names DropEmbeddingRecord d
        | INVALID_WAL \<Rightarrow> Inl (InternalException ''Invalid WAL entry type!'')
        | _ \<Rightarrow> Inl (Undefined ''record of another component'')))"

subsection \<open>Reading back\<close>

fun record_ok :: "wire \<Rightarrow> wal_record \<Rightarrow> bool" where
  "record_ok w (VersionRecord v identity iter) \<longleftrightarrow>
     length identity \<le> 16 \<and> iter \<noteq> Some (- 1) \<and> (iter = None \<longleftrightarrow> identity = [])"
| "record_ok w (CreateModelRecord i) \<longleftrightarrow> (\<forall>x. i = Some x \<longrightarrow> info_ok w x)"
| "record_ok w (CreateEmbeddingRecord i) \<longleftrightarrow> (\<forall>x. i = Some x \<longrightarrow> info_ok w x)"
| "record_ok w r \<longleftrightarrow> True"

lemma info_codec:
  assumes "wire_ok w"
  shows "codec (\<lambda>i. projr (write_info w i)) (read_info w)
    (\<lambda>i. \<forall>x. i = Some x \<longrightarrow> info_ok w x \<and> (\<exists>bs. write_object (write_create_info w x) = Inr bs))"
  unfolding write_info_def read_info_def
  by (rule pointer_codec [OF object_codec]) (use read_create_info_yields [OF assms] in blast)+

lemma write_info_ok: "write_info w (Some x) = Inr bs \<Longrightarrow> \<exists>bs. write_object (write_create_info w x) = Inr bs"
  by (auto simp: write_info_def write_pointer_def mapR_Inr_iff)

lemma property_bytes: "write_property f v = Inr bs \<Longrightarrow> bs = write_field f @ projr v \<and> (\<exists>y. v = Inr y)"
  by (auto simp: write_property_def mapR_Inr_iff)

lemma type_property:
  assumes "write_type t = Inr b" "wf_deserializer d" "pending d = b @ s"
  shows "yields (read_type d) (wal_type_code t) s"
  using property_bytes [OF assms(1) [unfolded write_type_def]] assms(2,3) unfolding read_type_def
  by (intro u8.read_property_yields) auto

lemma string_field:
  assumes "write_property f (write_string x) = Inr b" "wf_deserializer d" "pending d = b @ s" "f < 65536"
  shows "yields (read_property f read_string d) x s"
  using property_bytes [OF assms(1)] assms(2-) write_string_length
  by (intro string.read_property_yields) auto

lemma info_field:
  assumes "wire_ok w" "write_property f (write_info w i) = Inr b" "wf_deserializer d" "pending d = b @ s" "f < 65536"
    "\<forall>x. i = Some x \<longrightarrow> info_ok w x"
  shows "yields (read_property f (read_info w) d) i s"
  using property_bytes [OF assms(2)] assms(3-) write_info_ok
  by (intro codec.read_property_yields [OF info_codec [OF assms(1)]]) auto

lemma names_field:
  assumes "write_property 101 (write_string sch) = Inr b" "write_property 102 (write_string n) = Inr c"
    and "wf_deserializer d" "pending d = b @ c @ s"
  shows "yields (read_names mk d) (mk sch n) s"
  unfolding read_names_def
  by (rule yields_bind [OF string_field [OF assms(1,3,4)]], simp, unfold prod.case,
    rule yields_map [OF string_field [OF assms(2)]]) simp_all

interpretation identity: codec "\<lambda>xs. projr (write_list (\<lambda>b :: byte. Inr (encode_unsigned b)) xs)" "read_list read_varint"
  "\<lambda>xs. length xs < 2 ^ 64 \<and> (\<forall>x \<in> set xs. True)"
  by (rule list_codec) (simp_all add: u8.codec_axioms)

lemma find_type: "find (\<lambda>t'. wal_type_code t' = wal_type_code t) wal_types = Some t"
proof -
  have "inj_on wal_type_code (set wal_types)" by (simp add: wal_types_def)
  moreover have "t \<in> set wal_types" by (cases t) (simp_all add: wal_types_def)
  ultimately show ?thesis by (rule find_code)
qed

lemma read_body_code:
  "read_body w (wal_type_code t) d = (case t of
      WAL_VERSION \<Rightarrow> read_version d
    | CREATE_MODEL \<Rightarrow> mapR (\<lambda>(i, d). (CreateModelRecord i, d)) (read_property 101 (read_info w) d)
    | DROP_MODEL \<Rightarrow> read_names DropModelRecord d
    | CREATE_EMBEDDING \<Rightarrow> mapR (\<lambda>(i, d). (CreateEmbeddingRecord i, d)) (read_property 101 (read_info w) d)
    | DROP_EMBEDDING \<Rightarrow> read_names DropEmbeddingRecord d
    | INVALID_WAL \<Rightarrow> Inl (InternalException ''Invalid WAL entry type!'')
    | _ \<Rightarrow> Inl (Undefined ''record of another component''))"
  by (simp only: read_body_def find_type option.case)

lemma version_field:
  assumes "length identity \<le> 16" "iter \<noteq> Some (- 1)" "iter = None \<longleftrightarrow> identity = []"
    and "traverse (\<lambda>p. p) (write_property 101 (Inr (encode_unsigned v)) # (case iter of None \<Rightarrow> [] | Some n \<Rightarrow>
        [write_property 102 (write_list (\<lambda>b :: byte. Inr (encode_unsigned b)) identity),
         write_property 103 (Inr (encode_unsigned n))])) = Inr bss"
    and "wf_deserializer d" "pending d = concat bss @ write_field terminator @ s"
  shows "yields (read_version d) (VersionRecord v identity iter) (write_field terminator @ s)"
proof -
  let ?t = "write_field terminator @ s"
  obtain b0 bs where b0: "bss = b0 # bs" "write_property 101 (Inr (encode_unsigned v)) = Inr b0"
    and bs: "traverse (\<lambda>p. p) (case iter of None \<Rightarrow> [] | Some n \<Rightarrow>
        [write_property 102 (write_list (\<lambda>b :: byte. Inr (encode_unsigned b)) identity),
         write_property 103 (Inr (encode_unsigned n))]) = Inr bs"
    using assms(4) unfolding traverse_id_Cons by blast
  have v: "yields (read_property 101 read_varint d) v (concat bs @ ?t)"
    using property_bytes [OF b0(2)] assms(5,6) b0(1) by (intro u64.read_property_yields) auto
  have a: "starts_above 102 ?t" "starts_above 103 ?t" by (rule starts_above_terminator; simp)+
  show ?thesis
  proof (cases iter)
    case None
    then have e: "bs = []" "identity = []" using bs assms(3) by simp_all
    show ?thesis unfolding read_version_def
    proof (rule yields_bind [OF v], unfold prod.case)
      fix d1 assume d1: "wf_deserializer d1" "pending d1 = concat bs @ ?t"
      have "yields (read_with_default 102 [] (read_list read_varint) d1) ([] :: byte list) ?t"
        using d1 e a(1) by (intro identity.read_with_default_yields) simp_all
      then show "yields (bindR (read_with_default 102 [] (read_list read_varint) d1) (\<lambda>(identity, d).
         if 16 < length identity then Inl (Undefined ''write past db_identifier'')
         else mapR (\<lambda>(n, d). (VersionRecord v identity (if n = - 1 then None else Some n), d))
           (read_with_default 103 (- 1) read_varint d))) (VersionRecord v identity iter) ?t"
      proof (rule yields_bind, unfold prod.case)
        fix d2 assume d2: "wf_deserializer d2" "pending d2 = ?t"
        have "yields (read_with_default 103 (- 1) read_varint d2) (- 1 :: 64 word) ?t"
          using d2 a(2) by (intro u64.read_with_default_yields) simp_all
        then have "yields (mapR (\<lambda>(n, d). (VersionRecord v [] (if n = - 1 then None else Some n), d))
           (read_with_default 103 (- 1) read_varint d2)) (VersionRecord v identity iter) ?t"
          by (rule yields_map) (simp add: None e)
        then show "yields (if 16 < length ([] :: byte list) then Inl (Undefined ''write past db_identifier'')
         else mapR (\<lambda>(n, d). (VersionRecord v [] (if n = - 1 then None else Some n), d))
           (read_with_default 103 (- 1) read_varint d2)) (VersionRecord v identity iter) ?t" by simp
      qed
    qed
  next
    case (Some n)
    then obtain b1 b2 where b: "bs = [b1, b2]" "write_property 102 (write_list (\<lambda>b :: byte. Inr (encode_unsigned b)) identity) = Inr b1"
        "write_property 103 (Inr (encode_unsigned n)) = Inr b2"
      using bs by (auto simp: Some bindR_Inr_iff mapR_Inr_iff)
    have n: "n \<noteq> - 1" "identity \<noteq> []" using assms(2,3) Some by auto
    show ?thesis unfolding read_version_def
    proof (rule yields_bind [OF v], unfold prod.case)
      fix d1 assume d1: "wf_deserializer d1" "pending d1 = concat bs @ ?t"
      have "yields (read_with_default 102 [] (read_list read_varint) d1) identity (b2 @ ?t)"
        using d1 b(1) property_bytes [OF b(2)] assms(1) n(2) property_starts_above [OF b(3), of 102 ?t]
        by (intro identity.read_with_default_yields) auto
      then show "yields (bindR (read_with_default 102 [] (read_list read_varint) d1) (\<lambda>(identity, d).
         if 16 < length identity then Inl (Undefined ''write past db_identifier'')
         else mapR (\<lambda>(n, d). (VersionRecord v identity (if n = - 1 then None else Some n), d))
           (read_with_default 103 (- 1) read_varint d))) (VersionRecord v identity iter) ?t"
      proof (rule yields_bind, unfold prod.case)
        fix d2 assume d2: "wf_deserializer d2" "pending d2 = b2 @ ?t"
        have "yields (read_with_default 103 (- 1) read_varint d2) n ?t"
          using d2 property_bytes [OF b(3)] a(2) n(1) by (intro u64.read_with_default_yields) auto
        then have "yields (mapR (\<lambda>(n, d). (VersionRecord v identity (if n = - 1 then None else Some n), d))
           (read_with_default 103 (- 1) read_varint d2)) (VersionRecord v identity iter) ?t"
          by (rule yields_map) (simp add: Some n)
        then show "yields (if 16 < length identity then Inl (Undefined ''write past db_identifier'')
         else mapR (\<lambda>(n, d). (VersionRecord v identity (if n = - 1 then None else Some n), d))
           (read_with_default 103 (- 1) read_varint d2)) (VersionRecord v identity iter) ?t" using assms(1) by simp
      qed
    qed
  qed
qed

lemma write_object_Cons:
  "write_object (p # ps) = Inr bs \<longleftrightarrow> (\<exists>b bss. p = Inr b \<and> traverse (\<lambda>p. p) ps = Inr bss \<and> bs = b @ concat bss @ write_field terminator)"
  by (auto simp: write_object_def mapR_Inr_iff bindR_Inr_iff)

text \<open>A record that was written is read back, up to the end of its object.\<close>

lemma record_yields:
  assumes "wire_ok w" "record_ok w r" "write_record w r = Inr bs" "wf_deserializer d" "pending d = bs @ s"
  shows "\<exists>c d'. read_type d = Inr (c, d') \<and> c \<noteq> wal_type_code WAL_FLUSH \<and> yields (read_body w c d') r (write_field terminator @ s)"
proof -
  obtain t b ps bss where p: "write_type t = Inr b" "traverse (\<lambda>p. p) ps = Inr bss" "bs = b @ concat bss @ write_field terminator"
    and wr: "write_record w r = write_object (write_type t # ps)" and t: "t = (case r of VersionRecord _ _ _ \<Rightarrow> WAL_VERSION
      | CreateModelRecord _ \<Rightarrow> CREATE_MODEL | DropModelRecord _ _ \<Rightarrow> DROP_MODEL
      | CreateEmbeddingRecord _ \<Rightarrow> CREATE_EMBEDDING | DropEmbeddingRecord _ _ \<Rightarrow> DROP_EMBEDDING)"
    and ps: "ps = (case r of VersionRecord v identity iter \<Rightarrow> write_property 101 (Inr (encode_unsigned v)) # (case iter of None \<Rightarrow> [] | Some n \<Rightarrow>
        [write_property 102 (write_list (\<lambda>b :: byte. Inr (encode_unsigned b)) identity), write_property 103 (Inr (encode_unsigned n))])
      | CreateModelRecord i \<Rightarrow> [write_property 101 (write_info w i)]
      | CreateEmbeddingRecord i \<Rightarrow> [write_property 101 (write_info w i)]
      | DropModelRecord sch n \<Rightarrow> [write_property 101 (write_string sch), write_property 102 (write_string n)]
      | DropEmbeddingRecord sch n \<Rightarrow> [write_property 101 (write_string sch), write_property 102 (write_string n)])"
    using assms(3) by (cases r) (auto simp: write_object_Cons write_version_record_def)
  obtain d' where d': "read_type d = Inr (wal_type_code t, d')" "wf_deserializer d'" "pending d' = concat bss @ write_field terminator @ s"
    using type_property [OF p(1) assms(4), of "concat bss @ write_field terminator @ s"] assms(5) p(3) unfolding yields_def by auto
  have "yields (read_body w (wal_type_code t) d') r (write_field terminator @ s)"
  proof (cases r)
    case (VersionRecord v identity iter)
    then show ?thesis using assms(2) p(2) d'(2,3) unfolding t ps read_body_code
      by (simp only: wal_record.case wal_type.case record_ok.simps) (intro version_field; simp)
  next
    case (CreateModelRecord i)
    then obtain c where c: "write_property 101 (write_info w i) = Inr c" "bss = [c]"
      using p(2) ps by (auto simp: bindR_Inr_iff)
    have "yields (read_property 101 (read_info w) d') i (write_field terminator @ s)"
      using d'(2,3) c(2) assms(2) CreateModelRecord by (intro info_field [OF assms(1) c(1)]) simp_all
    from yields_map [OF this, where f = CreateModelRecord, OF refl] show ?thesis
      unfolding t read_body_code CreateModelRecord wal_record.case wal_type.case .
  next
    case (CreateEmbeddingRecord i)
    then obtain c where c: "write_property 101 (write_info w i) = Inr c" "bss = [c]"
      using p(2) ps by (auto simp: bindR_Inr_iff)
    have "yields (read_property 101 (read_info w) d') i (write_field terminator @ s)"
      using d'(2,3) c(2) assms(2) CreateEmbeddingRecord by (intro info_field [OF assms(1) c(1)]) simp_all
    from yields_map [OF this, where f = CreateEmbeddingRecord, OF refl] show ?thesis
      unfolding t read_body_code CreateEmbeddingRecord wal_record.case wal_type.case .
  next
    case (DropModelRecord sch n)
    then obtain c e where c: "write_property 101 (write_string sch) = Inr c" "write_property 102 (write_string n) = Inr e" "bss = [c, e]"
      using p(2) ps by (auto simp: bindR_Inr_iff mapR_Inr_iff)
    then show ?thesis using d'(2,3) unfolding t read_body_code DropModelRecord wal_record.case wal_type.case
      by (intro names_field [OF c(1,2)]) simp_all
  next
    case (DropEmbeddingRecord sch n)
    then obtain c e where c: "write_property 101 (write_string sch) = Inr c" "write_property 102 (write_string n) = Inr e" "bss = [c, e]"
      using p(2) ps by (auto simp: bindR_Inr_iff mapR_Inr_iff)
    then show ?thesis using d'(2,3) unfolding t read_body_code DropEmbeddingRecord wal_record.case wal_type.case
      by (intro names_field [OF c(1,2)]) simp_all
  qed
  moreover have "wal_type_code t \<noteq> wal_type_code WAL_FLUSH" by (cases r) (simp_all add: t)
  ultimately show ?thesis using d'(1) by blast
qed

lemma flush_yields:
  assumes "flush_record = Inr bs" "wf_deserializer d" "pending d = bs @ s"
  shows "yields (read_type d) (wal_type_code WAL_FLUSH) (write_field terminator @ s)"
proof -
  obtain b where b: "write_type WAL_FLUSH = Inr b" "bs = b @ write_field terminator"
    using assms(1) unfolding flush_record_def write_object_Cons by auto
  show ?thesis by (rule type_property [OF b(1) assms(2)]) (simp add: assms(3) b(2))
qed

end
