(* ===== verification/Wal_Replay.thy ===== *)
theory Wal_Replay
  imports Wal_Format
begin

section \<open>Replaying the write-ahead log\<close>

text \<open>
  \<open>WriteAheadLogReplayer::ReplayLog\<close> (\<open>src/storage/wal_replay.cpp\<close>) reads the file twice: first without
  effect, to find markers of checkpoints and logs of another database, then applying the records of each
  transaction and committing at each flush record. A serialization error is taken for the torn end of
  the file. What the records act on is a parameter with the operations the replay calls (\<open>target\<close>);
  locale \<open>replay_target\<close> states what a replay relies on. Logs with checkpoint markers, encrypted logs
  and the records of other objects are not modelled.
\<close>

subsection \<open>Reading from a longer stream\<close>

text \<open>A reader either runs out of bytes, or does not notice that the stream goes on.\<close>

definition local_bytes :: "(byte list \<Rightarrow> ('a \<times> byte list) res) \<Rightarrow> bool" where
  "local_bytes rd \<longleftrightarrow> (\<forall>s t. (\<exists>e. rd s = Inl e \<and> is_serialization e) \<or> rd (s @ t) = mapR (\<lambda>(x, r). (x, r @ t)) (rd s))"

definition longer :: "byte list \<Rightarrow> deserializer \<Rightarrow> deserializer" where
  "longer t d = d\<lparr>stream := stream d @ t\<rparr>"

definition local_reader :: "(deserializer \<Rightarrow> ('a \<times> deserializer) res) \<Rightarrow> bool" where
  "local_reader m \<longleftrightarrow> (\<forall>d t. (\<exists>e. m d = Inl e \<and> is_serialization e) \<or>
     m (longer t d) = mapR (\<lambda>(x, d'). (x, longer t d')) (m d))"

lemma local_bytesD: "local_bytes rd \<Longrightarrow> (\<exists>e. rd s = Inl e \<and> is_serialization e) \<or> rd (s @ t) = mapR (\<lambda>(x, r). (x, r @ t)) (rd s)"
  unfolding local_bytes_def by blast

lemma local_readerD: "local_reader m \<Longrightarrow> (\<exists>e. m d = Inl e \<and> is_serialization e) \<or> m (longer t d) = mapR (\<lambda>(x, d'). (x, longer t d')) (m d)"
  unfolding local_reader_def by blast

lemma map_as_bind: "mapR f r = bindR r (\<lambda>x. Inr (f x))"
  by (cases r) simp_all

lemma local_bytes_bind:
  assumes "local_bytes rd" "\<And>x. local_bytes (\<lambda>r. k (x, r))"
  shows "local_bytes (\<lambda>s. bindR (rd s) k)"
  unfolding local_bytes_def
proof (intro allI)
  fix s t
  show "(\<exists>e. bindR (rd s) k = Inl e \<and> is_serialization e) \<or> bindR (rd (s @ t)) k = mapR (\<lambda>(x, r). (x, r @ t)) (bindR (rd s) k)"
  proof (cases "rd s")
    case (Inl e)
    then show ?thesis using local_bytesD [OF assms(1), of s t] by auto
  next
    case (Inr p)
    obtain x r where p: "p = (x, r)" by (cases p)
    then have "rd (s @ t) = Inr (x, r @ t)" using local_bytesD [OF assms(1), of s t] Inr by auto
    then show ?thesis using Inr p local_bytesD [OF assms(2) [of x], of r t] by simp
  qed
qed

lemma local_bytes_Inr: "local_bytes (\<lambda>r. Inr (x, r))"
  by (simp add: local_bytes_def)

lemma local_bytes_Inl: "local_bytes (\<lambda>r. Inl e)"
  by (simp add: local_bytes_def)

lemma local_bytes_map: "local_bytes rd \<Longrightarrow> local_bytes (\<lambda>s. mapR (\<lambda>(x, r). (f x, r)) (rd s))"
  unfolding map_as_bind by (rule local_bytes_bind) (simp_all add: local_bytes_Inr)

lemma local_read_data: "local_bytes (read_data n)"
  unfolding local_bytes_def
proof (intro allI)
  fix s t
  show "(\<exists>e. read_data n s = Inl e \<and> is_serialization e) \<or> read_data n (s @ t) = mapR (\<lambda>(x, r). (x, r @ t)) (read_data n s)"
    using read_data_short [of s n] by (cases "length s < n") (simp_all add: read_data_def)
qed

lemma local_varint_bytes: "local_bytes (varint_bytes k)"
proof (induction k)
  case (Suc k)
  show ?case unfolding varint_bytes.simps
  proof (rule local_bytes_bind [OF local_read_data], unfold prod.case)
    fix b :: "byte list"
    show "local_bytes (\<lambda>r. if hd b AND 128 = 0 then Inr (b, r) else mapR (\<lambda>(bs, r'). (b @ bs, r')) (varint_bytes k r))"
      using local_bytes_Inr [of b] local_bytes_map [OF Suc, of "\<lambda>bs. b @ bs"] by (cases "hd b AND 128 = 0") simp_all
  qed
qed (simp add: local_bytes_def)

lemma local_read_varint: "local_bytes (read_varint :: byte list \<Rightarrow> ('a::len word \<times> byte list) res)"
  unfolding read_varint_def
proof (rule local_bytes_bind [OF local_varint_bytes], unfold prod.case)
  fix bs :: "byte list"
  show "local_bytes (\<lambda>r. mapR (\<lambda>(v :: 'a word, _). (v, r)) (decode_unsigned 0 0 (bs @ replicate (16 - length bs) 0)))"
    by (cases "decode_unsigned 0 (0 :: 'a word) (bs @ replicate (16 - length bs) 0)")
       (simp_all add: local_bytes_def case_prod_unfold)
qed

lemma local_read_list:
  assumes "local_bytes rd"
  shows "local_bytes (read_list rd)"
proof -
  have "local_bytes (read_elements rd n)" for n
  proof (induction n)
    case (Suc n)
    have m: "local_bytes (\<lambda>r. mapR (\<lambda>(xs, r'). (x # xs, r')) (read_elements rd n r))" for x
      using local_bytes_map [OF Suc, of "\<lambda>xs. x # xs"] .
    show ?case unfolding read_elements.simps
      by (rule local_bytes_bind [OF assms], unfold prod.case) (rule m)
  qed (simp add: local_bytes_def)
  then show ?thesis unfolding read_list_def
    by (intro local_bytes_bind [OF local_read_varint]) simp
qed

lemma local_bind:
  assumes "local_reader m" "\<And>x. local_reader (\<lambda>d. k (x, d))"
  shows "local_reader (\<lambda>d. bindR (m d) k)"
  unfolding local_reader_def
proof (intro allI)
  fix d t
  show "(\<exists>e. bindR (m d) k = Inl e \<and> is_serialization e) \<or> bindR (m (longer t d)) k = mapR (\<lambda>(x, r). (x, longer t r)) (bindR (m d) k)"
  proof (cases "m d")
    case (Inl e)
    then show ?thesis using local_readerD [OF assms(1), of d t] by auto
  next
    case (Inr p)
    obtain x r where p: "p = (x, r)" by (cases p)
    then have "m (longer t d) = Inr (x, longer t r)" using local_readerD [OF assms(1), of d t] Inr by auto
    then show ?thesis using Inr p local_readerD [OF assms(2) [of x], of r t] by simp
  qed
qed

lemma local_return: "local_reader (\<lambda>d. Inr (x, d))" and local_throw: "local_reader (\<lambda>d. Inl e)"
  by (simp_all add: local_reader_def)

lemma local_map: "local_reader m \<Longrightarrow> local_reader (\<lambda>d. mapR (\<lambda>(x, r). (f x, r)) (m d))"
  unfolding map_as_bind by (rule local_bind) (simp_all add: local_return)

lemma local_read_field: "local_bytes read_field"
  unfolding read_field_def [abs_def] by (rule local_bytes_map [OF local_read_data])

lemma local_read_value: "local_bytes rd \<Longrightarrow> local_reader (read_value rd)"
  unfolding local_reader_def read_value_def longer_def
proof (intro allI)
  fix d t
  assume rd: "local_bytes rd"
  then have "(\<exists>e. rd (stream d) = Inl e \<and> is_serialization e) \<or> rd (stream d @ t) = mapR (\<lambda>(x, r). (x, r @ t)) (rd (stream d))"
    by (rule local_bytesD)
  then show "(\<exists>e. mapR (\<lambda>(x, r). (x, d\<lparr>stream := r\<rparr>)) (rd (stream d)) = Inl e \<and> is_serialization e) \<or>
      mapR (\<lambda>(x, r). (x, d\<lparr>stream := stream d @ t, stream := r\<rparr>)) (rd (stream (d\<lparr>stream := stream d @ t\<rparr>))) =
      mapR (\<lambda>(x, d'). (x, d'\<lparr>stream := stream d' @ t\<rparr>)) (mapR (\<lambda>(x, r). (x, d\<lparr>stream := r\<rparr>)) (rd (stream d)))"
    by (cases "rd (stream d)") auto
qed

lemma local_field:
  "local_reader next_field" "local_reader peek_field"
proof -
  have "local_reader next_field \<and> local_reader peek_field"
    unfolding local_reader_def
  proof (intro conjI allI)
    fix d t
    show "(\<exists>e. next_field d = Inl e \<and> is_serialization e) \<or> next_field (longer t d) = mapR (\<lambda>(x, d'). (x, longer t d')) (next_field d)"
      using local_bytesD [OF local_read_field, of "stream d" t]
      by (cases "buffered d"; cases "read_field (stream d)") (auto simp: next_field_def longer_def)
    show "(\<exists>e. peek_field d = Inl e \<and> is_serialization e) \<or> peek_field (longer t d) = mapR (\<lambda>(x, d'). (x, longer t d')) (peek_field d)"
      using local_bytesD [OF local_read_field, of "stream d" t]
      by (cases "buffered d"; cases "read_field (stream d)") (auto simp: peek_field_def longer_def)
  qed
  then show "local_reader next_field" "local_reader peek_field" by simp_all
qed

lemma local_if: "local_reader m \<Longrightarrow> local_reader n \<Longrightarrow> local_reader (\<lambda>d. if c then m d else n d)"
  by (cases c) simp_all

lemma local_read_property: "local_bytes rd \<Longrightarrow> local_reader (read_property f rd)"
  unfolding read_property_def [abs_def]
  by (rule local_bind [OF local_field(1)], unfold prod.case, rule local_if [OF local_throw local_read_value])

lemma local_unbuffered: "local_bytes rd \<Longrightarrow> local_reader (\<lambda>d. read_value rd (d\<lparr>buffered := None\<rparr>))"
  unfolding local_reader_def
proof (intro allI)
  fix d t
  assume "local_bytes rd"
  then show "(\<exists>e. read_value rd (d\<lparr>buffered := None\<rparr>) = Inl e \<and> is_serialization e) \<or>
      read_value rd (longer t d\<lparr>buffered := None\<rparr>) = mapR (\<lambda>(x, d'). (x, longer t d')) (read_value rd (d\<lparr>buffered := None\<rparr>))"
    using local_readerD [OF local_read_value, of rd "d\<lparr>buffered := None\<rparr>" t]
    by (cases d) (simp add: longer_def)
qed

lemma local_read_with_default: "local_bytes rd \<Longrightarrow> local_reader (read_with_default f x rd)"
  unfolding read_with_default_def [abs_def]
  by (rule local_bind [OF local_field(2)], unfold prod.case, rule local_if [OF local_unbuffered local_return])

lemma local_object_end: "local_reader (\<lambda>d. mapR (\<lambda>d'. ((), d')) (object_end d))"
proof -
  have "local_reader (\<lambda>d. bindR (next_field d) (\<lambda>(g, d'). if g \<noteq> terminator
      then Inl (SerializationException ''Failed to deserialize: expected end of object'') else Inr ((), d')))"
    by (rule local_bind [OF local_field(1)], unfold prod.case, rule local_if [OF local_throw local_return])
  moreover have "mapR (\<lambda>d'. ((), d')) (object_end d) = bindR (next_field d) (\<lambda>(g, d'). if g \<noteq> terminator
      then Inl (SerializationException ''Failed to deserialize: expected end of object'') else Inr ((), d'))" for d
    by (cases "next_field d") (auto simp: object_end_def)
  ultimately show ?thesis by simp
qed

lemma local_read_type: "local_reader read_type"
  unfolding read_type_def [abs_def] by (rule local_read_property [OF local_read_varint])

lemma local_read_version: "local_reader read_version"
  unfolding read_version_def [abs_def]
  by (rule local_bind [OF local_read_property [OF local_read_varint]], unfold prod.case,
      rule local_bind [OF local_read_with_default [OF local_read_list [OF local_read_varint]]], unfold prod.case,
      rule local_if [OF local_throw local_map [OF local_read_with_default [OF local_read_varint]]])

subsection \<open>One entry\<close>

record replay_env =
  own_identity :: "byte list"
  own_iteration :: "64 word"
  checkpoint_wal :: bool         \<comment> \<open>\<open>WALReplayState::CHECKPOINT_WAL\<close>\<close>
  abort_on_wal_failure :: bool

record replay =
  rp_version :: "64 word"
  rp_expected :: "64 word option"

definition new_replay :: replay where
  "new_replay = \<lparr>rp_version = 1, rp_expected = None\<rparr>"

definition version_error :: exn where
  "version_error = IOException ''the WAL checkpoint iteration does not match the database file''"

text \<open>\<open>ReplayVersion\<close>, after the record is read. An identity of fewer bytes leaves the buffer it is compared in
  uninitialised.\<close>

definition replay_version :: "replay_env \<Rightarrow> 64 word \<Rightarrow> byte list \<Rightarrow> 64 word option \<Rightarrow> replay \<Rightarrow> replay res" where
  "replay_version env v identity iter st =
     (let st = st\<lparr>rp_version := v\<rparr> in
      case iter of
        None \<Rightarrow> Inr st
      | Some n \<Rightarrow>
          if identity = [] then Inr st
          else if length identity < 16 then Inl (Undefined ''uninitialised db_identifier'')
          else if identity \<noteq> own_identity env then Inl (IOException ''WAL does not match database file.'')
          else if own_iteration env = n then Inr st
          else if n + 1 = own_iteration env then Inr (st\<lparr>rp_expected := Some (own_iteration env)\<rparr>)
          else if checkpoint_wal env \<and> n = own_iteration env + 1 then Inr st
          else Inl version_error)"

text \<open>What the records act on: the operations of a connection that the replay calls.\<close>

record 's target =
  begin_txn :: "'s \<Rightarrow> 's res"
  apply_record :: "wal_record \<Rightarrow> 's \<Rightarrow> 's res"
  commit_txn :: "'s \<Rightarrow> 's res"
  rollback_txn :: "'s \<Rightarrow> 's res"

text \<open>\<open>ReplayEntry\<close>: whether the record is a flush. The state is returned beside an error, because the first
  reading goes on with it; a record whose application fails leaves its traces to the rollback.\<close>

definition replay_record ::
    "replay_env \<Rightarrow> bool \<Rightarrow> 's target \<Rightarrow> wal_record \<Rightarrow> replay \<times> 's \<Rightarrow> (replay \<times> 's) \<times> unit res" where
  "replay_record env deserialize_only tgt r = (\<lambda>(st, s). case r of
      VersionRecord v identity iter \<Rightarrow>
        (case replay_version env v identity iter st of Inl e \<Rightarrow> ((st, s), Inl e) | Inr st' \<Rightarrow> ((st', s), Inr ()))
    | _ \<Rightarrow> if deserialize_only then ((st, s), Inr ())
           else (case apply_record tgt r s of Inl e \<Rightarrow> ((st, s), Inl e) | Inr s' \<Rightarrow> ((st, s'), Inr ())))"

definition replay_entry ::
    "replay_env \<Rightarrow> wire \<Rightarrow> bool \<Rightarrow> 's target \<Rightarrow> deserializer \<Rightarrow> replay \<times> 's \<Rightarrow> (replay \<times> 's) \<times> (bool \<times> deserializer) res" where
  "replay_entry env w deserialize_only tgt d q =
     (case read_type d of
        Inl e \<Rightarrow> (q, Inl e)
      | Inr (c, d) \<Rightarrow>
          if c = wal_type_code WAL_FLUSH then (q, mapR (Pair True) (object_end d))
          else (case read_body w c d of
              Inl e \<Rightarrow> (q, Inl e)
            | Inr (r, d) \<Rightarrow>
                (case replay_record env deserialize_only tgt r q of
                   (q', Inl e) \<Rightarrow> (q', Inl e)
                 | (q', Inr _) \<Rightarrow> (q', mapR (Pair False) (object_end d)))))"

text \<open>\<open>GetEntryDeserializer\<close> and the entry: what of the file is left after it.\<close>

definition replay_next ::
    "replay_env \<Rightarrow> wire \<Rightarrow> bool \<Rightarrow> 's target \<Rightarrow> nat \<Rightarrow> replay \<times> 's \<Rightarrow> byte list \<Rightarrow> (replay \<times> 's) \<times> (bool \<times> byte list) res" where
  "replay_next env w deserialize_only tgt file_size q s =
     (let v = rp_version (fst q) in
      if v = 1 then map_prod id (mapR (\<lambda>(fl, d). (fl, stream d)))
        (replay_entry env w deserialize_only tgt \<lparr>stream = s, buffered = None\<rparr> q)
      else if v = 2 then
        (case read_frame file_size s of
           Inl e \<Rightarrow> (q, Inl e)
         | Inr (payload, r) \<Rightarrow> map_prod id (mapR (\<lambda>(fl, _). (fl, r)))
             (replay_entry env w deserialize_only tgt \<lparr>stream = payload, buffered = None\<rparr> q))
      else if v = 3 then (q, Inl (Undefined ''encrypted log''))
      else (q, Inl (IOException ''Failed to read WAL: can only read version 1, 2 and 3 (encrypted)'')))"

subsection \<open>The two readings\<close>

partial_function (option) scan_log ::
    "replay_env \<Rightarrow> wire \<Rightarrow> 's target \<Rightarrow> nat \<Rightarrow> replay \<times> 's \<Rightarrow> byte list \<Rightarrow> (replay \<times> unit res) option" where
  "scan_log env w tgt file_size q s =
     (case replay_next env w True tgt file_size q s of
        (q', Inl e) \<Rightarrow> Some (fst q', Inl e)
      | (q', Inr (flushed, r)) \<Rightarrow>
          if flushed \<and> r = [] then Some (fst q', Inr ()) else scan_log env w tgt file_size q' r)"

text \<open>The state, the offset after the last commit, and how the reading ended.\<close>

partial_function (option) redo_log ::
    "replay_env \<Rightarrow> wire \<Rightarrow> 's target \<Rightarrow> nat \<Rightarrow> replay \<times> 's \<Rightarrow> nat \<Rightarrow> byte list \<Rightarrow> ('s \<times> nat \<times> unit res) option" where
  "redo_log env w tgt file_size q off s =
     (case replay_next env w False tgt file_size q s of
        (q', Inl e) \<Rightarrow> Some (snd q', off, Inl e)
      | (q', Inr (flushed, r)) \<Rightarrow>
          if \<not> flushed then redo_log env w tgt file_size q' off r
          else (case commit_txn tgt (snd q') of
              Inl e \<Rightarrow> Some (snd q', off, Inl e)
            | Inr s1 \<Rightarrow>
                if r = [] then Some (s1, file_size - length r, Inr ())
                else (case begin_txn tgt s1 of
                    Inl e \<Rightarrow> Some (s1, file_size - length r, Inl e)
                  | Inr s2 \<Rightarrow> redo_log env w tgt file_size (fst q', s2) (file_size - length r) r)))"

text \<open>\<open>ReplayLog\<close>: the state, and for a log that is kept its valid length and whether all of it was read.
  \<open>None\<close> is an empty file.\<close>

definition second_reading ::
    "replay_env \<Rightarrow> wire \<Rightarrow> 's target \<Rightarrow> byte list \<Rightarrow> replay \<Rightarrow> 's \<Rightarrow> ('s \<times> (nat \<times> bool) option) res option" where
  "second_reading env w tgt file st s =
     (if rp_expected st \<noteq> None then Some (Inl version_error)
      else case redo_log env w tgt (length file) (new_replay, s) 0 file of
        None \<Rightarrow> None
      | Some (s1, off, Inr _) \<Rightarrow> Some (Inr (s1, Some (off, True)))
      | Some (s1, off, Inl e) \<Rightarrow>
          (let s2 = (case rollback_txn tgt s1 of Inl _ \<Rightarrow> s1 | Inr s2 \<Rightarrow> s2) in
           if abort_on_wal_failure env \<or> \<not> is_serialization e then Some (Inl e)
           else Some (Inr (s2, Some (off, False)))))"

definition replay_log ::
    "replay_env \<Rightarrow> wire \<Rightarrow> 's target \<Rightarrow> byte list \<Rightarrow> 's \<Rightarrow> ('s \<times> (nat \<times> bool) option) res option" where
  "replay_log env w tgt file s =
     (if file = [] then Some (Inr (s, None))
      else case begin_txn tgt s of
        Inl e \<Rightarrow> Some (Inl e)
      | Inr s1 \<Rightarrow>
          (case scan_log env w tgt (length file) (new_replay, s1) file of
             None \<Rightarrow> None
           | Some (st, Inl e) \<Rightarrow> if is_serialization e then second_reading env w tgt file st s1 else Some (Inl e)
           | Some (st, Inr _) \<Rightarrow> second_reading env w tgt file st s1))"

subsection \<open>Entries that were written\<close>

lemma object_end_yields: "yields r x (write_field terminator @ s) \<Longrightarrow> \<exists>d. r = Inr (x, d) \<and> object_end d = Inr \<lparr>stream = s, buffered = None\<rparr>"
  using object_end_pending unfolding yields_def by blast

lemma fresh_deserializer [simp]: "wf_deserializer \<lparr>stream = s, buffered = None\<rparr>" "pending \<lparr>stream = s, buffered = None\<rparr> = s"
  by (simp_all add: wf_deserializer_def pending_def)

lemma entry_record:
  assumes "wire_ok w" "record_ok w r" "write_record w r = Inr b"
  shows "replay_entry env w only tgt \<lparr>stream = b @ s, buffered = None\<rparr> q =
    (case replay_record env only tgt r q of (q', Inl e) \<Rightarrow> (q', Inl e)
     | (q', Inr _) \<Rightarrow> (q', Inr (False, \<lparr>stream = s, buffered = None\<rparr>)))"
proof -
  obtain c d where d: "read_type \<lparr>stream = b @ s, buffered = None\<rparr> = Inr (c, d)" "c \<noteq> wal_type_code WAL_FLUSH"
      "yields (read_body w c d) r (write_field terminator @ s)"
    using record_yields [OF assms, of "\<lparr>stream = b @ s, buffered = None\<rparr>" s] by auto
  obtain d' where "read_body w c d = Inr (r, d')" "object_end d' = Inr \<lparr>stream = s, buffered = None\<rparr>"
    using object_end_yields [OF d(3)] by blast
  then show ?thesis using d(1,2) by (simp add: replay_entry_def del: wal_type_code.simps split: sum.split prod.split)
qed

lemma entry_flush:
  assumes "flush_record = Inr b"
  shows "replay_entry env w only tgt \<lparr>stream = b @ s, buffered = None\<rparr> q = (q, Inr (True, \<lparr>stream = s, buffered = None\<rparr>))"
proof -
  obtain d where "read_type \<lparr>stream = b @ s, buffered = None\<rparr> = Inr (wal_type_code WAL_FLUSH, d)"
      "object_end d = Inr \<lparr>stream = s, buffered = None\<rparr>"
    using object_end_yields [OF flush_yields [OF assms, of "\<lparr>stream = b @ s, buffered = None\<rparr>" s]] by auto
  then show ?thesis by (simp add: replay_entry_def)
qed

text \<open>The items of a log: a record, or a flush, with its bytes.\<close>

type_synonym item = "wal_record option \<times> byte list"

fun item_ok :: "wire \<Rightarrow> item \<Rightarrow> bool" where
  "item_ok w (None, b) \<longleftrightarrow> flush_record = Inr b"
| "item_ok w (Some r, b) \<longleftrightarrow> (\<forall>v i n. r \<noteq> VersionRecord v i n) \<and> record_ok w r \<and> write_record w r = Inr b"

definition frames :: "item list \<Rightarrow> byte list" where
  "frames its = concat (map (\<lambda>(_, b). frame b) its)"

lemma frames_simps [simp]: "frames [] = []" "frames ((r, b) # its) = frame b @ frames its"
  by (simp_all add: frames_def)

lemma frames_append [simp]: "frames (its @ its') = frames its @ frames its'"
  by (simp add: frames_def)

lemma frame_not_Nil [simp]: "frame b \<noteq> []"
  using length_frame [of b] by auto

definition act :: "bool \<Rightarrow> 's target \<Rightarrow> wal_record \<Rightarrow> 's \<Rightarrow> 's res" where
  "act only tgt r s = (if only then Inr s else apply_record tgt r s)"

lemma next_record:
  assumes "wire_ok w" "item_ok w (Some r, b)" "rp_version st = 2"
    "length (frame b) + length rest \<le> fsize" "fsize < 2 ^ 64"
  shows "replay_next env w only tgt fsize (st, x) (frame b @ rest) =
    (case act only tgt r x of Inl e \<Rightarrow> ((st, x), Inl e) | Inr x' \<Rightarrow> ((st, x'), Inr (False, rest)))"
proof -
  have "replay_entry env w only tgt \<lparr>stream = b, buffered = None\<rparr> (st, x) =
    (case replay_record env only tgt r (st, x) of (q', Inl e) \<Rightarrow> (q', Inl e)
     | (q', Inr _) \<Rightarrow> (q', Inr (False, \<lparr>stream = [], buffered = None\<rparr>)))"
    using entry_record [OF assms(1), of r b env only tgt "[]"] assms(2) by simp
  moreover have "replay_record env only tgt r (st, x) = (case act only tgt r x of Inl e \<Rightarrow> ((st, x), Inl e) | Inr x' \<Rightarrow> ((st, x'), Inr ()))"
    using assms(2) by (cases r) (auto simp: replay_record_def act_def split: sum.split)
  ultimately show ?thesis
    using read_frame_frame [OF assms(4,5)] assms(3) by (simp add: replay_next_def split: sum.split)
qed

lemma next_flush:
  assumes "item_ok w (None, b)" "rp_version st = 2" "length (frame b) + length rest \<le> fsize" "fsize < 2 ^ 64"
  shows "replay_next env w only tgt fsize (st, x) (frame b @ rest) = ((st, x), Inr (True, rest))"
  using entry_flush [of b env w only tgt "[]"] read_frame_frame [OF assms(3,4)] assms(1,2) by (simp add: replay_next_def)

text \<open>The end of the file inside a frame, or before the next one.\<close>

lemma next_torn:
  assumes "rp_version st = 2" "n < length (frame b)" "n \<le> fsize" "fsize + length b < 2 ^ 64"
  shows "\<exists>e. replay_next env w only tgt fsize (st, x) (take n (frame b)) = ((st, x), Inl e) \<and> is_serialization e"
  using read_frame_torn [OF assms(2-4)] assms(1) by (auto simp: replay_next_def)

lemma next_end:
  assumes "rp_version st = 2"
  shows "\<exists>e. replay_next env w only tgt fsize (st, x) [] = ((st, x), Inl e) \<and> is_serialization e"
  using read_data_short [of "[]" 8] assms by (auto simp: replay_next_def read_frame_def read_u64_def)

subsection \<open>The header\<close>

definition header_ok :: "replay_env \<Rightarrow> byte list \<Rightarrow> 64 word option \<Rightarrow> bool" where
  "header_ok env identity iter \<longleftrightarrow> (case iter of None \<Rightarrow> identity = []
     | Some n \<Rightarrow> n \<noteq> - 1 \<and> n = own_iteration env \<and> identity = own_identity env \<and> length identity = 16)"

lemma header_ok_record: "header_ok env identity iter \<Longrightarrow> record_ok w (VersionRecord v identity iter)"
  by (cases iter) (auto simp: header_ok_def)

lemma header_ok_version: "header_ok env identity iter \<Longrightarrow> replay_version env v identity iter st = Inr (st\<lparr>rp_version := v\<rparr>)"
  by (cases iter) (auto simp: header_ok_def replay_version_def Let_def)

lemma next_header:
  assumes "wire_ok w" "header_ok env identity iter" "write_version_record 2 identity iter = Inr hdr"
  shows "replay_next env w only tgt fsize (new_replay, x) (hdr @ rest) = ((new_replay\<lparr>rp_version := 2\<rparr>, x), Inr (False, rest))"
  using entry_record [OF assms(1) header_ok_record [OF assms(2)], of 2 hdr env only tgt rest "(new_replay, x)"] assms(3)
  by (simp add: replay_next_def new_replay_def replay_record_def header_ok_version [OF assms(2)])

lemma version_body:
  assumes "read_body w c d = Inr (VersionRecord v i n, d')"
  shows "c = wal_type_code WAL_VERSION"
proof -
  obtain t where t: "find (\<lambda>t. wal_type_code t = c) wal_types = Some t"
    using assms by (cases "find (\<lambda>t. wal_type_code t = c) wal_types") (simp_all add: read_body_def)
  then have c: "c = wal_type_code t" by (auto simp: find_Some_iff)
  show ?thesis
    using assms unfolding c read_body_code
    by (cases t) (auto simp: read_names_def mapR_Inr_iff bindR_Inr_iff)
qed

lemma torn_header:
  assumes "wire_ok w" "header_ok env identity iter" "write_version_record 2 identity iter = Inr hdr" "n < length hdr"
  shows "\<exists>st e. replay_next env w only tgt fsize (new_replay, x) (take n hdr) = ((st, x), Inl e) \<and> is_serialization e \<and> rp_expected st = None"
proof -
  let ?d = "\<lparr>stream = take n hdr, buffered = None\<rparr>" and ?t = "drop n hdr"
  let ?r = "VersionRecord 2 identity iter"
  have wr: "write_record w ?r = Inr hdr" using assms(3) by simp
  have full: "longer ?t ?d = \<lparr>stream = hdr @ [], buffered = None\<rparr>" by (simp add: longer_def)
  obtain c d1 where d1: "read_type (longer ?t ?d) = Inr (c, d1)" "c \<noteq> wal_type_code WAL_FLUSH"
      "yields (read_body w c d1) ?r (write_field terminator @ [])"
    using record_yields [OF assms(1) header_ok_record [OF assms(2)] wr, of "longer ?t ?d" "[]"] full by auto
  obtain d2 where d2: "read_body w c d1 = Inr (?r, d2)" "object_end d2 = Inr \<lparr>stream = [], buffered = None\<rparr>"
    using object_end_yields [OF d1(3)] by blast
  have c: "c = wal_type_code WAL_VERSION" by (rule version_body [OF d2(1)])
  have body: "read_body w c d = read_version d" for d unfolding c read_body_code by simp
  let ?run = "replay_entry env w only tgt ?d (new_replay, x)"
  have "\<exists>st e. ?run = ((st, x), Inl e) \<and> is_serialization e \<and> rp_expected st = None"
  proof (cases "read_type ?d")
    case (Inl e)
    then show ?thesis using local_readerD [OF local_read_type, of ?d ?t] d1(1) by (auto simp: replay_entry_def new_replay_def)
  next
    case (Inr p)
    obtain c' d3 where p: "p = (c', d3)" by (cases p)
    then have d3: "read_type ?d = Inr (c, d3)" "d1 = longer ?t d3"
      using local_readerD [OF local_read_type, of ?d ?t] d1(1) Inr by auto
    show ?thesis
    proof (cases "read_version d3")
      case (Inl e)
      then show ?thesis using local_readerD [OF local_read_version, of d3 ?t] d2(1) d3 d1(2) body
        by (auto simp: replay_entry_def new_replay_def)
    next
      case (Inr p)
      obtain r d4 where p: "p = (r, d4)" by (cases p)
      then have d4: "read_version d3 = Inr (?r, d4)" "d2 = longer ?t d4"
        using local_readerD [OF local_read_version, of d3 ?t] d2(1) d3(2) body Inr by auto
      have "(\<exists>e. object_end d4 = Inl e \<and> is_serialization e)"
      proof (cases "object_end d4")
        case (Inl e)
        then show ?thesis using local_readerD [OF local_object_end, of d4 ?t] d2(2) d4(2) by auto
      next
        case (Inr d5)
        then have "longer ?t d5 = \<lparr>stream = [], buffered = None\<rparr>"
          using local_readerD [OF local_object_end, of d4 ?t] d2(2) d4(2) by auto
        then have "?t = []" by (metis append_is_Nil_conv deserializer.select_convs(1) deserializer.surjective deserializer.update_convs(1) longer_def)
        then show ?thesis using assms(4) by simp
      qed
      then show ?thesis using d3(1) d4(1) body d1(2) header_ok_version [OF assms(2)]
        by (auto simp: replay_entry_def replay_record_def new_replay_def)
    qed
  qed
  then show ?thesis by (auto simp: replay_next_def new_replay_def)
qed

subsection \<open>What a replay relies on, and what it reaches\<close>

text \<open>The effect of the records on an abstract state, and the states at the flushes with their offsets.\<close>

fun play :: "(wal_record \<Rightarrow> 'v \<Rightarrow> 'v option) \<Rightarrow> 'v \<Rightarrow> item list \<Rightarrow> 'v option" where
  "play eff u [] = Some u"
| "play eff u ((None, b) # its) = play eff u its"
| "play eff u ((Some r, b) # its) = (case eff r u of None \<Rightarrow> None | Some u' \<Rightarrow> play eff u' its)"

fun flushes :: "(wal_record \<Rightarrow> 'v \<Rightarrow> 'v option) \<Rightarrow> nat \<Rightarrow> 'v \<Rightarrow> item list \<Rightarrow> (nat \<times> 'v) list" where
  "flushes eff pos u [] = []"
| "flushes eff pos u ((None, b) # its) = (pos + length (frame b), u) # flushes eff (pos + length (frame b)) u its"
| "flushes eff pos u ((Some r, b) # its) = flushes eff (pos + length (frame b)) (the (eff r u)) its"

lemma flushes_above: "p \<in> set (flushes eff pos u its) \<Longrightarrow> pos < fst p"
proof (induction eff pos u its rule: flushes.induct)
  case (2 eff pos u b its)
  then show ?case by (auto simp: length_frame)
next
  case (3 eff pos u r b its)
  then show ?case by (fastforce simp: length_frame)
qed simp

definition reached :: "nat \<times> 'v \<Rightarrow> nat \<Rightarrow> (nat \<times> 'v) list \<Rightarrow> nat \<times> 'v" where
  "reached p n fs = last (p # filter (\<lambda>(off, _). off \<le> n) fs)"

lemma reached_simps [simp]:
  "reached p n [] = p"
  "reached p n (q # fs) = (if fst q \<le> n then reached q n fs else reached p n fs)"
  by (simp_all add: reached_def split: prod.split)

lemma reached_none: "n \<le> pos \<Longrightarrow> reached p n (flushes eff pos u its) = p"
  using flushes_above [of _ eff pos u its] by (fastforce simp: reached_def filter_empty_conv)

locale replay_target =
  fixes tgt :: "'s target" and eff :: "wal_record \<Rightarrow> 'v \<Rightarrow> 'v option"
    and idle :: "nat \<Rightarrow> 's \<Rightarrow> 'v \<Rightarrow> bool"    \<comment> \<open>no transaction; that many more may start\<close>
    and busy :: "nat \<Rightarrow> 's \<Rightarrow> 'v \<Rightarrow> 'v \<Rightarrow> bool"  \<comment> \<open>what is committed, and what the transaction sees\<close>
  assumes begin_law: "idle (Suc k) s v \<Longrightarrow> \<exists>s'. begin_txn tgt s = Inr s' \<and> busy k s' v v"
    and apply_law: "busy k s v u \<Longrightarrow> eff r u = Some u' \<Longrightarrow> \<exists>s'. apply_record tgt r s = Inr s' \<and> busy k s' v u'"
    and commit_law: "busy k s v u \<Longrightarrow> \<exists>s'. commit_txn tgt s = Inr s' \<and> idle k s' u"
    and rollback_law: "busy k s v u \<Longrightarrow> \<exists>s'. rollback_txn tgt s = Inr s' \<and> idle k s' v"
begin

definition ended :: "'v \<Rightarrow> 's \<Rightarrow> unit res \<Rightarrow> bool" where
  "ended v s r \<longleftrightarrow> (case r of Inr _ \<Rightarrow> \<exists>k. idle k s v | Inl e \<Rightarrow> is_serialization e \<and> (\<exists>k u. busy k s v u))"

lemma redo_prefix:
  assumes "wire_ok w" "list_all (item_ok w) its" "play eff u its \<noteq> None" "rp_version st = 2"
    and "fsize = pos + min m (length (frames its))" "fsize + length (frames its) < 2 ^ 64" "busy k s v u" "length its \<le> k" "off < fsize"
  shows "\<exists>s' off' r. redo_log env w tgt fsize (st, s) off (take m (frames its)) = Some (s', off', r) \<and>
    off' = fst (reached (off, v) fsize (flushes eff pos u its)) \<and> ended (snd (reached (off, v) fsize (flushes eff pos u its))) s' r \<and>
    (r = Inr () \<longleftrightarrow> off' = fsize)"
  using assms(2-)
proof (induction its arbitrary: m pos u s v off k)
  case Nil
  obtain e where "replay_next env w False tgt fsize (st, s) [] = ((st, s), Inl e)" "is_serialization e"
    using next_end [OF Nil(3), of env w False tgt fsize s] by blast
  then show ?case using Nil by (auto simp: redo_log.simps ended_def)
next
  case (Cons it its)
  obtain ro b where it: "it = (ro, b)" by (cases it)
  let ?n = "length (frame b)"
  show ?case
  proof (cases "m < ?n")
    case True
    have short: "take m (frames (it # its)) = take m (frame b)" "fsize = pos + m" using True Cons.prems(4) it by simp_all
    obtain e where e: "replay_next env w False tgt fsize (st, s) (take m (frame b)) = ((st, s), Inl e)" "is_serialization e"
      using next_torn [OF Cons.prems(3) True, of fsize env w False tgt s] Cons.prems(5) short(2) it by (auto simp: length_frame)
    have "reached (off, v) fsize (flushes eff pos u (it # its)) = (off, v)"
      using reached_none [of fsize "pos + ?n"] True short(2) it by (cases ro) simp_all
    then show ?thesis using e Cons.prems(6,8) unfolding short(1) by (auto simp: redo_log.simps ended_def)
  next
    case False
    define rest where "rest = take (m - ?n) (frames its)"
    have fl: "take m (frames (it # its)) = frame b @ rest" using False it by (simp add: rest_def)
    have sz: "fsize = pos + ?n + min (m - ?n) (length (frames its))" using Cons.prems(4) False it by simp
    have len: "length rest = fsize - (pos + ?n)" using sz by (simp add: rest_def)
    have bounds: "?n + length rest \<le> fsize" "fsize < 2 ^ 64" "fsize + length (frames its) < 2 ^ 64"
      using Cons.prems(5) sz it len by auto
    have its: "list_all (item_ok w) its" "item_ok w (ro, b)" using Cons.prems(1) it by simp_all
    note IH = Cons.IH [OF its(1) _ Cons.prems(3) sz bounds(3), folded rest_def]
    show ?thesis
    proof (cases ro)
      case (Some r)
      then obtain u' where u': "eff r u = Some u'" "play eff u' its \<noteq> None" using Cons.prems(2) it by (auto split: option.splits)
      then obtain s' where s': "apply_record tgt r s = Inr s'" "busy k s' v u'" using apply_law Cons.prems(6) by blast
      have "replay_next env w False tgt fsize (st, s) (frame b @ rest) = ((st, s'), Inr (False, rest))"
        using next_record [OF assms(1) its(2) [unfolded Some] Cons.prems(3) bounds(1,2), of env False tgt s] s'(1) by (simp add: act_def)
      then show ?thesis using IH [OF u'(2) s'(2), of off] Cons.prems(7,8) u'(1) unfolding fl by (simp add: redo_log.simps it Some)
    next
      case None
      obtain s1 where s1: "commit_txn tgt s = Inr s1" "idle k s1 u" using commit_law Cons.prems(6) by blast
      have nxt: "replay_next env w False tgt fsize (st, s) (frame b @ rest) = ((st, s), Inr (True, rest))"
        using next_flush [OF its(2) [unfolded None] Cons.prems(3) bounds(1,2), of env False tgt s] .
      have pos: "fsize - length rest = pos + ?n" using sz len by simp
      show ?thesis
      proof (cases "rest = []")
        case True
        then have "fsize = pos + ?n" using len sz by simp
        then show ?thesis using s1 nxt True unfolding fl
          by (auto simp: redo_log.simps it None ended_def reached_none)
      next
        case False
        obtain k' where k: "k = Suc k'" using Cons.prems(7) by (cases k) simp_all
        then obtain s2 where s2: "begin_txn tgt s1 = Inr s2" "busy k' s2 u u" using begin_law s1(2) by blast
        have "play eff u its \<noteq> None" using Cons.prems(2) it None by simp
        moreover have "pos + ?n < fsize" using False len sz by (cases rest) auto
        ultimately show ?thesis using IH [OF _ s2(2), of "pos + ?n"] s1(1) s2(1) nxt False k Cons.prems(7) pos sz unfolding fl by (simp add: redo_log.simps it None)
      qed
    qed
  qed
qed

text \<open>The first reading of a prefix finds no foreign log, whatever the records act on.\<close>

lemma scan_prefix:
  assumes "wire_ok w" "list_all (item_ok w) its" "rp_version st = 2" "rp_expected st = None"
    and "fsize = pos + min m (length (frames its))" "fsize + length (frames its) < 2 ^ 64"
  shows "\<exists>st' r. scan_log env w tgt fsize (st, s) (take m (frames its)) = Some (st', r) \<and> rp_expected st' = None \<and>
    (\<forall>e. r = Inl e \<longrightarrow> is_serialization e)"
  using assms(2-)
proof (induction its arbitrary: m pos)
  case Nil
  obtain e where "replay_next env w True tgt fsize (st, s) [] = ((st, s), Inl e)" "is_serialization e"
    using next_end [OF Nil(2), of env w True tgt fsize s] by blast
  then show ?case using Nil by (auto simp: scan_log.simps)
next
  case (Cons it its)
  obtain ro b where it: "it = (ro, b)" by (cases it)
  let ?n = "length (frame b)"
  show ?case
  proof (cases "m < ?n")
    case True
    have short: "take m (frames (it # its)) = take m (frame b)" "fsize = pos + m" using True Cons.prems(4) it by simp_all
    obtain e where "replay_next env w True tgt fsize (st, s) (take m (frame b)) = ((st, s), Inl e)" "is_serialization e"
      using next_torn [OF Cons.prems(2) True, of fsize env w True tgt s] Cons.prems(5) short(2) it by (auto simp: length_frame)
    then show ?thesis using Cons.prems(3) unfolding short(1) by (auto simp: scan_log.simps)
  next
    case False
    define rest where "rest = take (m - ?n) (frames its)"
    have fl: "take m (frames (it # its)) = frame b @ rest" using False it by (simp add: rest_def)
    have sz: "fsize = pos + ?n + min (m - ?n) (length (frames its))" using Cons.prems(4) False it by simp
    have bounds: "?n + length rest \<le> fsize" "fsize < 2 ^ 64" "fsize + length (frames its) < 2 ^ 64"
      using Cons.prems(5) sz it by (auto simp: rest_def)
    have its: "list_all (item_ok w) its" "item_ok w (ro, b)" using Cons.prems(1) it by simp_all
    have nxt: "replay_next env w True tgt fsize (st, s) (frame b @ rest) = ((st, s), Inr (ro = None, rest))"
      using next_flush [OF _ Cons.prems(2) bounds(1,2), of w env True tgt s] its(2)
        next_record [OF assms(1) _ Cons.prems(2) bounds(1,2), of _ env True tgt s] by (cases ro) (simp_all add: act_def)
    show ?thesis
      using Cons.IH [OF its(1) Cons.prems(2,3) sz bounds(3), folded rest_def] Cons.prems(3) nxt unfolding fl
      by (cases "ro = None \<and> rest = []") (auto simp: scan_log.simps)
  qed
qed

text \<open>A log cut off anywhere is replayed up to its last complete flush.\<close>

lemma replay_prefix:
  assumes w: "wire_ok w" and hdr: "header_ok env identity iter" "write_version_record 2 identity iter = Inr hdr"
    and its: "list_all (item_ok w) its" "play eff v its \<noteq> None"
    and size: "length (hdr @ frames its) < 2 ^ 63" "n \<le> length (hdr @ frames its)" and s: "idle (Suc (length its)) s v" and lenient: "\<not> abort_on_wal_failure env"
  shows "\<exists>s' h. replay_log env w tgt (take n (hdr @ frames its)) s = Some (Inr (s', h)) \<and>
    (\<exists>k. idle k s' (snd (reached (0, v) n (flushes eff (length hdr) v its)))) \<and>
    h = (if n = 0 then None else Some (fst (reached (0, v) n (flushes eff (length hdr) v its)),
        fst (reached (0, v) n (flushes eff (length hdr) v its)) = n))"
proof -
  let ?log = "hdr @ frames its" and ?r = "reached (0, v) n (flushes eff (length hdr) v its)"
  define bs where "bs = take n (hdr @ frames its)"
  have lf: "length bs = n" using size(2) by (simp add: bs_def)
  obtain s1 where s1: "begin_txn tgt s = Inr s1" "busy (length its) s1 v v" using begin_law s by blast
  obtain s0 where s0: "rollback_txn tgt s1 = Inr s0" "idle (length its) s0 v" using rollback_law s1(2) by blast
  consider "n = 0" | "n \<noteq> 0" "n < length hdr" | "length hdr \<le> n" "n \<noteq> 0" by linarith
  then show ?thesis
  proof cases
    case 1
    then show ?thesis using s lf unfolding bs_def [symmetric] by (auto simp: replay_log_def reached_none)
  next
    case 2
    then have fl: "bs = take n hdr" by (simp add: bs_def)
    note torn = torn_header [OF w hdr 2(2)]
    obtain st e where t: "replay_next env w True tgt n (new_replay, s1) bs = ((st, s1), Inl e)" "is_serialization e" "rp_expected st = None"
      using torn [of True tgt n s1] unfolding fl by blast
    obtain st' e' where t': "replay_next env w False tgt n (new_replay, s1) bs = ((st', s1), Inl e')" "is_serialization e'"
      using torn [of False tgt n s1] unfolding fl by blast
    have "scan_log env w tgt n (new_replay, s1) bs = Some (st, Inl e)" using t(1) by (simp add: scan_log.simps)
    moreover have "redo_log env w tgt n (new_replay, s1) 0 bs = Some (s1, 0, Inl e')" using t'(1) by (simp add: redo_log.simps)
    moreover have "reached (0, v) n (flushes eff (length hdr) v its) = (0, v)" using 2 by (intro reached_none) simp
    moreover have "bs \<noteq> []" using lf 2(1) by auto
    ultimately show ?thesis using s1(1) s0 t(2,3) t'(2) lf 2(1) lenient unfolding bs_def [symmetric]
      by (auto simp: replay_log_def second_reading_def)
  next
    case 3
    let ?m = "n - length hdr" and ?st = "new_replay\<lparr>rp_version := 2\<rparr>"
    have fl: "bs = hdr @ take ?m (frames its)" using 3 by (simp add: bs_def)
    have sz: "n = length hdr + min ?m (length (frames its))" "n + length (frames its) < 2 ^ 64" using 3 size by auto
    note nxt = next_header [OF w hdr, of _ tgt n s1 "take ?m (frames its)", folded fl]
    obtain st r where sc: "scan_log env w tgt n (?st, s1) (take ?m (frames its)) = Some (st, r)" "rp_expected st = None"
        "\<forall>e. r = Inl e \<longrightarrow> is_serialization e"
      using scan_prefix [OF w its(1) _ _ sz, of ?st env s1] by (auto simp: new_replay_def)
    have "scan_log env w tgt n (new_replay, s1) bs = Some (st, r)"
      using nxt sc(1) by (subst scan_log.simps) simp
    moreover obtain s2 off r' where rd: "redo_log env w tgt n (?st, s1) 0 (take ?m (frames its)) = Some (s2, off, r')"
        "off = fst ?r" "ended (snd ?r) s2 r'" "r' = Inr () \<longleftrightarrow> off = n"
      using redo_prefix [OF w its _ sz s1(2) order_refl, where st = ?st and env = env and off = 0] 3(2) by auto
    moreover have "redo_log env w tgt n (new_replay, s1) 0 bs = Some (s2, off, r')"
      using nxt rd(1) by (subst redo_log.simps) simp
    moreover have "bs \<noteq> []" using lf 3(2) by auto
    ultimately show ?thesis
    proof (cases r')
      case (Inr x)
      then show ?thesis using \<open>scan_log env w tgt n (new_replay, s1) bs = _\<close> \<open>redo_log env w tgt n (new_replay, s1) 0 bs = _\<close>
          rd sc s1(1) lf 3(2) \<open>bs \<noteq> []\<close> unfolding bs_def [symmetric]
        by (cases r) (auto simp: replay_log_def second_reading_def ended_def)
    next
      case (Inl e)
      obtain k s3 where s3: "rollback_txn tgt s2 = Inr s3" "idle k s3 (snd ?r)" "is_serialization e"
        using rd(3) rollback_law Inl by (auto simp: ended_def) blast
      then show ?thesis using \<open>scan_log env w tgt n (new_replay, s1) bs = _\<close> \<open>redo_log env w tgt n (new_replay, s1) 0 bs = _\<close>
          rd sc s1(1) lf 3(2) \<open>bs \<noteq> []\<close> Inl lenient unfolding bs_def [symmetric]
        by (cases r) (auto simp: replay_log_def second_reading_def)
    qed
  qed
qed

end

subsection \<open>One entry, written and replayed\<close>

text \<open>C17: What the log writer writes for a record, the replay applies as that same record and goes on right behind it,
  whatever follows in the file and whatever the record acts on; a frame that is cut off anywhere is a serialization
  error, which applies nothing.\<close>
theorem wal_entry_roundtrip:
  assumes "wire_ok w" "record_ok w r" "\<forall>v identity iter. r \<noteq> VersionRecord v identity iter" "write_record w r = Inr b"
    "rp_version st = 2" "length (frame b) + length rest \<le> fsize" "fsize + length b < 2 ^ 64"
  shows "replay_next env w False tgt fsize (st, s) (frame b @ rest) =
      (case apply_record tgt r s of Inl e \<Rightarrow> ((st, s), Inl e) | Inr s' \<Rightarrow> ((st, s'), Inr (False, rest))) \<and>
    (\<forall>n < length (frame b). \<exists>e. replay_next env w False tgt fsize (st, s) (take n (frame b)) = ((st, s), Inl e) \<and> is_serialization e)"
  using next_record [OF assms(1) _ assms(5,6), of r env False tgt s] next_torn [OF assms(5), of _ b fsize env w False tgt s] assms
  by (auto simp: act_def)

definition demo_id :: "byte list" where
  "demo_id = [7, 7, 7, 7, 7, 7, 7, 7, 7, 7, 7, 7, 7, 7, 7, 7]"

definition demo_env :: replay_env where
  "demo_env = \<lparr>own_identity = demo_id, own_iteration = 1, checkpoint_wal = False, abort_on_wal_failure = False\<rparr>"

text \<open>A target that keeps the records it was given.\<close>

definition demo_target :: "wal_record list target" where
  "demo_target = \<lparr>begin_txn = Inr, apply_record = (\<lambda>r rs. Inr (rs @ [r])), commit_txn = Inr, rollback_txn = Inr\<rparr>"

lemma wal_entry_roundtrip_witness:
  "\<exists>b. write_record demo_wire (DropModelRecord ''main'' ''m'') = Inr b \<and>
     replay_next demo_env demo_wire False demo_target 1000 (new_replay\<lparr>rp_version := 2\<rparr>, []) (frame b @ [1, 2, 3]) =
       ((new_replay\<lparr>rp_version := 2\<rparr>, [DropModelRecord ''main'' ''m'']), Inr (False, [1, 2, 3]))"
proof -
  obtain b where "write_record demo_wire (DropModelRecord ''main'' ''m'') = Inr b" "length b < 100"
    by (simp add: write_object_def write_type_def write_property_def write_string_def write_field_def encode_unsigned.simps)
  then show ?thesis
    using wal_entry_roundtrip [OF demo_wire_ok, where r = "DropModelRecord ''main'' ''m''" and b = b and st = "new_replay\<lparr>rp_version := 2\<rparr>"
        and rest = "[1, 2, 3]" and fsize = 1000 and env = demo_env and tgt = demo_target and s = "[]"]
    by (simp add: length_frame demo_target_def)
qed

end
