(* ===== verification/Wal_Commit.thy ===== *)
theory Wal_Commit
  imports Snapshots Wal_Replay
begin

section \<open>CREATE, DROP and what a commit writes to the log\<close>

text \<open>
  The statements on models and embeddings as the catalog runs them (\<open>src/catalog/catalog.cpp\<close>,
  \<open>src/catalog/catalog_entry/duck_schema_entry.cpp\<close>), what a commit writes to the log for each entry of
  the undo buffer (\<open>src/transaction/wal_write_state.cpp\<close>), the state of the log file
  (\<open>src/storage/write_ahead_log.cpp\<close>) and the commit that ties them together
  (\<open>src/transaction/duck_transaction.cpp\<close>, \<open>src/storage/storage_manager.cpp\<close>). The catalog has one
  schema; the records of other objects, automatic checkpoints and encryption are not modelled. Commits
  hold a lock while they write, so a commit is one step.
\<close>

subsection \<open>Entries\<close>

datatype stored =
    StoredModel model_data "string option" "(string \<times> string) list"
  | StoredEmbedding embedding_data "string option" "(string \<times> string) list"

type_synonym stored_entry = "stored entry"

definition new_entry :: "catalog_type \<Rightarrow> string \<Rightarrow> bool \<Rightarrow> stored \<Rightarrow> stored_entry" where
  "new_entry ty name temporary d = \<lparr>e_addr = 0, e_type = ty, e_name = name, e_ts = 0, e_deleted = False,
     e_temporary = temporary, e_internal = False, e_data = Some d\<rparr>"

fun info_base :: "create_info \<Rightarrow> create_base" where
  "info_base (ModelInfo b n d) = b"
| "info_base (EmbeddingInfo b n d) = b"

fun entry_of_info :: "create_info \<Rightarrow> stored_entry" where
  "entry_of_info (ModelInfo b n d) = new_entry MODEL_ENTRY n (cb_temporary b) (StoredModel d (cb_comment b) (cb_tags b))"
| "entry_of_info (EmbeddingInfo b n d) = new_entry EMBEDDING_ENTRY n (cb_temporary b) (StoredEmbedding d (cb_comment b) (cb_tags b))"

record wal_config =
  wc_catalog :: string
  wc_schema :: string
  wc_wire :: wire
  wc_identity :: "byte list"
  wc_iteration :: "64 word option"   \<comment> \<open>both are only known from file version 67 on\<close>

definition entry_base :: "wal_config \<Rightarrow> catalog_type \<Rightarrow> string option \<Rightarrow> (string \<times> string) list \<Rightarrow> create_base" where
  "entry_base cfg ty comment tags = \<lparr>cb_type = ty, cb_catalog = wc_catalog cfg, cb_schema = wc_schema cfg,
     cb_temporary = False, cb_internal = False, cb_conflict = ErrorOnConflict, cb_sql = [], cb_comment = comment,
     cb_tags = tags, cb_dependencies = []\<rparr>"

text \<open>\<open>GetInfo\<close>; the dependencies of these entries are empty.\<close>

definition info_of_entry :: "wal_config \<Rightarrow> stored_entry \<Rightarrow> create_info res" where
  "info_of_entry cfg e = (case e_data e of
     None \<Rightarrow> Inl (InternalException ''Unsupported type for CatalogEntry::GetInfo!'')
   | Some (StoredModel d comment tags) \<Rightarrow> Inr (ModelInfo (entry_base cfg MODEL_ENTRY comment tags) (e_name e) d)
   | Some (StoredEmbedding d comment tags) \<Rightarrow> Inr (EmbeddingInfo (entry_base cfg EMBEDDING_ENTRY comment tags) (e_name e) d))"

subsection \<open>CREATE and DROP\<close>

definition get_schema :: "wal_config \<Rightarrow> string \<Rightarrow> unit res" where
  "get_schema cfg name = (if map ascii_lower name = map ascii_lower (wc_schema cfg) then Inr ()
     else Inl (CatalogException (''Schema with name '' @ name @ '' does not exist!'')))"

text \<open>\<open>AddEntryInternal\<close>: whether the entry was added. The only dependency is the schema.\<close>

definition replace_old :: "txn \<Rightarrow> catset \<Rightarrow> stored_entry \<Rightarrow> on_conflict \<Rightarrow> stored db \<Rightarrow> stored db res" where
  "replace_old t cs e conflict db =
     (if conflict \<noteq> ReplaceOnConflict then Inr db
      else case get_entry db t (key_of cs (e_name e)) of
        None \<Rightarrow> Inr db
      | Some old \<Rightarrow>
          if e_type old \<noteq> e_type e then Inl (CatalogException (''Existing object '' @ e_name e @ '' is of another type''))
          else mapR snd (drop_entry t cs (e_name e) (e_internal e) db))"

definition add_entry :: "catalog_kind \<Rightarrow> txn \<Rightarrow> stored_entry \<Rightarrow> on_conflict \<Rightarrow> stored db \<Rightarrow> (bool \<times> stored db) res" where
  "add_entry ck t e conflict db = bindR (get_catalog_set (e_type e)) (\<lambda>cs.
     if conflict = IgnoreOnConflict \<and> get_entry db t (key_of cs (e_name e)) \<noteq> None then Inr (False, db)
     else bindR (replace_old t cs e conflict db) (\<lambda>db.
       bindR (create_entry ck t cs (e_name e) e db) (\<lambda>(created, db).
         if created then Inr (True, db)
         else if conflict = ErrorOnConflict then Inl (CatalogException (e_name e @ '' already exists!''))
         else Inr (False, db))))"

definition create_object :: "wal_config \<Rightarrow> txn \<Rightarrow> create_info \<Rightarrow> stored db \<Rightarrow> (bool \<times> stored db) res" where
  "create_object cfg t i db = bindR (get_schema cfg (cb_schema (info_base i))) (\<lambda>_.
     add_entry user_catalog t (entry_of_info i) (cb_conflict (info_base i)) db)"

text \<open>\<open>DuckSchemaEntry::DropEntry\<close> and \<open>Catalog::DropEntry\<close>.\<close>

definition schema_drop :: "txn \<Rightarrow> catalog_type \<Rightarrow> string \<Rightarrow> bool \<Rightarrow> stored db \<Rightarrow> stored db res" where
  "schema_drop t ty name allow_internal db = bindR (get_catalog_set ty) (\<lambda>cs.
     case get_entry db t (key_of cs name) of
       None \<Rightarrow> Inl (InternalException (''Failed to drop entry '' @ name @ '' - entry could not be found''))
     | Some e \<Rightarrow>
         if e_type e \<noteq> ty then Inl (CatalogException (''Existing object '' @ name @ '' is of another type''))
         else bindR (drop_entry t cs name allow_internal db) (\<lambda>(dropped, db).
           if dropped then Inr db else Inl (InternalException ''Could not drop element because of an internal error'')))"

definition drop_object :: "wal_config \<Rightarrow> txn \<Rightarrow> catalog_type \<Rightarrow> string \<Rightarrow> string \<Rightarrow> bool \<Rightarrow> stored db \<Rightarrow> stored db res" where
  "drop_object cfg t ty sch name missing_ok db = bindR (get_catalog_set ty) (\<lambda>cs.
     if isl (get_schema cfg sch) \<or> get_entry db t (key_of cs name) = None
     then (if missing_ok then Inr db else Inl (CatalogException (name @ '' does not exist!'')))
     else schema_drop t ty name False db)"

subsection \<open>The records of a transaction\<close>

text \<open>The version an undo entry points to and its parent.\<close>

fun version_at :: "nat \<Rightarrow> 'd entry list \<Rightarrow> ('d entry \<times> 'd entry) option" where
  "version_at a (p # e # es) = (if e_addr e = a then Some (e, p) else version_at a (e # es))"
| "version_at a _ = None"

definition persistent_types :: "catalog_type list" where
  "persistent_types = [TABLE_ENTRY, VIEW_ENTRY, INDEX_ENTRY, SEQUENCE_ENTRY, TYPE_ENTRY, MACRO_ENTRY, TABLE_MACRO_ENTRY, SCHEMA_ENTRY]"

definition transient_types :: "catalog_type list" where
  "transient_types = [PREPARED_STATEMENT, AGGREGATE_FUNCTION_ENTRY, SCALAR_FUNCTION_ENTRY, TABLE_FUNCTION_ENTRY,
     COPY_FUNCTION_ENTRY, PRAGMA_FUNCTION_ENTRY, COLLATION_ENTRY, COORDINATE_SYSTEM_ENTRY, DEPENDENCY_ENTRY,
     SECRET_ENTRY, SECRET_TYPE_ENTRY, SECRET_FUNCTION_ENTRY]"

definition write_create :: "wal_config \<Rightarrow> (create_info option \<Rightarrow> wal_record) \<Rightarrow> stored_entry \<Rightarrow> wal_record option res" where
  "write_create cfg mk p = mapR (\<lambda>i. Some (mk (Some i))) (info_of_entry cfg p)"

definition write_drop :: "wal_config \<Rightarrow> stored_entry \<Rightarrow> wal_record option res" where
  "write_drop cfg e = (case e_type e of
     MODEL_ENTRY \<Rightarrow> Inr (Some (DropModelRecord (wc_schema cfg) (e_name e)))
   | EMBEDDING_ENTRY \<Rightarrow> Inr (Some (DropEmbeddingRecord (wc_schema cfg) (e_name e)))
   | ty \<Rightarrow>
       if ty \<in> set persistent_types then Inl (Undefined ''record of another object'')
       else if ty \<in> {RENAMED_ENTRY, PREPARED_STATEMENT, SCALAR_FUNCTION_ENTRY, DEPENDENCY_ENTRY, SECRET_ENTRY,
         SECRET_TYPE_ENTRY, SECRET_FUNCTION_ENTRY} then Inr None
       else Inl (InternalException (''Don't know how to drop this type!'')))"

text \<open>\<open>WriteCatalogEntry\<close>; models and embeddings cannot be altered.\<close>

definition write_catalog_entry :: "wal_config \<Rightarrow> stored_entry \<Rightarrow> stored_entry \<Rightarrow> wal_record option res" where
  "write_catalog_entry cfg e p =
     (if e_temporary e \<or> e_temporary p then Inr None
      else if e_type p \<in> {MODEL_ENTRY, EMBEDDING_ENTRY} \<and> (e_type e = RENAMED_ENTRY \<or> e_type e = e_type p)
      then Inl (Undefined ''record of an alter'')
      else case e_type p of
        MODEL_ENTRY \<Rightarrow> write_create cfg CreateModelRecord p
      | EMBEDDING_ENTRY \<Rightarrow> write_create cfg CreateEmbeddingRecord p
      | RENAMED_ENTRY \<Rightarrow> Inr None
      | DELETED_ENTRY \<Rightarrow> write_drop cfg e
      | ty \<Rightarrow>
          if ty \<in> set persistent_types then Inl (Undefined ''record of another object'')
          else if ty \<in> set transient_types then Inr None
          else Inl (InternalException (''UndoBuffer - don't know how to write this entry to the WAL'')))"

definition undo_record :: "wal_config \<Rightarrow> stored db \<Rightarrow> key \<times> nat \<Rightarrow> wal_record option res" where
  "undo_record cfg db = (\<lambda>(k, a). case version_at a (chain_of db k) of
     None \<Rightarrow> Inl (Undefined ''catalog entry without a parent'')
   | Some (e, p) \<Rightarrow> write_catalog_entry cfg e p)"

subsection \<open>The log file\<close>

datatype wal_init = NO_WAL | UNINITIALIZED | UNINITIALIZED_REQUIRES_TRUNCATE | INITIALIZED

text \<open>The file (empty when there is none), with what the writer still buffers; the size the storage manager keeps;
  what this writer has written.\<close>

record wal =
  w_file :: "byte list"
  w_size :: nat
  w_init :: wal_init
  w_written :: nat

definition no_wal :: wal where
  "no_wal = \<lparr>w_file = [], w_size = 0, w_init = NO_WAL, w_written = 0\<rparr>"

definition initialize :: "wal \<Rightarrow> wal" where
  "initialize l = (case w_init l of
     INITIALIZED \<Rightarrow> l
   | UNINITIALIZED_REQUIRES_TRUNCATE \<Rightarrow> l\<lparr>w_file := take (w_size l) (w_file l), w_init := INITIALIZED, w_written := 0\<rparr>
   | _ \<Rightarrow> l\<lparr>w_size := length (w_file l), w_init := INITIALIZED, w_written := 0\<rparr>)"

definition append_bytes :: "byte list \<Rightarrow> wal \<Rightarrow> wal" where
  "append_bytes bs l = l\<lparr>w_file := w_file l @ bs, w_written := w_written l + length bs\<rparr>"

definition write_header :: "wal_config \<Rightarrow> wal \<Rightarrow> wal \<times> unit res" where
  "write_header cfg l =
     (if w_file l \<noteq> [] then (l, Inr ())
      else case write_version_record 2 (wc_identity cfg) (wc_iteration cfg) of
        Inl e \<Rightarrow> (l, Inl e)
      | Inr bs \<Rightarrow> (append_bytes bs l, Inr ()))"

text \<open>\<open>WriteAheadLogSerializer\<close>: the file is opened, the header written if it is missing, then the frame.\<close>

definition append_entry :: "wal_config \<Rightarrow> byte list res \<Rightarrow> wal \<Rightarrow> wal \<times> unit res" where
  "append_entry cfg entry l =
     (case write_header cfg (initialize l) of
        (l', Inl e) \<Rightarrow> (l', Inl e)
      | (l', Inr _) \<Rightarrow> (case entry of Inl e \<Rightarrow> (l', Inl e) | Inr bs \<Rightarrow> (append_bytes (frame bs) l', Inr ())))"

definition truncate_wal :: "nat \<Rightarrow> wal \<Rightarrow> wal" where
  "truncate_wal n l = (case w_init l of
     NO_WAL \<Rightarrow> l
   | INITIALIZED \<Rightarrow> l\<lparr>w_file := take n (w_file l), w_size := length (take n (w_file l))\<rparr>
   | _ \<Rightarrow> l\<lparr>w_size := n, w_init := UNINITIALIZED_REQUIRES_TRUNCATE\<rparr>)"

definition total_written :: "wal \<Rightarrow> nat" where
  "total_written l = (if w_init l = INITIALIZED then w_written l else 0)"

text \<open>\<open>SingleFileStorageCommitState::RevertCommit\<close>, given the log at the start of the commit.\<close>

definition revert_commit :: "wal \<Rightarrow> wal \<Rightarrow> wal" where
  "revert_commit l0 l = (if total_written l0 < total_written l then truncate_wal (w_size l0) l else l)"

text \<open>\<open>Flush\<close>; the size is set when the file was synced.\<close>

definition flush_wal :: "wal_config \<Rightarrow> bool \<Rightarrow> wal \<Rightarrow> wal \<times> unit res" where
  "flush_wal cfg sync_fails l =
     (if w_init l \<noteq> INITIALIZED then (l, Inr ())
      else case append_entry cfg flush_record l of
        (l', Inl e) \<Rightarrow> (l', Inl e)
      | (l', Inr _) \<Rightarrow> if sync_fails then (l', Inl (IOException ''Could not fsync file'')) else (l'\<lparr>w_size := length (w_file l')\<rparr>, Inr ()))"

subsection \<open>Commit\<close>

text \<open>\<open>WriteToWAL\<close>\<close>

fun write_undo :: "wal_config \<Rightarrow> stored db \<Rightarrow> (key \<times> nat) list \<Rightarrow> wal \<Rightarrow> wal \<times> unit res" where
  "write_undo cfg db [] l = (l, Inr ())"
| "write_undo cfg db (u # us) l =
     (case undo_record cfg db u of
        Inl e \<Rightarrow> (l, Inl e)
      | Inr None \<Rightarrow> write_undo cfg db us l
      | Inr (Some r) \<Rightarrow>
          (case append_entry cfg (write_record (wc_wire cfg) r) l of
             (l', Inl e) \<Rightarrow> (l', Inl e)
           | (l', Inr _) \<Rightarrow> write_undo cfg db us l'))"

text \<open>The commit of a transaction: nothing is written for one without changes. What can go wrong with the disk:
  a write fails while the records are written, or the file cannot be synced behind the flush record.\<close>

datatype disk = Healthy | WriteFails | SyncFails

definition commit_logged :: "wal_config \<Rightarrow> disk \<Rightarrow> txn \<Rightarrow> stored db \<times> wal \<Rightarrow> (stored db \<times> wal) res" where
  "commit_logged cfg disk t = (\<lambda>(db, l).
     if t_undo t = [] then mapR (\<lambda>db'. (db', l)) (commit_transaction False t db)
     else
       (case write_undo cfg db (t_undo t) l of
          (l1, r) \<Rightarrow>
            if isl r \<or> disk = WriteFails then mapR (\<lambda>db'. (db', revert_commit l l1)) (commit_transaction True t db)
            else (case flush_wal cfg (disk = SyncFails) l1 of
                (l2, Inr _) \<Rightarrow> mapR (\<lambda>db'. (db', l2)) (commit_transaction False t db)
              | (l2, Inl _) \<Rightarrow> mapR (\<lambda>db'. (db', revert_commit l l2)) (commit_transaction True t db))))"

subsection \<open>The shape of the chains\<close>

text \<open>Entries and tombstones alternate; an entry has the type of its set, and data that fits.\<close>

definition data_ok :: "catset \<Rightarrow> catalog_type \<Rightarrow> stored option \<Rightarrow> bool" where
  "data_ok cs ty d = (case d of
     None \<Rightarrow> False
   | Some (StoredModel m _ _) \<Rightarrow> cs = Models \<and> ty = MODEL_ENTRY \<and> fits m
   | Some (StoredEmbedding m _ _) \<Rightarrow> cs = Embeddings \<and> ty = EMBEDDING_ENTRY \<and> in_int32 (em_size m))"

definition entry_shape :: "key \<Rightarrow> stored_entry \<Rightarrow> bool" where
  "entry_shape k e \<longleftrightarrow> \<not> e_temporary e \<and> \<not> e_internal e \<and> key_of (fst k) (e_name e) = k \<and>
     (if e_deleted e then e_type e = INVALID \<or> e_type e = DELETED_ENTRY else data_ok (fst k) (e_type e) (e_data e))"

definition shaped :: "key \<Rightarrow> stored_entry list \<Rightarrow> bool" where
  "shaped k c \<longleftrightarrow> distinct_adj (map e_deleted c) \<and> (\<forall>e \<in> set c. entry_shape k e)"

definition all_shaped :: "stored db \<Rightarrow> bool" where
  "all_shaped db \<longleftrightarrow> (\<forall>k. shaped k (chain_of db k))"

lemma shaped_simps [simp]:
  "shaped k []" "shaped k (e # c) \<longleftrightarrow> entry_shape k e \<and> shaped k c \<and> (c \<noteq> [] \<longrightarrow> e_deleted e \<noteq> e_deleted (hd c))"
  by (auto simp: shaped_def distinct_adj_Cons hd_map)

lemma shaped_append: "shaped k (c @ d) \<Longrightarrow> shaped k c \<and> shaped k d"
  by (induction c) auto

lemma shaped_take: "shaped k c \<Longrightarrow> shaped k (take n c)" and shaped_drop: "shaped k c \<Longrightarrow> shaped k (drop n c)"
  using shaped_append [of k "take n c" "drop n c"] by simp_all

lemma shaped_stamped: "shaped k (stamped cid n c) = shaped k c"
proof -
  have "map e_deleted (stamped cid n c) = map e_deleted c"
    by (simp add: stamped_def comp_def) (metis append_take_drop_id map_append)
  moreover have "entry_shape k (e\<lparr>e_ts := cid\<rparr>) = entry_shape k e" for e :: stored_entry by (simp add: entry_shape_def)
  then have "(\<forall>e \<in> set (stamped cid n c). entry_shape k e) \<longleftrightarrow> (\<forall>e \<in> set (take n c @ drop n c). entry_shape k e)"
    unfolding stamped_def set_append set_map ball_Un ball_simps by simp
  ultimately show ?thesis by (simp add: shaped_def)
qed

lemma shaped_unwound: "shaped k c \<Longrightarrow> shaped k (unwound n c)"
  by (simp add: unwound_def shaped_drop)

lemma all_shaped_new: "all_shaped new_db"
  by (simp add: all_shaped_def chain_of_def new_db_def)

definition live :: "stored db \<Rightarrow> txn \<Rightarrow> bool" where
  "live db t \<longleftrightarrow> (\<exists>u \<in> set (active db). t_id u = t_id t \<and> t_start u = t_start t)"

lemma same_writer: "t_id u = t_id t \<Longrightarrow> write_version u k e db = write_version t k e db"
  by (simp add: write_version_def)

lemma same_free: "t_id u = t_id t \<Longrightarrow> t_start u = t_start t \<Longrightarrow> free_for db u k = free_for db t k"
  by (simp add: free_for_def)

text \<open>What a catalog shows under a key.\<close>

type_synonym known = "catalog_type \<times> string \<times> stored option"
type_synonym view = "key \<Rightarrow> known option"

definition shown :: "stored_entry \<Rightarrow> known option" where
  "shown e = (if e_deleted e then None else Some (e_type e, e_name e, e_data e))"

definition catalog_view :: "stored db \<Rightarrow> view" where
  "catalog_view db k = (case scan_committed db k of None \<Rightarrow> None | Some e \<Rightarrow> shown e)"

lemma catalog_view_alt: "catalog_view db k = (case committed_entry (chain_of db k) of None \<Rightarrow> None | Some e \<Rightarrow> shown e)"
  by (simp add: catalog_view_def scan_committed_def undeleted_def shown_def split: option.splits)

text \<open>A write of a well-formed version on a chain that no other transaction has written.\<close>

definition fits_on :: "stored db \<Rightarrow> key \<Rightarrow> stored_entry \<Rightarrow> bool" where
  "fits_on db k e \<longleftrightarrow> entry_shape k e \<and> e_type e \<noteq> INVALID \<and>
     e_deleted e = (chain_of db k \<noteq> [] \<and> \<not> e_deleted (hd (chain_of db k)))"

lemma chain_of_write:
  assumes "no_empty db"
  shows "chain_of (write_version t k e db) = (chain_of db)(k := e\<lparr>e_addr := new_addr db k, e_ts := t_id t\<rparr> # below db k (e_name e))"
  by (auto simp: write_version_fields [OF assms] chain_of_def fun_eq_iff)

text \<open>A write shows nothing to others before it is committed.\<close>

lemma write_keeps_view:
  assumes ok: "db_ok db" and t: "live db t"
  shows "catalog_view (write_version t k e db) = catalog_view db"
proof
  fix k'
  note p = db_ok_parts [OF ok]
  have "transaction_id_start \<le> t_id t" using t p(2) by (auto simp: live_def active_inv_def)
  then have "committed_entry (e\<lparr>e_addr := new_addr db k, e_ts := t_id t\<rparr> # below db k (e_name e)) = committed_entry (below db k (e_name e))"
    using below_ok [OF p(4,2,1), of k "e_name e"] by (cases "below db k (e_name e)") auto
  moreover have "(case committed_entry (below db k (e_name e)) of None \<Rightarrow> None | Some e \<Rightarrow> shown e) = catalog_view db k"
    by (cases "chains db k") (simp_all add: below_def catalog_view_alt chain_of_def shown_def)
  ultimately show "catalog_view (write_version t k e db) k' = catalog_view db k'"
    by (simp add: catalog_view_alt chain_of_write [OF p(1)])
qed

lemma write_shaped:
  assumes ok: "db_ok db" and sh: "all_shaped db" and t: "live db t" and free: "free_for db t k" and e: "fits_on db k e"
  shows "db_ok (write_version t k e db) \<and> all_shaped (write_version t k e db) \<and> live (write_version t k e db) t \<and>
    catalog_view (write_version t k e db) = catalog_view db"
proof -
  note p = db_ok_parts(1) [OF ok]
  obtain u where u: "u \<in> set (active db)" "t_id u = t_id t" "t_start u = t_start t" using t by (auto simp: live_def)
  have "free_for db u k" using same_free [OF u(2,3), of db k] free by simp
  then have "db_ok (write_version t k e db)"
    using db_ok_write [OF ok u(1), of k e] same_writer [OF u(2), of k e db] e by (simp add: fits_on_def)
  moreover have "shaped k (e\<lparr>e_addr := new_addr db k, e_ts := t_id t\<rparr> # below db k (e_name e))"
    using e sh p [unfolded no_empty_def, rule_format, of k] spec [OF sh [unfolded all_shaped_def], of k]
    by (cases "chains db k") (auto simp: below_def fits_on_def entry_shape_def chain_of_def split: if_splits)
  then have "all_shaped (write_version t k e db)" using sh by (simp add: all_shaped_def chain_of_write [OF p])
  moreover have "live (write_version t k e db) t"
    using u unfolding live_def write_version_fields [OF p] by (auto intro!: bexI [of _ u])
  ultimately show ?thesis using write_keeps_view [OF ok t] by blast
qed

text \<open>The outcomes of a create and of a drop.\<close>

lemma create_shaped:
  assumes "db_ok db" "all_shaped db" "live db t" and e: "entry_shape (key_of cs name) e" "\<not> e_deleted e" "e_type e \<noteq> INVALID"
    and r: "create_entry ck t cs name e db = Inr (b, db')"
  shows "db_ok db' \<and> all_shaped db' \<and> live db' t \<and> catalog_view db' = catalog_view db"
proof -
  have "check_entry_invariants ck name e = Inr ()" using r by (auto simp: create_entry_def res_simps)
  note c = create_entry_cases [OF db_ok_parts(1) [OF assms(1)] this refl, of t cs, unfolded r]
  show ?thesis
  proof (cases "b")
    case True
    then have "free_for db t (key_of cs name)" "fits_on db (key_of cs name) e" "db' = write_version t (key_of cs name) e db"
      using c e by (auto simp: fits_on_def split: if_splits)
    then show ?thesis using write_shaped [OF assms(1-3)] by simp
  next
    case False
    then show ?thesis using c assms(1-3) by (auto split: if_splits)
  qed
qed

lemma drop_written:
  assumes "no_empty db" "drop_entry t cs name allow db = Inr (b, db')" "b"
  shows "\<exists>h es. chain_of db (key_of cs name) = h # es \<and> \<not> e_deleted h \<and> free_for db t (key_of cs name) \<and>
    db' = write_version t (key_of cs name) (tombstone (e_name h)) db"
proof -
  let ?k = "key_of cs name"
  obtain h es where h: "chains db ?k = Some (h # es)" "\<not> has_conflict (t_id t) (t_start t) (e_ts h)" "\<not> e_deleted h"
      "db' = put_version (t_id t) ?k (tombstone (e_name h)) db"
  proof -
    obtain e where e: "get_entry_internal t ?k db = Inr (Some e)" "db' = put_version (t_id t) ?k (tombstone (e_name e)) db"
      using assms(2,3) by (auto simp: drop_entry_def drop_entry_internal_def res_simps split: option.splits if_splits)
    then obtain c where c: "chains db ?k = Some c" by (auto simp: get_entry_internal_def split: option.splits)
    then have "c \<noteq> []" using assms(1) [unfolded no_empty_def, rule_format, of ?k] by auto
    then show thesis using that e c by (cases c) (auto simp: get_entry_internal_def split: if_splits)
  qed
  then show ?thesis by (auto simp: chain_of_def free_for_def write_version_simps(2))
qed

lemma drop_shaped:
  assumes "db_ok db" "all_shaped db" "live db t" and r: "drop_entry t cs name allow db = Inr (b, db')"
  shows "db_ok db' \<and> all_shaped db' \<and> live db' t \<and> catalog_view db' = catalog_view db"
proof (cases b)
  case True
  let ?k = "key_of cs name"
  obtain h es where h: "chain_of db ?k = h # es" "\<not> e_deleted h" "free_for db t ?k" "db' = write_version t ?k (tombstone (e_name h)) db"
    using drop_written [OF db_ok_parts(1) [OF assms(1)] r True] by blast
  have "entry_shape ?k h" using assms(2) h(1) unfolding all_shaped_def by (metis shaped_simps(2))
  then have "fits_on db ?k (tombstone (e_name h))" using h(1,2) by (simp add: fits_on_def entry_shape_def tombstone_def)
  then show ?thesis using write_shaped [OF assms(1-3) h(3)] h(4) by simp
next
  case False
  then have "db' = db" using drop_entry_cases [OF db_ok_parts(1) [OF assms(1)] r refl] by simp
  then show ?thesis using assms by simp
qed

text \<open>What a statement may hold: sizes the code's types admit.\<close>

fun info_fits :: "create_info \<Rightarrow> bool" where
  "info_fits (ModelInfo b n d) \<longleftrightarrow> fits d"
| "info_fits (EmbeddingInfo b n d) \<longleftrightarrow> in_int32 (em_size d)"

definition set_of_info :: "create_info \<Rightarrow> catset" where
  "set_of_info i = (case i of ModelInfo _ _ _ \<Rightarrow> Models | EmbeddingInfo _ _ _ \<Rightarrow> Embeddings)"

lemma info_entry:
  "get_catalog_set (e_type (entry_of_info i)) = Inr (set_of_info i)" "\<not> e_deleted (entry_of_info i)" "e_type (entry_of_info i) \<noteq> INVALID"
  "\<not> e_internal (entry_of_info i)" "e_temporary (entry_of_info i) = cb_temporary (info_base i)"
  by (cases i; simp add: new_entry_def set_of_info_def)+

lemma info_entry_shape:
  "info_fits i \<Longrightarrow> \<not> cb_temporary (info_base i) \<Longrightarrow> entry_shape (key_of (set_of_info i) (e_name (entry_of_info i))) (entry_of_info i)"
  by (cases i) (simp_all add: new_entry_def set_of_info_def entry_shape_def data_ok_def key_of_def)

lemma plain_invariants: "\<not> e_internal e \<Longrightarrow> check_entry_invariants user_catalog name e = Inr () \<longleftrightarrow> \<not> e_temporary e"
  by (simp add: user_catalog_def check_entry_invariants_def)

lemma create_object_shaped:
  assumes "db_ok db" "all_shaped db" "live db t" "info_fits i"
    and r: "create_object cfg t i db = Inr (b, db')"
  shows "db_ok db' \<and> all_shaped db' \<and> live db' t \<and> catalog_view db' = catalog_view db"
proof -
  let ?e = "entry_of_info i" and ?cs = "set_of_info i"
  consider "db' = db" | db1 b1 where "replace_old t ?cs ?e (cb_conflict (info_base i)) db = Inr db1"
      "create_entry user_catalog t ?cs (e_name ?e) ?e db1 = Inr (b1, db')"
    using r info_entry(1) [of i]
    by (auto simp: create_object_def add_entry_def res_simps split: if_splits)
  then show ?thesis
  proof cases
    case 2
    have "db_ok db1 \<and> all_shaped db1 \<and> live db1 t \<and> catalog_view db1 = catalog_view db"
      using 2(1) assms(1-3) drop_shaped [OF assms(1-3)]
      by (auto simp: replace_old_def res_simps split: if_splits option.splits)
    moreover have "\<not> cb_temporary (info_base i)"
      using 2(2) plain_invariants [OF info_entry(4)] info_entry(5) by (auto simp: create_entry_def res_simps)
    ultimately show ?thesis
      using create_shaped [OF _ _ _ info_entry_shape [OF assms(4)] info_entry(2,3) 2(2)] by simp
  qed (use assms in simp)
qed

lemma drop_object_shaped:
  assumes "db_ok db" "all_shaped db" "live db t" and r: "drop_object cfg t ty sch name missing db = Inr db'"
  shows "db_ok db' \<and> all_shaped db' \<and> live db' t \<and> catalog_view db' = catalog_view db"
proof -
  consider "db' = db" | cs b where "drop_entry t cs name False db = Inr (b, db')"
    using r by (auto simp: drop_object_def schema_drop_def res_simps split: if_splits option.splits)
  then show ?thesis using drop_shaped [OF assms(1-3)] assms(1-3) by cases auto
qed

subsection \<open>The effect of a record\<close>

text \<open>What a record that a commit has written does to a view.\<close>

definition plain_base :: "wal_config \<Rightarrow> create_base \<Rightarrow> bool" where
  "plain_base cfg b \<longleftrightarrow> \<not> cb_temporary b \<and> cb_conflict b = ErrorOnConflict \<and> get_schema cfg (cb_schema b) = Inr ()"

definition info_op :: "wal_config \<Rightarrow> create_info \<Rightarrow> (key \<times> known option) option" where
  "info_op cfg i = (if plain_base cfg (info_base i) \<and> info_fits i
     then Some (key_of (set_of_info i) (e_name (entry_of_info i)), shown (entry_of_info i)) else None)"

fun record_op :: "wal_config \<Rightarrow> wal_record \<Rightarrow> (key \<times> known option) option" where
  "record_op cfg (CreateModelRecord (Some i)) = (if set_of_info i = Models then info_op cfg i else None)"
| "record_op cfg (CreateEmbeddingRecord (Some i)) = (if set_of_info i = Embeddings then info_op cfg i else None)"
| "record_op cfg (DropModelRecord sch n) = (if get_schema cfg sch = Inr () then Some (key_of Models n, None) else None)"
| "record_op cfg (DropEmbeddingRecord sch n) = (if get_schema cfg sch = Inr () then Some (key_of Embeddings n, None) else None)"
| "record_op cfg _ = None"

definition record_effect :: "wal_config \<Rightarrow> wal_record \<Rightarrow> view \<Rightarrow> view option" where
  "record_effect cfg r v = (case record_op cfg r of
     None \<Rightarrow> None | Some (k, x) \<Rightarrow> if (x = None) = (v k = None) then None else Some (v(k := x)))"

lemma info_of_shaped:
  assumes "data_ok cs (e_type e) (e_data e)"
  shows "\<exists>i. info_of_entry cfg e = Inr i \<and> info_ok (wc_wire cfg) i \<and> info_fits i \<and> plain_base cfg (info_base i) \<and>
    set_of_info i = cs \<and> e_name (entry_of_info i) = e_name e \<and> e_type (entry_of_info i) = e_type e \<and> e_data (entry_of_info i) = e_data e"
  using assms
  by (auto simp: data_ok_def info_of_entry_def entry_base_def base_ok_def plain_base_def get_schema_def set_of_info_def
      new_entry_def catalog_types_def split: option.splits stored.splits)

lemma catalog_record:
  assumes e: "entry_shape k e" and p: "entry_shape k p" and alt: "e_deleted e \<noteq> e_deleted p" and ty: "e_type p \<noteq> INVALID"
  shows "\<exists>r. write_catalog_entry cfg e p = Inr (Some r) \<and> record_ok (wc_wire cfg) r \<and> (\<forall>v i n. r \<noteq> VersionRecord v i n) \<and>
    record_op cfg r = Some (k, shown p)"
proof (cases "e_deleted p")
  case True
  then have t: "e_type p = DELETED_ENTRY" "data_ok (fst k) (e_type e) (e_data e)" "\<not> e_temporary e" "\<not> e_temporary p"
      "key_of (fst k) (e_name e) = k" using assms by (auto simp: entry_shape_def)
  have w: "write_catalog_entry cfg e p = write_drop cfg e" "shown p = None" using t(1,3,4) True by (simp_all add: write_catalog_entry_def shown_def)
  have s: "get_schema cfg (wc_schema cfg) = Inr ()" by (simp add: get_schema_def)
  from t(2) consider "e_type e = MODEL_ENTRY" "fst k = Models" | "e_type e = EMBEDDING_ENTRY" "fst k = Embeddings"
    by (auto simp: data_ok_def split: option.splits stored.splits)
  then show ?thesis
  proof cases
    case 1
    then show ?thesis unfolding w using t(5) s
      by (intro exI [of _ "DropModelRecord (wc_schema cfg) (e_name e)"]) (simp add: write_drop_def)
  next
    case 2
    then show ?thesis unfolding w using t(5) s
      by (intro exI [of _ "DropEmbeddingRecord (wc_schema cfg) (e_name e)"]) (simp add: write_drop_def)
  qed
next
  case False
  then have t: "data_ok (fst k) (e_type p) (e_data p)" "e_type e = INVALID \<or> e_type e = DELETED_ENTRY" "\<not> e_temporary e"
      "\<not> e_temporary p" "key_of (fst k) (e_name p) = k" using assms by (auto simp: entry_shape_def)
  obtain i where i: "info_of_entry cfg p = Inr i" "info_ok (wc_wire cfg) i" "info_fits i" "plain_base cfg (info_base i)" "set_of_info i = fst k"
      "e_name (entry_of_info i) = e_name p" "e_type (entry_of_info i) = e_type p" "e_data (entry_of_info i) = e_data p"
    using info_of_shaped [OF t(1)] by blast
  have op: "info_op cfg i = Some (k, shown p)"
    using i t(5) False info_entry(2) by (simp add: info_op_def shown_def)
  have ne: "e_type e \<noteq> RENAMED_ENTRY" "e_type e \<noteq> MODEL_ENTRY" "e_type e \<noteq> EMBEDDING_ENTRY" using t(2) by auto
  from t(1) consider "e_type p = MODEL_ENTRY" "fst k = Models" | "e_type p = EMBEDDING_ENTRY" "fst k = Embeddings"
    by (auto simp: data_ok_def split: option.splits stored.splits)
  then show ?thesis
  proof cases
    case 1
    then show ?thesis using t(3,4) ne i(1,2,5) op
      by (intro exI [of _ "CreateModelRecord (Some i)"]) (simp add: write_catalog_entry_def write_create_def)
  next
    case 2
    then show ?thesis using t(3,4) ne i(1,2,5) op
      by (intro exI [of _ "CreateEmbeddingRecord (Some i)"]) (simp add: write_catalog_entry_def write_create_def)
  qed
qed

text \<open>The undo entries of a transaction, as places in the chains.\<close>

lemma version_at_nth:
  "distinct (map e_addr c) \<Longrightarrow> Suc i < length c \<Longrightarrow> version_at (e_addr (c ! Suc i)) c = Some (c ! Suc i, c ! i)"
proof (induction c arbitrary: i)
  case (Cons p c)
  then obtain e es where c: "c = e # es" by (cases c) auto
  show ?case
  proof (cases i)
    case (Suc j)
    then have "e_addr (es ! j) \<noteq> e_addr e" using Cons.prems c by (metis c distinct.simps(2) length_Cons length_map list.simps(9) not_less_eq nth_map nth_mem)
    then show ?thesis using Cons.IH [of j] Cons.prems c Suc by auto
  qed (simp add: c)
qed simp

lemma undo_place:
  assumes ok: "db_ok db" and t: "t \<in> set (active db)" and i: "i < writes k t"
  shows "writes k t < length (chain_of db k) \<and> undo_of k (t_undo t) ! i = e_addr (chain_of db k ! (writes k t - i))"
proof -
  note p = db_ok_parts [OF ok]
  obtain us cs where s: "chain_of db k = us @ cs" "cs = [] \<longrightarrow> us = []" "length us = writes k t"
    "rev (undo_of k (t_undo t)) = map e_addr (tl (us @ [hd cs]))" by (rule split_writer [OF p(2) t p(4)])
  have ne: "us \<noteq> []" "cs \<noteq> []" using s(2,3) i by auto
  let ?n = "writes k t"
  have "undo_of k (t_undo t) ! i = rev (map e_addr (tl (us @ [hd cs]))) ! i" using s(4) by (metis rev_rev_ident)
  also have "\<dots> = map e_addr (tl (us @ [hd cs])) ! (?n - 1 - i)" using i s(3) ne(1) by (subst rev_nth) simp_all
  also have "\<dots> = e_addr (tl (us @ [hd cs]) ! (?n - 1 - i))" using i s(3) by (intro nth_map) simp
  also have "tl (us @ [hd cs]) ! (?n - 1 - i) = (us @ [hd cs]) ! Suc (?n - 1 - i)" using i s(3) by (intro nth_tl) simp
  also have "Suc (?n - 1 - i) = ?n - i" using i by simp
  also have "(us @ [hd cs]) ! (?n - i) = chain_of db k ! (?n - i)" using s(1,3) ne by (cases i) (auto simp: nth_append hd_conv_nth)
  finally show ?thesis using s(1,3) ne(2) by (cases cs) auto
qed

subsection \<open>The log while a commit writes\<close>

definition valid_log :: "wal \<Rightarrow> byte list" where
  "valid_log l = take (w_size l) (w_file l)"

definition wal_ok :: "wal \<Rightarrow> bool" where
  "wal_ok l \<longleftrightarrow> w_size l \<le> length (w_file l) \<and> (w_init l \<noteq> UNINITIALIZED_REQUIRES_TRUNCATE \<longrightarrow> w_size l = length (w_file l))"

text \<open>The log \<open>l0\<close> after it was opened and \<open>bs\<close> was appended.\<close>

definition appended :: "wal \<Rightarrow> byte list \<Rightarrow> wal \<Rightarrow> bool" where
  "appended l0 bs l \<longleftrightarrow> w_file l = valid_log l0 @ bs \<and> w_size l = w_size l0 \<and> w_init l = INITIALIZED \<and>
     w_written l = total_written l0 + length bs"

lemma initialize_appended: "wal_ok l \<Longrightarrow> appended l [] (initialize l)"
  by (cases "w_init l") (simp_all add: wal_ok_def appended_def initialize_def valid_log_def total_written_def)

lemma initialize_twice [simp]: "initialize (initialize l) = initialize l"
  by (cases "w_init l") (simp_all add: initialize_def)

lemma append_entry_opened: "append_entry cfg entry (initialize l) = append_entry cfg entry l"
  by (simp add: append_entry_def)

definition missing_header :: "byte list \<Rightarrow> byte list \<Rightarrow> byte list" where
  "missing_header hdr bs = (if bs = [] then hdr else [])"

lemma append_entry_appended:
  assumes "write_version_record 2 (wc_identity cfg) (wc_iteration cfg) = Inr hdr" "appended l0 bs l"
  shows "\<exists>l'. append_entry cfg entry l = (l', map_sum id (\<lambda>_. ()) entry) \<and>
    appended l0 (bs @ missing_header hdr (valid_log l0 @ bs) @ (case entry of Inl e \<Rightarrow> [] | Inr b \<Rightarrow> frame b)) l'"
  using assms
  by (cases entry) (auto simp: append_entry_def initialize_def write_header_def appended_def append_bytes_def missing_header_def)

lemma revert_appended:
  assumes "appended l0 bs l" "wal_ok l0"
  shows "w_file (revert_commit l0 l) = valid_log l0 \<and> w_size (revert_commit l0 l) = w_size l0 \<and> w_init (revert_commit l0 l) = INITIALIZED"
  using assms
  by (cases "bs = []") (auto simp: appended_def revert_commit_def truncate_wal_def valid_log_def wal_ok_def total_written_def min_def)

subsection \<open>What a commit appends\<close>

text \<open>The view of a transaction after a part of its undo entries.\<close>

definition view_after :: "stored db \<Rightarrow> txn \<Rightarrow> (key \<times> nat) list \<Rightarrow> view" where
  "view_after db t us k = (if writes k t = 0 then catalog_view db k
     else shown (chain_of db k ! (writes k t - length (undo_of k us))))"

lemma undo_step:
  assumes ok: "db_ok db" and sh: "all_shaped db" and t: "t \<in> set (active db)" and us: "t_undo t = us @ (k, a) # vs"
  shows "\<exists>r. undo_record cfg db (k, a) = Inr (Some r) \<and> record_ok (wc_wire cfg) r \<and> (\<forall>v i n. r \<noteq> VersionRecord v i n) \<and>
    record_effect cfg r (view_after db t us) = Some (view_after db t (us @ [(k, a)]))"
proof -
  let ?c = "chain_of db k" and ?n = "writes k t" and ?i = "length (undo_of k us)"
  note p = db_ok_parts [OF ok]
  have split: "undo_of k (t_undo t) = undo_of k us @ a # undo_of k vs" using us by (simp add: undo_of_def)
  have i: "?i < ?n" "undo_of k (t_undo t) ! ?i = a" unfolding writes_def split by simp_all
  have at: "?n < length ?c" "a = e_addr (?c ! Suc (?n - Suc ?i))" using undo_place [OF ok t i(1)] i by (simp_all add: Suc_diff_Suc)
  let ?e = "?c ! Suc (?n - Suc ?i)" and ?p = "?c ! (?n - Suc ?i)"
  have dist: "distinct (map e_addr ?c)" using p(4) [of k] by (simp add: chain_inv_def)
  have found: "version_at a ?c = Some (?e, ?p)" using version_at_nth [OF dist, of "?n - Suc ?i"] at i(1) by simp
  have shk: "shaped k ?c" using sh unfolding all_shaped_def by blast
  then have e: "entry_shape k ?e" "entry_shape k ?p" using at(1) i(1) unfolding shaped_def by (auto intro: nth_mem)
  have "distinct_adj (map e_deleted ?c)" using shk by (simp add: shaped_def)
  then have alt: "e_deleted ?e \<noteq> e_deleted ?p"
    using at(1) i(1) by (auto simp: distinct_adj_conv_nth)
  have "?p \<in> set (butlast ?c)" using at(1) i(1) by (auto simp: in_set_conv_nth nth_butlast intro!: exI [of _ "?n - Suc ?i"])
  then have "e_type ?p \<noteq> INVALID" using p(4) [of k] by (simp add: chain_inv_def)
  from catalog_record [OF e alt this, of cfg]
  obtain r where r: "write_catalog_entry cfg ?e ?p = Inr (Some r)" "record_ok (wc_wire cfg) r" "\<forall>v i n. r \<noteq> VersionRecord v i n"
      "record_op cfg r = Some (k, shown ?p)" by blast
  have here: "view_after db t us k = shown ?e" using i(1) by (simp add: view_after_def Suc_diff_Suc)
  have "(view_after db t us)(k := shown ?p) = view_after db t (us @ [(k, a)])"
    using i(1) by (auto simp: view_after_def undo_of_def fun_eq_iff)
  then have "record_effect cfg r (view_after db t us) = Some (view_after db t (us @ [(k, a)]))"
    using r(4) here alt by (simp add: record_effect_def) (simp add: shown_def)
  then show ?thesis using r(1-3) found by (intro exI [of _ r]) (simp add: undo_record_def)
qed

lemma committed_below:
  assumes ok: "db_ok db" and t: "t \<in> set (active db)" and w: "writes k t \<noteq> 0"
  shows "committed_entry (chain_of db k) = Some (chain_of db k ! writes k t)"
proof -
  note p = db_ok_parts [OF ok]
  obtain us cs where s: "chain_of db k = us @ cs" "cs = [] \<longrightarrow> us = []" "length us = writes k t" "\<forall>e \<in> set us. e_ts e = t_id t"
    by (rule split_writer [OF p(2) t p(4) [of k]])
  have ids: "transaction_id_start \<le> t_id t" "current_start_timestamp db \<le> transaction_id_start" using p(2) t by (simp_all add: active_inv_def)
  obtain h ds where h: "cs = h # ds" using s(2,3) w by (cases cs) auto
  have "committed_entry (us @ cs) = committed_entry cs" using s(4) ids h by (intro committed_skips) auto
  moreover have "committed_entry cs = Some h"
  proof (cases "ds = []")
    case False
    have "e_type h \<noteq> INVALID" using invalid_last [OF p(4) [of k, unfolded s(1) h]] False by blast
    then have u: "unwound (writes k t) (chain_of db k) = cs" using s(1,3) h by (simp add: unwound_def)
    have a: "active_inv (current_start_timestamp db) (current_transaction_id db) (other_txns t (active db))"
      using p(2) by (auto simp: active_inv_def distinct_map_filter)
    have c: "chain_inv (current_start_timestamp db) (next_addr db) (waiting db @ recently_committed db) (other_txns t (active db)) k cs"
      using chain_inv_rolled_back [OF p(2) t p(4) order_refl, of k] u by simp
    have d: "done_inv (current_start_timestamp db) (waiting db) (recently_committed db) (other_txns t (active db))"
      using p(3) by (auto simp: done_inv_def)
    have "undo_of k (t_undo u) = []" if "u \<in> set (other_txns t (active db))" for u
    proof -
      have "u \<in> set (active db)" "t_id t \<noteq> t_id u" using that by auto
      then have "undo_of k (t_undo t) = [] \<or> undo_of k (t_undo u) = []" using p(2) t unfolding active_inv_def by blast
      then show ?thesis using w by (auto simp: writes_def)
    qed
    then have "e_ts h < current_start_timestamp db" using chain_timestamps [OF a d c, of h] h by auto
    then show ?thesis using committed_hit [of h ds] ids h by simp
  qed (simp add: h)
  ultimately show ?thesis using s(1,3) h by (metis nth_append_length)
qed

lemma view_before:
  assumes "db_ok db" "t \<in> set (active db)"
  shows "view_after db t [] = catalog_view db"
  using committed_below [OF assms] by (auto simp: view_after_def catalog_view_alt undo_of_def fun_eq_iff)

lemma view_committed:
  assumes ok: "db_ok db" and t: "t \<in> set (active db)" and clock: "current_start_timestamp db < transaction_id_start"
    and ch: "chain_of db' = (\<lambda>k. stamped (current_start_timestamp db) (writes k t) (chain_of db k))"
  shows "view_after db t (t_undo t) = catalog_view db'"
proof
  fix k
  show "view_after db t (t_undo t) k = catalog_view db' k"
  proof (cases "writes k t = 0")
    case False
    then have "writes k t < length (chain_of db k)" using undo_place [OF ok t, of 0 k] by simp
    then obtain e es where c: "chain_of db k = e # es" by (cases "chain_of db k") simp_all
    have "committed_entry (stamped (current_start_timestamp db) (writes k t) (chain_of db k)) = Some (e\<lparr>e_ts := current_start_timestamp db\<rparr>)"
      using False clock committed_hit [of "e\<lparr>e_ts := current_start_timestamp db\<rparr>"] by (cases "writes k t") (simp_all add: stamped_def c)
    moreover have "writes k t - length (undo_of k (t_undo t)) = 0" by (simp add: writes_def)
    ultimately show ?thesis using False c by (simp add: view_after_def catalog_view_alt ch shown_def)
  qed (simp add: view_after_def catalog_view_alt ch stamped_def)
qed

lemma view_same: "(\<And>k. same_views acts (chain_of db k) (chain_of db' k)) \<Longrightarrow> catalog_view db' = catalog_view db"
  by (simp add: catalog_view_def scan_committed_def same_views_def fun_eq_iff)

lemma view_unwound:
  assumes "db_ok db" "t \<in> set (active db)" "chain_of db' = (\<lambda>k. unwound (writes k t) (chain_of db k))"
  shows "catalog_view db' = catalog_view db"
  using same_views_unwound [OF assms(1,2)] by (intro view_same) (simp add: assms(3))

text \<open>The records a commit appends replay to what it commits.\<close>

definition writable :: "wal_config \<Rightarrow> stored db \<Rightarrow> (key \<times> nat) list \<Rightarrow> bool" where
  "writable cfg db us \<longleftrightarrow> (\<forall>u \<in> set us. case undo_record cfg db u of
     Inr (Some r) \<Rightarrow> \<not> isl (write_record (wc_wire cfg) r) | _ \<Rightarrow> False)"

lemma write_undo_appends:
  assumes ok: "db_ok db" and sh: "all_shaped db" and t: "t \<in> set (active db)" and us: "t_undo t = us @ vs"
    and hdr: "write_version_record 2 (wc_identity cfg) (wc_iteration cfg) = Inr hdr" "hdr \<noteq> []" and a: "appended l0 bs l"
  shows "\<exists>l' r bs'. write_undo cfg db vs l = (l', r) \<and> appended l0 (bs @ bs') l' \<and> (writable cfg db vs \<longleftrightarrow> r = Inr ()) \<and>
    (r = Inr () \<longrightarrow> (\<exists>its. list_all (item_ok (wc_wire cfg)) its \<and> list_all (\<lambda>it. fst it \<noteq> None) its \<and>
      play (record_effect cfg) (view_after db t us) its = Some (view_after db t (t_undo t)) \<and> length its = length vs \<and>
      bs' = (if vs = [] then [] else missing_header hdr (valid_log l0 @ bs)) @ frames its))"
  using us a
proof (induction vs arbitrary: us bs l)
  case Nil
  then show ?case by (auto simp: writable_def intro!: exI [of _ "[] :: item list"] exI [of _ "[] :: byte list"])
next
  case (Cons u vs)
  obtain k a where u: "u = (k, a)" by (cases u)
  obtain r where r: "undo_record cfg db u = Inr (Some r)" "record_ok (wc_wire cfg) r" "\<forall>v i n. r \<noteq> VersionRecord v i n"
      "record_effect cfg r (view_after db t us) = Some (view_after db t (us @ [u]))"
    using undo_step [OF ok sh t, of us k a vs cfg] Cons.prems(1) u by auto
  let ?h = "missing_header hdr (valid_log l0 @ bs)"
  obtain l1 where l1: "append_entry cfg (write_record (wc_wire cfg) r) l = (l1, map_sum id (\<lambda>_. ()) (write_record (wc_wire cfg) r))"
      "appended l0 (bs @ ?h @ (case write_record (wc_wire cfg) r of Inl e \<Rightarrow> [] | Inr b \<Rightarrow> frame b)) l1"
    using append_entry_appended [OF hdr(1) Cons.prems(2), of "write_record (wc_wire cfg) r"] by blast
  show ?case
  proof (cases "write_record (wc_wire cfg) r")
    case (Inl e)
    then show ?thesis using l1 r(1) by (auto simp: writable_def)
  next
    case (Inr b)
    have "t_undo t = (us @ [u]) @ vs" "appended l0 (bs @ ?h @ frame b) l1" using Cons.prems(1) l1(2) Inr by simp_all
    from Cons.IH [OF this] obtain l' r' bs' where IH: "write_undo cfg db vs l1 = (l', r')" "appended l0 ((bs @ ?h @ frame b) @ bs') l'"
        "writable cfg db vs \<longleftrightarrow> r' = Inr ()" "r' = Inr () \<longrightarrow> (\<exists>its. list_all (item_ok (wc_wire cfg)) its \<and> list_all (\<lambda>it. fst it \<noteq> None) its \<and>
      play (record_effect cfg) (view_after db t (us @ [u])) its = Some (view_after db t (t_undo t)) \<and> length its = length vs \<and>
      bs' = (if vs = [] then [] else missing_header hdr (valid_log l0 @ bs @ ?h @ frame b)) @ frames its)" by auto
    have "write_undo cfg db (u # vs) l = (l', r')" using r(1) l1(1) Inr IH(1) by simp
    moreover have "\<exists>its. list_all (item_ok (wc_wire cfg)) its \<and> list_all (\<lambda>it. fst it \<noteq> None) its \<and>
        play (record_effect cfg) (view_after db t us) its = Some (view_after db t (t_undo t)) \<and> length its = length (u # vs) \<and>
        ?h @ frame b @ bs' = ?h @ frames its" if r': "r' = Inr ()"
    proof -
      obtain its where its: "list_all (item_ok (wc_wire cfg)) its" "list_all (\<lambda>it. fst it \<noteq> None) its"
          "play (record_effect cfg) (view_after db t (us @ [u])) its = Some (view_after db t (t_undo t))" "length its = length vs"
          "bs' = frames its"
        using IH(4) r' by (auto simp: missing_header_def)
      show ?thesis using its r Inr by (intro exI [of _ "(Some r, b) # its"]) simp
    qed
    moreover have "writable cfg db (u # vs) \<longleftrightarrow> r' = Inr ()" using IH(3) r(1) Inr by (simp add: writable_def)
    ultimately show ?thesis using IH(2) by (intro exI [of _ l'] exI [of _ r'] exI [of _ "?h @ frame b @ bs'"]) simp
  qed
qed

lemma header_not_empty: "write_version_record v identity iter = Inr hdr \<Longrightarrow> hdr \<noteq> []"
  by (auto simp: write_version_record_def write_object_Cons write_type_def write_property_def write_field_def)

lemma flush_written: "\<exists>b. flush_record = Inr b"
  by (simp add: flush_record_def write_object_def write_type_def write_property_def)

text \<open>The outcome of a commit: the log and the committed catalog stay, or the log grows by the records of what
  the catalog has become.\<close>

definition kept :: "stored db \<times> wal \<Rightarrow> stored db \<times> wal \<Rightarrow> bool" where
  "kept s s' \<longleftrightarrow> catalog_view (fst s') = catalog_view (fst s) \<and> (snd s' = snd s \<or>
     w_file (snd s') = valid_log (snd s) \<and> w_size (snd s') = w_size (snd s) \<and> w_init (snd s') = INITIALIZED)"

definition grown :: "wal_config \<Rightarrow> byte list \<Rightarrow> item list \<Rightarrow> stored db \<times> wal \<Rightarrow> stored db \<times> wal \<Rightarrow> bool" where
  "grown cfg hdr its s s' \<longleftrightarrow> list_all (item_ok (wc_wire cfg)) its \<and>
     (\<exists>rs f. its = rs @ [(None, f)] \<and> list_all (\<lambda>it. fst it \<noteq> None) rs) \<and>
     play (record_effect cfg) (catalog_view (fst s)) its = Some (catalog_view (fst s')) \<and>
     w_file (snd s') = valid_log (snd s) @ missing_header hdr (valid_log (snd s)) @ frames its \<and>
     w_size (snd s') = length (w_file (snd s')) \<and> w_init (snd s') = INITIALIZED"

lemma play_append: "play eff u (its @ its') = (case play eff u its of None \<Rightarrow> None | Some u' \<Rightarrow> play eff u' its')"
proof (induction eff u its rule: play.induct)
  case (3 eff u r b its)
  then show ?case by (cases "eff r u") simp_all
qed simp_all

lemma aborted_commit:
  assumes "db_ok db" "all_shaped db" "t \<in> set (active db)" "chain_of db' = (\<lambda>k. unwound (writes k t) (chain_of db k))"
    and "appended l bs l1" "wal_ok l"
  shows "all_shaped db' \<and> kept (db, l) (db', revert_commit l l1)"
proof -
  have "all_shaped db'" using assms(2) shaped_unwound unfolding all_shaped_def assms(4) by blast
  then show ?thesis using view_unwound [OF assms(1,3,4)] revert_appended [OF assms(5,6)] by (simp add: kept_def)
qed

lemma commit_logged_outcome:
  assumes ok: "db_ok db" and sh: "all_shaped db" and t: "t \<in> set (active db)" and clock: "current_start_timestamp db < transaction_id_start"
    and hdr: "write_version_record 2 (wc_identity cfg) (wc_iteration cfg) = Inr hdr" and wal: "wal_ok l"
  shows "\<exists>db' l'. commit_logged cfg disk t (db, l) = Inr (db', l') \<and> db_ok db' \<and> all_shaped db' \<and> active db' = other_txns t (active db) \<and>
    (if t_undo t = [] \<or> disk \<noteq> Healthy \<or> \<not> writable cfg db (t_undo t) then kept (db, l) (db', l')
     else (\<exists>its. grown cfg hdr its (db, l) (db', l')) \<and> catalog_view db' = view_after db t (t_undo t))"
proof -
  obtain dc where dc: "commit_transaction False t db = Inr dc" "db_ok dc" "active dc = other_txns t (active db)"
      "chain_of dc = (\<lambda>k. stamped (current_start_timestamp db) (writes k t) (chain_of db k))"
    using commit_result [OF ok t clock] by blast
  obtain da where da: "commit_transaction True t db = Inr da" "db_ok da" "active da = other_txns t (active db)"
      "chain_of da = (\<lambda>k. unwound (writes k t) (chain_of db k))"
    using failed_commit_result [OF ok t clock] by blast
  have shc: "all_shaped dc" using sh unfolding all_shaped_def dc(4) shaped_stamped .
  note vc = view_committed [OF ok t clock dc(4)] and vb = view_before [OF ok t]
  show ?thesis
  proof (cases "t_undo t = []")
    case True
    have "kept (db, l) (dc, l)" using vc vb True by (simp add: kept_def)
    then show ?thesis using True dc shc by (simp add: commit_logged_def)
  next
    case False
    obtain l1 r bs where w: "write_undo cfg db (t_undo t) (initialize l) = (l1, r)" "appended l bs l1" "writable cfg db (t_undo t) \<longleftrightarrow> r = Inr ()"
      "r = Inr () \<longrightarrow> (\<exists>its. list_all (item_ok (wc_wire cfg)) its \<and> list_all (\<lambda>it. fst it \<noteq> None) its \<and>
        play (record_effect cfg) (catalog_view db) its = Some (catalog_view dc) \<and> bs = missing_header hdr (valid_log l) @ frames its)"
      using write_undo_appends [OF ok sh t _ hdr header_not_empty [OF hdr] initialize_appended [OF wal], of "[]" "t_undo t"] False
      unfolding vc vb by auto
    have open': "write_undo cfg db (t_undo t) l = write_undo cfg db (t_undo t) (initialize l)"
    proof -
      obtain k a us where u: "t_undo t = (k, a) # us" using False by (cases "t_undo t") auto
      obtain rec where "undo_record cfg db (k, a) = Inr (Some rec)" using undo_step [OF ok sh t, of "[]" k a us cfg] u by auto
      then show ?thesis unfolding u by (simp add: append_entry_opened)
    qed
    show ?thesis
    proof (cases "isl r \<or> disk = WriteFails")
      case True
      then have "commit_logged cfg disk t (db, l) = Inr (da, revert_commit l l1)" using False open' w(1) da(1) by (simp add: commit_logged_def)
      moreover have "disk \<noteq> Healthy \<or> \<not> writable cfg db (t_undo t)" using True w(3) by auto
      ultimately show ?thesis using aborted_commit [OF ok sh t da(4) w(2) wal] da(2,3) False by auto
    next
      case written: False
      then have r: "r = Inr ()" by (cases r) simp_all
      obtain its where its: "list_all (item_ok (wc_wire cfg)) its" "list_all (\<lambda>it. fst it \<noteq> None) its"
          "play (record_effect cfg) (catalog_view db) its = Some (catalog_view dc)" "bs = missing_header hdr (valid_log l) @ frames its"
        using w(4) r by blast
      obtain f where f: "flush_record = Inr f" using flush_written by blast
      have "valid_log l @ bs \<noteq> []" using its(4) header_not_empty [OF hdr] by (simp add: missing_header_def)
      then obtain l2 where l2: "append_entry cfg flush_record l1 = (l2, Inr ())" "appended l (bs @ frame f) l2"
        using append_entry_appended [OF hdr w(2), of flush_record] unfolding f by (auto simp: missing_header_def)
      have opened: "w_init l1 = INITIALIZED" using w(2) by (simp add: appended_def)
      show ?thesis
      proof (cases "disk = SyncFails")
        case True
        then have "commit_logged cfg disk t (db, l) = Inr (da, revert_commit l l2)"
          using False open' w(1) r opened l2(1) da(1) by (simp add: commit_logged_def flush_wal_def)
        then show ?thesis using aborted_commit [OF ok sh t da(4) l2(2) wal] da(2,3) True by auto
      next
        case synced: False
        let ?l = "l2\<lparr>w_size := length (w_file l2)\<rparr>"
        have "disk = Healthy" using synced written by (cases disk) simp_all
        moreover have "commit_logged cfg disk t (db, l) = Inr (dc, ?l)"
          using False open' w(1) r opened l2(1) dc(1) written synced by (simp add: commit_logged_def flush_wal_def)
        moreover have "grown cfg hdr (its @ [(None, f)]) (db, l) (dc, ?l)"
          using its f l2(2) by (auto simp: grown_def play_append appended_def)
        ultimately show ?thesis using dc(2,3) shc vc False w(3) r by auto
      qed
    qed
  qed
qed

end
