(* ===== verification/Durability.thy ===== *)
theory Durability
  imports Wal_Commit
begin

section \<open>Recovery after a crash\<close>

text \<open>
  The catalog as the target of a replay (\<open>ReplayCreateModel\<close> and its siblings in
  \<open>src/storage/wal_replay.cpp\<close>), the recovery of a database that was never checkpointed from a prefix
  of its log (\<open>SingleFileStorageManager::LoadDatabase\<close>), and runs of several transactions with crashes
  in between. What is shown: whatever part of the file survives, the recovered catalog is the one after
  exactly the commits whose flush record survived.
\<close>

subsection \<open>The catalog as the target of a replay\<close>

text \<open>A connection: the database and the identifier of the transaction.\<close>

type_synonym connection = "stored db \<times> nat"

definition in_txn :: "(txn \<Rightarrow> stored db \<Rightarrow> stored db res) \<Rightarrow> connection \<Rightarrow> connection res" where
  "in_txn f = (\<lambda>(db, i). case find_txn db i of
     None \<Rightarrow> Inl (TransactionException ''no transaction is active'')
   | Some t \<Rightarrow> mapR (\<lambda>db'. (db', i)) (f t db))"

definition connection_begin :: "connection \<Rightarrow> connection res" where
  "connection_begin = (\<lambda>(db, _). mapR (\<lambda>db'. (db', current_transaction_id db)) (start_transaction db))"

definition connection_commit :: "connection \<Rightarrow> connection res" where
  "connection_commit = in_txn (\<lambda>t db. bindR (commit_transaction False t db) cleanup_transactions)"

definition connection_rollback :: "connection \<Rightarrow> connection res" where
  "connection_rollback = in_txn (\<lambda>t db. bindR (rollback_transaction t db) cleanup_transactions)"

definition replay_create :: "wal_config \<Rightarrow> catset \<Rightarrow> create_info option \<Rightarrow> connection \<Rightarrow> connection res" where
  "replay_create cfg cs i s = (case i of
     None \<Rightarrow> Inl (InternalException ''Attempted to dereference unique_ptr that is NULL!'')
   | Some i \<Rightarrow> if set_of_info i \<noteq> cs then Inl (Undefined ''cast to another statement'')
       else in_txn (\<lambda>t db. mapR snd (create_object cfg t i db)) s)"

definition replay_drop :: "wal_config \<Rightarrow> catalog_type \<Rightarrow> string \<Rightarrow> string \<Rightarrow> connection \<Rightarrow> connection res" where
  "replay_drop cfg ty sch name = in_txn (\<lambda>t db. drop_object cfg t ty sch name False db)"

fun apply_to_catalog :: "wal_config \<Rightarrow> wal_record \<Rightarrow> connection \<Rightarrow> connection res" where
  "apply_to_catalog cfg (CreateModelRecord i) = replay_create cfg Models i"
| "apply_to_catalog cfg (CreateEmbeddingRecord i) = replay_create cfg Embeddings i"
| "apply_to_catalog cfg (DropModelRecord sch n) = replay_drop cfg MODEL_ENTRY sch n"
| "apply_to_catalog cfg (DropEmbeddingRecord sch n) = replay_drop cfg EMBEDDING_ENTRY sch n"
| "apply_to_catalog cfg (VersionRecord _ _ _) = Inr"

definition catalog_target :: "wal_config \<Rightarrow> connection target" where
  "catalog_target cfg = \<lparr>begin_txn = connection_begin, apply_record = apply_to_catalog cfg,
     commit_txn = connection_commit, rollback_txn = connection_rollback\<rparr>"

text \<open>The database is loaded, then the log is replayed; an empty file is removed.\<close>

definition recover :: "wal_config \<Rightarrow> replay_env \<Rightarrow> byte list \<Rightarrow> (stored db \<times> wal) res option" where
  "recover cfg env file = map_option (mapR (\<lambda>((db, _), h). (db, case h of
       None \<Rightarrow> no_wal
     | Some (off, all) \<Rightarrow> \<lparr>w_file = file, w_size = off,
         w_init = if all then UNINITIALIZED else UNINITIALIZED_REQUIRES_TRUNCATE, w_written = 0\<rparr>)))
     (replay_log env (wc_wire cfg) (catalog_target cfg) file (new_db, 0))"

subsection \<open>The catalog keeps the contract\<close>

text \<open>What the only transaction sees under a key.\<close>

definition top_view :: "stored db \<Rightarrow> view" where
  "top_view db k = (case chain_of db k of [] \<Rightarrow> None | e # _ \<Rightarrow> shown e)"

definition idle_catalog :: "nat \<Rightarrow> connection \<Rightarrow> view \<Rightarrow> bool" where
  "idle_catalog n s v \<longleftrightarrow> db_ok (fst s) \<and> all_shaped (fst s) \<and> active (fst s) = [] \<and> catalog_view (fst s) = v \<and>
     current_start_timestamp (fst s) + 2 * n \<le> transaction_id_start"

definition busy_catalog :: "nat \<Rightarrow> connection \<Rightarrow> view \<Rightarrow> view \<Rightarrow> bool" where
  "busy_catalog n s v u \<longleftrightarrow> db_ok (fst s) \<and> all_shaped (fst s) \<and>
     (\<exists>t. active (fst s) = [t] \<and> t_id t = snd s \<and> (\<forall>k. free_for (fst s) t k)) \<and>
     catalog_view (fst s) = v \<and> top_view (fst s) = u \<and> current_start_timestamp (fst s) + 1 + 2 * n \<le> transaction_id_start"

lemma top_committed:
  assumes "\<And>e es. chain_of db k = e # es \<Longrightarrow> e_ts e < transaction_id_start"
  shows "top_view db k = catalog_view db k"
  using assms committed_hit [of "hd (chain_of db k)" "tl (chain_of db k)"]
  by (cases "chain_of db k") (simp_all add: top_view_def catalog_view_alt)

lemma idle_timestamps:
  assumes "db_ok db" "active db = []" "e \<in> set (chain_of db k)"
  shows "e_ts e < current_start_timestamp db" "current_start_timestamp db \<le> transaction_id_start"
  using chain_timestamps [OF db_ok_parts(2,3,4) [OF assms(1)] assms(3)] db_ok_parts(2) [OF assms(1)] assms(2)
  by (auto simp: active_inv_def)

lemma begin_catalog:
  assumes "idle_catalog (Suc n) s v"
  shows "\<exists>s'. connection_begin s = Inr s' \<and> busy_catalog n s' v v"
proof -
  obtain db i where s: "s = (db, i)" by (cases s)
  have ok: "db_ok db" and a: "all_shaped db" "active db = []" "catalog_view db = v" "current_start_timestamp db + 2 * Suc n \<le> transaction_id_start"
    using assms by (simp_all add: idle_catalog_def s)
  obtain db' where r: "start_transaction db = Inr db'" using a(4) by (auto simp: start_transaction_def Let_def)
  then obtain t where t: "db_ok db'" "chain_of db' = chain_of db" "active db' = [t]" "t_id t = current_transaction_id db"
      "t_start t = current_start_timestamp db"
    using start_result [OF ok r] a(2) by auto
  have clock: "current_start_timestamp db' = Suc (current_start_timestamp db)"
    using r by (auto simp: start_transaction_def Let_def split: if_splits)
  have "free_for db' t k" for k
    using idle_timestamps [OF ok a(2), of "hd (chain_of db k)" k] t(5)
    by (auto simp: free_for_def t(2) has_conflict_def created_by_other_def committed_after_starting_def)
  moreover have views: "catalog_view db' = v" "top_view db' = v"
  proof -
    show v: "catalog_view db' = v" using a(3) by (auto simp: catalog_view_alt t(2) fun_eq_iff)
    have "e_ts e < transaction_id_start" if "chain_of db' k = e # es" for k e es
      using idle_timestamps [OF ok a(2), of e k] that t(2) by auto
    then show "top_view db' = v" using top_committed [of db'] v by (auto simp: fun_eq_iff)
  qed
  moreover have "all_shaped db'" using a(1) by (simp add: all_shaped_def t(2))
  ultimately show ?thesis using r t(1,3,4) clock a(4) by (simp add: s connection_begin_def busy_catalog_def)
qed

text \<open>One write of the only transaction.\<close>

lemma busy_write:
  assumes b: "busy_catalog n (db, i) v u" and e: "fits_on db k e" and t: "t_id t = i"
  shows "busy_catalog n (write_version t k e db, i) v (u(k := shown e))"
proof -
  obtain t0 where t0: "active db = [t0]" "t_id t0 = i" "\<forall>k. free_for db t0 k" and ok: "db_ok db" and sh: "all_shaped db"
    and rest: "catalog_view db = v" "top_view db = u" "current_start_timestamp db + 1 + 2 * n \<le> transaction_id_start"
    using b by (auto simp: busy_catalog_def)
  let ?db = "write_version t k e db"
  have same: "?db = write_version t0 k e db" using same_writer [of t t0 k e db] t t0(2) by simp
  have "live db t0" using t0(1) by (auto simp: live_def)
  then have w: "db_ok ?db" "all_shaped ?db" "catalog_view ?db = catalog_view db" using write_shaped [OF ok sh _ _ e, of t0] t0(3) unfolding same by simp_all
  note p = db_ok_parts [OF ok]
  note f = write_version_fields [OF p(1), of t k e] and ch = chain_of_write [OF p(1), of t k e]
  let ?t = "push_undo (t_id t) (Suc (last_uncommitted_version db)) k (e_addr (hd (below db k (e_name e)))) t0"
  have a: "active ?db = [?t]" "current_start_timestamp ?db = current_start_timestamp db" by (simp_all add: f t0(1))
  have big: "transaction_id_start \<le> t_id t" using p(2) t0(1,2) t by (simp add: active_inv_def)
  have "free_for ?db ?t k'" for k'
  proof (cases "k' = k")
    case True
    then show ?thesis using big t t0(2)
      by (simp add: free_for_def ch has_conflict_def created_by_other_def committed_after_starting_def)
  next
    case False
    then show ?thesis using spec [OF t0(3), of k'] by (simp add: free_for_def ch)
  qed
  moreover have "catalog_view ?db = v" using w rest(1) by simp
  moreover have "top_view ?db = u(k := shown e)"
    using rest(2) by (auto simp: top_view_def ch shown_def fun_eq_iff)
  ultimately show ?thesis using w a rest(3) t0(2) by (auto simp: busy_catalog_def)
qed

lemma busy_find:
  assumes "busy_catalog n (db, i) v u"
  obtains t where "find_txn db i = Some t" "t_id t = i" "active db = [t]" "\<forall>k. free_for db t k" "db_ok db" "all_shaped db"
  using assms by (auto simp: busy_catalog_def find_txn_def)

lemma busy_get:
  assumes "db_ok db" "active db = [t]" "free_for db t k"
  shows "get_entry db t k = (case chain_of db k of [] \<Rightarrow> None | e # _ \<Rightarrow> undeleted (Some e))"
  using free_head [OF assms(1) _ assms(3)] assms(2) get_entry_visible [OF db_ok_parts(1) [OF assms(1)], of t k]
  by (cases "chain_of db k") simp_all

lemma create_applies:
  assumes b: "busy_catalog n (db, i) v u"
    and op: "info_op cfg j = Some (k, x)" and u: "u k = None"
  shows "\<exists>db'. in_txn (\<lambda>t db. mapR snd (create_object cfg t j db)) (db, i) = Inr (db', i) \<and> busy_catalog n (db', i) v (u(k := x))"
proof -
  obtain t where t: "find_txn db i = Some t" "t_id t = i" "active db = [t]" "\<forall>k. free_for db t k" "db_ok db" "all_shaped db"
    by (rule busy_find [OF b])
  let ?e = "entry_of_info j"
  have j: "plain_base cfg (info_base j)" "info_fits j" "k = key_of (set_of_info j) (e_name ?e)" "x = shown ?e"
    using op by (auto simp: info_op_def split: if_splits)
  have nt: "\<not> cb_temporary (info_base j)" "cb_conflict (info_base j) = ErrorOnConflict" "get_schema cfg (cb_schema (info_base j)) = Inr ()"
    using j(1) by (auto simp: plain_base_def)
  have top: "top_view db k = None" using b u by (simp add: busy_catalog_def)
  have head: "chain_of db k = [] \<or> e_deleted (hd (chain_of db k))"
    using top by (cases "chain_of db k") (auto simp: top_view_def shown_def split: if_splits)
  have fit: "fits_on db k ?e" using info_entry_shape [OF j(2) nt(1)] info_entry(2,3) head j(3) by (auto simp: fits_on_def)
  have "check_entry_invariants user_catalog (e_name ?e) ?e = Inr ()"
    using plain_invariants [OF info_entry(4)] info_entry(5) nt(1) by simp
  from create_entry_cases [OF db_ok_parts(1) [OF t(5)] this refl, of t "set_of_info j"]
  have "create_entry user_catalog t (set_of_info j) (e_name ?e) ?e db = Inr (True, write_version t k ?e db)"
    using t(4) head j(3) by auto
  then have "create_object cfg t j db = Inr (True, write_version t k ?e db)"
    using nt(2,3) info_entry(1) by (simp add: create_object_def add_entry_def replace_old_def)
  then show ?thesis using busy_write [OF b fit t(2)] t(1) j(4) by (simp add: in_txn_def)
qed

lemma drop_applies:
  assumes b: "busy_catalog n (db, i) v u" and k: "k = key_of cs name" and u: "u k \<noteq> None"
    and ty: "ty = MODEL_ENTRY \<and> cs = Models \<or> ty = EMBEDDING_ENTRY \<and> cs = Embeddings" and sch: "get_schema cfg sch = Inr ()"
  shows "\<exists>db'. in_txn (\<lambda>t db. drop_object cfg t ty sch name False db) (db, i) = Inr (db', i) \<and> busy_catalog n (db', i) v (u(k := None))"
proof -
  obtain t where t: "find_txn db i = Some t" "t_id t = i" "active db = [t]" "\<forall>k. free_for db t k" "db_ok db" "all_shaped db"
    by (rule busy_find [OF b])
  have top: "top_view db k \<noteq> None" using b u by (simp add: busy_catalog_def)
  then obtain h es where h: "chain_of db k = h # es" "\<not> e_deleted h" by (cases "chain_of db k") (auto simp: top_view_def shown_def split: if_splits)
  have sh: "entry_shape k h" using t(6) h(1) unfolding all_shaped_def by (metis shaped_simps(2))
  have hty: "e_type h = ty" "\<not> e_internal h" "key_of cs (e_name h) = k"
    using sh h(2) ty k by (auto simp: entry_shape_def data_ok_def key_of_def split: option.splits stored.splits)
  have get: "get_entry db t k = Some h" using busy_get [OF t(5,3) spec [OF t(4), of k]] h by simp
  have cs: "get_catalog_set ty = Inr cs" using ty by auto
  have c: "chains db k = Some (h # es)" using h(1) by (auto simp: chain_of_def split: option.splits)
  have "\<not> has_conflict (t_id t) (t_start t) (e_ts h)" using spec [OF t(4), of k] h(1) by (simp add: free_for_def)
  then have "drop_entry t cs name False db = Inr (True, put_version (t_id t) k (tombstone (e_name h)) db)"
    using get hty(2) c h(2) by (simp add: drop_entry_def drop_entry_internal_def get_entry_internal_def flip: k)
  then have d: "drop_entry t cs name False db = Inr (True, write_version t k (tombstone (e_name h)) db)"
    using write_version_simps(2) [OF c] by simp
  have "drop_object cfg t ty sch name False db = Inr (write_version t k (tombstone (e_name h)) db)"
    using get hty(1) d cs sch by (simp add: drop_object_def schema_drop_def flip: k)
  moreover have "fits_on db k (tombstone (e_name h))"
    using sh h hty(3) k by (simp add: fits_on_def entry_shape_def tombstone_def)
  moreover have "shown (tombstone (e_name h)) = None" by (simp add: shown_def tombstone_def)
  ultimately show ?thesis using busy_write [OF b _ t(2), of k "tombstone (e_name h)"] t(1) by (auto simp: in_txn_def)
qed

lemma apply_catalog:
  assumes b: "busy_catalog n s v u" and e: "record_effect cfg r u = Some u'"
  shows "\<exists>s'. apply_to_catalog cfg r s = Inr s' \<and> busy_catalog n s' v u'"
proof -
  obtain db i where s: "s = (db, i)" by (cases s)
  obtain k x where op: "record_op cfg r = Some (k, x)" "(x = None) \<noteq> (u k = None)" "u' = u(k := x)"
    using e by (auto simp: record_effect_def split: option.splits if_splits)
  have cre: "\<exists>s'. replay_create cfg cs (Some j) (db, i) = Inr s' \<and> busy_catalog n s' v u'"
    if j: "set_of_info j = cs" "info_op cfg j = Some (k, x)" for j cs
  proof -
    have "x \<noteq> None" using j(2) info_entry(2) by (auto simp: info_op_def shown_def split: if_splits)
    then have "u k = None" using op(2) by blast
    then show ?thesis using create_applies [OF b [unfolded s] j(2)] j(1) op(3) by (auto simp: replay_create_def)
  qed
  have dro: "\<exists>s'. replay_drop cfg ty sch name (db, i) = Inr s' \<and> busy_catalog n s' v u'"
    if d: "k = key_of cs name" "x = None" "ty = MODEL_ENTRY \<and> cs = Models \<or> ty = EMBEDDING_ENTRY \<and> cs = Embeddings"
      "get_schema cfg sch = Inr ()" for ty cs sch name
    using drop_applies [OF b [unfolded s] d(1) _ d(3,4)] op(2,3) d(2) by (auto simp: replay_drop_def)
  show ?thesis unfolding s
  proof (cases r)
    case (CreateModelRecord j)
    then show "\<exists>s'. apply_to_catalog cfg r (db, i) = Inr s' \<and> busy_catalog n s' v u'"
      using cre [of _ Models] op(1) by (cases j) (auto split: if_splits)
  next
    case (CreateEmbeddingRecord j)
    then show "\<exists>s'. apply_to_catalog cfg r (db, i) = Inr s' \<and> busy_catalog n s' v u'"
      using cre [of _ Embeddings] op(1) by (cases j) (auto split: if_splits)
  next
    case (DropModelRecord sch name)
    then show "\<exists>s'. apply_to_catalog cfg r (db, i) = Inr s' \<and> busy_catalog n s' v u'"
      using dro [of Models name MODEL_ENTRY sch] op(1) by (auto split: if_splits)
  next
    case (DropEmbeddingRecord sch name)
    then show "\<exists>s'. apply_to_catalog cfg r (db, i) = Inr s' \<and> busy_catalog n s' v u'"
      using dro [of Embeddings name EMBEDDING_ENTRY sch] op(1) by (auto split: if_splits)
  qed (use op(1) in simp)
qed

text \<open>The clock advances by one at a commit.\<close>

lemma undo_all_clock: "undo_all f us db = Inr db' \<Longrightarrow> current_start_timestamp db' = current_start_timestamp db"
  unfolding undo_all_def
  by (rule foldR_invariant [of _ us db db' "\<lambda>d. current_start_timestamp d = current_start_timestamp db"])
     (auto simp: on_chain_def split: option.splits)

lemma cleanup_clock:
  assumes "cleanup_transactions db = Inr db'"
  shows "current_start_timestamp db' = current_start_timestamp db"
proof (cases "cleanup_queue db")
  case (Cons info rest)
  then have "foldR (\<lambda>t. undo_all cleanup_version (t_undo t)) (filter t_awaiting_cleanup info) (db\<lparr>cleanup_queue := rest\<rparr>) = Inr db'"
    using assms by (simp add: cleanup_transactions_def)
  then show ?thesis
    by (rule foldR_invariant [of _ _ _ _ "\<lambda>d. current_start_timestamp d = current_start_timestamp db"])
       (auto dest: undo_all_clock)
qed (use assms in \<open>simp add: cleanup_transactions_def\<close>)

lemma remove_clock: "current_start_timestamp (remove_transaction t store db) = current_start_timestamp db"
  by (simp add: remove_transaction_def Let_def)

lemma commit_clock: "commit_transaction False t db = Inr db' \<Longrightarrow> current_start_timestamp db' = Suc (current_start_timestamp db)"
  by (auto simp: commit_transaction_def Let_def mapR_Inr_iff remove_clock dest!: undo_all_clock)

lemma rollback_clock: "rollback_transaction t db = Inr db' \<Longrightarrow> current_start_timestamp db' = current_start_timestamp db"
  by (auto simp: rollback_transaction_def mapR_Inr_iff remove_clock dest!: undo_all_clock)

lemma cleanup_keeps:
  assumes "db_ok db" "all_shaped db"
  shows "\<exists>db'. cleanup_transactions db = Inr db' \<and> db_ok db' \<and> all_shaped db' \<and> active db' = active db \<and> catalog_view db' = catalog_view db \<and>
    current_start_timestamp db' = current_start_timestamp db"
proof -
  obtain db' where c: "cleanup_transactions db = Inr db'" "db_ok db'" "active db' = active db"
      "\<forall>k. same_views (active db) (chain_of db k) (chain_of db' k) \<and> (\<exists>m. chain_of db' k = take m (chain_of db k))"
    using cleanup_result [OF assms(1)] by blast
  have "shaped k (chain_of db' k)" for k
  proof -
    obtain m where "chain_of db' k = take m (chain_of db k)" using c(4) by blast
    then show ?thesis using assms(2) shaped_take unfolding all_shaped_def by metis
  qed
  then show ?thesis using c view_same [of "active db" db db'] cleanup_clock [OF c(1)] by (auto simp: all_shaped_def)
qed

lemma commit_catalog:
  assumes "busy_catalog n s v u"
  shows "\<exists>s'. connection_commit s = Inr s' \<and> idle_catalog n s' u"
proof -
  obtain db i where s: "s = (db, i)" by (cases s)
  obtain t where t: "find_txn db i = Some t" "t_id t = i" "active db = [t]" "\<forall>k. free_for db t k" "db_ok db" "all_shaped db"
    by (rule busy_find [OF assms [unfolded s]])
  have rest: "top_view db = u" "current_start_timestamp db + 1 + 2 * n \<le> transaction_id_start"
    using assms by (simp_all add: busy_catalog_def s)
  let ?clock = "current_start_timestamp db"
  have clock: "?clock < transaction_id_start" and tt: "t \<in> set (active db)" using rest(2) t(3) by simp_all
  obtain d where d: "commit_transaction False t db = Inr d" "db_ok d" "active d = []"
      "chain_of d = (\<lambda>k. stamped ?clock (writes k t) (chain_of db k))"
    using commit_result [OF t(5) tt clock] t(3) by auto
  have "all_shaped d" using t(6) unfolding all_shaped_def d(4) shaped_stamped .
  moreover have "catalog_view d k = u k" for k
  proof -
    have "top_view d k = top_view db k" by (cases "chain_of db k"; cases "writes k t") (simp_all add: top_view_def d(4) stamped_def shown_def)
    moreover have "top_view d k = catalog_view d k"
      using idle_timestamps [OF d(2,3)] by (intro top_committed) (metis list.set_intros(1) order_less_le_trans)
    ultimately show ?thesis using rest(1) by simp
  qed
  ultimately obtain d' where "cleanup_transactions d = Inr d'" "idle_catalog n (d', i) u"
    using cleanup_keeps [OF d(2)] commit_clock [OF d(1)] rest(2) d(3) by (auto simp: idle_catalog_def fun_eq_iff)
  then show ?thesis using t(1) d(1) by (simp add: s connection_commit_def in_txn_def)
qed

lemma rollback_catalog:
  assumes "busy_catalog n s v u"
  shows "\<exists>s'. connection_rollback s = Inr s' \<and> idle_catalog n s' v"
proof -
  obtain db i where s: "s = (db, i)" by (cases s)
  obtain t where t: "find_txn db i = Some t" "t_id t = i" "active db = [t]" "\<forall>k. free_for db t k" "db_ok db" "all_shaped db"
    by (rule busy_find [OF assms [unfolded s]])
  have rest: "catalog_view db = v" "current_start_timestamp db + 1 + 2 * n \<le> transaction_id_start"
    using assms by (simp_all add: busy_catalog_def s)
  have tt: "t \<in> set (active db)" using t(3) by simp
  obtain d where d: "rollback_transaction t db = Inr d" "db_ok d" "active d = []"
      "chain_of d = (\<lambda>k. unwound (writes k t) (chain_of db k))"
    using rollback_step_result [OF t(5) tt] t(3) by auto
  have "all_shaped d" using t(6) shaped_unwound unfolding all_shaped_def d(4) by blast
  then obtain d' where "cleanup_transactions d = Inr d'" "idle_catalog n (d', i) v"
    using cleanup_keeps [OF d(2)] rollback_clock [OF d(1)] rest d(3) view_unwound [OF t(5) tt d(4)] by (auto simp: idle_catalog_def)
  then show ?thesis using t(1) d(1) by (simp add: s connection_rollback_def in_txn_def)
qed

interpretation catalog_replay: replay_target "catalog_target cfg" "record_effect cfg" idle_catalog busy_catalog for cfg
  by unfold_locales (simp_all only: catalog_target_def target.simps begin_catalog apply_catalog commit_catalog rollback_catalog)

subsection \<open>Runs with crashes\<close>

text \<open>
  A run of the database: statements and ends of transactions in any interleaving, clean-up, and crashes
  after which some prefix of the file is left, a commit that was being written included. The history
  records, for every commit that reached the log, the length of the file after it and what the catalog
  shows from then on. The sizes are those of a file that exists.
\<close>

inductive run :: "wal_config \<Rightarrow> replay_env \<Rightarrow> stored db \<times> wal \<Rightarrow> (nat \<times> view) list \<Rightarrow> bool"
  for cfg env where
  fresh: "run cfg env (new_db, no_wal) [(0, \<lambda>_. None)]"
| begins: "run cfg env (db, l) h \<Longrightarrow> start_transaction db = Inr db' \<Longrightarrow> run cfg env (db', l) h"
| creates: "run cfg env (db, l) h \<Longrightarrow> t \<in> set (active db) \<Longrightarrow> info_fits i \<Longrightarrow>
    create_object cfg t i db = Inr (b, db') \<Longrightarrow> run cfg env (db', l) h"
| drops: "run cfg env (db, l) h \<Longrightarrow> t \<in> set (active db) \<Longrightarrow>
    drop_object cfg t ty sch name missing_ok db = Inr db' \<Longrightarrow> run cfg env (db', l) h"
| commits: "run cfg env (db, l) h \<Longrightarrow> t \<in> set (active db) \<Longrightarrow> current_start_timestamp db < transaction_id_start \<Longrightarrow>
    commit_logged cfg disk t (db, l) = Inr (db', l') \<Longrightarrow>
    run cfg env (db', l') (if w_size l' = w_size l then h else h @ [(w_size l', catalog_view db')])"
| rolls_back: "run cfg env (db, l) h \<Longrightarrow> t \<in> set (active db) \<Longrightarrow> rollback_transaction t db = Inr db' \<Longrightarrow> run cfg env (db', l) h"
| cleans: "run cfg env (db, l) h \<Longrightarrow> cleanup_transactions db = Inr db' \<Longrightarrow> run cfg env (db', l) h"
| crashes: "run cfg env (db, l) h \<Longrightarrow> n \<le> length (w_file l) \<Longrightarrow> length (w_file l) < 2 ^ 60 \<Longrightarrow>
    recover cfg env (take n (w_file l)) = Some (Inr (db', l')) \<Longrightarrow>
    run cfg env (db', l') (filter (\<lambda>(off, _). off \<le> n) h)"

text \<open>What the header says belongs to the database file, and parameters are read as they are written.\<close>

definition own_log :: "wal_config \<Rightarrow> replay_env \<Rightarrow> bool" where
  "own_log cfg env \<longleftrightarrow> wire_ok (wc_wire cfg) \<and> header_ok env (wc_identity cfg) (wc_iteration cfg) \<and> \<not> abort_on_wal_failure env"

subsection \<open>The invariant of a run\<close>

definition ends_flushed :: "item list \<Rightarrow> bool" where
  "ends_flushed its \<longleftrightarrow> its = [] \<or> (\<exists>rs f. its = rs @ [(None, f)])"

definition log_size :: "byte list \<Rightarrow> item list \<Rightarrow> nat" where
  "log_size hdr its = (if its = [] then 0 else length (hdr @ frames its))"

text \<open>The items whose commits are in the history, and a torn rest that a recovery has left in the file.\<close>

definition log_inv :: "wal_config \<Rightarrow> byte list \<Rightarrow> item list \<Rightarrow> item list \<Rightarrow> stored db \<times> wal \<Rightarrow> (nat \<times> view) list \<Rightarrow> bool" where
  "log_inv cfg hdr its torn s h \<longleftrightarrow>
     list_all (item_ok (wc_wire cfg)) (its @ torn) \<and> ends_flushed its \<and>
     play (record_effect cfg) (\<lambda>_. None) its = Some (catalog_view (fst s)) \<and>
     play (record_effect cfg) (\<lambda>_. None) (its @ torn) \<noteq> None \<and>
     h = (0, \<lambda>_. None) # flushes (record_effect cfg) (length hdr) (\<lambda>_. None) its \<and>
     wal_ok (snd s) \<and> w_size (snd s) = log_size hdr its \<and>
     w_file (snd s) = take (length (w_file (snd s))) (hdr @ frames (its @ torn)) \<and>
     (\<forall>p \<in> set (flushes (record_effect cfg) (length (hdr @ frames its)) (catalog_view (fst s)) torn). length (w_file (snd s)) < fst p) \<and>
     (torn \<noteq> [] \<longrightarrow> length (hdr @ frames (its @ torn)) < 2 ^ 60) \<and> (torn = [] \<longrightarrow> length (w_file (snd s)) = log_size hdr its)"

definition run_inv :: "wal_config \<Rightarrow> stored db \<times> wal \<Rightarrow> (nat \<times> view) list \<Rightarrow> bool" where
  "run_inv cfg s h \<longleftrightarrow> db_ok (fst s) \<and> all_shaped (fst s) \<and>
     (\<exists>hdr its torn. write_version_record 2 (wc_identity cfg) (wc_iteration cfg) = Inr hdr \<and> log_inv cfg hdr its torn s h)"

lemma flushes_append: "play eff u its = Some u' \<Longrightarrow>
  flushes eff pos u (its @ its') = flushes eff pos u its @ flushes eff (pos + length (frames its)) u' its'"
proof (induction eff pos u its rule: flushes.induct)
  case (3 eff pos u r b its)
  then show ?case by (cases "eff r u") (simp_all add: add.assoc)
qed (simp_all add: add.assoc)

lemma flushes_records: "list_all (\<lambda>it. fst it \<noteq> None) rs \<Longrightarrow> flushes eff pos u rs = []"
  by (induction rs arbitrary: pos u) auto

lemma flushes_below: "p \<in> set (flushes eff pos u its) \<Longrightarrow> fst p \<le> pos + length (frames its)"
  by (induction eff pos u its rule: flushes.induct) auto

lemma flushes_sorted: "sorted_wrt (<) (map fst (flushes eff pos u its))"
  using flushes_above by (induction eff pos u its rule: flushes.induct) fastforce+

lemma last_flush:
  assumes "play eff u its = Some u'" "ends_flushed its"
  shows "last ((0, u) # flushes eff (length hdr) u its) = (log_size hdr its, u')"
proof (cases "its = []")
  case False
  then obtain rs f where its: "its = rs @ [(None, f)]" using assms(2) by (auto simp: ends_flushed_def)
  then have "play eff u rs = Some u'" using assms(1) by (cases "play eff u rs") (simp_all add: play_append)
  then show ?thesis by (simp add: its flushes_append log_size_def)
qed (use assms in \<open>simp add: log_size_def\<close>)

text \<open>The items of the commits that a prefix of the file still holds.\<close>

lemma log_split:
  assumes "play eff u its = Some u'"
  shows "\<exists>its1 its2 u1. its = its1 @ its2 \<and> ends_flushed its1 \<and> play eff u its1 = Some u1 \<and>
    flushes eff pos u its1 = filter (\<lambda>(off, _). off \<le> n) (flushes eff pos u its) \<and>
    (\<forall>p \<in> set (flushes eff (pos + length (frames its1)) u1 its2). n < fst p)"
  using assms
proof (induction its arbitrary: u' rule: rev_induct)
  case Nil
  show ?case by (intro exI [of _ "[]"]) (simp add: ends_flushed_def)
next
  case (snoc x its)
  obtain u2 where u2: "play eff u its = Some u2" using snoc.prems by (cases "play eff u its") (simp_all add: play_append)
  obtain its1 its2 u1 where s: "its = its1 @ its2" "ends_flushed its1" "play eff u its1 = Some u1"
      "flushes eff pos u its1 = filter (\<lambda>(off, _). off \<le> n) (flushes eff pos u its)"
      "\<forall>p \<in> set (flushes eff (pos + length (frames its1)) u1 its2). n < fst p"
    using snoc.IH [OF u2] by blast
  have p2: "play eff u1 its2 = Some u2" using u2 s(1,3) by (simp add: play_append)
  obtain r f where x: "x = (r, f)" by (cases x)
  let ?after = "pos + length (frames its) + length (frame f)"
  show ?case
  proof (cases "r = None \<and> ?after \<le> n")
    case True
    have "\<forall>p \<in> set (flushes eff pos u its). fst p \<le> n"
      using True flushes_below [of _ eff pos u its] by fastforce
    then have "filter (\<lambda>(off, _). off \<le> n) (flushes eff pos u (its @ [x])) = flushes eff pos u (its @ [x])"
      using True by (auto simp: x flushes_append [OF u2] filter_id_conv)
    then show ?thesis using True u2 x
      by (intro exI [of _ "its @ [x]"] exI [of _ "[]"] exI [of _ u2]) (simp add: ends_flushed_def play_append)
  next
    case False
    then have "filter (\<lambda>(off, _). off \<le> n) (flushes eff pos u (its @ [x])) = flushes eff pos u its1"
      by (cases r) (simp_all add: x flushes_append [OF u2] s(4))
    moreover have "\<forall>p \<in> set (flushes eff (pos + length (frames its1)) u1 (its2 @ [x])). n < fst p"
      using False s(1,5) by (cases r) (auto simp: x flushes_append [OF p2] add.assoc)
    ultimately show ?thesis using s(1-3) by (intro exI [of _ its1] exI [of _ "its2 @ [x]"] exI [of _ u1]) simp
  qed
qed

lemma frames_count: "length its \<le> length (frames its)"
  by (induction its) (auto simp: length_frame)

subsection \<open>A recovery\<close>

lemma idle_new: "2 * n < 2 ^ 61 \<Longrightarrow> idle_catalog n (new_db, 0) (\<lambda>_. None)"
  using db_ok_new all_shaped_new
  by (auto simp: idle_catalog_def catalog_view_alt new_db_def chain_of_def transaction_id_start_def fun_eq_iff)

lemma recover_items:
  assumes own: "own_log cfg env" and hdr: "write_version_record 2 (wc_identity cfg) (wc_iteration cfg) = Inr hdr"
    and its: "list_all (item_ok (wc_wire cfg)) its" "play (record_effect cfg) (\<lambda>_. None) its \<noteq> None"
    and size: "n \<le> length (hdr @ frames its)" "n = 0 \<or> length (hdr @ frames its) < 2 ^ 60"
  shows "\<exists>db i k l. recover cfg env (take n (hdr @ frames its)) = Some (Inr (db, l)) \<and>
    idle_catalog k (db, i) (snd (reached (0, \<lambda>_. None) n (flushes (record_effect cfg) (length hdr) (\<lambda>_. None) its))) \<and>
    w_file l = take n (hdr @ frames its) \<and>
    w_size l = fst (reached (0, \<lambda>_. None) n (flushes (record_effect cfg) (length hdr) (\<lambda>_. None) its)) \<and>
    w_init l = (if n = 0 then NO_WAL else if w_size l = n then UNINITIALIZED else UNINITIALIZED_REQUIRES_TRUNCATE)"
proof (cases "n = 0")
  case True
  have "replay_log env (wc_wire cfg) (catalog_target cfg) [] (new_db, 0) = Some (Inr ((new_db, 0), None))"
    by (simp add: replay_log_def)
  then show ?thesis using True idle_new [of 0]
    by (auto simp: recover_def no_wal_def reached_none intro!: exI [of _ "0::nat"])
next
  case False
  let ?r = "reached (0, \<lambda>_. None) n (flushes (record_effect cfg) (length hdr) (\<lambda>_. None) its)"
  have "2 * Suc (length its) < 2 ^ 61" "length (hdr @ frames its) < 2 ^ 63" using size False frames_count [of its] header_not_empty [OF hdr]
    by (cases hdr; simp)+
  note small = this
  have lenient: "wire_ok (wc_wire cfg)" "header_ok env (wc_identity cfg) (wc_iteration cfg)" "\<not> abort_on_wal_failure env"
    using own by (simp_all add: own_log_def)
  obtain s' h where r: "replay_log env (wc_wire cfg) (catalog_target cfg) (take n (hdr @ frames its)) (new_db, 0) = Some (Inr (s', h))"
      "\<exists>k. idle_catalog k s' (snd ?r)" "h = (if n = 0 then None else Some (fst ?r, fst ?r = n))"
    using catalog_replay.replay_prefix [OF lenient(1,2) hdr its small(2) size(1) idle_new [OF small(1)] lenient(3)] by blast
  obtain db i where "s' = (db, i)" by (cases s')
  then show ?thesis using r False by (auto simp: recover_def)
qed

subsection \<open>The steps of a run keep the invariant\<close>

lemma log_items:
  assumes "log_inv cfg hdr its torn (db, l) h"
  shows "list_all (item_ok (wc_wire cfg)) its" "play (record_effect cfg) (\<lambda>_. None) its = Some (catalog_view db)" "ends_flushed its"
    "h = (0, \<lambda>_. None) # flushes (record_effect cfg) (length hdr) (\<lambda>_. None) its" "wal_ok l" "w_size l = log_size hdr its"
  using assms by (simp_all add: log_inv_def)

lemma log_last: "log_inv cfg hdr its torn (db, l) h \<Longrightarrow> last h = (w_size l, catalog_view db)"
  using last_flush [OF log_items(2,3)] log_items(4,6) by metis

lemma log_sorted: "log_inv cfg hdr its torn (db, l) h \<Longrightarrow> sorted_wrt (<) (map fst h)"
  using flushes_sorted flushes_above by (fastforce simp: log_inv_def)

lemma log_valid:
  assumes "log_inv cfg hdr its torn (db, l) h"
  shows "valid_log l = (if its = [] then [] else hdr @ frames its)"
proof -
  have f: "w_file l = take (length (w_file l)) ((hdr @ frames its) @ frames torn)" and "w_size l = log_size hdr its" "w_size l \<le> length (w_file l)"
    using assms by (simp_all add: log_inv_def wal_ok_def)
  then have "valid_log l = take (log_size hdr its) ((hdr @ frames its) @ frames torn)"
    unfolding valid_log_def by (metis min.absorb1 take_take)
  then show ?thesis by (simp add: log_size_def)
qed

lemma log_unchanged:
  "log_inv cfg hdr its torn (db, l) h \<Longrightarrow> catalog_view db' = catalog_view db \<Longrightarrow> log_inv cfg hdr its torn (db', l) h"
  by (simp add: log_inv_def)

lemma log_kept:
  assumes i: "log_inv cfg hdr its torn (db, l) h" and k: "kept (db, l) (db', l')"
  shows "\<exists>torn'. log_inv cfg hdr its torn' (db', l') h"
proof (cases "l' = l")
  case True
  then show ?thesis using i log_unchanged [OF i, of db'] k by (auto simp: kept_def)
next
  case False
  then have "w_file l' = valid_log l" "w_size l' = w_size l" "w_init l' = INITIALIZED" "catalog_view db' = catalog_view db"
    using k by (auto simp: kept_def)
  then have "log_inv cfg hdr its [] (db', l') h"
    using log_items [OF i] log_valid [OF i] by (auto simp: log_inv_def wal_ok_def log_size_def)
  then show ?thesis ..
qed

lemma log_grown:
  assumes i: "log_inv cfg hdr its torn (db, l) h" and g: "grown cfg hdr new (db, l) (db', l')"
  shows "log_inv cfg hdr (its @ new) [] (db', l') (h @ [(w_size l', catalog_view db')])" "w_size l' \<noteq> w_size l"
proof -
  note j = log_items [OF i]
  obtain rs f where new: "new = rs @ [(None, f)]" "list_all (\<lambda>it. fst it \<noteq> None) rs" using g by (auto simp: grown_def)
  have m: "list_all (item_ok (wc_wire cfg)) new" "play (record_effect cfg) (catalog_view db) new = Some (catalog_view db')"
    using g by (simp_all add: grown_def)
  have fresh: "w_file l' = hdr @ frames (its @ new)" "w_size l' = length (w_file l')" "w_init l' = INITIALIZED"
    using g log_valid [OF i] by (auto simp: grown_def missing_header_def)
  have "play (record_effect cfg) (catalog_view db) rs = Some (catalog_view db')"
    using m(2) unfolding new(1) by (cases "play (record_effect cfg) (catalog_view db) rs") (simp_all add: play_append)
  then have fl: "flushes (record_effect cfg) pos (catalog_view db) new = [(pos + length (frames new), catalog_view db')]" for pos
    using flushes_records [OF new(2)] by (simp add: new(1) flushes_append)
  have "w_size l' = length hdr + length (frames its) + length (frames new)" using fresh by simp
  then show "log_inv cfg hdr (its @ new) [] (db', l') (h @ [(w_size l', catalog_view db')])"
    using j m fresh new(1) fl
    by (auto simp: log_inv_def play_append flushes_append [OF j(2)] ends_flushed_def wal_ok_def log_size_def add.assoc)
  show "w_size l' \<noteq> w_size l" using j(6) fresh new(1) by (simp add: log_size_def length_frame)
qed

text \<open>A crash leaves the items of the commits before the cut, and the rest as torn.\<close>

lemma crash_items:
  assumes i: "log_inv cfg hdr its torn (db, l) h" and n: "n \<le> length (w_file l)" "length (w_file l) < 2 ^ 60"
  shows "take n (w_file l) = take n (hdr @ frames (its @ torn))" "n \<le> length (hdr @ frames (its @ torn))"
    "n = 0 \<and> its @ torn = [] \<or> length (hdr @ frames (its @ torn)) < 2 ^ 60"
    "filter (\<lambda>(off, _). off \<le> n) h = (0, \<lambda>_. None) #
       filter (\<lambda>(off, _). off \<le> n) (flushes (record_effect cfg) (length hdr) (\<lambda>_. None) (its @ torn))"
proof -
  note j = log_items [OF i]
  have f: "w_file l = take (length (w_file l)) (hdr @ frames (its @ torn))" using i by (simp add: log_inv_def)
  show "take n (w_file l) = take n (hdr @ frames (its @ torn))" using f n(1) by (metis min.absorb1 take_take)
  show "n \<le> length (hdr @ frames (its @ torn))" using n(1) arg_cong [OF f, of length] by simp
  show "n = 0 \<and> its @ torn = [] \<or> length (hdr @ frames (its @ torn)) < 2 ^ 60"
    using i n by (cases "torn = []"; cases "its = []") (auto simp: log_inv_def log_size_def)
  have "\<forall>p \<in> set (flushes (record_effect cfg) (length hdr + length (frames its)) (catalog_view db) torn). n < fst p"
    using i n(1) by (fastforce simp: log_inv_def)
  then show "filter (\<lambda>(off, _). off \<le> n) h = (0, \<lambda>_. None) #
      filter (\<lambda>(off, _). off \<le> n) (flushes (record_effect cfg) (length hdr) (\<lambda>_. None) (its @ torn))"
    unfolding j(4) flushes_append [OF j(2)] by (auto simp: filter_empty_conv)
qed

lemma log_crash:
  assumes own: "own_log cfg env" and hdr: "write_version_record 2 (wc_identity cfg) (wc_iteration cfg) = Inr hdr"
    and i: "log_inv cfg hdr its torn (db, l) h" and n: "n \<le> length (w_file l)" "length (w_file l) < 2 ^ 60"
  shows "\<exists>db' c k l'. recover cfg env (take n (w_file l)) = Some (Inr (db', l')) \<and>
    idle_catalog k (db', c) (snd (last (filter (\<lambda>(off, _). off \<le> n) h))) \<and>
    (\<exists>its' torn'. log_inv cfg hdr its' torn' (db', l') (filter (\<lambda>(off, _). off \<le> n) h))"
proof -
  let ?all = "its @ torn" and ?eff = "record_effect cfg" and ?kept = "filter (\<lambda>(off, _). off \<le> n) h"
  note j = log_items [OF i] and c = crash_items [OF i n]
  have all: "list_all (item_ok (wc_wire cfg)) ?all" "play ?eff (\<lambda>_. None) ?all \<noteq> None" using i by (simp_all add: log_inv_def)
  then obtain u where "play ?eff (\<lambda>_. None) ?all = Some u" by blast
  then obtain its1 its2 u1 where s: "?all = its1 @ its2" "ends_flushed its1" "play ?eff (\<lambda>_. None) its1 = Some u1"
      "flushes ?eff (length hdr) (\<lambda>_. None) its1 = filter (\<lambda>(off, _). off \<le> n) (flushes ?eff (length hdr) (\<lambda>_. None) ?all)"
      "\<forall>p \<in> set (flushes ?eff (length hdr + length (frames its1)) u1 its2). n < fst p"
    using log_split by metis
  have h: "?kept = (0, \<lambda>_. None) # flushes ?eff (length hdr) (\<lambda>_. None) its1" using c(4) s(4) by simp
  have last: "last ?kept = (log_size hdr its1, u1)" unfolding h by (rule last_flush [OF s(3,2)])
  have reach: "reached (0, \<lambda>_. None) n (flushes ?eff (length hdr) (\<lambda>_. None) ?all) = last ?kept"
    unfolding reached_def c(4) ..
  obtain db' x k l' where r: "recover cfg env (take n (w_file l)) = Some (Inr (db', l'))" "idle_catalog k (db', x) u1"
      "w_file l' = take n (hdr @ frames ?all)" "w_size l' = log_size hdr its1"
      "w_init l' = (if n = 0 then NO_WAL else if w_size l' = n then UNINITIALIZED else UNINITIALIZED_REQUIRES_TRUNCATE)"
    using recover_items [OF own hdr all c(2)] c(3) unfolding reach last c(1) by auto
  have len: "length (w_file l') = n" using c(2) unfolding r(3) by simp
  have below: "log_size hdr its1 \<le> n"
  proof (cases "its1 = []")
    case False
    have "last ?kept \<in> set ?kept" using h by (intro last_in_set) simp
    then show ?thesis unfolding last by auto
  qed (simp add: log_size_def)
  have "wal_ok l'" using r(4,5) below len by (auto simp: wal_ok_def)
  moreover have "its @ torn = [] \<longrightarrow> n = 0" using i n(1) by (auto simp: log_inv_def log_size_def)
  then have "its2 = [] \<longrightarrow> length (w_file l') = log_size hdr its1"
    using below c(2) s(1) len by (auto simp: log_size_def split: if_splits)
  moreover have "its2 \<noteq> [] \<longrightarrow> length (hdr @ frames ?all) < 2 ^ 60" using c(3) s(1) by auto
  moreover have "catalog_view db' = u1" using r(2) by (simp add: idle_catalog_def)
  moreover have "w_file l' = take (length (w_file l')) (hdr @ frames (its1 @ its2))" using r(3) unfolding len s(1) .
  moreover have "\<forall>p \<in> set (flushes ?eff (length (hdr @ frames its1)) u1 its2). length (w_file l') < fst p" using s(5) unfolding len by simp
  moreover have "list_all (item_ok (wc_wire cfg)) (its1 @ its2)" "play ?eff (\<lambda>_. None) (its1 @ its2) \<noteq> None" using all unfolding s(1) .
  ultimately have "log_inv cfg hdr its1 its2 (db', l') ?kept"
    using s(2,3) h r(4) unfolding log_inv_def fst_conv snd_conv s(1) by blast
  then show ?thesis using r(1,2) last by (metis snd_conv)
qed

lemma run_inv_step:
  assumes i: "run_inv cfg (db, l) h" and d: "db_ok db'" "all_shaped db'" "catalog_view db' = catalog_view db"
  shows "run_inv cfg (db', l) h"
  using i d log_unchanged unfolding run_inv_def fst_conv by blast

lemma start_keeps:
  assumes "db_ok db" "all_shaped db" "start_transaction db = Inr db'"
  shows "db_ok db'" "all_shaped db'" "catalog_view db' = catalog_view db"
  using start_result [OF assms(1,3)] assms(2) by (auto simp: all_shaped_def catalog_view_alt fun_eq_iff)

lemma rollback_keeps:
  assumes "db_ok db" "all_shaped db" "t \<in> set (active db)" "rollback_transaction t db = Inr db'"
  shows "db_ok db'" "all_shaped db'" "catalog_view db' = catalog_view db"
proof -
  have r: "db_ok db'" "chain_of db' = (\<lambda>k. unwound (writes k t) (chain_of db k))" using rollback_step_result [OF assms(1,3)] assms(4) by auto
  then show "db_ok db'" "catalog_view db' = catalog_view db" using view_unwound [OF assms(1,3)] by simp_all
  show "all_shaped db'" using assms(2) shaped_unwound unfolding all_shaped_def r(2) by blast
qed

lemma header_written: "\<exists>hdr. write_version_record 2 identity iter = Inr hdr"
  by (cases iter) (simp_all add: write_version_record_def write_object_Cons write_type_def write_property_def
    write_list_def traverse_Inr)

lemma commit_keeps:
  assumes i: "run_inv cfg (db, l) h" and t: "t \<in> set (active db)" "current_start_timestamp db < transaction_id_start"
    and c: "commit_logged cfg disk t (db, l) = Inr (db', l')"
  shows "run_inv cfg (db', l') (if w_size l' = w_size l then h else h @ [(w_size l', catalog_view db')])"
proof -
  have ok: "db_ok db" "all_shaped db" using i by (simp_all add: run_inv_def)
  obtain hdr its torn where hdr: "write_version_record 2 (wc_identity cfg) (wc_iteration cfg) = Inr hdr" and l: "log_inv cfg hdr its torn (db, l) h"
    using i by (auto simp: run_inv_def)
  have o: "db_ok db'" "all_shaped db'" "kept (db, l) (db', l') \<or> (\<exists>its. grown cfg hdr its (db, l) (db', l'))"
    using commit_logged_outcome [OF ok t hdr log_items(5) [OF l], of disk] c by (auto split: if_splits)
  from o(3) show ?thesis
  proof
    assume k: "kept (db, l) (db', l')"
    then have "w_size l' = w_size l" by (auto simp: kept_def)
    then show ?thesis using log_kept [OF l k] o(1,2) hdr by (auto simp: run_inv_def)
  next
    assume "\<exists>its. grown cfg hdr its (db, l) (db', l')"
    then obtain new where g: "grown cfg hdr new (db, l) (db', l')" ..
    show ?thesis using log_grown [OF l g] o(1,2) hdr unfolding run_inv_def fst_conv if_not_P [OF log_grown(2) [OF l g]] by blast
  qed
qed

lemma run_invariant:
  assumes own: "own_log cfg env" and r: "run cfg env s h"
  shows "run_inv cfg s h"
  using r
proof (induction s h rule: run.induct)
  case fresh
  obtain hdr where "write_version_record 2 (wc_identity cfg) (wc_iteration cfg) = Inr hdr" using header_written by blast
  moreover have "log_inv cfg hdr [] [] (new_db, no_wal) [(0, \<lambda>_. None)]"
    by (auto simp: log_inv_def ends_flushed_def no_wal_def wal_ok_def log_size_def catalog_view_alt new_db_def chain_of_def fun_eq_iff)
  ultimately show ?case using db_ok_new all_shaped_new by (auto simp: run_inv_def)
next
  case (begins db l h db')
  then show ?case using start_keeps run_inv_step unfolding run_inv_def by (metis fst_conv)
next
  case (creates db l h t i b db')
  moreover have "live db t" using creates by (auto simp: live_def)
  ultimately show ?case using create_object_shaped run_inv_step [OF creates.IH] unfolding run_inv_def by (metis fst_conv)
next
  case (drops db l h t ty sch name missing_ok db')
  moreover have "live db t" using drops by (auto simp: live_def)
  ultimately show ?case using drop_object_shaped run_inv_step [OF drops.IH] unfolding run_inv_def by (metis fst_conv)
next
  case (commits db l h t disk db' l')
  then show ?case using commit_keeps by blast
next
  case (rolls_back db l h t db')
  then show ?case using rollback_keeps run_inv_step unfolding run_inv_def by (metis fst_conv)
next
  case (cleans db l h db')
  then show ?case using cleanup_keeps [of db] run_inv_step [OF cleans.IH] by (auto simp: run_inv_def)
next
  case (crashes db l h n db' l')
  obtain hdr its torn where hdr: "write_version_record 2 (wc_identity cfg) (wc_iteration cfg) = Inr hdr" and l: "log_inv cfg hdr its torn (db, l) h"
    using crashes.IH by (auto simp: run_inv_def)
  show ?case using log_crash [OF own hdr l crashes(2,3)] crashes(4) hdr by (auto simp: run_inv_def idle_catalog_def)
qed

subsection \<open>A run to test with\<close>

definition demo_cfg :: wal_config where
  "demo_cfg = \<lparr>wc_catalog = ''db'', wc_schema = ''main'', wc_wire = demo_wire, wc_identity = demo_id, wc_iteration = Some 1\<rparr>"

lemma demo_own: "own_log demo_cfg demo_env"
  using demo_wire_ok by (simp add: own_log_def demo_cfg_def demo_env_def demo_id_def header_ok_def)

definition demo_create :: create_info where
  "demo_create = ModelInfo (entry_base demo_cfg MODEL_ENTRY None []) ''m'' demo_model"

definition demo_db1 :: "stored db" where
  "demo_db1 = projr (start_transaction (new_db :: stored db))"
definition demo_db2 :: "stored db" where
  "demo_db2 = snd (projr (create_object demo_cfg (hd (active demo_db1)) demo_create demo_db1))"

lemmas demo_unfold = demo_db2_def demo_db1_def start_transaction_def new_db_def Let_def transaction_id_start_def create_object_def
    demo_create_def demo_cfg_def entry_base_def get_schema_def add_entry_def new_entry_def user_catalog_def replace_old_def
    create_entry_def check_entry_invariants_def get_entry_def create_entry_internal_def undo_record_def push_catalog_entry_def
    put_version_def start_chain_def chain_of_def write_catalog_entry_def write_create_def info_of_entry_def

lemma demo_begins: "start_transaction new_db = Inr (demo_db1 :: stored db)"
  by (simp add: demo_unfold)

lemma demo_undo: "hd (active demo_db2) = \<lparr>t_id = transaction_id_start, t_start = 2, t_commit = 0, t_version = Suc transaction_id_start,
    t_awaiting_cleanup = False, t_undo = [(key_of Models ''m'', 0)]\<rparr>"
  "undo_record demo_cfg demo_db2 (key_of Models ''m'', 0) = Inr (Some (CreateModelRecord (Some demo_create)))"
  "e_deleted (hd (chain_of demo_db2 (key_of Models ''m''))) = False" "chain_of demo_db2 (key_of Models ''m'') \<noteq> []"
  by (simp_all add: demo_unfold)

lemma demo_record: "\<exists>b. write_record demo_wire (CreateModelRecord (Some demo_create)) = Inr b \<and> length b < 100"
  by (simp add: write_object_def write_type_def write_property_def write_info_def write_pointer_def
     demo_create_def entry_base_def demo_cfg_def write_model_def write_with_default_def demo_model_def
      new_model_data_def write_string_def write_list_def demo_wt_def demo_wire_def write_base_def
      write_field_def write_bool_def encode_unsigned.simps)

lemma demo_header: "\<exists>b. write_version_record 2 (wc_identity demo_cfg) (wc_iteration demo_cfg) = Inr b \<and> length b < 100"
  by (simp add: write_version_record_def write_object_def write_type_def write_property_def write_list_def demo_cfg_def
      write_field_def encode_unsigned.simps traverse_Inr demo_id_def)

lemma demo_flush: "\<exists>b. flush_record = Inr b \<and> length b < 100"
  by (simp add: flush_record_def write_object_def write_type_def write_property_def write_field_def encode_unsigned.simps)

lemma demo_creates: "create_object demo_cfg (hd (active demo_db1)) demo_create demo_db1 = Inr (True, demo_db2)"
  by (simp add: demo_db2_def demo_db1_def start_transaction_def new_db_def Let_def transaction_id_start_def create_object_def
    demo_create_def demo_cfg_def entry_base_def get_schema_def add_entry_def new_entry_def user_catalog_def replace_old_def
    create_entry_def check_entry_invariants_def get_entry_def create_entry_internal_def)

lemma demo_start: "current_start_timestamp demo_db2 = 3"
  by (simp_all add: demo_unfold)

lemma demo_active: "active demo_db2 = [hd (active demo_db2)]"
  by (simp_all add: demo_unfold)

lemma demo_run: "run demo_cfg demo_env (demo_db2, no_wal) [(0, \<lambda>_. None)]"
proof -
  have "run demo_cfg demo_env (demo_db1, no_wal) [(0, \<lambda>_. None)]" by (rule run.begins [OF run.fresh demo_begins])
  moreover have "hd (active demo_db1) \<in> set (active demo_db1)"
    by (simp add: demo_unfold)
  moreover have "info_fits demo_create" by (simp add: demo_create_def fits_def demo_model_def new_model_data_def)
  ultimately show ?thesis using run.creates demo_creates by blast
qed

lemma demo_commit: "\<exists>db l. commit_logged demo_cfg Healthy (hd (active demo_db2)) (demo_db2, no_wal) = Inr (db, l) \<and>
    w_size l = length (w_file l) \<and> 17 < length (w_file l) \<and> length (w_file l) < 1000 \<and> catalog_view db (key_of Models ''m'') \<noteq> None"
proof -
  let ?t = "hd (active demo_db2)"
  have ok: "db_ok demo_db2" using run_invariant [OF demo_own demo_run] by (simp add: run_inv_def)
  have t: "?t \<in> set (active demo_db2)" "current_start_timestamp demo_db2 < transaction_id_start"
    using demo_active demo_start by (metis list.set_intros(1)) (simp add: transaction_id_start_def demo_start)
  obtain d where d: "commit_transaction False ?t demo_db2 = Inr d"
      "chain_of d = (\<lambda>k. stamped (current_start_timestamp demo_db2) (writes k ?t) (chain_of demo_db2 k))"
    using commit_result [OF ok t] by auto
  obtain hdr where hdr: "write_version_record 2 (wc_identity demo_cfg) (wc_iteration demo_cfg) = Inr hdr" "length hdr < 100" using demo_header by blast
  obtain b where b: "write_record (wc_wire demo_cfg) (CreateModelRecord (Some demo_create)) = Inr b" "length b < 100" using demo_record by (auto simp: demo_cfg_def)
  obtain f where f: "flush_record = Inr f" "length f < 100" using demo_flush by blast
  note ne = header_not_empty [OF hdr(1)]
  have view: "catalog_view d (key_of Models ''m'') \<noteq> None"
    unfolding view_committed [OF ok t d(2), symmetric] by (simp add: view_after_def demo_undo writes_def undo_of_def shown_def flip: hd_conv_nth)
  let ?l = "\<lparr>w_file = hdr @ frame b @ frame f, w_size = length (hdr @ frame b @ frame f), w_init = INITIALIZED,
      w_written = length (hdr @ frame b @ frame f)\<rparr>"
  have w: "write_undo demo_cfg demo_db2 (t_undo ?t) no_wal =
      (\<lparr>w_file = hdr @ frame b, w_size = 0, w_init = INITIALIZED, w_written = length (hdr @ frame b)\<rparr>, Inr ())"
    using hdr b ne by (simp add: demo_undo append_entry_def initialize_def write_header_def no_wal_def append_bytes_def)
  have "flush_wal demo_cfg False (\<lparr>w_file = hdr @ frame b, w_size = 0, w_init = INITIALIZED, w_written = length (hdr @ frame b)\<rparr>) = (?l, Inr ())"
    using ne unfolding flush_wal_def append_entry_def f(1) by (simp add: initialize_def write_header_def append_bytes_def)
  then have "commit_logged demo_cfg Healthy ?t (demo_db2, no_wal) = Inr (d, ?l)"
    using w d(1) demo_undo(1) by (simp add: commit_logged_def)
  then show ?thesis using view hdr(2) b(2) f(2) by (intro exI [of _ d] exI [of _ ?l]) (simp add: length_frame)
qed

subsection \<open>Commits are atomic and durable\<close>

lemma written_shown:
  assumes ok: "db_ok db" and t: "t \<in> set (active db)"
  shows "view_after db t (t_undo t) = (\<lambda>k. if writes k t = 0 then catalog_view db k
    else case get_entry db t k of None \<Rightarrow> None | Some e \<Rightarrow> shown e)"
proof
  fix k
  note p = db_ok_parts [OF ok]
  show "view_after db t (t_undo t) k = (if writes k t = 0 then catalog_view db k else case get_entry db t k of None \<Rightarrow> None | Some e \<Rightarrow> shown e)"
  proof (cases "writes k t = 0")
    case False
    obtain us cs where s: "chain_of db k = us @ cs" "length us = writes k t" "\<forall>e \<in> set us. e_ts e = t_id t"
      by (rule split_writer [OF p(2) t p(4) [of k]])
    then obtain e es where c: "chain_of db k = e # es" "e_ts e = t_id t" using False by (cases us) auto
    then have "get_entry db t k = undeleted (Some e)"
      using get_entry_visible [OF p(1), of t k] by (cases es) (simp_all add: visible_hit use_timestamp_def)
    then show ?thesis using False c(1) by (simp add: view_after_def writes_def undeleted_def shown_def)
  qed (simp add: view_after_def)
qed

text \<open>C9: The end of a transaction is atomic: a commit always returns and ends its transaction; when the disk fails or a
  record cannot be serialised it leaves the valid part of the log and what the catalog shows as they were, and otherwise
  the log has grown and the catalog shows exactly what the transaction saw under the names it wrote, and what it showed
  before under all others.\<close>
theorem commit_logged_atomic:
  assumes "own_log cfg env" "run cfg env (db, l) h" "t \<in> set (active db)" "current_start_timestamp db < transaction_id_start"
  shows "\<exists>db' l'. commit_logged cfg disk t (db, l) = Inr (db', l') \<and> active db' = other_txns t (active db) \<and>
    take (w_size l) (w_file l') = take (w_size l) (w_file l) \<and>
    (if t_undo t = [] \<or> disk \<noteq> Healthy \<or> \<not> writable cfg db (t_undo t)
     then w_size l' = w_size l \<and> catalog_view db' = catalog_view db
     else w_size l < w_size l' \<and> w_size l' = length (w_file l') \<and> catalog_view db' =
       (\<lambda>k. if writes k t = 0 then catalog_view db k else case get_entry db t k of None \<Rightarrow> None | Some e \<Rightarrow> shown e))"
proof -
  obtain hdr its torn where hdr: "write_version_record 2 (wc_identity cfg) (wc_iteration cfg) = Inr hdr" and l: "log_inv cfg hdr its torn (db, l) h"
      and ok: "db_ok db" "all_shaped db"
    using run_invariant [OF assms(1,2)] by (auto simp: run_inv_def)
  have wal: "wal_ok l" by (rule log_items(5) [OF l])
  obtain db' l' where c: "commit_logged cfg disk t (db, l) = Inr (db', l')" "active db' = other_txns t (active db)"
      "if t_undo t = [] \<or> disk \<noteq> Healthy \<or> \<not> writable cfg db (t_undo t) then kept (db, l) (db', l')
       else (\<exists>its. grown cfg hdr its (db, l) (db', l')) \<and> catalog_view db' = view_after db t (t_undo t)"
    using commit_logged_outcome [OF ok assms(3,4) hdr wal, of disk] by blast
  show ?thesis
  proof (cases "t_undo t = [] \<or> disk \<noteq> Healthy \<or> \<not> writable cfg db (t_undo t)")
    case True
    then show ?thesis using c by (auto simp: kept_def valid_log_def)
  next
    case False
    then obtain new where g: "grown cfg hdr new (db, l) (db', l')" using c(3) by auto
    have "w_size l' = length (w_file l')" "w_file l' = valid_log l @ missing_header hdr (valid_log l) @ frames new" "new \<noteq> []"
      using g by (auto simp: grown_def)
    moreover have "length (valid_log l) = w_size l" using wal by (simp add: valid_log_def wal_ok_def)
    moreover have "frames new \<noteq> []" using frames_count [of new] \<open>new \<noteq> []\<close> by auto
    ultimately have "take (w_size l) (w_file l') = take (w_size l) (w_file l)" "w_size l < w_size l'"
      by (auto simp: valid_log_def)
    then show ?thesis using False c g written_shown [OF ok(1) assms(3)] by (auto simp: grown_def)
  qed
qed

lemma demo_writable: "writable demo_cfg demo_db2 (t_undo (hd (active demo_db2)))"
  using demo_record by (auto simp: writable_def demo_undo demo_cfg_def [THEN arg_cong [of _ _ wc_wire]])

lemma commit_logged_atomic_witness:
  "(\<exists>db l. commit_logged demo_cfg Healthy (hd (active demo_db2)) (demo_db2, no_wal) = Inr (db, l) \<and> 0 < w_size l \<and> active db = [] \<and>
     catalog_view db (key_of Models ''m'') \<noteq> None) \<and>
   (\<exists>db l. commit_logged demo_cfg SyncFails (hd (active demo_db2)) (demo_db2, no_wal) = Inr (db, l) \<and> w_size l = 0 \<and> active db = [])"
proof -
  have t: "hd (active demo_db2) \<in> set (active demo_db2)" "current_start_timestamp demo_db2 < transaction_id_start"
    using demo_active demo_start by (metis list.set_intros(1)) (simp add: transaction_id_start_def demo_start)
  have others: "other_txns (hd (active demo_db2)) (active demo_db2) = []" by (subst demo_active) simp
  note atomic = commit_logged_atomic [OF demo_own demo_run t]
  have "w_size no_wal = 0" by (simp add: no_wal_def)
  then show ?thesis
    using atomic [of Healthy] atomic [of SyncFails] demo_writable others demo_commit by (auto simp: demo_undo)
qed

text \<open>C8: Whatever part of the log file a crash leaves, during any interleaving of transactions that create and drop
  models and embeddings, commit, fail to commit or roll back, and after earlier crashes, the recovery succeeds; what
  the recovered catalog shows is what the catalog showed after the last commit whose flush record is still in the
  file, no transaction is left, and when all of the file is there that is what the catalog shows now.\<close>
theorem crash_recovery:
  assumes "own_log cfg env" "run cfg env (db, l) h" "n \<le> length (w_file l)" "length (w_file l) < 2 ^ 60"
  shows "\<exists>db' l'. recover cfg env (take n (w_file l)) = Some (Inr (db', l')) \<and>
    catalog_view db' = snd (last (filter (\<lambda>(off, _). off \<le> n) h)) \<and> active db' = [] \<and>
    last h = (w_size l, catalog_view db) \<and> w_size l \<le> length (w_file l) \<and> sorted_wrt (<) (map fst h)"
proof -
  obtain hdr its torn where hdr: "write_version_record 2 (wc_identity cfg) (wc_iteration cfg) = Inr hdr" and l: "log_inv cfg hdr its torn (db, l) h"
    using run_invariant [OF assms(1,2)] by (auto simp: run_inv_def)
  show ?thesis using log_crash [OF assms(1) hdr l assms(3,4)] log_last [OF l] log_sorted [OF l] log_items(5) [OF l]
    by (auto simp: idle_catalog_def wal_ok_def)
qed

lemma crash_recovery_witness:
  "\<exists>db l db' l'. own_log demo_cfg demo_env \<and> run demo_cfg demo_env (db, l) [(0, \<lambda>_. None), (length (w_file l), catalog_view db)] \<and>
    catalog_view db (key_of Models ''m'') \<noteq> None \<and>
    recover demo_cfg demo_env (take 17 (w_file l)) = Some (Inr (db', l')) \<and> catalog_view db' = (\<lambda>_. None)"
proof -
  obtain db l where c: "commit_logged demo_cfg Healthy (hd (active demo_db2)) (demo_db2, no_wal) = Inr (db, l)"
      "w_size l = length (w_file l)" "17 < length (w_file l)" "length (w_file l) < 1000" "catalog_view db (key_of Models ''m'') \<noteq> None"
    using demo_commit by blast
  have t: "hd (active demo_db2) \<in> set (active demo_db2)" "current_start_timestamp demo_db2 < transaction_id_start"
    using demo_active demo_start by (metis list.set_intros(1)) (simp add: transaction_id_start_def demo_start)
  have r: "run demo_cfg demo_env (db, l) [(0, \<lambda>_. None), (length (w_file l), catalog_view db)]"
    using run.commits [OF demo_run t c(1)] c(2,3) by (auto simp: no_wal_def split: if_splits)
  obtain l' db' where "recover demo_cfg demo_env (take 17 (w_file l)) = Some (Inr (db', l'))"
    "catalog_view db' = (\<lambda>_. None)"
    using crash_recovery [OF demo_own r, of 17] c(3,4) by auto
  then show ?thesis using demo_own r c(5) by blast
qed

end
