(* ===== verification/Spec2Isabelle.thy ===== *)
theory Spec2Isabelle
  imports Clusters Filter_Limit Binding Typing Expressions Split_Join Predict_Pullup Predict_Plan Integer_Cast Snapshots Durability
begin

text \<open>
  iPDb is a DuckDB fork whose SQL can ask a language model: \<open>CREATE MODEL\<close> registers one, PREDICT
  expressions and table functions send the rows of a query to it and turn its replies into columns,
  \<open>llm_agg\<close> asks it about groups and \<open>CREATE EMBEDDING\<close> stores vectors of a text column. This
  development models the path of such a query through the code, from the statement to the cells of
  the result, the optimizer rules that move or split predictions, the catalog that holds models and embeddings with
  the log that makes it survive a crash, and the parts of the value layer (dates, numbers) the replies
  are cast into.

  The parts, in the order a query meets them (paths are under \<open>src/\<close>):

  \<^item> \<open>Prelude\<close>: the exceptions of the code and results as sums, folds that stop at an exception
    (\<open>foldR\<close>, \<open>traverse\<close>), 32- and 64-bit ranges, the lemmas on writing rows everything else shares.
    \<open>Undefined\<close> marks what C++ leaves undefined: reads out of range of unchecked arrays, null pointers, signed
    overflow. (\<open>duckdb::vector\<close> checks its indices and \<open>Cast\<close> the class: those are \<open>InternalException\<close>.)
  \<^item> \<open>Catalog\<close>: \<open>transform_create_model.cpp\<close>, \<open>create_model_info.cpp\<close>, \<open>model_catalog_entry.cpp\<close> and
    the serializer of models over \<open>Serialization\<close> (\<open>binary_serializer.cpp\<close>, \<open>binary_deserializer.cpp\<close>,
    \<open>encoding_util.hpp\<close>). A model written and read back is the same model; which copies of it lose
    what is stated exactly.
  \<^item> \<open>Binding\<close>: the placeholders of a prompt, the transformers of PREDICT, the binder of the three
    kinds of prediction, the copies of bound predictions.
  \<^item> \<open>Plan\<close>, \<open>Expressions\<close>: logical operators with their column bindings and types, all classes of
    bound expressions, the visitors, \<open>ColumnBindingReplacer\<close>, and what a plan computes on rows.
  \<^item> \<open>Filter_Pullup\<close>, \<open>Predict_Pullup\<close>, \<open>Split_Join\<close>, \<open>Filter_Limit\<close>: the rules of
    \<open>src/optimizer\<close> that touch predictions, and \<open>PhysicalFilter\<close>, which executes the limit one of
    them installs. Filter pull-up preserves the rows of every well-formed plan; the split of a PREDICT over a
    join yields the rows the decomposed tasks accept, and the theorems say what it drops and when it throws. The
    extra predicate and the duplicate-eliminated columns of a comparison join are not part of the model, and the
    right side of a DELIM join is evaluated independently of the left.
  \<^item> \<open>Predict_Plan\<close>: \<open>limit_pushdown.cpp\<close>, which moves a LIMIT below a PREDICT, the physical plan of a
    prediction (\<open>plan_predict.cpp\<close>) and the scan of a language model (\<open>physical_predict_scan.cpp\<close>). The
    rule preserves the rows of a plan, and it fails exactly on a LIMIT over a PREDICT without input.
  \<^item> \<open>Selector\<close>: the choice of a model by quality, cost and latency
    (\<open>optimal_selector.hpp\<close>, \<open>model_selection.hpp\<close>).
  \<^item> \<open>Calls\<close>: configuration, the construction of a predictor by the physical operators, and the entry
    points for strings, scans and embeddings. \<open>Agg\<close>, \<open>Embedding\<close>: \<open>llm_agg.cpp\<close> and
    \<open>physical_create_embedding.cpp\<close> on top of them.
  \<^item> \<open>Batching\<close>: \<open>llm_batching.cpp\<close>, \<open>llm_grammar.cpp\<close>, \<open>openai.hpp\<close>: requests, the calls for one row and
    for a batch, order strategies, the schedule of the batches over threads.
  \<^item> \<open>Predictor\<close>, \<open>Typing\<close>, \<open>Join\<close>, \<open>Clusters\<close>: \<open>LlmApiPredictor\<close> (\<open>llm_predict.cpp\<close>, \<open>llm_dedup.cpp\<close>):
    deduplication and cache, batches, distribution of the answers, retries; semantic joins; clusters
    of similar rows and their verification. A clustering puts every row into exactly one cluster; for k-means
    that holds exactly when the seeds it chose are distinct.
  \<^item> \<open>Prompt\<close>: \<open>common.hpp\<close>: finding the JSON in a reply, converting its members to the declared types,
    the three overloads that write an array of answers into a chunk, building prompts.
  \<^item> \<open>Date\<close>, \<open>Numbers\<close>, \<open>Date_Text\<close>: \<open>src/common/types/date.cpp\<close> (calendar conversion, validity, parts, ISO
    weeks, epochs, parsing and printing) and \<open>cast_helpers\<close> (lengths and digits of numbers, decimals and
    dates). Day numbers count the days of the Gregorian calendar. Every date is printed in the space allocated for it
    and parsed back to itself; a decimal of 64 bits is printed in its space when its scale is at most 18 and it is
    not the least value.
  \<^item> \<open>Integer_Cast\<close>: \<open>TrySimpleIntegerCast\<close> (\<open>integer_cast_operator.hpp\<close>), the cast of text to the integer
    types: the operations on the state, the loops over the text, exponents, hexadecimal and binary numbers. The
    cast of a number is the nearest integer or fails exactly out of range, and it inverts what \<open>Numbers\<close> prints.

  \<^item> \<open>Catalog_Set\<close>, \<open>Catalog_Invariant\<close>, \<open>Snapshots\<close>: where models and embeddings live:
    \<open>src/catalog/catalog_set.cpp\<close>, \<open>src/transaction/duck_transaction_manager.cpp\<close> and the undo buffer. The
    first theory holds the operations, the second the invariant of version chains, undo entries and
    timestamps under every operation in any order (\<open>db_step\<close>, \<open>reachable_db\<close>), the third the
    abstract database of committed contents and private snapshots it refines, each operation a step with its own
    label (\<open>spec_step\<close>) and cleanup no step at all, and what follows: undo
    entries never dangle, when a create conflicts, what cleanup leaves behind.
  \<^item> \<open>Create_Info\<close>, \<open>Wal_Format\<close>: the statements as they are serialized (\<open>serialize_create_info.cpp\<close>), and
    the records of the write-ahead log with their frames and checksums (\<open>write_ahead_log.cpp\<close>,
    \<open>checksum.cpp\<close>). What is written is read back, and a cut-off frame is a serialization error.
  \<^item> \<open>Wal_Replay\<close>: the two readings of \<open>WriteAheadLogReplayer::ReplayLog\<close> (\<open>wal_replay.cpp\<close>). What the records
    act on is a parameter (\<open>target\<close>) under the laws of locale \<open>replay_target\<close>; a log cut off anywhere is
    replayed up to its last complete flush record.
  \<^item> \<open>Wal_Commit\<close>: CREATE and DROP of models and embeddings (\<open>duck_schema_entry.cpp\<close>, \<open>catalog.cpp\<close>), the
    record of each undo entry (\<open>wal_write_state.cpp\<close>), the log file (\<open>wal\<close>: \<open>Initialize\<close>, \<open>Truncate\<close>, \<open>Flush\<close>)
    and the commit that writes, flushes and reverts (\<open>duck_transaction.cpp\<close>, \<open>storage_manager.cpp\<close>). The
    records of a commit replay to exactly what it makes of the catalog.
  \<^item> \<open>Durability\<close>: the catalog as a target, recovery (\<open>recover\<close>) and runs of transactions with crashes
    (\<open>run\<close>): commits are atomic, and what is recovered from any prefix of the log file is the
    catalog after the last commit whose flush record survived.

  State and effects: a function that fills a chunk or a cache takes and returns it; a loop over rows or
  batches is \<open>foldR\<close>; an exception is \<open>Inl\<close>. The futures of a group of batches only read shared data
  and are collected in order, so a group is the list of its results. The loops that may not end,
  \<open>schedule\<close>, \<open>limit_loop\<close>, \<open>scan_log\<close> and \<open>redo_log\<close>, are \<open>partial_function (option)\<close>: \<open>schedule_covers\<close>
  says when the first returns, \<open>zero_threads_hang\<close> when it does not, and \<open>filter_limit_correct\<close> and
  \<open>crash_recovery\<close> include that the others return. No fuel is used. The log is bounded by 2^60 bytes, so that
  offsets do not wrap and the recovery does not run out of transaction identifiers. Integers are \<open>int\<close> or \<open>nat\<close> with the width written out where a value can leave it
  (\<open>to_int32\<close>, \<open>in_int64\<close>), words in the LEB128 codec.

  Parameters: the HTTP endpoint (a function of the call and the request), nlohmann's JSON parser and
  printer (\<open>jlib\<close>), \<open>double\<close> arithmetic (\<open>dops\<close>, \<open>fops\<close>), the codecs of types and option values in the
  catalog and of comments, tags and dependencies in the log (\<open>wire\<close>), the identity of the database file, the
  values of scans and scalar functions in plans. Hypotheses on them state documented
  behaviour only, and each property that has one is instantiated in its witness.

  Interfaces are locales, interpreted on the model: \<open>row_store\<close> (writing rows into a chunk),
  \<open>multimap\<close> (the map from prompts to rows), \<open>interner\<close> (the numbering of the texts of a join),
  \<open>mergeable\<close> (an aggregate whose partial states combine), \<open>codec\<close> (values that are written and
  read back, interpreted for each wire type), \<open>assigner\<close> (a clustering that gives each row to
  one cluster) and \<open>replay_target\<close> (what the log is replayed on, interpreted on the catalog).

  Not modelled: local predictors (llama.cpp, ONNX Runtime, LibTorch) and the GNN operators, whose
  work is done by libraries outside the repository; timing, logging and progress output; of the catalog
  sets, renames, the dependency manager, default entries, locks (an operation is one step, and the
  cleanup after a commit or rollback is a step of its own, as it runs outside the transaction lock) and
  the decision to checkpoint; of the log, checkpoints with the merge of a second log, encryption, ALTER and
  the records of other objects and of tuples, and failures of the truncation of a reverted commit; the
  catalog of a run has one schema, whose name is given by the statements. The rest of the inherited database
  (table storage, the remaining operators and rules, extensions, shell) appears only in what a
  prediction reads or writes.
\<close>

end
